(* ===== verification/Vdb_Prelude.thy ===== *)
theory Vdb_Prelude
  imports Main "HOL-Library.Word" "HOL-Library.Char_ord" "HOL-Library.List_Lexorder"
begin

text \<open>
  Shared ground of the development: the C++ failures as values and the sequencing of
  fallible calls, \<^verbatim>\<open>std::map\<close> as a key-sorted association list, \<^verbatim>\<open>std::getline\<close> on a
  character stream, and the decimal conversions of the standard library.
\<close>

type_synonym u64 = "64 word"
type_synonym u32 = "32 word"
type_synonym f32 = "32 word"
type_synonym f64 = "64 word"

named_theorems res_simps
named_theorems omap_simps

section \<open>Failures as values\<close>

text \<open>
  \<open>Throw\<close> is a C++ exception (a handler further up may catch it), \<open>Abort\<close> ends the process:
  a failed assertion, the use of a null pointer, an access out of bounds.
\<close>

datatype cxx_exception =
    Invalid_argument string
  | Out_of_range string
  | Runtime_error string
  | Length_error string
  | Overflow_error string

datatype cxx_abort =
    Assertion_failed string
  | Null_dereference string
  | Out_of_bounds string
  | Division_by_zero
  | Signed_overflow
  | Bad_cast

datatype failure = Throw cxx_exception | Abort cxx_abort

type_synonym 'a res = "failure + 'a"

definition andthen :: "'a res \<Rightarrow> ('a \<Rightarrow> 'b res) \<Rightarrow> 'b res" where
  "andthen m f = (case m of Inl e \<Rightarrow> Inl e | Inr x \<Rightarrow> f x)"

lemma andthen_Inl [simp]: "andthen (Inl e) f = Inl e"
  by (simp add: andthen_def)

lemma andthen_Inr [simp]: "andthen (Inr x) f = f x"
  by (simp add: andthen_def)

lemma andthen_eq_Inr [res_simps]:
  "andthen m f = Inr y \<longleftrightarrow> (\<exists>x. m = Inr x \<and> f x = Inr y)"
  by (cases m) auto

lemma andthen_eq_Inl [res_simps]:
  "andthen m f = Inl e \<longleftrightarrow> m = Inl e \<or> (\<exists>x. m = Inr x \<and> f x = Inl e)"
  by (cases m) auto

lemma andthen_assoc: "andthen (andthen m f) g = andthen m (\<lambda>x. andthen (f x) g)"
  by (cases m) auto

lemma andthen_cong [fundef_cong]:
  "m = m' \<Longrightarrow> (\<And>x. m' = Inr x \<Longrightarrow> f x = f' x) \<Longrightarrow> andthen m f = andthen m' f'"
  by (cases m') auto

lemma andthen_Inr_id [simp]: "andthen m Inr = m"
  by (cases m) auto

text \<open>\<open>foldM\<close> runs a fallible step over a list, \<open>mapM\<close> collects the results.\<close>

fun foldM :: "('s \<Rightarrow> 'a \<Rightarrow> 's res) \<Rightarrow> 's \<Rightarrow> 'a list \<Rightarrow> 's res" where
  "foldM f s [] = Inr s"
| "foldM f s (x # xs) = andthen (f s x) (\<lambda>s'. foldM f s' xs)"

fun mapM :: "('a \<Rightarrow> 'b res) \<Rightarrow> 'a list \<Rightarrow> 'b list res" where
  "mapM f [] = Inr []"
| "mapM f (x # xs) = andthen (f x) (\<lambda>y. andthen (mapM f xs) (\<lambda>ys. Inr (y # ys)))"

lemma foldM_append: "foldM f s (xs @ ys) = andthen (foldM f s xs) (\<lambda>s'. foldM f s' ys)"
  by (induction xs arbitrary: s) (auto simp: andthen_assoc)

lemma foldM_map: "foldM f s (map g xs) = foldM (\<lambda>s x. f s (g x)) s xs"
  by (induction xs arbitrary: s) (auto cong: andthen_cong)

lemma foldM_invariant:
  assumes "foldM f s xs = Inr s'" and "I s"
    and "\<And>s x s'. x \<in> set xs \<Longrightarrow> I s \<Longrightarrow> f s x = Inr s' \<Longrightarrow> I s'"
  shows "I s'"
  using assms
proof (induction xs arbitrary: s)
  case Nil
  then show ?case by simp
next
  case (Cons x xs)
  then obtain s1 where s1: "f s x = Inr s1" "foldM f s1 xs = Inr s'"
    by (auto simp: res_simps)
  then have "I s1" using Cons.prems by auto
  then show ?case using Cons.IH s1 Cons.prems by auto
qed

lemma mapM_append:
  "mapM f (xs @ ys) = andthen (mapM f xs) (\<lambda>us. andthen (mapM f ys) (\<lambda>vs. Inr (us @ vs)))"
  by (induction xs) (auto simp: andthen_assoc)

lemma mapM_length: "mapM f xs = Inr ys \<Longrightarrow> length ys = length xs"
  by (induction xs arbitrary: ys) (auto simp: res_simps)

text \<open>Using a pointer: \<open>None\<close> is the null pointer.\<close>

definition deref :: "string \<Rightarrow> 'a option \<Rightarrow> 'a res" where
  "deref what p = (case p of None \<Rightarrow> Inl (Abort (Null_dereference what)) | Some x \<Rightarrow> Inr x)"

lemma deref_simps [simp]:
  "deref w None = Inl (Abort (Null_dereference w))"
  "deref w (Some x) = Inr x"
  by (simp_all add: deref_def)

lemma deref_eq_Inr [res_simps]: "deref w p = Inr x \<longleftrightarrow> p = Some x"
  by (cases p) auto

definition require :: "bool \<Rightarrow> failure \<Rightarrow> unit res" where
  "require c e = (if c then Inr () else Inl e)"

lemma require_simps [simp]: "require True e = Inr ()" "require False e = Inl e"
  by (simp_all add: require_def)

lemma require_eq_Inr [res_simps]: "require c e = Inr u \<longleftrightarrow> c"
  by (simp add: require_def)

section \<open>Ordered maps (\<^verbatim>\<open>std::map\<close>)\<close>

text \<open>
  A \<^verbatim>\<open>std::map\<close> is its list of entries in key order, which is also its iteration order.
  \<open>map_of\<close> is \<^verbatim>\<open>find\<close>, \<open>om_insert\<close> is \<^verbatim>\<open>m[k] = v\<close>, \<open>om_erase\<close> is \<^verbatim>\<open>erase(k)\<close>,
  \<open>om_erase_from\<close> erases from \<^verbatim>\<open>lower_bound(k)\<close> to the end.
\<close>

type_synonym ('k, 'v) omap = "('k \<times> 'v) list"

fun om_insert :: "'k::linorder \<Rightarrow> 'v \<Rightarrow> ('k, 'v) omap \<Rightarrow> ('k, 'v) omap" where
  "om_insert k v [] = [(k, v)]"
| "om_insert k v ((a, b) # m) =
     (if a < k then (a, b) # om_insert k v m
      else if a = k then (k, v) # m
      else (k, v) # (a, b) # m)"

definition om_erase :: "'k \<Rightarrow> ('k, 'v) omap \<Rightarrow> ('k, 'v) omap" where
  "om_erase k m = filter (\<lambda>e. fst e \<noteq> k) m"

definition om_erase_from :: "'k::linorder \<Rightarrow> ('k, 'v) omap \<Rightarrow> ('k, 'v) omap" where
  "om_erase_from k m = takeWhile (\<lambda>e. fst e < k) m"

definition om_upper_bound :: "'k::linorder \<Rightarrow> ('k, 'v) omap \<Rightarrow> ('k, 'v) omap" where
  "om_upper_bound k m = dropWhile (\<lambda>e. fst e \<le> k) m"

definition om_ok :: "('k::linorder, 'v) omap \<Rightarrow> bool" where
  "om_ok m \<longleftrightarrow> sorted_wrt (<) (map fst m)"

lemma om_ok_Nil [simp, omap_simps]: "om_ok []"
  by (simp add: om_ok_def)

lemma om_ok_Cons [omap_simps]:
  "om_ok (e # m) \<longleftrightarrow> (\<forall>k \<in> fst ` set m. fst e < k) \<and> om_ok m"
  by (auto simp: om_ok_def)

lemma om_ok_distinct: "om_ok m \<Longrightarrow> distinct (map fst m)"
  by (auto simp: om_ok_def strict_sorted_iff)

lemma set_om_insert: "fst ` set (om_insert k v m) = insert k (fst ` set m)"
  by (induction k v m rule: om_insert.induct) auto

lemma om_insert_find [simp]: "map_of (om_insert k v m) = (map_of m)(k \<mapsto> v)"
  by (induction k v m rule: om_insert.induct) (auto simp: fun_eq_iff)

lemma om_insert_ok [simp]: "om_ok m \<Longrightarrow> om_ok (om_insert k v m)"
proof (induction k v m rule: om_insert.induct)
  case (1 k v)
  then show ?case by (simp add: omap_simps)
next
  case (2 k v a b m)
  then have rest: "\<forall>x \<in> fst ` set m. a < x" "om_ok m"
    by (simp_all add: om_ok_Cons)
  show ?case
  proof (cases "k < a")
    case True
    then have "\<forall>x \<in> fst ` set m. k < x" using rest(1) by (blast intro: less_trans)
    with True rest show ?thesis by (auto simp: om_ok_Cons dest: less_asym)
  next
    case False
    with 2 rest show ?thesis by (auto simp: om_ok_Cons set_om_insert)
  qed
qed

lemma om_erase_find [simp]: "map_of (om_erase k m) = (map_of m)(k := None)"
  by (induction m) (auto simp: om_erase_def fun_eq_iff)

lemma om_erase_ok [simp]: "om_ok m \<Longrightarrow> om_ok (om_erase k m)"
  unfolding om_ok_def om_erase_def
  by (induction m) auto

lemma om_erase_from_find:
  "om_ok m \<Longrightarrow> map_of (om_erase_from k m) = (\<lambda>x. if x < k then map_of m x else None)"
proof (induction m)
  case Nil
  then show ?case by (simp add: om_erase_from_def fun_eq_iff)
next
  case (Cons e m)
  then have rest: "\<forall>x \<in> fst ` set m. fst e < x" and ok: "om_ok m"
    by (auto simp: om_ok_Cons)
  from rest have none: "map_of m x = None" if "x \<le> fst e" for x
    using that by (force simp: map_of_eq_None_iff)
  show ?case
    using Cons.IH [OF ok] none
    by (cases e) (force simp: om_erase_from_def fun_eq_iff)
qed

lemma om_erase_from_ok [simp]: "om_ok m \<Longrightarrow> om_ok (om_erase_from k m)"
  unfolding om_ok_def om_erase_from_def
  by (metis sorted_wrt_append map_append takeWhile_dropWhile_id)

lemma om_lookup_iff_mem: "om_ok m \<Longrightarrow> map_of m k = Some v \<longleftrightarrow> (k, v) \<in> set m"
  by (simp add: om_ok_distinct)

text \<open>Keys inserted in ascending order are appended.\<close>

lemma om_insert_last:
  "\<forall>k' \<in> fst ` set m. k' < k \<Longrightarrow> om_insert k v m = m @ [(k, v)]"
  by (induction m) auto

lemma om_insert_replace_last:
  "\<forall>k' \<in> fst ` set m. k' < k \<Longrightarrow> om_insert k v (m @ [(k, w)]) = m @ [(k, v)]"
  by (induction m) auto

lemma om_insert_twice: "om_insert k w (om_insert k v m) = om_insert k w m"
  by (induction k v m rule: om_insert.induct) auto

lemma om_ok_append:
  "om_ok (m @ m') \<longleftrightarrow> om_ok m \<and> om_ok m' \<and> (\<forall>a \<in> fst ` set m. \<forall>b \<in> fst ` set m'. a < b)"
  by (auto simp: om_ok_def sorted_wrt_append)

text \<open>
  The map interface the components rely on: what a lookup returns after an insertion or an
  erasure, and the order invariant every operation keeps.
\<close>

locale std_map =
  fixes find :: "'m \<Rightarrow> 'k \<Rightarrow> 'v option"
    and put :: "'k \<Rightarrow> 'v \<Rightarrow> 'm \<Rightarrow> 'm"
    and erase :: "'k \<Rightarrow> 'm \<Rightarrow> 'm"
    and ok :: "'m \<Rightarrow> bool"
  assumes find_put: "ok m \<Longrightarrow> find (put k v m) x = (if x = k then Some v else find m x)"
    and find_erase: "ok m \<Longrightarrow> find (erase k m) x = (if x = k then None else find m x)"
    and ok_put: "ok m \<Longrightarrow> ok (put k v m)"
    and ok_erase: "ok m \<Longrightarrow> ok (erase k m)"
begin

lemma ok_puts: "ok m \<Longrightarrow> ok (fold (\<lambda>(k, v). put k v) kvs m)"
  by (induction kvs arbitrary: m) (auto simp: ok_put)

lemma find_puts:
  "ok m \<Longrightarrow> find (fold (\<lambda>(k, v). put k v) kvs m) x =
     (case map_of (rev kvs) x of Some v \<Rightarrow> Some v | None \<Rightarrow> find m x)"
  by (induction kvs arbitrary: m)
     (auto simp: ok_put find_put map_add_def split: option.splits)

lemma ok_erases: "ok m \<Longrightarrow> ok (fold erase ks m)"
  by (induction ks arbitrary: m) (auto simp: ok_erase)

lemma find_erases:
  "ok m \<Longrightarrow> find (fold erase ks m) x = (if x \<in> set ks then None else find m x)"
  by (induction ks arbitrary: m) (auto simp: ok_erase find_erase)

end

interpretation om: std_map map_of om_insert om_erase "om_ok :: ('k::linorder, 'v) omap \<Rightarrow> bool"
  by unfold_locales auto

end
