(* ===== verification/Vdb_Strings.thy ===== *)
theory Vdb_Strings
  imports Vdb_Prelude
begin

text \<open>
  Character data: C strings, \<^verbatim>\<open>std::getline\<close> on a stream, the decimal conversions of the
  standard library (\<^verbatim>\<open>std::to_string\<close>, \<^verbatim>\<open>std::stoull\<close>, \<^verbatim>\<open>std::stol\<close>, \<^verbatim>\<open>std::stoi\<close>), and the
  round trips between them. A \<open>char\<close> is a byte.
\<close>

named_theorems string_simps

section \<open>C strings\<close>

text \<open>A \<^verbatim>\<open>const char*\<close> reads a string up to its first NUL.\<close>

definition c_str :: "string \<Rightarrow> string" where
  "c_str s = takeWhile (\<lambda>c. c \<noteq> CHR 0x00) s"

lemma c_str_id [simp]: "CHR 0x00 \<notin> set s \<Longrightarrow> c_str s = s"
  by (auto simp: c_str_def takeWhile_eq_all_conv)

lemma c_str_no_nul [simp]: "CHR 0x00 \<notin> set (c_str s)"
  unfolding c_str_def by (metis (mono_tags, lifting) set_takeWhileD)

lemma c_str_idem [simp]: "c_str (c_str s) = c_str s"
  by simp

section \<open>Input streams and \<^verbatim>\<open>std::getline\<close>\<close>

text \<open>
  \<open>is_rest\<close> is what the stream buffer still holds, \<open>is_good\<close> that no state bit is set.
  \<open>getline d old st\<close> is \<^verbatim>\<open>std::getline(st, old, d)\<close>: the string left in the argument, the
  stream, and the stream converted to \<^verbatim>\<open>bool\<close>. A stream that is not good leaves the
  argument alone; reading up to the end sets \<^verbatim>\<open>eofbit\<close>, and \<^verbatim>\<open>failbit\<close> when no character
  was read.
\<close>

record istream =
  is_rest :: string
  is_good :: bool

definition istringstream :: "string \<Rightarrow> istream" where
  "istringstream s = \<lparr>is_rest = s, is_good = True\<rparr>"

definition getline :: "char \<Rightarrow> string \<Rightarrow> istream \<Rightarrow> string \<times> istream \<times> bool" where
  "getline d old st =
     (if \<not> is_good st then (old, st, False)
      else
        let a = takeWhile (\<lambda>c. c \<noteq> d) (is_rest st);
            r = dropWhile (\<lambda>c. c \<noteq> d) (is_rest st)
        in if r = [] then (a, st\<lparr>is_rest := [], is_good := False\<rparr>, is_rest st \<noteq> [])
           else (a, st\<lparr>is_rest := tl r\<rparr>, True))"

lemma span_delim [simp]:
  "d \<notin> set a \<Longrightarrow> takeWhile (\<lambda>c. c \<noteq> d) (a @ d # r) = a"
  "d \<notin> set a \<Longrightarrow> dropWhile (\<lambda>c. c \<noteq> d) (a @ d # r) = d # r"
  by (induction a) auto

lemma span_no_delim [simp]:
  "d \<notin> set a \<Longrightarrow> takeWhile (\<lambda>c. c \<noteq> d) a = a"
  "d \<notin> set a \<Longrightarrow> dropWhile (\<lambda>c. c \<noteq> d) a = []"
  by (induction a) auto

lemma getline_delim [string_simps]:
  "d \<notin> set a \<Longrightarrow> getline d old \<lparr>is_rest = a @ d # r, is_good = True\<rparr>
     = (a, \<lparr>is_rest = r, is_good = True\<rparr>, True)"
  by (simp add: getline_def Let_def)

lemma getline_last [string_simps]:
  "d \<notin> set a \<Longrightarrow> getline d old \<lparr>is_rest = a, is_good = True\<rparr>
     = (a, \<lparr>is_rest = [], is_good = False\<rparr>, a \<noteq> [])"
  by (simp add: getline_def Let_def)

lemma getline_bad [string_simps]:
  "getline d old \<lparr>is_rest = r, is_good = False\<rparr> = (old, \<lparr>is_rest = r, is_good = False\<rparr>, False)"
  by (simp add: getline_def)

lemma getline_consumes:
  "getline d old st = (s, st', True) \<Longrightarrow> length (is_rest st') < length (is_rest st)"
proof -
  assume a: "getline d old st = (s, st', True)"
  let ?r = "dropWhile (\<lambda>c. c \<noteq> d) (is_rest st)"
  have "length ?r \<le> length (is_rest st)" by (rule length_dropWhile_le)
  with a show ?thesis
    by (cases ?r) (auto simp: getline_def Let_def split: if_splits)
qed

lemma getline_consumes_sym:
  "(s, st', True) = getline d old st \<Longrightarrow> length (is_rest st') < length (is_rest st)"
  by (rule getline_consumes [OF sym])

section \<open>Decimal numerals\<close>

definition digit_char :: "nat \<Rightarrow> char" where
  "digit_char d = ''0123456789'' ! d"

definition is_digit :: "char \<Rightarrow> bool" where
  "is_digit c \<longleftrightarrow> c \<in> set ''0123456789''"

definition digit_val :: "char \<Rightarrow> nat" where
  "digit_val c = of_char c - 48"

fun to_string :: "nat \<Rightarrow> string" where
  "to_string n = (if n < 10 then [digit_char n] else to_string (n div 10) @ [digit_char (n mod 10)])"

declare to_string.simps [simp del]

definition to_string_int :: "int \<Rightarrow> string" where
  "to_string_int i = (if i < 0 then CHR ''-'' # to_string (nat (- i)) else to_string (nat i))"

definition digits_value :: "string \<Rightarrow> nat" where
  "digits_value ds = foldl (\<lambda>a c. 10 * a + digit_val c) 0 ds"

lemma nat_less_10: "(d::nat) < 10 \<longleftrightarrow> d \<in> {0, 1, 2, 3, 4, 5, 6, 7, 8, 9}"
  by auto

lemma digit_char_digit [simp]: "d < 10 \<Longrightarrow> is_digit (digit_char d)"
  unfolding nat_less_10 by (auto simp: is_digit_def digit_char_def)

lemma digit_val_char [simp]: "d < 10 \<Longrightarrow> digit_val (digit_char d) = d"
  unfolding nat_less_10 by (auto simp: digit_char_def digit_val_def)

lemma to_string_digit: "n < 10 \<Longrightarrow> to_string n = [digit_char n]"
  by (subst to_string.simps) simp

lemma to_string_digits: "c \<in> set (to_string n) \<Longrightarrow> is_digit c"
proof (induction n rule: to_string.induct)
  case (1 n)
  then show ?case
    by (subst (asm) to_string.simps) (auto split: if_splits)
qed

lemma to_string_not_Nil [simp]: "to_string n \<noteq> []"
  by (subst to_string.simps) simp

lemma digits_value_to_string [simp]: "digits_value (to_string n) = n"
proof (induction n rule: to_string.induct)
  case (1 n)
  show ?case
  proof (cases "n < 10")
    case True
    then show ?thesis by (subst to_string.simps) (simp add: digits_value_def)
  next
    case False
    then have "digits_value (to_string (n div 10)) = n div 10" using 1 by simp
    with False show ?thesis
      by (subst to_string.simps) (simp add: digits_value_def)
  qed
qed

lemma to_string_inject [simp]: "to_string m = to_string n \<longleftrightarrow> m = n"
  by (metis digits_value_to_string)

lemma not_is_digit [simp]:
  "\<not> is_digit CHR ''|''" "\<not> is_digit CHR 0x0A" "\<not> is_digit CHR ''-''" "\<not> is_digit CHR ''+''"
  "\<not> is_digit CHR ''s''" "\<not> is_digit CHR ''_''" "\<not> is_digit CHR 0x00" "\<not> is_digit CHR ''.''"
  by (simp_all add: is_digit_def)

lemma to_string_no [simp]:
  "\<not> is_digit c \<Longrightarrow> c \<notin> set (to_string n)"
  using to_string_digits by blast

lemma to_string_int_no_bar [simp]: "CHR ''|'' \<notin> set (to_string_int i)"
  by (simp add: to_string_int_def)

lemma to_string_int_no_nl [simp]: "CHR 0x0A \<notin> set (to_string_int i)"
  by (simp add: to_string_int_def)

lemma to_string_int_not_Nil [simp]: "to_string_int i \<noteq> []"
  by (simp add: to_string_int_def)

section \<open>Parsing numbers\<close>

text \<open>
  \<open>strto\<close> is the scan the \<^verbatim>\<open>strto*\<close> family makes in base ten: leading white space, an optional
  sign, then digits; the characters it did not use are returned. \<open>None\<close>: no conversion.
\<close>

definition isspace :: "char \<Rightarrow> bool" where
  "isspace c \<longleftrightarrow> c \<in> {CHR '' '', CHR 0x09, CHR 0x0A, CHR 0x0B, CHR 0x0C, CHR 0x0D}"

definition strto :: "string \<Rightarrow> (bool \<times> nat \<times> string) option" where
  "strto s =
     (let s1 = dropWhile isspace s;
          neg = (s1 \<noteq> [] \<and> hd s1 = CHR ''-'');
          s2 = (if s1 \<noteq> [] \<and> (hd s1 = CHR ''-'' \<or> hd s1 = CHR ''+'') then tl s1 else s1);
          ds = takeWhile is_digit s2
      in if ds = [] then None else Some (neg, digits_value ds, dropWhile is_digit s2))"

text \<open>
  \<^verbatim>\<open>stoull\<close> negates a numeral with a minus sign modulo \<open>2 ^ 64\<close>, as \<^verbatim>\<open>strtoull\<close> does;
  the signed conversions check the range of their type.
\<close>

definition stoull :: "string \<Rightarrow> u64 res" where
  "stoull s =
     (case strto (c_str s) of
        None \<Rightarrow> Inl (Throw (Invalid_argument ''stoull''))
      | Some (neg, n, _) \<Rightarrow>
          if n \<ge> 2 ^ 64 then Inl (Throw (Out_of_range ''stoull''))
          else Inr (if neg then - of_nat n else of_nat n))"

definition sto_signed :: "string \<Rightarrow> nat \<Rightarrow> string \<Rightarrow> int res" where
  "sto_signed name w s =
     (case strto (c_str s) of
        None \<Rightarrow> Inl (Throw (Invalid_argument name))
      | Some (neg, n, _) \<Rightarrow>
          let i = (if neg then - int n else int n)
          in if i < - (2 ^ (w - 1)) \<or> i \<ge> 2 ^ (w - 1) then Inl (Throw (Out_of_range name))
             else Inr i)"

definition stol :: "string \<Rightarrow> int res" where
  "stol s = sto_signed ''stol'' 64 s"

definition stoi :: "string \<Rightarrow> int res" where
  "stoi s = sto_signed ''stoi'' 32 s"

lemma takeWhile_is_digit_to_string [simp]:
  "takeWhile is_digit (to_string n) = to_string n"
  by (simp add: takeWhile_eq_all_conv to_string_digits)

lemma is_digit_not_space: "is_digit c \<Longrightarrow> \<not> isspace c"
  by (auto simp: is_digit_def isspace_def)

lemma hd_to_string: "is_digit (hd (to_string n))"
  using to_string_digits hd_in_set to_string_not_Nil by blast

lemma dropWhile_isspace_to_string [simp]:
  "dropWhile isspace (to_string n @ r) = to_string n @ r"
  using hd_to_string [of n] is_digit_not_space
  by (cases "to_string n") auto

lemma strto_to_string:
  assumes "r = [] \<or> \<not> is_digit (hd r)"
  shows "strto (to_string n @ r) = Some (False, n, r)"
proof -
  let ?s = "to_string n @ r"
  have hd: "is_digit (hd ?s)" using hd_to_string [of n] by (cases "to_string n") auto
  then have nosign: "hd ?s \<noteq> CHR ''-''" "hd ?s \<noteq> CHR ''+''" by auto
  have t: "takeWhile is_digit ?s = to_string n" "dropWhile is_digit ?s = r"
    using assms to_string_digits
    by (cases r; auto simp: takeWhile_append dropWhile_append)+
  show ?thesis
    using nosign t by (simp add: strto_def)
qed

lemma c_str_to_string [simp]: "c_str (to_string n) = to_string n"
  by simp

lemma stoull_to_string [string_simps]:
  "n < 2 ^ 64 \<Longrightarrow> stoull (to_string n) = Inr (of_nat n)"
  using strto_to_string [of "[]" n] by (simp add: stoull_def)

lemma stoull_to_string_word [string_simps]:
  "stoull (to_string (unat (w :: u64))) = Inr w"
proof -
  have "unat w < 2 ^ LENGTH(64)" by (rule unsigned_less)
  then have "unat w < 2 ^ 64" by simp
  then show ?thesis by (simp add: stoull_to_string)
qed

lemma sto_signed_to_string_int:
  assumes "- (2 ^ (w - 1)) \<le> i" "i < 2 ^ (w - 1)"
  shows "sto_signed name w (to_string_int i) = Inr i"
proof (cases "i < 0")
  case True
  let ?n = "nat (- i)"
  have c: "c_str (CHR ''-'' # to_string ?n) = CHR ''-'' # to_string ?n"
    by (rule c_str_id) auto
  have "strto (CHR ''-'' # to_string ?n) = Some (True, ?n, [])"
    using to_string_digits [of _ ?n]
    by (auto simp: strto_def isspace_def Let_def dropWhile_eq_Nil_conv)
  with True assms c show ?thesis
    by (auto simp: sto_signed_def to_string_int_def)
next
  case False
  with assms strto_to_string [of "[]" "nat i"] show ?thesis
    by (simp add: sto_signed_def to_string_int_def)
qed

lemma stol_to_string_int [string_simps]:
  "- (2 ^ 63) \<le> i \<Longrightarrow> i < 2 ^ 63 \<Longrightarrow> stol (to_string_int i) = Inr i"
  unfolding stol_def by (rule sto_signed_to_string_int) simp_all

end
