(* ===== verification/Vdb_Json.thy ===== *)
theory Vdb_Json
  imports Vdb_Strings
begin

text \<open>
  JSON documents as the sources see them through rapidjson. The value type is the data of RFC
  8259 with the integer numbers kept exact (rapidjson keeps 64-bit integers apart from
  doubles). The selectors below are the ones the sources call; each states the precondition
  rapidjson documents for it as an assertion, and the build defines no \<^verbatim>\<open>NDEBUG\<close>, so a broken
  precondition ends the process. The parser, the printer and the conversions to and from
  \<^verbatim>\<open>float\<close> are parameters (record \<open>rapidjson\<close>).
\<close>

datatype json =
    JNull
  | JBool bool
  | JInt int
  | JDouble f64
  | JString string
  | JArray "json list"
  | JObject "(string \<times> json) list"

named_theorems json_simps

record rapidjson =
  rj_parse :: "string \<Rightarrow> json"  \<comment> \<open>\<^verbatim>\<open>Document::Parse\<close> on a C string; Null when it is malformed\<close>
  rj_write :: "json \<Rightarrow> string"  \<comment> \<open>\<^verbatim>\<open>Accept\<close> with a \<^verbatim>\<open>Writer<StringBuffer>\<close>\<close>
  rj_float :: "json \<Rightarrow> f32"     \<comment> \<open>\<^verbatim>\<open>GetFloat\<close> on a number\<close>
  rj_of_float :: "f32 \<Rightarrow> json"  \<comment> \<open>a \<^verbatim>\<open>Value\<close> made from a \<^verbatim>\<open>float\<close>\<close>

text \<open>The printed form of a document reads back as the document: what the stores rely on.\<close>

definition rj_roundtrip :: "rapidjson \<Rightarrow> json \<Rightarrow> bool" where
  "rj_roundtrip J d \<longleftrightarrow> rj_parse J (c_str (rj_write J d)) = d"

definition json_assert :: "string \<Rightarrow> 'a res" where
  "json_assert what = Inl (Abort (Assertion_failed what))"

lemma json_assert_not_Inr [simp]: "json_assert w \<noteq> Inr x" "Inr x \<noteq> json_assert w"
  by (simp_all add: json_assert_def)

fun j_IsObject :: "json \<Rightarrow> bool" where
  "j_IsObject (JObject _) = True"
| "j_IsObject _ = False"

fun j_IsNull :: "json \<Rightarrow> bool" where
  "j_IsNull JNull = True"
| "j_IsNull _ = False"

fun j_IsString :: "json \<Rightarrow> bool" where
  "j_IsString (JString _) = True"
| "j_IsString _ = False"

fun j_IsInt :: "json \<Rightarrow> bool" where
  "j_IsInt (JInt i) \<longleftrightarrow> - (2 ^ 31) \<le> i \<and> i < 2 ^ 31"
| "j_IsInt _ = False"

fun j_members :: "json \<Rightarrow> (string \<times> json) list res" where
  "j_members (JObject ms) = Inr ms"
| "j_members _ = json_assert ''IsObject''"

definition j_HasMember :: "json \<Rightarrow> string \<Rightarrow> bool res" where
  "j_HasMember d name = andthen (j_members d) (\<lambda>ms. Inr (map_of ms name \<noteq> None))"

text \<open>\<^verbatim>\<open>operator[]\<close> asserts that the member exists; with a repeated name it finds the first.\<close>

definition j_at :: "json \<Rightarrow> string \<Rightarrow> json res" where
  "j_at d name =
     andthen (j_members d) (\<lambda>ms.
       case map_of ms name of None \<Rightarrow> json_assert ''FindMember'' | Some v \<Rightarrow> Inr v)"

fun j_GetString :: "json \<Rightarrow> string res" where
  "j_GetString (JString s) = Inr (c_str s)"
| "j_GetString _ = json_assert ''IsString''"

fun j_GetArray :: "json \<Rightarrow> json list res" where
  "j_GetArray (JArray xs) = Inr xs"
| "j_GetArray _ = json_assert ''IsArray''"

fun j_GetInt :: "json \<Rightarrow> int res" where
  "j_GetInt (JInt i) =
     (if - (2 ^ 31) \<le> i \<and> i < 2 ^ 31 then Inr i else json_assert ''IsInt'')"
| "j_GetInt _ = json_assert ''IsInt''"

fun j_GetInt64 :: "json \<Rightarrow> int res" where
  "j_GetInt64 (JInt i) =
     (if - (2 ^ 63) \<le> i \<and> i < 2 ^ 63 then Inr i else json_assert ''IsInt64'')"
| "j_GetInt64 _ = json_assert ''IsInt64''"

fun j_GetUint64 :: "json \<Rightarrow> u64 res" where
  "j_GetUint64 (JInt i) =
     (if 0 \<le> i \<and> i < 2 ^ 64 then Inr (word_of_int i) else json_assert ''IsUint64'')"
| "j_GetUint64 _ = json_assert ''IsUint64''"

fun j_GetFloat :: "rapidjson \<Rightarrow> json \<Rightarrow> f32 res" where
  "j_GetFloat J (JInt i) = Inr (rj_float J (JInt i))"
| "j_GetFloat J (JDouble x) = Inr (rj_float J (JDouble x))"
| "j_GetFloat J _ = json_assert ''IsNumber''"

lemma j_HasMember_JObject [simp]: "j_HasMember (JObject ms) n = Inr (map_of ms n \<noteq> None)"
  by (simp add: j_HasMember_def)

lemma j_at_JObject [simp]:
  "j_at (JObject ms) n = (case map_of ms n of None \<Rightarrow> json_assert ''FindMember'' | Some v \<Rightarrow> Inr v)"
  by (simp add: j_at_def)

lemma j_IsObject_iff: "j_IsObject d \<longleftrightarrow> (\<exists>ms. d = JObject ms)"
  by (cases d) auto

lemma j_IsString_iff: "j_IsString d \<longleftrightarrow> (\<exists>s. d = JString s)"
  by (cases d) auto

lemma j_IsInt_iff: "j_IsInt d \<longleftrightarrow> (\<exists>i. d = JInt i \<and> - (2 ^ 31) \<le> i \<and> i < 2 ^ 31)"
  by (cases d) auto

lemma j_members_Inr [res_simps]: "j_members d = Inr ms \<longleftrightarrow> d = JObject ms"
  by (cases d) (auto simp: json_assert_def)

lemma j_GetArray_Inr [res_simps]: "j_GetArray d = Inr xs \<longleftrightarrow> d = JArray xs"
  by (cases d) (auto simp: json_assert_def)

lemma j_GetString_Inr [res_simps]: "j_GetString d = Inr s \<longleftrightarrow> (\<exists>t. d = JString t \<and> s = c_str t)"
  by (cases d) (auto simp: json_assert_def)

lemma j_at_Inr [res_simps]: "j_at d n = Inr v \<longleftrightarrow> (\<exists>ms. d = JObject ms \<and> map_of ms n = Some v)"
  by (cases d) (auto simp: j_at_def json_assert_def split: option.splits)

lemma j_GetUint64_Inr [res_simps]:
  "j_GetUint64 d = Inr w \<longleftrightarrow> (\<exists>i. d = JInt i \<and> 0 \<le> i \<and> i < 2 ^ 64 \<and> w = word_of_int i)"
  by (cases d) (auto simp: json_assert_def)

lemma j_GetInt64_Inr [res_simps]:
  "j_GetInt64 d = Inr i \<longleftrightarrow> d = JInt i \<and> - (2 ^ 63) \<le> i \<and> i < 2 ^ 63"
  by (cases d) (auto simp: json_assert_def)

lemma j_GetInt_Inr [res_simps]:
  "j_GetInt d = Inr i \<longleftrightarrow> d = JInt i \<and> - (2 ^ 31) \<le> i \<and> i < 2 ^ 31"
  by (cases d) (auto simp: json_assert_def)

text \<open>The member names of a request (constants.h).\<close>

definition REQUEST_VECTORS :: string where "REQUEST_VECTORS = ''vectors''"
definition REQUEST_K :: string where "REQUEST_K = ''k''"
definition REQUEST_ID :: string where "REQUEST_ID = ''id''"
definition REQUEST_INDEX_TYPE :: string where "REQUEST_INDEX_TYPE = ''indexType''"
definition RESPONSE_VECTORS :: string where "RESPONSE_VECTORS = ''vectors''"
definition RESPONSE_DISTANCES :: string where "RESPONSE_DISTANCES = ''distances''"
definition RESPONSE_RETCODE :: string where "RESPONSE_RETCODE = ''retCode''"
definition RESPONSE_RETCODE_SUCCESS :: int where "RESPONSE_RETCODE_SUCCESS = 0"
definition RESPONSE_RETCODE_ERROR :: int where "RESPONSE_RETCODE_ERROR = -1"
definition RESPONSE_ERROR_MSG :: string where "RESPONSE_ERROR_MSG = ''errorMsg''"
definition RESPONSE_CONTENT_TYPE_JSON :: string where
  "RESPONSE_CONTENT_TYPE_JSON = ''application/json''"
definition INDEX_TYPE_FLAT :: string where "INDEX_TYPE_FLAT = ''FLAT''"
definition INDEX_TYPE_HNSW :: string where "INDEX_TYPE_HNSW = ''HNSW''"

lemmas constants_defs [json_simps] =
  REQUEST_VECTORS_def REQUEST_K_def REQUEST_ID_def REQUEST_INDEX_TYPE_def
  RESPONSE_VECTORS_def RESPONSE_DISTANCES_def RESPONSE_RETCODE_def
  RESPONSE_RETCODE_SUCCESS_def RESPONSE_RETCODE_ERROR_def RESPONSE_ERROR_MSG_def
  RESPONSE_CONTENT_TYPE_JSON_def INDEX_TYPE_FLAT_def INDEX_TYPE_HNSW_def

text \<open>The loops that read a JSON array of numbers into a \<^verbatim>\<open>std::vector<float>\<close>.\<close>

definition json_floats :: "rapidjson \<Rightarrow> json \<Rightarrow> f32 list res" where
  "json_floats J v = andthen (j_GetArray v) (mapM (j_GetFloat J))"

end
