(* ===== verification/Vdb_Libs.thy ===== *)
theory Vdb_Libs
  imports Vdb_Json
begin

text \<open>
  The libraries that are not part of the repository, as parameters: CRoaring, RocksDB, Faiss,
  hnswlib and the file system of the host. A record holds the operations the sources call; a
  predicate \<open>..._ok\<close> states the documented behaviour the properties rely on. The bundle
  \<open>libs\<close> is what the database as a whole is parameterised by.
\<close>

section \<open>CRoaring\<close>

record 'b croaring =
  rb_create :: 'b
  rb_add :: "'b \<Rightarrow> u32 \<Rightarrow> 'b"
  rb_remove :: "'b \<Rightarrow> u32 \<Rightarrow> 'b"
  rb_or_inplace :: "'b \<Rightarrow> 'b \<Rightarrow> 'b"
  rb_contains :: "'b \<Rightarrow> u32 \<Rightarrow> bool"
  rb_serialize :: "'b \<Rightarrow> string"
  rb_deserialize :: "string \<Rightarrow> 'b option"  \<comment> \<open>\<open>None\<close>: the null pointer, on malformed bytes\<close>

definition roaring_ok :: "'b croaring \<Rightarrow> bool" where
  "roaring_ok R \<longleftrightarrow>
     (\<forall>x. \<not> rb_contains R (rb_create R) x) \<and>
     (\<forall>b x y. rb_contains R (rb_add R b x) y \<longleftrightarrow> y = x \<or> rb_contains R b y) \<and>
     (\<forall>b x y. rb_contains R (rb_remove R b x) y \<longleftrightarrow> y \<noteq> x \<and> rb_contains R b y) \<and>
     (\<forall>b c y. rb_contains R (rb_or_inplace R b c) y \<longleftrightarrow> rb_contains R b y \<or> rb_contains R c y)"

lemma roaring_okD:
  assumes "roaring_ok R"
  shows "\<not> rb_contains R (rb_create R) x"
    and "rb_contains R (rb_add R b x) y \<longleftrightarrow> y = x \<or> rb_contains R b y"
    and "rb_contains R (rb_remove R b x) y \<longleftrightarrow> y \<noteq> x \<and> rb_contains R b y"
    and "rb_contains R (rb_or_inplace R b c) y \<longleftrightarrow> rb_contains R b y \<or> rb_contains R c y"
  using assms by (simp_all add: roaring_ok_def)

text \<open>The portable format reads back as the bitmap it was written from.\<close>

definition roaring_portable :: "'b croaring \<Rightarrow> 'b \<Rightarrow> bool" where
  "roaring_portable R b \<longleftrightarrow> rb_deserialize R (rb_serialize R b) = Some b"

section \<open>RocksDB\<close>

text \<open>
  \<open>rk_put\<close> gives the database and whether the status is ok; \<open>rk_get\<close> is \<open>None\<close> when the status
  is not ok; \<open>rk_entries\<close> lists the entries a fresh iterator walks through.
\<close>

record 'd rocksdb =
  rk_open :: "string \<Rightarrow> 'd option"
  rk_put :: "'d \<Rightarrow> string \<Rightarrow> string \<Rightarrow> 'd \<times> bool"
  rk_get :: "'d \<Rightarrow> string \<Rightarrow> string option"
  rk_entries :: "'d \<Rightarrow> (string \<times> string) list"

text \<open>Reads see the last write of their key, iterators walk the keys in byte order.\<close>

definition rocks_ok :: "'d rocksdb \<Rightarrow> bool" where
  "rocks_ok K \<longleftrightarrow>
     (\<forall>db k v db'. rk_put K db k v = (db', True) \<longrightarrow>
        rk_get K db' = (rk_get K db)(k \<mapsto> v)) \<and>
     (\<forall>db. om_ok (rk_entries K db) \<and> map_of (rk_entries K db) = rk_get K db)"

text \<open>No write fails.\<close>

definition rocks_writable :: "'d rocksdb \<Rightarrow> bool" where
  "rocks_writable K \<longleftrightarrow> (\<forall>db k v. snd (rk_put K db k v))"

lemma rocks_put:
  assumes "rocks_ok K" "rocks_writable K"
  shows "rk_get K (fst (rk_put K db k v)) = (rk_get K db)(k \<mapsto> v)"
proof -
  obtain db' s where put: "rk_put K db k v = (db', s)" by fastforce
  moreover have "s" using assms(2) put unfolding rocks_writable_def by (metis snd_conv)
  ultimately show ?thesis using assms(1) by (simp add: rocks_ok_def)
qed

section \<open>The file system\<close>

text \<open>\<open>fs_files\<close> maps a path to its bytes; \<open>fs_writable\<close> tells whether opening for writing works.\<close>

record filesys =
  fs_files :: "(string, string) omap"
  fs_writable :: "string \<Rightarrow> bool"

definition fs_write :: "string \<Rightarrow> string \<Rightarrow> filesys \<Rightarrow> filesys" where
  "fs_write path bytes fs = fs\<lparr>fs_files := om_insert path bytes (fs_files fs)\<rparr>"

definition fs_read :: "filesys \<Rightarrow> string \<Rightarrow> string option" where
  "fs_read fs path = map_of (fs_files fs) path"

lemma fs_read_write [simp]:
  "fs_read (fs_write p s fs) q = (if q = p then Some s else fs_read fs q)"
  by (simp add: fs_read_def fs_write_def)

lemma fs_writable_write [simp]: "fs_writable (fs_write p s fs) = fs_writable fs"
  by (simp add: fs_write_def)

section \<open>Faiss\<close>

text \<open>
  The operations of \<^verbatim>\<open>faiss::Index\<close> and \<^verbatim>\<open>faiss::IndexIDMap\<close>. A vector argument is the \<open>n * d\<close>
  floats the library reads through its pointer; labels are 64-bit signed, \<open>-1\<close> where there is
  no result.
\<close>

record 'f faiss =
  fa_new_idmap_flat :: "int \<Rightarrow> bool \<Rightarrow> 'f"  \<comment> \<open>dimension; whether the metric is L2\<close>
  fa_d :: "'f \<Rightarrow> int"
  fa_is_idmap :: "'f \<Rightarrow> bool"  \<comment> \<open>\<^verbatim>\<open>dynamic_cast<IndexIDMap*>\<close> succeeds\<close>
  fa_add_with_ids :: "'f \<Rightarrow> f32 list \<Rightarrow> int \<Rightarrow> 'f"
  fa_remove_ids :: "'f \<Rightarrow> int list \<Rightarrow> 'f"
  fa_search :: "'f \<Rightarrow> nat \<Rightarrow> f32 list \<Rightarrow> int \<Rightarrow> (int \<Rightarrow> bool) option
                \<Rightarrow> cxx_exception + int list \<times> f32 list"
  fa_write_index :: "'f \<Rightarrow> string"
  fa_read_index :: "string \<Rightarrow> cxx_exception + 'f"

text \<open>
  A search fills \<open>n * k\<close> slots of each output; a label is \<open>-1\<close> or an id the selector accepts.
\<close>

definition faiss_search_ok :: "'f faiss \<Rightarrow> bool" where
  "faiss_search_ok F \<longleftrightarrow>
     (\<forall>f n q k sel ls ds. fa_search F f n q k sel = Inr (ls, ds) \<longrightarrow>
        length ls = n * nat k \<and> length ds = n * nat k \<and>
        (\<forall>l \<in> set ls. l = -1 \<or> (\<forall>p. sel = Some p \<longrightarrow> p l)))"

lemma faiss_search_okD:
  assumes "faiss_search_ok F" "fa_search F f n q k sel = Inr (ls, ds)"
  shows "length ls = n * nat k" "length ds = n * nat k"
    and "l \<in> set ls \<Longrightarrow> sel = Some p \<Longrightarrow> l = -1 \<or> p l"
  using assms unfolding faiss_search_ok_def by blast+

text \<open>The ids some search of the index can return.\<close>

definition faiss_labels :: "'f faiss \<Rightarrow> 'f \<Rightarrow> int set" where
  "faiss_labels F f =
     {l. l \<noteq> -1 \<and> (\<exists>n q k sel ls ds. fa_search F f n q k sel = Inr (ls, ds) \<and> l \<in> set ls)}"

definition faiss_labels_ok :: "'f faiss \<Rightarrow> bool" where
  "faiss_labels_ok F \<longleftrightarrow>
     (\<forall>d m. faiss_labels F (fa_new_idmap_flat F d m) = {}) \<and>
     (\<forall>f v i. faiss_labels F (fa_add_with_ids F f v i) \<subseteq> insert i (faiss_labels F f)) \<and>
     (\<forall>f is. faiss_labels F (fa_remove_ids F f is) \<subseteq> faiss_labels F f - set is)"

lemma faiss_labels_add:
  "faiss_labels_ok F \<Longrightarrow> l \<in> faiss_labels F (fa_add_with_ids F f v i) \<Longrightarrow> l = i \<or> l \<in> faiss_labels F f"
  unfolding faiss_labels_ok_def by blast

lemma faiss_labels_remove:
  assumes "faiss_labels_ok F" "l \<in> faiss_labels F (fa_remove_ids F f ids)"
  shows "l \<in> faiss_labels F f" "l \<notin> set ids"
  using assms unfolding faiss_labels_ok_def by blast+

text \<open>
  The entries of an \<^verbatim>\<open>IndexIDMap\<close> over a flat index, as pairs of id and vector in the order of its
  arrays: adding appends one, removing drops those of the named ids and keeps the others in order.
  \<open>held\<close> is an observer of the properties; the sources do not call it.
\<close>

definition faiss_holds_ok :: "'f faiss \<Rightarrow> ('f \<Rightarrow> (int \<times> f32 list) list) \<Rightarrow> bool" where
  "faiss_holds_ok F held \<longleftrightarrow>
     (\<forall>d m. held (fa_new_idmap_flat F d m) = []) \<and>
     (\<forall>f v i. held (fa_add_with_ids F f v i) = held f @ [(i, v)]) \<and>
     (\<forall>f is. held (fa_remove_ids F f is) = filter (\<lambda>e. fst e \<notin> set is) (held f))"

lemma faiss_holds_okD:
  assumes "faiss_holds_ok F held"
  shows "held (fa_new_idmap_flat F d m) = []" "held (fa_add_with_ids F f v i) = held f @ [(i, v)]"
    and "held (fa_remove_ids F f is) = filter (\<lambda>e. fst e \<notin> set is) (held f)"
  using assms by (simp_all add: faiss_holds_ok_def)

text \<open>Adding and removing keep the kind of index and its dimension.\<close>

definition faiss_shape_ok :: "'f faiss \<Rightarrow> bool" where
  "faiss_shape_ok F \<longleftrightarrow>
     (\<forall>d m. fa_is_idmap F (fa_new_idmap_flat F d m) \<and> fa_d F (fa_new_idmap_flat F d m) = d) \<and>
     (\<forall>f v i. fa_is_idmap F (fa_add_with_ids F f v i) = fa_is_idmap F f \<and>
              fa_d F (fa_add_with_ids F f v i) = fa_d F f) \<and>
     (\<forall>f is. fa_is_idmap F (fa_remove_ids F f is) = fa_is_idmap F f \<and>
             fa_d F (fa_remove_ids F f is) = fa_d F f)"

section \<open>hnswlib\<close>

text \<open>
  \<^verbatim>\<open>searchKnn\<close> returns a \<^verbatim>\<open>std::priority_queue\<close> of pairs (distance, label); \<open>hn_search_knn\<close>
  gives its elements in the order \<^verbatim>\<open>top\<close>/\<^verbatim>\<open>pop\<close> yields them.
\<close>

record 'h hnswlib =
  hn_new :: "bool \<Rightarrow> int \<Rightarrow> nat \<Rightarrow> int \<Rightarrow> int \<Rightarrow> 'h"  \<comment> \<open>L2?, dim, max elements, M, ef construction\<close>
  hn_dim :: "'h \<Rightarrow> int"
  hn_add_point :: "'h \<Rightarrow> f32 list \<Rightarrow> u64 \<Rightarrow> cxx_exception + 'h"
  hn_set_ef :: "'h \<Rightarrow> int \<Rightarrow> 'h"
  hn_search_knn :: "'h \<Rightarrow> f32 list \<Rightarrow> u64 \<Rightarrow> (u64 \<Rightarrow> bool) option \<Rightarrow> (f32 \<times> u64) list"
  hn_save_index :: "'h \<Rightarrow> string"
  hn_load_index :: "'h \<Rightarrow> string \<Rightarrow> nat \<Rightarrow> cxx_exception + 'h"

definition hnsw_search_ok :: "'h hnswlib \<Rightarrow> bool" where
  "hnsw_search_ok H \<longleftrightarrow>
     (\<forall>h q k sel. length (hn_search_knn H h q k sel) \<le> unat k \<and>
        (\<forall>(d, l) \<in> set (hn_search_knn H h q k sel). \<forall>p. sel = Some p \<longrightarrow> p l))"

text \<open>
  The labels an index has points for, again as an observer of the properties: adding a point puts
  its label in, setting \<^verbatim>\<open>ef\<close> leaves them, a search returns only such labels.
\<close>

definition hnsw_ids_ok :: "'h hnswlib \<Rightarrow> ('h \<Rightarrow> u64 set) \<Rightarrow> bool" where
  "hnsw_ids_ok H ids \<longleftrightarrow>
     (\<forall>m d n a b. ids (hn_new H m d n a b) = {}) \<and>
     (\<forall>h v l h'. hn_add_point H h v l = Inr h' \<longrightarrow> ids h' = insert l (ids h)) \<and>
     (\<forall>h e. ids (hn_set_ef H h e) = ids h) \<and>
     (\<forall>h q k sel. snd ` set (hn_search_knn H h q k sel) \<subseteq> ids h)"

definition throwing :: "cxx_exception + 'a \<Rightarrow> 'a res" where
  "throwing r = (case r of Inl e \<Rightarrow> Inl (Throw e) | Inr x \<Rightarrow> Inr x)"

lemma throwing_simps [simp]: "throwing (Inl e) = Inl (Throw e)" "throwing (Inr x) = Inr x"
  by (simp_all add: throwing_def)

lemma throwing_eq_Inr [res_simps]: "throwing r = Inr x \<longleftrightarrow> r = Inr x"
  by (cases r) auto

section \<open>The bundle\<close>

record ('b, 'd, 'f, 'h) libs =
  lib_json :: rapidjson
  lib_rb :: "'b croaring"
  lib_rk :: "'d rocksdb"
  lib_fa :: "'f faiss"
  lib_hn :: "'h hnswlib"

end
