(* ===== verification/Raft_Libs.thy ===== *)
theory Raft_Libs
  imports Vdb_Libs
begin

text \<open>
  NuRaft as a parameter: the buffers and log entries the log store and the state machine use.
  \<open>'u\<close> is a \<^verbatim>\<open>ptr<buffer>\<close>, \<open>'e\<close> a \<^verbatim>\<open>ptr<log_entry>\<close> that is not null.
\<close>

record ('u, 'e) nuraft =
  nb_alloc :: "u64 \<Rightarrow> 'u"
  nb_size :: "'u \<Rightarrow> u64"
  nb_pos :: "'u \<Rightarrow> u64"
  nb_set_pos :: "'u \<Rightarrow> u64 \<Rightarrow> 'u"
  nb_chars :: "'u \<Rightarrow> u64 \<Rightarrow> u64 \<Rightarrow> string option"
    \<comment> \<open>the characters from \<^verbatim>\<open>data() + offset\<close>, so many; \<open>None\<close>: not all of them inside the buffer\<close>
  nb_clone :: "'u \<Rightarrow> 'u"
  nb_put_int :: "'u \<Rightarrow> int \<Rightarrow> cxx_exception + 'u"
  nb_put_buffer :: "'u \<Rightarrow> 'u \<Rightarrow> cxx_exception + 'u"
  nb_get_int :: "'u \<Rightarrow> cxx_exception + int \<times> 'u"
  nb_get_buffer :: "'u \<Rightarrow> 'u \<Rightarrow> cxx_exception + 'u \<times> 'u"  \<comment> \<open>source, destination; both after\<close>
  bs_put_str :: "'u \<Rightarrow> string \<Rightarrow> cxx_exception + 'u"
  bs_put_u64 :: "'u \<Rightarrow> u64 \<Rightarrow> cxx_exception + 'u"
  le_new :: "u64 \<Rightarrow> 'u \<Rightarrow> 'e"
  le_make :: "u64 \<Rightarrow> 'u \<Rightarrow> nat \<Rightarrow> u64 \<Rightarrow> bool \<Rightarrow> u32 \<Rightarrow> bool \<Rightarrow> 'e"
  le_term :: "'e \<Rightarrow> u64"
  le_buf :: "'e \<Rightarrow> 'u"
  le_val_type :: "'e \<Rightarrow> nat"
  le_timestamp :: "'e \<Rightarrow> u64"
  le_has_crc32 :: "'e \<Rightarrow> bool"
  le_crc32 :: "'e \<Rightarrow> u32"
  le_serialize :: "'e \<Rightarrow> 'u"
  le_deserialize :: "'u \<Rightarrow> cxx_exception + 'e"
  val_app_log :: nat

text \<open>A log entry is what it was made from.\<close>

definition log_entry_ok :: "('u, 'e) nuraft \<Rightarrow> bool" where
  "log_entry_ok N \<longleftrightarrow>
     (\<forall>t b v ts h c x. le_term N (le_make N t b v ts h c x) = t \<and>
        le_buf N (le_make N t b v ts h c x) = b \<and> le_val_type N (le_make N t b v ts h c x) = v) \<and>
     (\<forall>b off n. nb_chars N (nb_clone N b) off n = nb_chars N b off n) \<and>
     (\<forall>b. nb_size N (nb_clone N b) = nb_size N b \<and> nb_pos N (nb_clone N b) = nb_pos N b)"

text \<open>
  The string constructor the sources call on a buffer: with a length that wrapped below zero it
  throws, past the end of the buffer it reads out of bounds.
\<close>

definition buffer_string :: "('u, 'e) nuraft \<Rightarrow> 'u \<Rightarrow> u64 \<Rightarrow> u64 \<Rightarrow> string res" where
  "buffer_string N b offset n =
     (if n \<ge> 2 ^ 63 then Inl (Throw (Length_error ''basic_string''))
      else case nb_chars N b offset n of
             None \<Rightarrow> Inl (Abort (Out_of_bounds ''buffer''))
           | Some s \<Rightarrow> Inr s)"

text \<open>The payload of an application entry: after the four bytes of the string's length.\<close>

definition app_content :: "('u, 'e) nuraft \<Rightarrow> 'u \<Rightarrow> string res" where
  "app_content N data = buffer_string N data (nb_pos N data + 4) (nb_size N data - 4)"

definition whole_content :: "('u, 'e) nuraft \<Rightarrow> 'u \<Rightarrow> string res" where
  "whole_content N data = buffer_string N data (nb_pos N data) (nb_size N data)"

text \<open>
  \<^verbatim>\<open>buffer_serializer::put_str\<close> on a fresh buffer that has just the space: the buffer keeps its size and
  position, and the text stands after the four bytes of its length.
\<close>

definition put_str_ok :: "('u, 'e) nuraft \<Rightarrow> bool" where
  "put_str_ok N \<longleftrightarrow>
     (\<forall>s. length s < 2 ^ 31 \<longrightarrow>
        (\<exists>b. bs_put_str N (nb_alloc N (4 + of_nat (length s))) s = Inr b \<and>
           nb_size N b = 4 + of_nat (length s) \<and> nb_pos N b = 0 \<and>
           nb_chars N b 4 (of_nat (length s)) = Some s))"

lemma put_str_content:
  assumes "put_str_ok N" "length s < 2 ^ 31"
  shows "\<exists>b. bs_put_str N (nb_alloc N (4 + of_nat (length s))) s = Inr b \<and> app_content N b = Inr s"
proof -
  from assms obtain b where b: "bs_put_str N (nb_alloc N (4 + of_nat (length s))) s = Inr b"
    "nb_size N b = 4 + of_nat (length s)" "nb_pos N b = 0" "nb_chars N b 4 (of_nat (length s)) = Some s"
    unfolding put_str_ok_def by blast
  have "unat (of_nat (length s) :: u64) = length s" using assms(2) by (simp add: unat_of_nat)
  then have "\<not> (2 ^ 63 :: u64) \<le> of_nat (length s)" using assms(2) by (simp add: word_le_nat_alt)
  with b show ?thesis by (simp add: app_content_def buffer_string_def)
qed

lemma app_content_clone [simp]: "log_entry_ok N \<Longrightarrow> app_content N (nb_clone N b) = app_content N b"
  by (simp add: app_content_def buffer_string_def log_entry_ok_def)

end
