(* ===== verification/Raft_Instances.thy ===== *)
theory Raft_Instances
  imports Raft_Libs
begin

text \<open>A small NuRaft that satisfies the laws of Raft_Libs: buffers are strings with a position.\<close>

record string_buffer =
  sb_bytes :: string
  sb_pos :: nat

record string_entry =
  se_term :: u64
  se_type :: nat
  se_buf :: string_buffer

definition byte_string :: "nat \<Rightarrow> nat \<Rightarrow> string" where
  "byte_string n v = map (\<lambda>k. char_of (v div 256 ^ k)) [0..<n]"

definition bytes_value :: "string \<Rightarrow> nat" where
  "bytes_value s = foldr (\<lambda>c v. of_char c + 256 * v) s 0"

definition put_bytes :: "string_buffer \<Rightarrow> string \<Rightarrow> cxx_exception + string_buffer" where
  "put_bytes b s =
     (if sb_pos b + length s > length (sb_bytes b) then Inl (Overflow_error ''not enough space'')
      else Inr \<lparr>sb_bytes = take (sb_pos b) (sb_bytes b) @ s @ drop (sb_pos b + length s) (sb_bytes b),
                sb_pos = sb_pos b + length s\<rparr>)"

definition get_bytes :: "string_buffer \<Rightarrow> nat \<Rightarrow> cxx_exception + string \<times> string_buffer" where
  "get_bytes b n =
     (if sb_pos b + n > length (sb_bytes b) then Inl (Overflow_error ''insufficient buffer available'')
      else Inr (take n (drop (sb_pos b) (sb_bytes b)), b\<lparr>sb_pos := sb_pos b + n\<rparr>))"

definition string_raft :: "(string_buffer, string_entry) nuraft" where
  "string_raft = \<lparr>
     nb_alloc = (\<lambda>n. \<lparr>sb_bytes = replicate (unat n) (CHR 0x00), sb_pos = 0\<rparr>),
     nb_size = (\<lambda>b. of_nat (length (sb_bytes b))), nb_pos = (\<lambda>b. of_nat (sb_pos b)),
     nb_set_pos = (\<lambda>b p. b\<lparr>sb_pos := unat p\<rparr>),
     nb_chars = (\<lambda>b off n. if sb_pos b + unat off + unat n > length (sb_bytes b) then None
                            else Some (take (unat n) (drop (sb_pos b + unat off) (sb_bytes b)))),
     nb_clone = (\<lambda>b. b),
     nb_put_int = (\<lambda>b i. put_bytes b (byte_string 4 (nat (i mod 2 ^ 32)))),
     nb_put_buffer = (\<lambda>b c. put_bytes b (drop (sb_pos c) (sb_bytes c))),
     nb_get_int = (\<lambda>b. case get_bytes b 4 of Inl e \<Rightarrow> Inl e
                        | Inr (s, b') \<Rightarrow> Inr (sint (of_nat (bytes_value s) :: u32), b')),
     nb_get_buffer = (\<lambda>b c. case get_bytes b (length (sb_bytes c)) of Inl e \<Rightarrow> Inl e
                        | Inr (s, b') \<Rightarrow> Inr (b', \<lparr>sb_bytes = s, sb_pos = 0\<rparr>)),
     bs_put_str = (\<lambda>b s. case put_bytes b (byte_string 4 (length s) @ s) of Inl e \<Rightarrow> Inl e
                        | Inr b' \<Rightarrow> Inr (b'\<lparr>sb_pos := 0\<rparr>)),
     bs_put_u64 = (\<lambda>b w. put_bytes b (byte_string 8 (unat w))),
     le_new = (\<lambda>t b. \<lparr>se_term = t, se_type = 1, se_buf = b\<rparr>),
     le_make = (\<lambda>t b v ts h c x. \<lparr>se_term = t, se_type = v, se_buf = b\<rparr>),
     le_term = se_term, le_buf = se_buf, le_val_type = se_type, le_timestamp = (\<lambda>e. 0),
     le_has_crc32 = (\<lambda>e. False), le_crc32 = (\<lambda>e. 0),
     le_serialize = (\<lambda>e. \<lparr>sb_bytes = char_of (se_type e) # byte_string 8 (unat (se_term e)) @ sb_bytes (se_buf e),
                          sb_pos = 0\<rparr>),
     le_deserialize = (\<lambda>b. Inr \<lparr>se_term = of_nat (bytes_value (take 8 (tl (sb_bytes b)))),
                          se_type = of_char (hd (sb_bytes b)),
                          se_buf = \<lparr>sb_bytes = drop 9 (sb_bytes b), sb_pos = 0\<rparr>\<rparr>),
     val_app_log = 1\<rparr>"

lemma string_raft_ok [simp]: "log_entry_ok string_raft"
  by (simp add: log_entry_ok_def string_raft_def)

lemma length_byte_string [simp]: "length (byte_string n v) = n"
  by (simp add: byte_string_def)

lemma string_raft_put_str [simp]: "put_str_ok string_raft"
  unfolding put_str_ok_def
proof (intro allI impI)
  fix s :: string
  assume s: "length s < 2 ^ 31"
  have u: "unat (4 + of_nat (length s) :: u64) = 4 + length s" "unat (of_nat (length s) :: u64) = length s"
    using s unat_of_nat [of "4 + length s", where 'a = 64] by (simp_all add: unat_of_nat)
  let ?b = "\<lparr>sb_bytes = byte_string 4 (length s) @ s, sb_pos = 0\<rparr>"
  have "bs_put_str string_raft (nb_alloc string_raft (4 + of_nat (length s))) s = Inr ?b"
    by (simp add: string_raft_def put_bytes_def u)
  moreover have "nb_size string_raft ?b = 4 + of_nat (length s)" "nb_pos string_raft ?b = 0"
    "nb_chars string_raft ?b 4 (of_nat (length s)) = Some s"
    by (simp_all add: string_raft_def u)
  ultimately show "\<exists>b. bs_put_str string_raft (nb_alloc string_raft (4 + of_nat (length s))) s = Inr b \<and>
      nb_size string_raft b = 4 + of_nat (length s) \<and> nb_pos string_raft b = 0 \<and>
      nb_chars string_raft b 4 (of_nat (length s)) = Some s"
    by blast
qed

text \<open>The entry a client's document becomes: four bytes of length, then the text.\<close>

definition app_entry :: "u64 \<Rightarrow> string \<Rightarrow> string_entry" where
  "app_entry t s = \<lparr>se_term = t, se_type = 1, se_buf = \<lparr>sb_bytes = byte_string 4 (length s) @ s, sb_pos = 0\<rparr>\<rparr>"

lemma app_content_entry:
  assumes "length s < 2 ^ 32"
  shows "app_content string_raft (se_buf (app_entry t s)) = Inr s"
proof -
  have "unat (of_nat (length s) :: u64) = length s" using assms by (simp add: unat_of_nat)
  moreover have "\<not> (2 ^ 63 :: u64) \<le> of_nat (length s)"
    using assms calculation by (simp add: word_le_nat_alt)
  ultimately show ?thesis
    using assms by (simp add: app_content_def buffer_string_def app_entry_def string_raft_def)
qed

end
