(* ===== verification/Vdb_Instances.thy ===== *)
theory Vdb_Instances
  imports Vdb_Libs
begin

text \<open>
  Small libraries that satisfy the laws of Vdb_Libs: the parameters of the model at a concrete
  point. Bitmaps are lists of ids, a RocksDB is its list of writes, the vector indexes are lists
  of ids that a search goes through in order, JSON text is looked up in a table.
\<close>

section \<open>Bitmaps\<close>

fun decode_ids :: "nat \<Rightarrow> string \<Rightarrow> u32 list" where
  "decode_ids n [] = []"
| "decode_ids n (c # s) =
     (if c = CHR '','' then of_nat n # decode_ids 0 s else decode_ids (10 * n + digit_val c) s)"

definition list_bitmap :: "u32 list croaring" where
  "list_bitmap = \<lparr>rb_create = [], rb_add = (\<lambda>b x. x # removeAll x b), rb_remove = (\<lambda>b x. removeAll x b),
     rb_or_inplace = (\<lambda>b c. b @ c), rb_contains = (\<lambda>b x. x \<in> set b),
     rb_serialize = (\<lambda>b. concat (map (\<lambda>x. to_string (unat x) @ '','') b)),
     rb_deserialize = (\<lambda>s. Some (decode_ids 0 s))\<rparr>"

lemma list_bitmap_ok [simp]: "roaring_ok list_bitmap"
  by (auto simp: roaring_ok_def list_bitmap_def)

section \<open>The key-value store\<close>

type_synonym kv_writes = "(string \<times> string) list"

definition list_rocks :: "kv_writes rocksdb" where
  "list_rocks = \<lparr>rk_open = (\<lambda>path. Some []), rk_put = (\<lambda>db k v. ((k, v) # db, True)),
     rk_get = (\<lambda>db k. map_of db k), rk_entries = (\<lambda>db. foldr (\<lambda>(k, v) m. om_insert k v m) db [])\<rparr>"

lemma list_rocks_entries: "om_ok (foldr (\<lambda>(k, v) m. om_insert k v m) db [])"
  "map_of (foldr (\<lambda>(k, v) m. om_insert k v m) db []) = map_of db"
  by (induction db) auto

lemma list_rocks_ok [simp]: "rocks_ok list_rocks" "rocks_writable list_rocks"
  by (auto simp: rocks_ok_def rocks_writable_def list_rocks_def list_rocks_entries fun_eq_iff)

section \<open>The vector indexes\<close>

record list_flat =
  lf_dim :: int
  lf_entries :: "(int \<times> f32 list) list"

definition lf_ids :: "list_flat \<Rightarrow> int list" where
  "lf_ids f = map fst (lf_entries f)"

definition pad_labels :: "nat \<Rightarrow> int list \<Rightarrow> int list" where
  "pad_labels k ls = take k ls @ replicate (k - length ls) (-1)"

definition flat_hits :: "list_flat \<Rightarrow> (int \<Rightarrow> bool) option \<Rightarrow> int list" where
  "flat_hits f sel = (case sel of None \<Rightarrow> lf_ids f | Some p \<Rightarrow> filter p (lf_ids f))"

definition list_faiss :: "list_flat faiss" where
  "list_faiss = \<lparr>fa_new_idmap_flat = (\<lambda>d m. \<lparr>lf_dim = d, lf_entries = []\<rparr>), fa_d = lf_dim,
     fa_is_idmap = (\<lambda>f. True),
     fa_add_with_ids = (\<lambda>f v i. f\<lparr>lf_entries := lf_entries f @ [(i, v)]\<rparr>),
     fa_remove_ids = (\<lambda>f ids. f\<lparr>lf_entries := filter (\<lambda>e. fst e \<notin> set ids) (lf_entries f)\<rparr>),
     fa_search = (\<lambda>f n q k sel.
       if k \<le> 0 then Inl (Runtime_error ''k > 0'')
       else Inr (concat (replicate n (pad_labels (nat k) (flat_hits f sel))), replicate (n * nat k) 0)),
     fa_write_index = (\<lambda>f. []), fa_read_index = (\<lambda>s. Inr \<lparr>lf_dim = 1, lf_entries = []\<rparr>)\<rparr>"

lemma length_pad_labels [simp]: "length (pad_labels k ls) = k"
  by (simp add: pad_labels_def)

lemma set_pad_labels: "set (pad_labels k ls) \<subseteq> insert (-1) (set ls)"
  by (auto simp: pad_labels_def dest: in_set_takeD)

lemma length_concat_replicate: "length (concat (replicate n xs)) = n * length xs"
  by (induction n) auto

lemma set_concat_replicate: "set (concat (replicate n xs)) \<subseteq> set xs"
  by (induction n) auto

lemma set_flat_hits: "l \<in> set (flat_hits f sel) \<longleftrightarrow> l \<in> set (lf_ids f) \<and> (\<forall>p. sel = Some p \<longrightarrow> p l)"
  by (auto simp: flat_hits_def split: option.splits)

lemma list_faiss_search:
  assumes "fa_search list_faiss f n q k sel = Inr (ls, ds)"
  shows "length ls = n * nat k" "length ds = n * nat k"
    and "l \<in> set ls \<Longrightarrow> l = -1 \<or> l \<in> set (lf_ids f) \<and> (\<forall>p. sel = Some p \<longrightarrow> p l)"
proof -
  have r: "ls = concat (replicate n (pad_labels (nat k) (flat_hits f sel)))" "ds = replicate (n * nat k) 0"
    using assms by (auto simp: list_faiss_def split: if_splits)
  show "length ls = n * nat k" "length ds = n * nat k"
    by (simp_all add: r length_concat_replicate)
  show "l = -1 \<or> l \<in> set (lf_ids f) \<and> (\<forall>p. sel = Some p \<longrightarrow> p l)" if "l \<in> set ls"
  proof -
    have "l \<in> set (pad_labels (nat k) (flat_hits f sel))"
      using that set_concat_replicate by (auto simp: r)
    then have "l = -1 \<or> l \<in> set (flat_hits f sel)" using set_pad_labels by blast
    then show ?thesis by (simp add: set_flat_hits)
  qed
qed

lemma list_faiss_search_ok [simp]: "faiss_search_ok list_faiss"
  unfolding faiss_search_ok_def
proof (intro allI impI conjI ballI)
  fix f n q k sel ls ds
  assume s: "fa_search list_faiss f n q k sel = Inr (ls, ds)"
  show "length ls = n * nat k" "length ds = n * nat k" using list_faiss_search(1,2) [OF s] .
  show "l = -1 \<or> (\<forall>p. sel = Some p \<longrightarrow> p l)" if "l \<in> set ls" for l
    using list_faiss_search(3) [OF s that] by blast
qed

lemma list_faiss_labels: "faiss_labels list_faiss f = set (lf_ids f) - {-1}"
proof
  show "faiss_labels list_faiss f \<subseteq> set (lf_ids f) - {-1}"
    using list_faiss_search(3) unfolding faiss_labels_def by blast
  show "set (lf_ids f) - {-1} \<subseteq> faiss_labels list_faiss f"
  proof
    fix l
    assume l: "l \<in> set (lf_ids f) - {-1}"
    then have pos: "\<not> int (length (lf_ids f)) \<le> 0" by auto
    have s: "fa_search list_faiss f 1 [] (int (length (lf_ids f))) None =
        Inr (lf_ids f, replicate (length (lf_ids f)) 0)"
      using pos by (simp add: list_faiss_def flat_hits_def pad_labels_def)
    then show "l \<in> faiss_labels list_faiss f"
      using l unfolding faiss_labels_def by blast
  qed
qed

lemma list_faiss_laws [simp]: "faiss_labels_ok list_faiss" "faiss_shape_ok list_faiss"
proof -
  have "lf_ids (fa_new_idmap_flat list_faiss d m) = []"
    "lf_ids (fa_add_with_ids list_faiss f v i) = lf_ids f @ [i]"
    "lf_ids (fa_remove_ids list_faiss f ids) = filter (\<lambda>i. i \<notin> set ids) (lf_ids f)" for d m f v i ids
    by (simp_all add: list_faiss_def lf_ids_def filter_map comp_def)
  then show "faiss_labels_ok list_faiss"
    by (auto simp: faiss_labels_ok_def list_faiss_labels)
  show "faiss_shape_ok list_faiss" by (auto simp: faiss_shape_ok_def list_faiss_def)
qed

lemma list_faiss_holds [simp]: "faiss_holds_ok list_faiss lf_entries"
  by (simp add: faiss_holds_ok_def list_faiss_def)

record list_graph =
  lg_dim :: int
  lg_labels :: "u64 list"

definition graph_hits :: "list_graph \<Rightarrow> (u64 \<Rightarrow> bool) option \<Rightarrow> u64 list" where
  "graph_hits h sel = (case sel of None \<Rightarrow> lg_labels h | Some p \<Rightarrow> filter p (lg_labels h))"

definition list_hnsw :: "list_graph hnswlib" where
  "list_hnsw = \<lparr>hn_new = (\<lambda>m d n a b. \<lparr>lg_dim = d, lg_labels = []\<rparr>), hn_dim = lg_dim,
     hn_add_point = (\<lambda>h v l. Inr (h\<lparr>lg_labels := lg_labels h @ [l]\<rparr>)), hn_set_ef = (\<lambda>h e. h),
     hn_search_knn = (\<lambda>h q k sel. map (\<lambda>l. (0, l)) (take (unat k) (graph_hits h sel))),
     hn_save_index = (\<lambda>h. []), hn_load_index = (\<lambda>h s n. Inr h)\<rparr>"

lemma list_hnsw_ok [simp]: "hnsw_search_ok list_hnsw"
  by (auto simp: hnsw_search_ok_def list_hnsw_def graph_hits_def split: option.splits dest!: in_set_takeD)

lemma list_hnsw_ids [simp]: "hnsw_ids_ok list_hnsw (\<lambda>h. set (lg_labels h))"
  by (auto simp: hnsw_ids_ok_def list_hnsw_def graph_hits_def split: option.splits dest!: in_set_takeD)

section \<open>JSON text\<close>

text \<open>
  Documents with one integer field \<open>a\<close>, and a few requests. The table keeps each text as a short
  code.
\<close>

definition sample_doc :: "int \<Rightarrow> int \<Rightarrow> json" where
  "sample_doc i a = JObject [(''id'', JInt i), (''vectors'', JArray [JInt 1]), (''indexType'', JString ''FLAT''),
     (''a'', JInt a)]"

definition sample_table :: "(string \<times> json) list" where
  "sample_table =
     [(''{Aid1B'', sample_doc 1 1), (''{Aid1C'', sample_doc 1 2), (''{Aid2B'', sample_doc 2 1),
      (''{Q'', JObject [(''id'', JInt 1)]), (''{B'', JObject [(''vectors'', JInt 1), (''k'', JInt 1), (''id'', JInt 5)]),
      (''{S'', JObject [(''vectors'', JArray [JInt 1]), (''k'', JInt 1), (''indexType'', JString ''FLAT''),
         (''filter'', JObject [(''fieldName'', JString ''a''), (''op'', JString ''=''), (''value'', JInt 2)])]),
      (''{H'', JObject [(''vectors'', JArray [JInt 1]), (''k'', JInt 1), (''indexType'', JString ''HNSW''),
         (''filter'', JObject [(''fieldName'', JString ''a''), (''op'', JString ''=''), (''value'', JInt 2)])])]"

definition table_json :: rapidjson where
  "table_json = \<lparr>rj_parse = (\<lambda>s. case map_of sample_table s of None \<Rightarrow> JNull | Some d \<Rightarrow> d),
     rj_write = (\<lambda>d. case map_of (map (\<lambda>(s, d). (d, s)) sample_table) d of None \<Rightarrow> ''null'' | Some s \<Rightarrow> s),
     rj_float = (\<lambda>d. 0), rj_of_float = (\<lambda>x. JDouble (ucast x))\<rparr>"

lemma table_json_float [simp]: "rj_float table_json d = 0"
  by (simp add: table_json_def)

section \<open>All of them\<close>

definition sample_libs :: "(u32 list, kv_writes, list_flat, list_graph) libs" where
  "sample_libs = \<lparr>lib_json = table_json, lib_rb = list_bitmap, lib_rk = list_rocks,
     lib_fa = list_faiss, lib_hn = list_hnsw\<rparr>"

lemma sample_libs_simps [simp]:
  "lib_json sample_libs = table_json" "lib_rb sample_libs = list_bitmap" "lib_rk sample_libs = list_rocks"
  "lib_fa sample_libs = list_faiss" "lib_hn sample_libs = list_hnsw"
  by (simp_all add: sample_libs_def)

definition sample_files :: filesys where
  "sample_files = \<lparr>fs_files = [], fs_writable = (\<lambda>path. True)\<rparr>"

end
