(* ===== verification/Scalar_Storage.thy ===== *)
theory Scalar_Storage
  imports Vdb_Instances
begin

text \<open>
  scalar_storage.cpp: the documents and the serialised filter index in one RocksDB database.
  Documents are kept under the decimal id, as JSON text. Shown here: reads see the last write
  of their id and of no other, and \<open>scan_page\<close> is paging over the keys in range.
\<close>

type_synonym kv = "string \<times> string"

record scalar_kv_page =
  items :: "kv list"
  has_more :: bool

definition ScalarStorage_open :: "'d rocksdb \<Rightarrow> string \<Rightarrow> 'd res" where
  "ScalarStorage_open K db_path =
     (case rk_open K db_path of
        None \<Rightarrow> Inl (Throw (Runtime_error ''Failed to open RocksDB: ''))
      | Some db \<Rightarrow> Inr db)"

definition scalar_key :: "u64 \<Rightarrow> string" where
  "scalar_key uid = to_string (unat uid)"

text \<open>A failed write is only logged.\<close>

definition insert_scalar :: "rapidjson \<Rightarrow> 'd rocksdb \<Rightarrow> u64 \<Rightarrow> json \<Rightarrow> 'd \<Rightarrow> 'd" where
  "insert_scalar J K uid data db =
     (let value = c_str (rj_write J data)
      in fst (rk_put K db (scalar_key uid) value))"

definition get_scalar :: "rapidjson \<Rightarrow> 'd rocksdb \<Rightarrow> u64 \<Rightarrow> 'd \<Rightarrow> json" where
  "get_scalar J K uid db =
     (case rk_get K db (scalar_key uid) of
        None \<Rightarrow> JNull
      | Some value \<Rightarrow> rj_parse J (c_str value))"

definition storage_put :: "'d rocksdb \<Rightarrow> string \<Rightarrow> string \<Rightarrow> 'd \<Rightarrow> 'd" where
  "storage_put K key value db = fst (rk_put K db key value)"

definition storage_get :: "'d rocksdb \<Rightarrow> string \<Rightarrow> 'd \<Rightarrow> string" where
  "storage_get K key db = (case rk_get K db key of None \<Rightarrow> [] | Some value \<Rightarrow> value)"

section \<open>Paging\<close>

definition has_prefix :: "string \<Rightarrow> string \<Rightarrow> bool" where
  "has_prefix p k \<longleftrightarrow> \<not> (length k < length p \<or> take (length p) k \<noteq> p)"

definition key_in_range :: "string \<Rightarrow> string \<Rightarrow> string \<Rightarrow> bool" where
  "key_in_range key_prefix key_upper k =
     (if key_prefix \<noteq> [] \<and> \<not> has_prefix key_prefix k then False
      else if key_upper \<noteq> [] \<and> k > key_upper then False
      else True)"

text \<open>
  The loop of \<^verbatim>\<open>scan_page\<close> over the entries the iterator has ahead: the page so far, whether it
  is known that there is more, and where the iterator stands.
\<close>

fun scan_loop :: "(string \<Rightarrow> bool) \<Rightarrow> nat \<Rightarrow> nat \<Rightarrow> kv list \<Rightarrow> kv list \<Rightarrow> kv list \<times> bool \<times> kv list" where
  "scan_loop in_range page_size skip acc [] = (acc, False, [])"
| "scan_loop in_range page_size skip acc ((k, v) # it) =
     (if \<not> in_range k then (acc, False, (k, v) # it)
      else if skip > 0 then scan_loop in_range page_size (skip - 1) acc it
      else if length acc < page_size then scan_loop in_range page_size skip (acc @ [(k, v)]) it
      else (acc, True, (k, v) # it))"

definition scan_page :: "'d rocksdb \<Rightarrow> string \<Rightarrow> string \<Rightarrow> u64 \<Rightarrow> u64 \<Rightarrow> 'd \<Rightarrow> scalar_kv_page" where
  "scan_page K key_prefix key_upper page_num page_size db =
     (if page_size = 0 \<or> page_num = 0 then \<lparr>items = [], has_more = False\<rparr>
      else
        let in_range = key_in_range key_prefix key_upper;
            it = (if key_prefix \<noteq> [] then dropWhile (\<lambda>e. fst e < key_prefix) (rk_entries K db)
                  else rk_entries K db);
            skip = (page_num - 1) * page_size;
            (page, more, rest) = scan_loop in_range (unat page_size) (unat skip) [] it;
            more' = (if length page = unat page_size \<and> \<not> more \<and> rest \<noteq> []
                     then in_range (fst (hd rest)) else more)
        in \<lparr>items = page, has_more = more'\<rparr>)"

section \<open>Reads and writes\<close>

lemma scalar_key_inject [simp]: "scalar_key a = scalar_key b \<longleftrightarrow> a = b"
  by (simp add: scalar_key_def word_unat_eq_iff)

lemma scalar_key_no [simp]: "\<not> is_digit c \<Longrightarrow> c \<notin> set (scalar_key uid)"
  by (simp add: scalar_key_def)

lemma get_insert_scalar:
  assumes "rocks_ok K" "rocks_writable K"
  shows "get_scalar J K uid' (insert_scalar J K uid d db) =
    (if uid' = uid then rj_parse J (c_str (rj_write J d)) else get_scalar J K uid' db)"
  using rocks_put [OF assms]
  by (simp add: get_scalar_def insert_scalar_def Let_def)

lemma get_insert_other_key:
  assumes "rocks_ok K" "rocks_writable K" "c \<in> set key" "\<not> is_digit c"
  shows "storage_get K key (insert_scalar J K uid d db) = storage_get K key db"
proof -
  have "key \<noteq> scalar_key uid" using assms(3,4) by auto
  then show ?thesis
    using rocks_put [OF assms(1,2)]
    by (simp add: storage_get_def insert_scalar_def Let_def)
qed

lemma get_storage_put:
  assumes "rocks_ok K" "rocks_writable K"
  shows "storage_get K k (storage_put K key v db) = (if k = key then v else storage_get K k db)"
  using rocks_put [OF assms] by (simp add: storage_get_def storage_put_def)

lemma get_scalar_storage_put:
  assumes "rocks_ok K" "rocks_writable K" "c \<in> set key" "\<not> is_digit c"
  shows "get_scalar J K uid (storage_put K key v db) = get_scalar J K uid db"
proof -
  have "scalar_key uid \<noteq> key" using assms(3,4) by auto
  then show ?thesis
    using rocks_put [OF assms(1,2)] by (simp add: get_scalar_def storage_put_def)
qed

section \<open>The scan is paging\<close>

lemma has_prefix_Nil [simp]: "has_prefix [] k"
  by (simp add: has_prefix_def)

lemma has_prefix_Cons [simp]: "has_prefix (c # p) (d # k) \<longleftrightarrow> c = d \<and> has_prefix p k"
  by (auto simp: has_prefix_def)

lemma has_prefix_Cons_Nil [simp]: "\<not> has_prefix (c # p) []"
  by (simp add: has_prefix_def)

lemma has_prefix_ge: "has_prefix p k \<Longrightarrow> p \<le> k"
proof (induction p arbitrary: k)
  case Nil
  then show ?case by simp
next
  case (Cons c p)
  then show ?case by (cases k) auto
qed

lemma has_prefix_convex:
  "p \<le> k \<Longrightarrow> k \<le> k' \<Longrightarrow> has_prefix p k' \<Longrightarrow> has_prefix p k"
proof (induction p arbitrary: k k')
  case Nil
  then show ?case by simp
next
  case (Cons c p)
  from Cons.prems(1) obtain d l where k: "k = d # l" by (cases k) auto
  from Cons.prems(3) obtain l' where k': "k' = c # l'" by (cases k') auto
  from Cons.prems k k' have "d = c" "p \<le> l" "l \<le> l'" "has_prefix p l'"
    by (auto split: if_splits)
  with k Cons.IH show ?case by simp
qed

lemma key_in_range_down:
  assumes "key_in_range p u k'" "k \<le> k'" "p \<le> k"
  shows "key_in_range p u k"
  using assms has_prefix_convex [of p k k']
  by (auto simp: key_in_range_def split: if_splits)

lemma key_in_range_ge: "key_in_range p u k \<Longrightarrow> p \<le> k"
  by (cases "p = []") (auto simp: key_in_range_def has_prefix_ge split: if_splits)

lemma takeWhile_range_eq_filter:
  assumes "om_ok es" "\<forall>e \<in> set es. p \<le> fst e"
  shows "takeWhile (\<lambda>e. key_in_range p u (fst e)) es = filter (\<lambda>e. key_in_range p u (fst e)) es"
  using assms
proof (induction es)
  case Nil
  then show ?case by simp
next
  case (Cons e es)
  then have rest: "\<forall>k \<in> fst ` set es. fst e < k" "om_ok es" by (simp_all add: om_ok_Cons)
  show ?case
  proof (cases "key_in_range p u (fst e)")
    case True
    with Cons rest show ?thesis by simp
  next
    case False
    have "\<not> key_in_range p u (fst e')" if "e' \<in> set es" for e'
    proof
      assume "key_in_range p u (fst e')"
      moreover have "fst e \<le> fst e'" using rest(1) that by force
      ultimately have "key_in_range p u (fst e)"
        using Cons.prems(2) by (auto intro: key_in_range_down)
      with False show False ..
    qed
    with False show ?thesis by (simp add: filter_False)
  qed
qed

lemma seek_filter:
  assumes "om_ok es"
  shows "takeWhile (\<lambda>e. key_in_range p u (fst e)) (dropWhile (\<lambda>e. fst e < p) es)
    = filter (\<lambda>e. key_in_range p u (fst e)) es"
proof -
  let ?r = "\<lambda>e. key_in_range p u (fst e)"
  let ?t = "takeWhile (\<lambda>e. fst e < p) es" and ?d = "dropWhile (\<lambda>e. fst e < p) es"
  have es: "es = ?t @ ?d" by simp
  have ok: "om_ok ?d"
    using assms es unfolding om_ok_def by (metis map_append sorted_wrt_append)
  have ge: "\<forall>e \<in> set ?d. p \<le> fst e"
  proof (cases "?d")
    case Nil
    show ?thesis unfolding Nil by simp
  next
    case (Cons e es')
    then have "\<not> fst e < p" by (metis hd_dropWhile list.distinct(1) list.sel(1))
    with ok Cons show ?thesis by (auto simp: om_ok_Cons not_less)
  qed
  have "filter ?r ?t = []"
    using key_in_range_ge by (fastforce simp: filter_empty_conv dest: set_takeWhileD)
  then have "filter ?r es = filter ?r ?d"
    using es by (metis append_Nil filter_append)
  also have "\<dots> = takeWhile ?r ?d"
    using takeWhile_range_eq_filter [OF ok ge] by simp
  finally show ?thesis by simp
qed

lemma scan_loop_spec:
  assumes "length acc \<le> n" "skip > 0 \<longrightarrow> acc = []"
  shows "\<exists>more rest. scan_loop r n skip acc es = (acc @ take (n - length acc) (drop skip (takeWhile (\<lambda>e. r (fst e)) es)), more, rest)
     \<and> (more \<or> (rest \<noteq> [] \<and> r (fst (hd rest))) \<longleftrightarrow>
         length (drop skip (takeWhile (\<lambda>e. r (fst e)) es)) > n - length acc)
     \<and> (more \<longrightarrow> rest \<noteq> [] \<and> r (fst (hd rest)))
     \<and> (rest \<noteq> [] \<and> r (fst (hd rest)) \<longrightarrow> more)"
  using assms
proof (induction r n skip acc es rule: scan_loop.induct)
  case (1 r n skip acc)
  then show ?case by auto
next
  case (2 r n skip acc k v it)
  consider "\<not> r k" | "r k" "skip > 0" | "r k" "skip = 0" "length acc < n"
    | "r k" "skip = 0" "length acc = n" using 2 by fastforce
  then show ?case
  proof cases
    case 1
    then show ?thesis by auto
  next
    case c: 2
    then obtain m where "skip = Suc m" by (cases skip) auto
    with c 2 show ?thesis by simp
  next
    case c: 3
    then have ih: "length (acc @ [(k, v)]) \<le> n" "0 < skip \<longrightarrow> acc @ [(k, v)] = []" by auto
    have "n - length acc = Suc (n - Suc (length acc))" using c by simp
    with c "2.IH"(2) [OF _ _ _ ih] show ?thesis by simp
  next
    case 4
    then show ?thesis by auto
  qed
qed

text \<open>
  The page the code builds is the slice of the keys in range, in key order; \<open>has_more\<close> says
  whether entries in range remain after it.
\<close>

definition entries_in_range :: "'d rocksdb \<Rightarrow> string \<Rightarrow> string \<Rightarrow> 'd \<Rightarrow> kv list" where
  "entries_in_range K p u db = filter (\<lambda>e. key_in_range p u (fst e)) (rk_entries K db)"

lemma scan_page_slice:
  assumes K: "rocks_ok K" and pos: "page_num \<noteq> 0" "page_size \<noteq> 0"
    and fits: "(unat page_num - 1) * unat page_size < 2 ^ 64"
  shows "scan_page K p u page_num page_size db =
    \<lparr>items = take (unat page_size) (drop ((unat page_num - 1) * unat page_size) (entries_in_range K p u db)),
     has_more = (unat page_num * unat page_size < length (entries_in_range K p u db))\<rparr>"
proof -
  let ?r = "key_in_range p u"
  let ?it = "if p \<noteq> [] then dropWhile (\<lambda>e. fst e < p) (rk_entries K db) else rk_entries K db"
  let ?skip = "(page_num - 1) * page_size" and ?n = "unat page_size"
  have ok: "om_ok (rk_entries K db)" using K by (simp add: rocks_ok_def)
  have it: "takeWhile (\<lambda>e. ?r (fst e)) ?it = entries_in_range K p u db"
  proof (cases "p = []")
    case True
    then show ?thesis
      using takeWhile_range_eq_filter [OF ok, of p u] by (simp add: entries_in_range_def)
  next
    case False
    then show ?thesis using seek_filter [OF ok] by (simp add: entries_in_range_def)
  qed
  have pn: "unat (page_num - 1) = unat page_num - 1"
    using pos(1) by (metis unat_minus_one)
  then have skip: "unat ?skip = (unat page_num - 1) * ?n"
    using fits by (simp add: unat_word_ariths)
  obtain more rest where sl: "scan_loop ?r ?n (unat ?skip) [] ?it =
      (take ?n (drop (unat ?skip) (entries_in_range K p u db)), more, rest)"
    and m: "more \<or> (rest \<noteq> [] \<and> ?r (fst (hd rest))) \<longleftrightarrow>
      length (drop (unat ?skip) (entries_in_range K p u db)) > ?n"
    and m1: "rest \<noteq> [] \<and> ?r (fst (hd rest)) \<longrightarrow> more"
    using scan_loop_spec [of "[]" ?n "unat ?skip" ?r ?it] it by auto
  have up: "unat page_num * ?n = (unat page_num - 1) * ?n + ?n"
    using pos(1) by (cases "unat page_num") (auto simp: unat_eq_zero)
  have "more \<longleftrightarrow> unat page_num * ?n < length (entries_in_range K p u db)"
    using m m1 up skip by auto
  with sl m1 skip pos show ?thesis
    by (auto simp: scan_page_def Let_def)
qed

section \<open>Properties\<close>

text \<open>
  Reading a document returns what was last inserted under its id, passed through the JSON
  printer and parser; documents with other ids and the keys of the filter index, which are no
  decimal numbers, are not touched.
\<close>

theorem scalar_reads_last_write:
  assumes "rocks_ok K" "rocks_writable K" "c \<in> set key" "\<not> is_digit c"
  shows "get_scalar J K uid (insert_scalar J K uid d db) = rj_parse J (c_str (rj_write J d)) \<and>
    (uid' \<noteq> uid \<longrightarrow> get_scalar J K uid' (insert_scalar J K uid d db) = get_scalar J K uid' db) \<and>
    storage_get K key (insert_scalar J K uid d db) = storage_get K key db \<and>
    get_scalar J K uid (storage_put K key v db) = get_scalar J K uid db"
  using get_insert_scalar [OF assms(1,2)] get_insert_other_key [OF assms] get_scalar_storage_put [OF assms]
  by simp

theorem scalar_reads_last_write_witness:
  "get_scalar table_json list_rocks 1 (insert_scalar table_json list_rocks 1 (sample_doc 1 2) []) = sample_doc 1 2"
proof -
  have "rj_parse table_json (c_str (rj_write table_json (sample_doc 1 2))) = sample_doc 1 2"
    by (simp add: table_json_def sample_table_def sample_doc_def)
  then show ?thesis
    using scalar_reads_last_write [OF list_rocks_ok, of "CHR ''s''" "''s''" table_json 1 "sample_doc 1 2" "[]" 0 "[]"]
    by simp
qed

text \<open>
  A page of the scan is the slice of the entries whose key is in range, in key order; it
  says that there is more exactly when entries in range follow it. Skipping whole pages does not
  wrap as long as the number of skipped entries fits 64 bits.
\<close>

theorem scan_page_is_slice:
  assumes "rocks_ok K" "page_num \<noteq> 0" "page_size \<noteq> 0" "(unat page_num - 1) * unat page_size < 2 ^ 64"
  shows "scan_page K p u page_num page_size db =
    \<lparr>items = take (unat page_size) (drop ((unat page_num - 1) * unat page_size) (entries_in_range K p u db)),
     has_more = (unat page_num * unat page_size < length (entries_in_range K p u db))\<rparr>"
  using assms by (rule scan_page_slice)

theorem scan_page_is_slice_witness:
  "scan_page list_rocks ''1'' ''15'' 2 1 [(''10'', ''x''), (''2'', ''y''), (''13'', ''z''), (''15'', ''w'')] =
    \<lparr>items = [(''13'', ''z'')], has_more = True\<rparr>"
proof -
  have "entries_in_range list_rocks ''1'' ''15'' [(''10'', ''x''), (''2'', ''y''), (''13'', ''z''), (''15'', ''w'')] =
      [(''10'', ''x''), (''13'', ''z''), (''15'', ''w'')]"
    by (simp add: entries_in_range_def list_rocks_def key_in_range_def has_prefix_def)
  then show ?thesis
    using scan_page_is_slice [OF list_rocks_ok(1), of 2 1 "''1''" "''15''"
      "[(''10'', ''x''), (''2'', ''y''), (''13'', ''z''), (''15'', ''w'')]"] by simp
qed

text \<open>
  C16. Paging loses nothing and repeats nothing: the pages \<open>1, ..., n\<close>, one after the other, are
  the first \<open>n\<close> page sizes of the entries in range.
\<close>

theorem scan_pages_concatenate:
  assumes "rocks_ok K" "page_size \<noteq> 0" "n * unat page_size < 2 ^ 64"
  shows "concat (map (\<lambda>i. items (scan_page K p u (of_nat i) page_size db)) [1..<Suc n]) =
    take (n * unat page_size) (entries_in_range K p u db)"
  using assms(3)
proof (induction n)
  case 0
  then show ?case by simp
next
  case (Suc n)
  let ?s = "unat page_size" and ?e = "entries_in_range K p u db"
  have s: "0 < ?s" using assms(2) by (simp add: unat_gt_0)
  then have "Suc n * 1 \<le> Suc n * ?s" by (intro mult_le_mono) simp_all
  then have "Suc n < 2 ^ 64" using Suc.prems by (simp only: mult_1_right le_less_trans)
  then have un: "unat (of_nat (Suc n) :: u64) = Suc n"
    by (simp del: of_nat_Suc add: unat_of_nat)
  then have nz: "(of_nat (Suc n) :: u64) \<noteq> 0" by (metis nat.distinct(1) unat_0)
  have "(unat (of_nat (Suc n) :: u64) - 1) * ?s < 2 ^ 64" using Suc.prems un by simp
  from scan_page_slice [OF assms(1) nz assms(2) this]
  have "items (scan_page K p u (of_nat (Suc n)) page_size db) = take ?s (drop (n * ?s) ?e)"
    using un by simp
  moreover have "take (Suc n * ?s) ?e = take (n * ?s) ?e @ take ?s (drop (n * ?s) ?e)"
    using take_add [of "n * ?s" ?s ?e] by (simp add: add.commute)
  ultimately show ?case using Suc by simp
qed

theorem scan_pages_concatenate_witness:
  "concat (map (\<lambda>i. items (scan_page list_rocks [] [] (of_nat i) 1 [(''2'', ''y''), (''1'', ''x'')])) [1..<Suc 2]) =
    [(''1'', ''x''), (''2'', ''y'')]"
proof -
  have "entries_in_range list_rocks [] [] [(''2'', ''y''), (''1'', ''x'')] = [(''1'', ''x''), (''2'', ''y'')]"
    by (simp add: entries_in_range_def list_rocks_def key_in_range_def)
  then show ?thesis
    using scan_pages_concatenate [OF list_rocks_ok(1), of 1 2 "[]" "[]" "[(''2'', ''y''), (''1'', ''x'')]"] by simp
qed

end
