(* ===== verification/Faiss_Index.thy ===== *)
theory Faiss_Index
  imports Vdb_Libs
begin

text \<open>
  faiss_index.cpp: the flat index, a wrapper of a \<^verbatim>\<open>faiss::IndexIDMap\<close>. Shown here: the lengths
  of what a search returns, that a bitmap restricts the labels to the ids it contains, and what
  insertions and removals do to the labels a search can return. The interface
  \<open>id_filtered_search\<close> is what the database uses of either vector index.
\<close>

record 'f FaissIndex =
  fi_index :: 'f

definition FaissIndex_new :: "'f \<Rightarrow> 'f FaissIndex" where
  "FaissIndex_new index = \<lparr>fi_index = index\<rparr>"

text \<open>\<^verbatim>\<open>RoaringBitmapIDSelector::is_member\<close>: the id is truncated to 32 bits.\<close>

definition RoaringBitmapIDSelector_is_member :: "'b croaring \<Rightarrow> 'b \<Rightarrow> int \<Rightarrow> bool" where
  "RoaringBitmapIDSelector_is_member R bitmap uid = rb_contains R bitmap (word_of_int uid)"

text \<open>
  Faiss reads \<open>d\<close> floats from \<^verbatim>\<open>data.data()\<close>; a shorter vector is read out of bounds.
\<close>

definition faiss_insert_vectors :: "'f faiss \<Rightarrow> f32 list \<Rightarrow> u64 \<Rightarrow> 'f FaissIndex \<Rightarrow> 'f FaissIndex res" where
  "faiss_insert_vectors F data label x =
     (let uid = sint label; d = fa_d F (fi_index x) in
      if int (length data) < d then Inl (Abort (Out_of_bounds ''data.data()''))
      else Inr (x\<lparr>fi_index := fa_add_with_ids F (fi_index x) (take (nat d) data) uid\<rparr>))"

definition faiss_remove_vectors :: "'f faiss \<Rightarrow> int list \<Rightarrow> 'f FaissIndex \<Rightarrow> 'f FaissIndex res" where
  "faiss_remove_vectors F ids x =
     (if fa_is_idmap F (fi_index x)
      then Inr (x\<lparr>fi_index := fa_remove_ids F (fi_index x) ids\<rparr>)
      else Inl (Throw (Runtime_error ''Underlying Faiss index is not an IndexIDMap'')))"

text \<open>\<^verbatim>\<open>int num_queries = query.size() / dim\<close>: the dimension converts to \<^verbatim>\<open>size_t\<close>, the quotient to \<^verbatim>\<open>int\<close>.\<close>

definition faiss_num_queries :: "nat \<Rightarrow> int \<Rightarrow> int" where
  "faiss_num_queries query_size dim = sint (ucast ((of_nat query_size :: u64) div word_of_int dim) :: 32 word)"

text \<open>
  \<^verbatim>\<open>num_queries * k\<close> is a product of two \<^verbatim>\<open>int\<close>; a negative product converted to \<^verbatim>\<open>size_t\<close> is
  more than a vector can hold. The number of queries given to the library is then not negative,
  or \<open>k\<close> is not positive, which the library rejects.
\<close>

definition faiss_search_vectors ::
  "'f faiss \<Rightarrow> 'b croaring \<Rightarrow> f32 list \<Rightarrow> int \<Rightarrow> 'b option \<Rightarrow> 'f FaissIndex \<Rightarrow> (int list \<times> f32 list) res" where
  "faiss_search_vectors F R query k bitmap x =
     (let dim = fa_d F (fi_index x) in
      if dim = 0 then Inl (Abort Division_by_zero)
      else
        let num_queries = faiss_num_queries (length query) dim; n = num_queries * k in
        if n < - (2 ^ 31) \<or> n \<ge> 2 ^ 31 then Inl (Abort Signed_overflow)
        else if n < 0 then Inl (Throw (Length_error ''vector''))
        else throwing
          (case bitmap of
             None \<Rightarrow> fa_search F (fi_index x) (nat num_queries) query k None
           | Some b \<Rightarrow> fa_search F (fi_index x) (nat num_queries) query k
                         (Some (RoaringBitmapIDSelector_is_member R b))))"

definition faiss_saveIndex :: "'f faiss \<Rightarrow> string \<Rightarrow> 'f FaissIndex \<Rightarrow> filesys \<Rightarrow> filesys res" where
  "faiss_saveIndex F file_path x fs =
     (if fs_writable fs file_path
      then Inr (fs_write file_path (fa_write_index F (fi_index x)) fs)
      else Inl (Throw (Runtime_error ''could not open for writing'')))"

definition faiss_loadIndex :: "'f faiss \<Rightarrow> string \<Rightarrow> filesys \<Rightarrow> 'f FaissIndex \<Rightarrow> 'f FaissIndex res" where
  "faiss_loadIndex F file_path fs x =
     (case fs_read fs file_path of
        None \<Rightarrow> Inr x
      | Some bytes \<Rightarrow> andthen (throwing (fa_read_index F bytes)) (\<lambda>f. Inr (x\<lparr>fi_index := f\<rparr>)))"

text \<open>For a dimension and a size an \<^verbatim>\<open>int\<close> can hold it is the quotient.\<close>

lemma faiss_num_queries_div:
  assumes "0 < dim" "dim < 2 ^ 31" "query_size < 2 ^ 31"
  shows "faiss_num_queries query_size dim = int query_size div dim"
proof -
  obtain d where d: "dim = int d" "0 < d" "d < 2 ^ 31" using assms by (metis nat_less_iff of_nat_0_less_iff pos_int_cases zless_nat_conj of_nat_less_numeral_power_cancel_iff)
  have "unat ((of_nat query_size :: u64) div word_of_int dim) = query_size div d"
    using d assms(3) by (simp add: unat_div unat_of_nat take_bit_nat_eq_self_iff)
  then have q: "(of_nat query_size :: u64) div word_of_int dim = of_nat (query_size div d)"
    by (metis ucast_id of_nat_unat)
  have small: "query_size div d < 2 ^ 31" using assms(3) div_le_dividend le_less_trans by blast
  have "(ucast (of_nat n :: u64) :: 32 word) = of_nat n" for n
    by (rule bit_word_eqI) (simp add: bit_simps)
  then have "sint (ucast (of_nat (query_size div d) :: u64) :: 32 word) = int (query_size div d)"
    using small by (simp add: signed_of_nat signed_take_bit_int_eq_self)
  then show ?thesis
    unfolding faiss_num_queries_def q by (simp add: d(1) zdiv_int)
qed

section \<open>Searches restricted to a bitmap\<close>

text \<open>
  What \<open>VectorDatabase::search\<close> expects of a vector index: as many distances as labels, and
  with a bitmap no label outside it but the \<open>-1\<close> of an empty slot.
\<close>

locale id_filtered_search =
  fixes search :: "'b croaring \<Rightarrow> 'i \<Rightarrow> f32 list \<Rightarrow> int \<Rightarrow> 'b option \<Rightarrow> (int list \<times> f32 list) res"
    and dim_ok :: "'i \<Rightarrow> bool"
  assumes search_lengths: "dim_ok ix \<Longrightarrow> search R ix q k bm = Inr (ls, ds) \<Longrightarrow> length ds = length ls"
    and search_filtered: "dim_ok ix \<Longrightarrow> search R ix q k (Some b) = Inr (ls, ds) \<Longrightarrow> l \<in> set ls \<Longrightarrow>
      l = -1 \<or> rb_contains R b (word_of_int l)"
begin

lemma search_pairs:
  assumes "dim_ok ix" "search R ix q k (Some b) = Inr (ls, ds)" "(l, d) \<in> set (zip ls ds)"
  shows "l = -1 \<or> rb_contains R b (word_of_int l)"
  using search_filtered [OF assms(1,2)] assms(3) by (auto dest: set_zip_leftD)

lemma search_empty_bitmap:
  assumes "dim_ok ix" "search R ix q k (Some b) = Inr (ls, ds)" "\<And>x. \<not> rb_contains R b x"
  shows "set ls \<subseteq> {-1}"
  using search_filtered [OF assms(1,2)] assms(3) by blast

lemma search_nth:
  assumes "dim_ok ix" "search R ix q k (Some b) = Inr (ls, ds)" "i < length ds" "ls ! i \<noteq> -1"
  shows "rb_contains R b (word_of_int (ls ! i))"
  using search_filtered [OF assms(1,2), of "ls ! i"] search_lengths [OF assms(1,2)] assms(3,4)
  by auto

end

lemma faiss_search_call:
  assumes "faiss_search_vectors F R q k bm x = Inr (ls, ds)"
  shows "fa_search F (fi_index x) (nat (faiss_num_queries (length q) (fa_d F (fi_index x)))) q k
           (map_option (RoaringBitmapIDSelector_is_member R) bm) = Inr (ls, ds)"
  using assms
  by (simp add: faiss_search_vectors_def Let_def res_simps split: if_splits option.splits)

lemma faiss_search_result:
  assumes "faiss_search_ok F" "faiss_search_vectors F R q k bm x = Inr (ls, ds)"
  shows "length ls = nat (faiss_num_queries (length q) (fa_d F (fi_index x))) * nat k" "length ds = length ls"
    and "bm = Some b \<Longrightarrow> l \<in> set ls \<Longrightarrow> l = -1 \<or> rb_contains R b (word_of_int l)"
proof -
  note r = faiss_search_okD [OF assms(1) faiss_search_call [OF assms(2)]]
  show "length ls = nat (faiss_num_queries (length q) (fa_d F (fi_index x))) * nat k" "length ds = length ls"
    using r(1,2) by simp_all
  show "l = -1 \<or> rb_contains R b (word_of_int l)" if "bm = Some b" "l \<in> set ls"
    using r(3) [of l] that by (simp add: RoaringBitmapIDSelector_is_member_def)
qed

text \<open>The library's law travels with the index: \<open>F\<close> is part of the searched thing.\<close>

interpretation flat: id_filtered_search
  "\<lambda>R (F, x) q k bm. faiss_search_vectors F R q k bm x"
  "\<lambda>(F, x). faiss_search_ok F"
  by unfold_locales (auto dest: faiss_search_result)

section \<open>Insertions and removals\<close>

definition flat_labels :: "'f faiss \<Rightarrow> 'f FaissIndex \<Rightarrow> int set" where
  "flat_labels F x = faiss_labels F (fi_index x)"

lemma flat_labels_new: "faiss_labels_ok F \<Longrightarrow> flat_labels F (FaissIndex_new (fa_new_idmap_flat F d m)) = {}"
  by (simp add: flat_labels_def faiss_labels_ok_def FaissIndex_new_def)

lemma flat_labels_insert:
  assumes "faiss_labels_ok F" "faiss_insert_vectors F v uid x = Inr x'"
  shows "flat_labels F x' \<subseteq> insert (sint uid) (flat_labels F x)"
  using assms(2)
  by (auto simp: faiss_insert_vectors_def flat_labels_def Let_def split: if_splits
      dest!: faiss_labels_add [OF assms(1)])

lemma flat_labels_remove:
  assumes "faiss_labels_ok F" "faiss_remove_vectors F ids x = Inr x'"
  shows "flat_labels F x' \<subseteq> flat_labels F x - set ids"
  using assms(2)
  by (auto simp: faiss_remove_vectors_def flat_labels_def split: if_splits
      dest: faiss_labels_remove [OF assms(1)])

lemma flat_search_labels:
  assumes "faiss_search_vectors F R q k bm x = Inr (ls, ds)"
  shows "set ls \<subseteq> insert (-1) (flat_labels F x)"
  using faiss_search_call [OF assms] unfolding flat_labels_def faiss_labels_def by blast

text \<open>Removal succeeds on the index the factory makes, and on what it becomes.\<close>

definition flat_ok :: "'f faiss \<Rightarrow> int \<Rightarrow> 'f FaissIndex \<Rightarrow> bool" where
  "flat_ok F d x \<longleftrightarrow> fa_is_idmap F (fi_index x) \<and> fa_d F (fi_index x) = d"

lemma flat_ok_new: "faiss_shape_ok F \<Longrightarrow> flat_ok F d (FaissIndex_new (fa_new_idmap_flat F d m))"
  by (simp add: flat_ok_def faiss_shape_ok_def FaissIndex_new_def)

lemma flat_remove_total:
  "faiss_shape_ok F \<Longrightarrow> flat_ok F d x \<Longrightarrow> \<exists>x'. faiss_remove_vectors F ids x = Inr x' \<and> flat_ok F d x'"
  by (auto simp: flat_ok_def faiss_shape_ok_def faiss_remove_vectors_def)

lemma flat_insert_total:
  "faiss_shape_ok F \<Longrightarrow> flat_ok F d x \<Longrightarrow> d \<le> int (length v) \<Longrightarrow>
     \<exists>x'. faiss_insert_vectors F v uid x = Inr x' \<and> flat_ok F d x'"
  by (auto simp: flat_ok_def faiss_shape_ok_def faiss_insert_vectors_def Let_def)

lemma flat_insert_short:
  "flat_ok F d x \<Longrightarrow> int (length v) < d \<Longrightarrow>
     faiss_insert_vectors F v uid x = Inl (Abort (Out_of_bounds ''data.data()''))"
  by (simp add: flat_ok_def faiss_insert_vectors_def Let_def)

section \<open>Files\<close>

lemma faiss_save_load:
  assumes "fs_writable fs p" "fa_read_index F (fa_write_index F (fi_index x)) = Inr (fi_index x)"
  shows "andthen (faiss_saveIndex F p x fs) (\<lambda>fs'. faiss_loadIndex F p fs' y) = Inr (y\<lparr>fi_index := fi_index x\<rparr>)"
  using assms by (simp add: faiss_saveIndex_def faiss_loadIndex_def)

end
