(* ===== verification/Hnsw_Index.thy ===== *)
theory Hnsw_Index
  imports Faiss_Index
begin

text \<open>
  hnswlib_index.cpp: the wrapper of \<^verbatim>\<open>hnswlib::HierarchicalNSW\<close>. Shown here: a search returns at
  most \<open>k\<close> labels, with a bitmap only ids the bitmap contains.
\<close>

datatype MetricType = L2 | IP

record 'h HNSWLibIndex =
  hi_index :: 'h
  max_elements :: nat

definition HNSWLibIndex_new :: "'h hnswlib \<Rightarrow> int \<Rightarrow> nat \<Rightarrow> MetricType \<Rightarrow> int \<Rightarrow> int \<Rightarrow> 'h HNSWLibIndex" where
  "HNSWLibIndex_new H dim num_data metric M ef_construction =
     \<lparr>hi_index = hn_new H (metric = L2) dim num_data M ef_construction, max_elements = num_data\<rparr>"

definition hnsw_insert_vectors ::
  "'h hnswlib \<Rightarrow> f32 list \<Rightarrow> u64 \<Rightarrow> 'h HNSWLibIndex \<Rightarrow> 'h HNSWLibIndex res" where
  "hnsw_insert_vectors H data label x =
     (let d = hn_dim H (hi_index x) in
      if int (length data) < d then Inl (Abort (Out_of_bounds ''data.data()''))
      else andthen (throwing (hn_add_point H (hi_index x) (take (nat d) data) label))
             (\<lambda>h. Inr (x\<lparr>hi_index := h\<rparr>)))"

definition RoaringBitmapIDFilter :: "'b croaring \<Rightarrow> 'b \<Rightarrow> u64 \<Rightarrow> bool" where
  "RoaringBitmapIDFilter R bitmap label = rb_contains R bitmap (ucast label)"

text \<open>
  \<^verbatim>\<open>setEf\<close> changes the index also when the search is only a read. \<^verbatim>\<open>k\<close> goes to a \<^verbatim>\<open>size_t\<close>.
\<close>

definition hnsw_search_vectors ::
  "'h hnswlib \<Rightarrow> 'b croaring \<Rightarrow> f32 list \<Rightarrow> int \<Rightarrow> 'b option \<Rightarrow> int \<Rightarrow> 'h HNSWLibIndex
   \<Rightarrow> ((int list \<times> f32 list) \<times> 'h HNSWLibIndex) res" where
  "hnsw_search_vectors H R query k bitmap ef_search x =
     (let h = hn_set_ef H (hi_index x) ef_search;
          selector = (case bitmap of None \<Rightarrow> None | Some b \<Rightarrow> Some (RoaringBitmapIDFilter R b))
      in if int (length query) < hn_dim H h then Inl (Abort (Out_of_bounds ''query.data()''))
         else
           let result = hn_search_knn H h query (word_of_int k) selector;
               indices = map (\<lambda>item. sint (snd item)) result;
               distances = map fst result
           in Inr ((indices, distances), x\<lparr>hi_index := h\<rparr>))"

definition hnsw_saveIndex :: "'h hnswlib \<Rightarrow> string \<Rightarrow> 'h HNSWLibIndex \<Rightarrow> filesys \<Rightarrow> filesys" where
  "hnsw_saveIndex H file_path x fs =
     (if fs_writable fs file_path then fs_write file_path (hn_save_index H (hi_index x)) fs else fs)"

definition hnsw_loadIndex :: "'h hnswlib \<Rightarrow> string \<Rightarrow> filesys \<Rightarrow> 'h HNSWLibIndex \<Rightarrow> 'h HNSWLibIndex res" where
  "hnsw_loadIndex H file_path fs x =
     (case fs_read fs file_path of
        None \<Rightarrow> Inr x
      | Some bytes \<Rightarrow>
          andthen (throwing (hn_load_index H (hi_index x) bytes (max_elements x)))
            (\<lambda>h. Inr (x\<lparr>hi_index := h\<rparr>)))"

section \<open>Results\<close>

lemma scast_u64_u32 [simp]: "(scast (l :: u64) :: u32) = ucast l"
  by (rule bit_word_eqI) (simp add: bit_simps)

lemma hnsw_search_result:
  assumes "hnsw_search_ok H" "hnsw_search_vectors H R q k bm ef x = Inr ((ls, ds), x')"
  shows "length ls \<le> unat (word_of_int k :: u64)" "length ds = length ls"
    and "bm = Some b \<Longrightarrow> l \<in> set ls \<Longrightarrow> rb_contains R b (word_of_int l)"
proof -
  define res where "res = hn_search_knn H (hn_set_ef H (hi_index x) ef) q (word_of_int k)
    (case bm of None \<Rightarrow> None | Some b \<Rightarrow> Some (RoaringBitmapIDFilter R b))"
  have r: "ls = map (\<lambda>item. sint (snd item)) res" "ds = map fst res"
    using assms(2) by (auto simp: hnsw_search_vectors_def res_def Let_def split: if_splits)
  have len: "length res \<le> unat (word_of_int k :: u64)"
    and sel: "\<forall>(d, l) \<in> set res. \<forall>p. (case bm of None \<Rightarrow> None | Some b \<Rightarrow> Some (RoaringBitmapIDFilter R b)) = Some p \<longrightarrow> p l"
    using assms(1) unfolding hnsw_search_ok_def res_def by blast+
  show "length ls \<le> unat (word_of_int k :: u64)" "length ds = length ls"
    using len by (simp_all add: r)
  show "rb_contains R b (word_of_int l)" if "bm = Some b" "l \<in> set ls"
    using sel that by (auto simp: r RoaringBitmapIDFilter_def)
qed

lemma hnsw_search_ids:
  assumes "hnsw_ids_ok H ids" "hnsw_search_vectors H R q k bm ef x = Inr ((ls, ds), x')"
  shows "set ls \<subseteq> sint ` ids (hi_index x)" "ids (hi_index x') = ids (hi_index x)"
  using assms by (fastforce simp: hnsw_search_vectors_def hnsw_ids_ok_def Let_def split: if_splits)+

lemma hnsw_insert_ids:
  assumes "hnsw_ids_ok H ids" "hnsw_insert_vectors H v l x = Inr x'"
  shows "ids (hi_index x') = insert l (ids (hi_index x))"
  using assms by (auto simp: hnsw_insert_vectors_def hnsw_ids_ok_def Let_def res_simps split: if_splits)

interpretation hnsw: id_filtered_search
  "\<lambda>R (H, ef, x) q k bm. andthen (hnsw_search_vectors H R q k bm ef x) (\<lambda>r. Inr (fst r))"
  "\<lambda>(H, ef, x). hnsw_search_ok H"
  by unfold_locales (auto simp: res_simps dest: hnsw_search_result)

end
