(* ===== verification/Filter_Index.thy ===== *)
theory Filter_Index
  imports Scalar_Storage
begin

text \<open>
  filter_index.cpp: for every integer field a map from its values to a Roaring bitmap of the
  ids that carry the value. Bitmaps are kept by pointer (\<open>None\<close> is the null pointer a failed
  deserialisation leaves) and hold 32-bit ids, so a 64-bit id is truncated on its way in.
  Shown here: the update is a set update of the membership relation \<open>fi_member\<close>, a query returns
  the ids of the matching values, and the text form reads back.
\<close>

named_theorems filter_simps

datatype filter_op = EQUAL | NOT_EQUAL

type_synonym 'b value_map = "(int, 'b option) omap"

record 'b filter_index =
  intFieldFilter :: "(string, 'b value_map) omap"

definition FilterIndex_new :: "'b filter_index" where
  "FilterIndex_new = \<lparr>intFieldFilter = []\<rparr>"

definition value_map_of :: "'b filter_index \<Rightarrow> string \<Rightarrow> 'b value_map" where
  "value_map_of fi fieldname =
     (case map_of (intFieldFilter fi) fieldname of None \<Rightarrow> [] | Some vm \<Rightarrow> vm)"

text \<open>\<^verbatim>\<open>intFieldFilter[fieldname][value] = bitmap\<close>\<close>

definition set_bitmap :: "string \<Rightarrow> int \<Rightarrow> 'b option \<Rightarrow> 'b filter_index \<Rightarrow> 'b filter_index" where
  "set_bitmap fieldname v bitmap fi =
     fi\<lparr>intFieldFilter :=
          om_insert fieldname (om_insert v bitmap (value_map_of fi fieldname)) (intFieldFilter fi)\<rparr>"

section \<open>Operations\<close>

definition addIntFieldFilter ::
  "'b croaring \<Rightarrow> string \<Rightarrow> int \<Rightarrow> u64 \<Rightarrow> 'b filter_index \<Rightarrow> 'b filter_index" where
  "addIntFieldFilter R fieldname v uid fi =
     (let bitmap = rb_add R (rb_create R) (ucast uid)
      in set_bitmap fieldname v (Some bitmap) fi)"

definition updateIntFieldFilter ::
  "'b croaring \<Rightarrow> string \<Rightarrow> int option \<Rightarrow> int \<Rightarrow> u64 \<Rightarrow> 'b filter_index \<Rightarrow> 'b filter_index res" where
  "updateIntFieldFilter R fieldname old_value new_value uid fi =
     (case map_of (intFieldFilter fi) fieldname of
        None \<Rightarrow> Inr (addIntFieldFilter R fieldname new_value uid fi)
      | Some vm \<Rightarrow>
          andthen
            (case old_value of
               None \<Rightarrow> Inr vm
             | Some ov \<Rightarrow>
                 (case map_of vm ov of
                    None \<Rightarrow> Inr vm
                  | Some p \<Rightarrow> andthen (deref ''old_bitmap'' p) (\<lambda>b.
                      Inr (om_insert ov (Some (rb_remove R b (ucast uid))) vm))))
            (\<lambda>vm1.
               let p = (case map_of vm1 new_value of None \<Rightarrow> Some (rb_create R) | Some p \<Rightarrow> p)
               in andthen (deref ''new_bitmap'' p) (\<lambda>b.
                    Inr (fi\<lparr>intFieldFilter :=
                           om_insert fieldname
                             (om_insert new_value (Some (rb_add R b (ucast uid))) vm1)
                             (intFieldFilter fi)\<rparr>))))"

definition getIntFieldFilterBitmap ::
  "'b croaring \<Rightarrow> string \<Rightarrow> filter_op \<Rightarrow> int \<Rightarrow> 'b \<Rightarrow> 'b filter_index \<Rightarrow> 'b res" where
  "getIntFieldFilterBitmap R fieldname op v result fi =
     (case map_of (intFieldFilter fi) fieldname of
        None \<Rightarrow> Inr result
      | Some vm \<Rightarrow>
          (case op of
             EQUAL \<Rightarrow>
               (case map_of vm v of
                  None \<Rightarrow> Inr result
                | Some p \<Rightarrow> andthen (deref ''bitmap'' p) (\<lambda>b. Inr (rb_or_inplace R result b)))
           | NOT_EQUAL \<Rightarrow>
               foldM (\<lambda>r (k, p). if k \<noteq> v
                        then andthen (deref ''bitmap'' p) (\<lambda>b. Inr (rb_or_inplace R r b))
                        else Inr r)
                 result vm))"

text \<open>One line per value: field, value and portable bitmap, separated by bars.\<close>

definition serialize_entry :: "'b croaring \<Rightarrow> string \<Rightarrow> int \<times> 'b option \<Rightarrow> string res" where
  "serialize_entry R field_name ve =
     andthen (deref ''bitmap'' (snd ve)) (\<lambda>b.
       Inr (field_name @ ''|'' @ to_string_int (fst ve) @ ''|'' @ rb_serialize R b @ [CHR 0x0A]))"

definition serializeIntFieldFilter :: "'b croaring \<Rightarrow> 'b filter_index \<Rightarrow> string res" where
  "serializeIntFieldFilter R fi =
     andthen
       (mapM (\<lambda>(field_name, vm). andthen (mapM (serialize_entry R field_name) vm)
                                   (\<lambda>ls. Inr (concat ls)))
         (intFieldFilter fi))
       (\<lambda>ls. Inr (concat ls))"

text \<open>The body of the loop of \<^verbatim>\<open>deserializeIntFieldFilter\<close> on one line.\<close>

definition deserialize_line :: "'b croaring \<Rightarrow> string \<Rightarrow> 'b filter_index \<Rightarrow> 'b filter_index res" where
  "deserialize_line R line fi =
     (let (field_name, st1, _) = getline CHR ''|'' [] (istringstream line);
          (value_str, st2, _) = getline CHR ''|'' [] st1
      in andthen (stol value_str) (\<lambda>v.
           let serialized_bitmap = is_rest st2
           in Inr (set_bitmap field_name v (rb_deserialize R serialized_bitmap) fi)))"

function deserialize_lines ::
  "'b croaring \<Rightarrow> string \<Rightarrow> istream \<Rightarrow> 'b filter_index \<Rightarrow> 'b filter_index res" where
  "deserialize_lines R line iss fi =
     (case getline CHR 0x0A line iss of
        (line', iss', ok) \<Rightarrow>
          if ok then andthen (deserialize_line R line' fi) (deserialize_lines R line' iss')
          else Inr fi)"
  by pat_completeness auto
termination
  by (relation "measure (\<lambda>(R, line, iss, fi). length (is_rest iss))")
     (auto dest: getline_consumes_sym)

declare deserialize_lines.simps [simp del]

definition deserializeIntFieldFilter ::
  "'b croaring \<Rightarrow> string \<Rightarrow> 'b filter_index \<Rightarrow> 'b filter_index res" where
  "deserializeIntFieldFilter R serialized_data fi =
     deserialize_lines R [] (istringstream serialized_data) fi"

definition FilterIndex_saveIndex ::
  "'b croaring \<Rightarrow> 'd rocksdb \<Rightarrow> string \<Rightarrow> 'b filter_index \<Rightarrow> 'd \<Rightarrow> 'd res" where
  "FilterIndex_saveIndex R K key fi db =
     andthen (serializeIntFieldFilter R fi) (\<lambda>serialized_data.
       Inr (storage_put K key serialized_data db))"

definition FilterIndex_loadIndex ::
  "'b croaring \<Rightarrow> 'd rocksdb \<Rightarrow> string \<Rightarrow> 'd \<Rightarrow> 'b filter_index \<Rightarrow> 'b filter_index res" where
  "FilterIndex_loadIndex R K key db fi =
     deserializeIntFieldFilter R (storage_get K key db) fi"

section \<open>Membership: what the index says about an id\<close>

definition vm_member :: "'b croaring \<Rightarrow> 'b value_map \<Rightarrow> int \<Rightarrow> u32 \<Rightarrow> bool" where
  "vm_member R vm v x = (case map_of vm v of Some (Some b) \<Rightarrow> rb_contains R b x | _ \<Rightarrow> False)"

definition fi_member :: "'b croaring \<Rightarrow> 'b filter_index \<Rightarrow> string \<Rightarrow> int \<Rightarrow> u32 \<Rightarrow> bool" where
  "fi_member R fi fieldname v x = vm_member R (value_map_of fi fieldname) v x"

text \<open>Keys in order and no null bitmap.\<close>

definition vm_ok :: "'b value_map \<Rightarrow> bool" where
  "vm_ok vm \<longleftrightarrow> om_ok vm \<and> (\<forall>v. map_of vm v \<noteq> Some None)"

definition fi_ok :: "'b filter_index \<Rightarrow> bool" where
  "fi_ok fi \<longleftrightarrow> om_ok (intFieldFilter fi) \<and>
     (\<forall>f vm. map_of (intFieldFilter fi) f = Some vm \<longrightarrow> vm_ok vm)"

lemma vm_ok_Nil [filter_simps]: "vm_ok []"
  by (simp add: vm_ok_def)

lemma vm_ok_insert [filter_simps]: "vm_ok vm \<Longrightarrow> vm_ok (om_insert v (Some b) vm)"
  by (simp add: vm_ok_def)

lemma vm_ok_mem: "vm_ok vm \<Longrightarrow> (k, p) \<in> set vm \<Longrightarrow> \<exists>b. p = Some b"
  by (cases p) (auto simp: vm_ok_def om_lookup_iff_mem)

lemma vm_ok_no_null: "vm_ok vm \<Longrightarrow> \<forall>(k, p) \<in> set vm. p \<noteq> None"
  using vm_ok_mem by fastforce

lemma fi_ok_mem: "fi_ok fi \<Longrightarrow> (f, vm) \<in> set (intFieldFilter fi) \<Longrightarrow> vm_ok vm"
  by (auto simp: fi_ok_def om_lookup_iff_mem)

lemma fi_ok_new [filter_simps]: "fi_ok FilterIndex_new"
  by (simp add: fi_ok_def FilterIndex_new_def)

lemma vm_ok_value_map_of [filter_simps]: "fi_ok fi \<Longrightarrow> vm_ok (value_map_of fi f)"
  by (auto simp: fi_ok_def value_map_of_def vm_ok_Nil split: option.splits)

lemma value_map_of_update [filter_simps]:
  "value_map_of (fi\<lparr>intFieldFilter := om_insert f vm (intFieldFilter fi)\<rparr>) g
     = (if g = f then vm else value_map_of fi g)"
  by (simp add: value_map_of_def)

lemma fi_ok_update [filter_simps]:
  "fi_ok fi \<Longrightarrow> vm_ok vm \<Longrightarrow> fi_ok (fi\<lparr>intFieldFilter := om_insert f vm (intFieldFilter fi)\<rparr>)"
  by (simp add: fi_ok_def)

lemma vm_member_insert [filter_simps]:
  "vm_member R (om_insert v (Some b) vm) w x \<longleftrightarrow>
     (if w = v then rb_contains R b x else vm_member R vm w x)"
  by (simp add: vm_member_def)

lemma vm_member_single [filter_simps]:
  "vm_member R [(v, Some b)] w x \<longleftrightarrow> w = v \<and> rb_contains R b x"
  by (simp add: vm_member_def)

lemma vm_member_Nil [filter_simps]: "\<not> vm_member R [] v x"
  by (simp add: vm_member_def)

lemma fi_member_new [filter_simps]: "\<not> fi_member R FilterIndex_new f v x"
  by (simp add: fi_member_def value_map_of_def FilterIndex_new_def vm_member_Nil)

lemma update_bitmap_total:
  assumes "fi_ok fi"
  shows "\<exists>fi'. updateIntFieldFilter R f old new uid fi = Inr fi' \<and> fi_ok fi'"
proof (cases "map_of (intFieldFilter fi) f")
  case None
  then show ?thesis
    using assms
    by (simp add: updateIntFieldFilter_def addIntFieldFilter_def set_bitmap_def filter_simps)
next
  case (Some vm)
  with assms have vm: "vm_ok vm" by (auto simp: fi_ok_def)
  define vm1 where "vm1 = (case old of None \<Rightarrow> vm
    | Some ov \<Rightarrow> (case map_of vm ov of Some (Some b) \<Rightarrow> om_insert ov (Some (rb_remove R b (ucast uid))) vm
                  | _ \<Rightarrow> vm))"
  have vm1: "vm_ok vm1"
    using vm by (auto simp: vm1_def filter_simps split: option.splits)
  then have "map_of vm1 new \<noteq> Some None" by (simp add: vm_ok_def)
  then obtain b where b: "(case map_of vm1 new of None \<Rightarrow> Some (rb_create R) | Some p \<Rightarrow> p) = Some b"
    by (cases "map_of vm1 new") auto
  have "(case old of None \<Rightarrow> Inr vm
             | Some ov \<Rightarrow>
                 (case map_of vm ov of
                    None \<Rightarrow> Inr vm
                  | Some p \<Rightarrow> andthen (deref ''old_bitmap'' p) (\<lambda>b.
                      Inr (om_insert ov (Some (rb_remove R b (ucast uid))) vm)))) = Inr vm1"
    using vm by (auto simp: vm1_def vm_ok_def split: option.splits)
  with Some b vm1 assms show ?thesis
    by (simp add: updateIntFieldFilter_def Let_def filter_simps)
qed

lemma update_bitmap_member:
  assumes R: "roaring_ok R" and ok: "fi_ok fi"
    and upd: "updateIntFieldFilter R f old new uid fi = Inr fi'"
  shows "fi_member R fi' g v x \<longleftrightarrow>
    (if g = f \<and> x = ucast uid
     then v = new \<or> (old \<noteq> Some v \<and> fi_member R fi g v x)
     else fi_member R fi g v x)"
proof (cases "map_of (intFieldFilter fi) f")
  case None
  then have "value_map_of fi f = []" by (simp add: value_map_of_def)
  with None upd show ?thesis
    by (auto simp: updateIntFieldFilter_def addIntFieldFilter_def set_bitmap_def
        fi_member_def filter_simps roaring_okD [OF R] split: if_splits)
next
  case (Some vm)
  then have vm: "value_map_of fi f = vm" "vm_ok vm"
    using ok by (auto simp: fi_ok_def value_map_of_def)
  from upd Some obtain vm1 b where
    vm1: "(case old of None \<Rightarrow> Inr vm
             | Some ov \<Rightarrow>
                 (case map_of vm ov of
                    None \<Rightarrow> Inr vm
                  | Some p \<Rightarrow> andthen (deref ''old_bitmap'' p) (\<lambda>b.
                      Inr (om_insert ov (Some (rb_remove R b (ucast uid))) vm)))) = Inr vm1"
    and b: "(case map_of vm1 new of None \<Rightarrow> Some (rb_create R) | Some p \<Rightarrow> p) = Some b"
    and fi': "fi' = fi\<lparr>intFieldFilter :=
       om_insert f (om_insert new (Some (rb_add R b (ucast uid))) vm1) (intFieldFilter fi)\<rparr>"
    by (auto simp: updateIntFieldFilter_def Let_def res_simps)
  have m1: "vm_member R vm1 w y \<longleftrightarrow> vm_member R vm w y \<and> \<not> (old = Some w \<and> y = ucast uid)" for w y
    using vm1 vm(2)
    by (auto simp: vm_member_def vm_ok_def roaring_okD [OF R] res_simps split: option.splits if_splits)
  have b': "rb_contains R b y \<longleftrightarrow> vm_member R vm1 new y" for y
    using b by (auto simp: vm_member_def roaring_okD [OF R] split: option.splits)
  show ?thesis
    using m1 b' vm(1) by (auto simp: fi' fi_member_def filter_simps roaring_okD [OF R])
qed

section \<open>The interface the database uses\<close>

text \<open>
  \<open>VectorDatabase::upsert\<close> updates one field after the other. What it relies on is an update
  that succeeds, keeps the invariant and moves one id within one field.
\<close>

locale field_filter =
  fixes lawful :: "'r \<Rightarrow> bool"
    and inv :: "'f \<Rightarrow> bool"
    and update :: "'r \<Rightarrow> string \<Rightarrow> int option \<Rightarrow> int \<Rightarrow> u64 \<Rightarrow> 'f \<Rightarrow> 'f res"
    and member :: "'r \<Rightarrow> 'f \<Rightarrow> string \<Rightarrow> int \<Rightarrow> u32 \<Rightarrow> bool"
  assumes update_total: "inv s \<Longrightarrow> \<exists>s'. update R f old new uid s = Inr s' \<and> inv s'"
    and update_member: "lawful R \<Longrightarrow> inv s \<Longrightarrow> update R f old new uid s = Inr s' \<Longrightarrow>
      member R s' g v x \<longleftrightarrow>
        (if g = f \<and> x = ucast uid then v = new \<or> (old \<noteq> Some v \<and> member R s g v x)
         else member R s g v x)"
begin

lemma update_inv: "inv s \<Longrightarrow> update R f old new uid s = Inr s' \<Longrightarrow> inv s'"
  using update_total [of s R f old new uid] by auto

lemma updates_total:
  "inv s \<Longrightarrow> \<exists>s'. foldM (\<lambda>s (f, old, new). update R f old new uid s) s us = Inr s' \<and> inv s'"
proof (induction us arbitrary: s)
  case Nil
  then show ?case by simp
next
  case (Cons u us)
  obtain f old new where u: "u = (f, old, new)" by (cases u)
  obtain s1 where "update R f old new uid s = Inr s1" "inv s1"
    using update_total [OF Cons.prems] by blast
  with Cons.IH u show ?case by simp
qed

lemma updates_member:
  assumes "lawful R" "inv s" "distinct (map fst us)"
    and "foldM (\<lambda>s (f, old, new). update R f old new uid s) s us = Inr s'"
  shows "member R s' g v x \<longleftrightarrow>
    (case map_of us g of
       None \<Rightarrow> member R s g v x
     | Some (old, new) \<Rightarrow>
         if x = ucast uid then v = new \<or> (old \<noteq> Some v \<and> member R s g v x)
         else member R s g v x)"
  using assms(2-)
proof (induction us arbitrary: s)
  case Nil
  then show ?case by simp
next
  case (Cons u us)
  obtain f old new where u: "u = (f, old, new)" by (cases u)
  from Cons.prems(3) u obtain s1 where s1: "update R f old new uid s = Inr s1"
    and rest: "foldM (\<lambda>s (f, old, new). update R f old new uid s) s1 us = Inr s'"
    by (auto simp: res_simps)
  note ih = Cons.IH [OF update_inv [OF Cons.prems(1) s1] _ rest]
  have "map_of us f = None" using Cons.prems(2) u by (simp add: map_of_eq_None_iff)
  then show ?case
    using ih Cons.prems(2) update_member [OF assms(1) Cons.prems(1) s1, of g v x] u
    by (auto split: option.splits)
qed

end

interpretation ff: field_filter "roaring_ok :: 'b croaring \<Rightarrow> bool" fi_ok
  updateIntFieldFilter fi_member
proof unfold_locales
  fix s :: "'b filter_index" and R f old new uid
  assume "fi_ok s"
  then show "\<exists>s'. updateIntFieldFilter R f old new uid s = Inr s' \<and> fi_ok s'"
    by (rule update_bitmap_total)
next
  fix R :: "'b croaring" and s f old new uid s' g v x
  assume "roaring_ok R" "fi_ok s" "updateIntFieldFilter R f old new uid s = Inr s'"
  then show "fi_member R s' g v x \<longleftrightarrow>
      (if g = f \<and> x = ucast uid then v = new \<or> (old \<noteq> Some v \<and> fi_member R s g v x)
       else fi_member R s g v x)"
    by (rule update_bitmap_member)
qed

section \<open>Queries\<close>

lemma or_inplace_loop:
  assumes R: "roaring_ok R"
    and vm: "\<forall>(k, p) \<in> set vm. p \<noteq> None"
  shows "\<exists>r. foldM (\<lambda>r (k, p). if k \<noteq> v
              then andthen (deref ''bitmap'' p) (\<lambda>b. Inr (rb_or_inplace R r b)) else Inr r) result vm = Inr r
     \<and> (\<forall>x. rb_contains R r x \<longleftrightarrow>
          rb_contains R result x \<or> (\<exists>k b. k \<noteq> v \<and> (k, Some b) \<in> set vm \<and> rb_contains R b x))"
  using vm
proof (induction vm arbitrary: result)
  case Nil
  then show ?case by simp
next
  case (Cons e vm)
  then obtain k b where e: "e = (k, Some b)" and vm: "\<forall>(k, p) \<in> set vm. p \<noteq> None"
    by (cases e) auto
  show ?case
  proof (cases "k = v")
    case True
    with Cons.IH [OF vm, of result] e show ?thesis by (auto; blast)
  next
    case False
    obtain r where r: "foldM (\<lambda>r (k, p). if k \<noteq> v
              then andthen (deref ''bitmap'' p) (\<lambda>b. Inr (rb_or_inplace R r b)) else Inr r)
              (rb_or_inplace R result b) vm = Inr r"
      and m: "rb_contains R r x \<longleftrightarrow> rb_contains R (rb_or_inplace R result b) x \<or>
        (\<exists>k b. k \<noteq> v \<and> (k, Some b) \<in> set vm \<and> rb_contains R b x)" for x
      using Cons.IH [OF vm, of "rb_or_inplace R result b"] by blast
    have "rb_contains R r x \<longleftrightarrow> rb_contains R result x \<or>
        (\<exists>k b. k \<noteq> v \<and> (k, Some b) \<in> set (e # vm) \<and> rb_contains R b x)" for x
      using m [of x] False e roaring_okD(4) [OF R] by auto
    with r False e show ?thesis by simp
  qed
qed

lemma query_bitmap:
  assumes R: "roaring_ok R" and ok: "fi_ok fi"
  shows "\<exists>r. getIntFieldFilterBitmap R f op v result fi = Inr r \<and>
    (\<forall>x. rb_contains R r x \<longleftrightarrow> rb_contains R result x \<or>
       (case op of EQUAL \<Rightarrow> fi_member R fi f v x
        | NOT_EQUAL \<Rightarrow> \<exists>w. w \<noteq> v \<and> fi_member R fi f w x))"
proof (cases "map_of (intFieldFilter fi) f")
  case None
  then show ?thesis
    by (cases op) (simp_all add: getIntFieldFilterBitmap_def fi_member_def value_map_of_def vm_member_def)
next
  case (Some vm)
  then have vm: "vm_ok vm" "value_map_of fi f = vm"
    using ok by (auto simp: fi_ok_def value_map_of_def)
  show ?thesis
  proof (cases op)
    case EQUAL
    show ?thesis
    proof (cases "map_of vm v")
      case None
      with Some EQUAL vm(2) show ?thesis
        by (simp add: getIntFieldFilterBitmap_def fi_member_def vm_member_def)
    next
      case (Some p)
      with vm(1) obtain b where "p = Some b" by (cases p) (auto simp: vm_ok_def)
      with Some \<open>map_of (intFieldFilter fi) f = Some vm\<close> EQUAL vm(2) show ?thesis
        by (simp add: getIntFieldFilterBitmap_def fi_member_def vm_member_def roaring_okD [OF R])
    qed
  next
    case NOT_EQUAL
    have mem: "vm_member R vm w x \<longleftrightarrow> (\<exists>b. (w, Some b) \<in> set vm \<and> rb_contains R b x)" for w x
    proof -
      have "(w, p) \<in> set vm \<longleftrightarrow> map_of vm w = Some p" for p
        using vm(1) by (simp only: vm_ok_def om_lookup_iff_mem)
      then show ?thesis by (simp add: vm_member_def split: option.splits)
    qed
    from or_inplace_loop [OF R vm_ok_no_null [OF vm(1)], of v result] Some NOT_EQUAL vm(2) show ?thesis
      by (simp add: getIntFieldFilterBitmap_def fi_member_def mem)
  qed
qed

section \<open>The text form\<close>

definition entry_line :: "'b croaring \<Rightarrow> string \<times> int \<times> 'b \<Rightarrow> string" where
  "entry_line R e =
     (case e of (f, v, b) \<Rightarrow> f @ ''|'' @ to_string_int v @ ''|'' @ rb_serialize R b @ [CHR 0x0A])"

text \<open>
  What the text form can hold: names without a bar, names and bitmaps without a newline byte,
  64-bit values.
\<close>

definition entry_portable :: "'b croaring \<Rightarrow> string \<times> int \<times> 'b \<Rightarrow> bool" where
  "entry_portable R e =
     (case e of (f, v, b) \<Rightarrow>
        CHR ''|'' \<notin> set f \<and> CHR 0x0A \<notin> set f \<and> CHR 0x0A \<notin> set (rb_serialize R b) \<and>
        - (2 ^ 63) \<le> v \<and> v < 2 ^ 63 \<and> roaring_portable R b)"

definition field_entries :: "string \<times> 'b value_map \<Rightarrow> (string \<times> int \<times> 'b) list" where
  "field_entries fe = map (\<lambda>(v, p). (fst fe, v, the p)) (snd fe)"

definition fi_entries :: "'b filter_index \<Rightarrow> (string \<times> int \<times> 'b) list" where
  "fi_entries fi = concat (map field_entries (intFieldFilter fi))"

definition fi_portable :: "'b croaring \<Rightarrow> 'b filter_index \<Rightarrow> bool" where
  "fi_portable R fi \<longleftrightarrow> fi_ok fi \<and> list_all (entry_portable R) (fi_entries fi) \<and>
     list_all (\<lambda>(f, vm). vm \<noteq> []) (intFieldFilter fi)"

lemma deserialize_entry_line:
  assumes "entry_portable R (f, v, b)"
  shows "deserialize_lines R old (istringstream (entry_line R (f, v, b) @ s)) fi =
    andthen (Inr (set_bitmap f v (Some b) fi))
      (deserialize_lines R (butlast (entry_line R (f, v, b))) (istringstream s))"
proof -
  let ?l = "f @ ''|'' @ to_string_int v @ ''|'' @ rb_serialize R b"
  have nl: "CHR 0x0A \<notin> set ?l" using assms by (simp add: entry_portable_def)
  have "entry_line R (f, v, b) @ s = ?l @ CHR 0x0A # s" by (simp add: entry_line_def)
  then have g: "getline CHR 0x0A old (istringstream (entry_line R (f, v, b) @ s))
      = (?l, istringstream s, True)"
    using getline_delim [OF nl, of old s] by (simp add: istringstream_def)
  have f1: "getline CHR ''|'' [] (istringstream ?l) =
      (f, istringstream (to_string_int v @ CHR ''|'' # rb_serialize R b), True)"
    using assms getline_delim [of "CHR ''|''" f "[]" "to_string_int v @ CHR ''|'' # rb_serialize R b"]
    by (simp add: entry_portable_def istringstream_def)
  have f2: "getline CHR ''|'' [] (istringstream (to_string_int v @ CHR ''|'' # rb_serialize R b)) =
      (to_string_int v, istringstream (rb_serialize R b), True)"
    using getline_delim [of "CHR ''|''" "to_string_int v" "[]" "rb_serialize R b"]
    by (simp add: istringstream_def)
  have "deserialize_line R ?l fi = Inr (set_bitmap f v (Some b) fi)"
    using assms
    by (simp only: deserialize_line_def f1 f2 split_beta fst_conv snd_conv Let_def)
       (simp add: entry_portable_def roaring_portable_def istringstream_def stol_to_string_int)
  moreover have "butlast (entry_line R (f, v, b)) = ?l" by (simp add: entry_line_def butlast_append)
  ultimately show ?thesis
    by (subst deserialize_lines.simps) (simp add: g)
qed

lemma deserialize_entry_lines:
  assumes "list_all (entry_portable R) es"
  shows "deserialize_lines R old (istringstream (concat (map (entry_line R) es))) fi =
    Inr (fold (\<lambda>(f, v, b). set_bitmap f v (Some b)) es fi)"
  using assms
proof (induction es arbitrary: old fi)
  case Nil
  show ?case
    by (subst deserialize_lines.simps) (simp add: getline_def istringstream_def)
next
  case (Cons e es)
  obtain f v b where e: "e = (f, v, b)" by (cases e)
  with Cons show ?case by (simp add: deserialize_entry_line)
qed

lemma fold_field_entries:
  assumes "om_ok (fs @ [(f, vm1 @ vm)])" "om_ok (vm1 @ vm)" "\<forall>(v, p) \<in> set vm. p \<noteq> None"
  shows "fold (\<lambda>(f, v, b). set_bitmap f v (Some b)) (field_entries (f, vm))
      \<lparr>intFieldFilter = fs @ [(f, vm1)]\<rparr> = \<lparr>intFieldFilter = fs @ [(f, vm1 @ vm)]\<rparr>"
  using assms
proof (induction vm arbitrary: vm1)
  case Nil
  then show ?case by (simp add: field_entries_def)
next
  case (Cons e vm)
  then obtain v b where e: "e = (v, Some b)" by (cases e) auto
  have fs: "\<forall>k \<in> fst ` set fs. k < f" and vm1: "\<forall>k \<in> fst ` set vm1. k < v"
    using Cons.prems e by (auto simp: om_ok_append)
  then have "map_of fs f = None" by (force simp: map_of_eq_None_iff)
  then have "value_map_of \<lparr>intFieldFilter = fs @ [(f, vm1)]\<rparr> f = vm1"
    by (simp add: value_map_of_def map_add_def)
  then have "set_bitmap f v (Some b) \<lparr>intFieldFilter = fs @ [(f, vm1)]\<rparr>
      = \<lparr>intFieldFilter = fs @ [(f, vm1 @ [e])]\<rparr>"
    using fs vm1 e by (simp add: set_bitmap_def om_insert_last om_insert_replace_last)
  with Cons.IH [of "vm1 @ [e]"] Cons.prems e show ?case
    by (simp add: field_entries_def)
qed

lemma fold_fi_entries:
  assumes "om_ok (fs @ gs)" "\<forall>(f, vm) \<in> set gs. vm_ok vm \<and> vm \<noteq> []"
  shows "fold (\<lambda>(f, v, b). set_bitmap f v (Some b)) (concat (map field_entries gs))
      \<lparr>intFieldFilter = fs\<rparr> = \<lparr>intFieldFilter = fs @ gs\<rparr>"
  using assms
proof (induction gs arbitrary: fs)
  case Nil
  then show ?case by simp
next
  case (Cons g gs)
  obtain f vm where g: "g = (f, vm)" by (cases g)
  with Cons.prems obtain e vm' where vm: "vm = e # vm'" "vm_ok vm" by (cases vm) auto
  have some: "\<forall>(v, p) \<in> set vm. p \<noteq> None" using vm(2) by (rule vm_ok_no_null)
  then obtain v b where e: "e = (v, Some b)" using vm(1) by (cases e) auto
  have fs: "\<forall>k \<in> fst ` set fs. k < f" and ok: "om_ok fs" using Cons.prems(1) g by (auto simp: om_ok_append)
  then have "map_of fs f = None" by (force simp: map_of_eq_None_iff)
  then have "set_bitmap f v (Some b) \<lparr>intFieldFilter = fs\<rparr> = \<lparr>intFieldFilter = fs @ [(f, [e])]\<rparr>"
    using fs e by (simp add: set_bitmap_def value_map_of_def om_insert_last)
  then have one: "fold (\<lambda>(f, v, b). set_bitmap f v (Some b)) (field_entries g) \<lparr>intFieldFilter = fs\<rparr>
      = \<lparr>intFieldFilter = fs @ [g]\<rparr>"
    using fold_field_entries [of fs f "[e]" vm'] fs ok vm some e g
    by (simp add: field_entries_def vm_ok_def om_ok_append om_ok_Cons)
  with Cons.IH [of "fs @ [g]"] Cons.prems show ?case by simp
qed

lemma serialize_entries:
  assumes "fi_portable R fi"
  shows "serializeIntFieldFilter R fi = Inr (concat (map (entry_line R) (fi_entries fi)))"
proof -
  have vm: "mapM (serialize_entry R f) vm = Inr (map (entry_line R) (field_entries (f, vm)))"
    if "\<forall>(v, p) \<in> set vm. p \<noteq> None" for f vm
    using that
    by (induction vm) (auto simp: serialize_entry_def entry_line_def field_entries_def)
  have "mapM (\<lambda>(field_name, vm). andthen (mapM (serialize_entry R field_name) vm) (\<lambda>ls. Inr (concat ls))) gs
     = Inr (map (\<lambda>g. concat (map (entry_line R) (field_entries g))) gs)"
    if "\<forall>(f, vm) \<in> set gs. \<forall>(v, p) \<in> set vm. p \<noteq> None" for gs
    using that by (induction gs) (auto simp: vm)
  moreover have "\<forall>(f, vm) \<in> set (intFieldFilter fi). \<forall>(v, p) \<in> set vm. p \<noteq> None"
    using assms by (auto simp: fi_portable_def dest!: fi_ok_mem vm_ok_mem)
  moreover have "concat (map (\<lambda>g. concat (map (entry_line R) (field_entries g))) gs) =
      concat (map (entry_line R) (concat (map field_entries gs)))" for gs
    by (induction gs) auto
  ultimately show ?thesis
    by (simp add: serializeIntFieldFilter_def fi_entries_def)
qed

lemma filter_text_roundtrip:
  assumes "fi_portable R fi"
  shows "andthen (serializeIntFieldFilter R fi) (\<lambda>s. deserializeIntFieldFilter R s FilterIndex_new) = Inr fi"
proof -
  have "list_all (entry_portable R) (fi_entries fi)" using assms by (simp add: fi_portable_def)
  moreover have "fold (\<lambda>(f, v, b). set_bitmap f v (Some b)) (fi_entries fi) FilterIndex_new = fi"
  proof -
    have "om_ok (intFieldFilter fi)" "\<forall>(f, vm) \<in> set (intFieldFilter fi). vm_ok vm \<and> vm \<noteq> []"
      using assms fi_ok_mem [of fi]
      by (auto simp: fi_portable_def fi_ok_def list_all_iff)
    with fold_fi_entries [of "[]" "intFieldFilter fi"]
    show ?thesis by (cases fi) (simp add: fi_entries_def FilterIndex_new_def)
  qed
  ultimately show ?thesis
    using serialize_entries [OF assms]
    by (simp add: deserializeIntFieldFilter_def deserialize_entry_lines)
qed

text \<open>A newline in the bytes of a bitmap: what follows it is read as a line of its own.\<close>

lemma newline_breaks_text:
  assumes "set f \<inter> {CHR ''|'', CHR 0x0A} = {} \<and> - (2 ^ 63) \<le> v \<and> v < 2 ^ 63 \<and>
    rb_serialize R b = p @ CHR 0x0A # q \<and> CHR 0x0A \<notin> set p \<and> set q \<inter> {CHR ''|'', CHR 0x0A} = {}"
  shows "andthen (serializeIntFieldFilter R \<lparr>intFieldFilter = [(f, [(v, Some b)])]\<rparr>)
    (\<lambda>s. deserializeIntFieldFilter R s FilterIndex_new) = Inl (Throw (Invalid_argument ''stol''))"
proof -
  let ?l = "f @ CHR ''|'' # to_string_int v @ CHR ''|'' # p"
  have text_eq: "serializeIntFieldFilter R \<lparr>intFieldFilter = [(f, [(v, Some b)])]\<rparr> = Inr (?l @ CHR 0x0A # q @ [CHR 0x0A])"
    using assms by (simp add: serializeIntFieldFilter_def serialize_entry_def)
  have nl: "CHR 0x0A \<notin> set ?l" using assms by auto
  have g: "getline CHR 0x0A [] (istringstream (?l @ CHR 0x0A # q @ [CHR 0x0A])) = (?l, istringstream (q @ [CHR 0x0A]), True)"
    using getline_delim [OF nl, of "[]"] by (simp add: istringstream_def)
  have f1: "getline CHR ''|'' [] (istringstream ?l) = (f, istringstream (to_string_int v @ CHR ''|'' # p), True)"
    using assms getline_delim [of "CHR ''|''" f "[]"] by (simp add: istringstream_def)
  have f2: "getline CHR ''|'' [] (istringstream (to_string_int v @ CHR ''|'' # p)) = (to_string_int v, istringstream p, True)"
    using getline_delim [of "CHR ''|''" "to_string_int v" "[]" p] by (simp add: istringstream_def)
  have first: "deserialize_line R ?l FilterIndex_new = Inr (set_bitmap f v (rb_deserialize R p) FilterIndex_new)"
    using assms by (simp only: deserialize_line_def f1 f2 split_beta fst_conv snd_conv Let_def)
      (simp add: istringstream_def stol_to_string_int)
  have g2: "getline CHR 0x0A ?l (istringstream (q @ [CHR 0x0A])) = (q, istringstream [], True)"
    using assms getline_delim [of "CHR 0x0A" q ?l "[]"] by (simp add: istringstream_def)
  have h1: "fst (getline CHR ''|'' [] (istringstream q)) = q" "is_rest (fst (snd (getline CHR ''|'' [] (istringstream q)))) = []"
    using assms by (auto simp: getline_def istringstream_def Let_def takeWhile_eq_all_conv dropWhile_eq_Nil_conv)
  have "fst (getline CHR ''|'' [] s) = []" if "is_rest s = []" for s
    using that by (simp add: getline_def Let_def)
  then have second: "deserialize_line R q fi = Inl (Throw (Invalid_argument ''stol''))" for fi
    using h1 by (simp add: deserialize_line_def split_beta Let_def stol_def sto_signed_def strto_def isspace_def)
  have "deserialize_lines R [] (istringstream (?l @ CHR 0x0A # q @ [CHR 0x0A])) FilterIndex_new =
      andthen (deserialize_line R ?l FilterIndex_new) (deserialize_lines R ?l (istringstream (q @ [CHR 0x0A])))"
    by (subst deserialize_lines.simps) (simp only: g prod.case if_True)
  moreover have "deserialize_lines R ?l (istringstream (q @ [CHR 0x0A])) fi = Inl (Throw (Invalid_argument ''stol''))" for fi
    by (subst deserialize_lines.simps) (simp add: g2 second)
  ultimately show ?thesis
    unfolding text_eq andthen_Inr deserializeIntFieldFilter_def by (simp only: first andthen_Inr)
qed

section \<open>Properties\<close>

text \<open>
  C17. Updating a field of an id never fails on a well-formed index, keeps it well formed, and
  changes exactly the membership of that id in that field: the id is under the new value, no
  longer under the old one, and everything else stays.
\<close>

theorem update_moves_one_id:
  assumes "roaring_ok R" "fi_ok fi"
  shows "\<exists>fi'. updateIntFieldFilter R f old new uid fi = Inr fi' \<and> fi_ok fi' \<and>
    (\<forall>g v x. fi_member R fi' g v x \<longleftrightarrow>
       (if g = f \<and> x = ucast uid then v = new \<or> (old \<noteq> Some v \<and> fi_member R fi g v x)
        else fi_member R fi g v x))"
  using ff.update_total [OF assms(2), of R f old new uid] ff.update_member [OF assms] by blast

theorem update_moves_one_id_witness:
  "\<exists>fi'. updateIntFieldFilter list_bitmap ''a'' None 5 7 FilterIndex_new = Inr fi' \<and>
    fi_member list_bitmap fi' ''a'' 5 7 \<and> \<not> fi_member list_bitmap fi' ''a'' 5 8"
  using update_moves_one_id [OF list_bitmap_ok fi_ok_new, of "''a''" None 5 7]
  by (auto simp: fi_member_new)

text \<open>
  A query adds to the bitmap it is given the ids under the value (\<open>EQUAL\<close>), or the ids under
  some other value of the field (\<open>NOT_EQUAL\<close>); an id without the field is in neither.
\<close>

theorem query_selects_members:
  assumes "roaring_ok R" "fi_ok fi"
  shows "\<exists>r. getIntFieldFilterBitmap R f op v result fi = Inr r \<and>
    (\<forall>x. rb_contains R r x \<longleftrightarrow> rb_contains R result x \<or>
       (case op of EQUAL \<Rightarrow> fi_member R fi f v x
        | NOT_EQUAL \<Rightarrow> \<exists>w. w \<noteq> v \<and> fi_member R fi f w x))"
  using assms by (rule query_bitmap)

definition sample_filter :: "u32 list filter_index" where
  "sample_filter = \<lparr>intFieldFilter = [(''a'', [(1, Some [7]), (2, Some [8, 9])])]\<rparr>"

lemma sample_filter_ok: "fi_ok sample_filter"
  by (auto simp: sample_filter_def fi_ok_def vm_ok_def om_ok_Cons split: if_splits)

theorem query_selects_members_witness:
  "\<exists>r. getIntFieldFilterBitmap list_bitmap ''a'' NOT_EQUAL 1 [] sample_filter = Inr r \<and>
    rb_contains list_bitmap r 8 \<and> \<not> rb_contains list_bitmap r 7"
proof -
  have m: "fi_member list_bitmap sample_filter ''a'' 2 8"
    "\<not> (\<exists>w. w \<noteq> 1 \<and> fi_member list_bitmap sample_filter ''a'' w 7)" "\<not> rb_contains list_bitmap [] 7"
    by (auto simp: sample_filter_def fi_member_def value_map_of_def vm_member_def list_bitmap_def split: if_splits)
  obtain r where r: "getIntFieldFilterBitmap list_bitmap ''a'' NOT_EQUAL 1 [] sample_filter = Inr r"
    "\<And>x. rb_contains list_bitmap r x \<longleftrightarrow> rb_contains list_bitmap [] x \<or>
       (\<exists>w. w \<noteq> 1 \<and> fi_member list_bitmap sample_filter ''a'' w x)"
    using query_selects_members [OF list_bitmap_ok sample_filter_ok, of "''a''" NOT_EQUAL 1 "[]"]
    unfolding filter_op.case by blast
  have "\<exists>w::int. w \<noteq> 1 \<and> fi_member list_bitmap sample_filter ''a'' w 8" using m(1) by (intro exI [of _ 2]) simp
  with r m show ?thesis by blast
qed

text \<open>A bitmap of ids written one byte each: id 10 is written as the newline.\<close>

definition byte_bitmap :: "u32 list croaring" where
  "byte_bitmap = list_bitmap\<lparr>rb_serialize := map (\<lambda>x. char_of (unat x)), rb_deserialize := (\<lambda>s. Some (map (\<lambda>c. of_nat (of_char c)) s))\<rparr>"

text \<open>
  C18. The text form of an index reads back as the same index if CRoaring reads its bitmaps back, no
  name holds a bar or a newline, no value is empty of entries and no bitmap's bytes hold a newline
  (\<open>fi_portable\<close>). The last condition is needed, because the bytes are written as they are and read
  back line by line: for a bitmap whose bytes have a newline, with neither a bar nor another newline
  after it, the rest of the bytes is taken for an entry without a value, and reading the text
  throws, whatever CRoaring makes of the bytes before.
\<close>

theorem serialize_deserialize:
  assumes "fi_portable R fi"
  shows "andthen (serializeIntFieldFilter R fi) (\<lambda>s. deserializeIntFieldFilter R s FilterIndex_new) = Inr fi \<and>
    (\<forall>f v b p q. set f \<inter> {CHR ''|'', CHR 0x0A} = {} \<and> - (2 ^ 63) \<le> v \<and> v < 2 ^ 63 \<and>
       rb_serialize R b = p @ CHR 0x0A # q \<and> CHR 0x0A \<notin> set p \<and> set q \<inter> {CHR ''|'', CHR 0x0A} = {} \<longrightarrow>
       andthen (serializeIntFieldFilter R \<lparr>intFieldFilter = [(f, [(v, Some b)])]\<rparr>)
         (\<lambda>s. deserializeIntFieldFilter R s FilterIndex_new) = Inl (Throw (Invalid_argument ''stol'')))"
  by (rule conjI, rule filter_text_roundtrip [OF assms], intro allI impI, erule newline_breaks_text)

theorem serialize_deserialize_witness:
  "andthen (serializeIntFieldFilter byte_bitmap sample_filter)
     (\<lambda>s. deserializeIntFieldFilter byte_bitmap s FilterIndex_new) = Inr sample_filter \<and>
   andthen (serializeIntFieldFilter byte_bitmap \<lparr>intFieldFilter = [(''a'', [(1, Some [7, 10])])]\<rparr>)
     (\<lambda>s. deserializeIntFieldFilter byte_bitmap s FilterIndex_new) = Inl (Throw (Invalid_argument ''stol''))"
proof -
  have "fi_portable byte_bitmap sample_filter"
    using sample_filter_ok
    by (simp add: fi_portable_def fi_entries_def field_entries_def sample_filter_def entry_portable_def
        roaring_portable_def byte_bitmap_def list_bitmap_def char_of_def bit_0)
  note t = serialize_deserialize [OF this]
  have "rb_serialize byte_bitmap [7, 10] = [CHR 0x07] @ CHR 0x0A # []"
    by (simp add: byte_bitmap_def char_of_def bit_0)
  then have "set ''a'' \<inter> {CHR ''|'', CHR 0x0A} = {} \<and> - (2 ^ 63) \<le> (1 :: int) \<and> (1 :: int) < 2 ^ 63 \<and>
      rb_serialize byte_bitmap [7, 10] = [CHR 0x07] @ CHR 0x0A # [] \<and> CHR 0x0A \<notin> set [CHR 0x07] \<and>
      set [] \<inter> {CHR ''|'', CHR 0x0A} = {}" by simp
  then show ?thesis using t by blast
qed

end
