(* ===== verification/Index_Factory.thy ===== *)
theory Index_Factory
  imports Hnsw_Index Filter_Index
begin

text \<open>
  index_factory.cpp: the indexes of the process by type, in a \<^verbatim>\<open>std::map\<close> of \<^verbatim>\<open>void*\<close>. The
  pointer is modelled with its dynamic type, so a wrong \<^verbatim>\<open>static_cast\<close> is visible. Shown here:
  every entry has the type its key says, initialisation and snapshot loading keep it so, and a
  snapshot reads back what was saved.
\<close>

datatype IndexType = FLAT | HNSW | FILTER | UNKNOWN

definition index_type_int :: "IndexType \<Rightarrow> int" where
  "index_type_int t = (case t of FLAT \<Rightarrow> 0 | HNSW \<Rightarrow> 1 | FILTER \<Rightarrow> 2 | UNKNOWN \<Rightarrow> -1)"

lemma index_type_int_inject [simp]: "index_type_int a = index_type_int b \<longleftrightarrow> a = b"
  by (cases a; cases b) (simp_all add: index_type_int_def)

text \<open>\<^verbatim>\<open>std::map\<close> orders the keys as the enum does.\<close>

instantiation IndexType :: linorder
begin

definition less_eq_IndexType :: "IndexType \<Rightarrow> IndexType \<Rightarrow> bool" where
  "less_eq_IndexType a b = (index_type_int a \<le> index_type_int b)"

definition less_IndexType :: "IndexType \<Rightarrow> IndexType \<Rightarrow> bool" where
  "less_IndexType a b = (index_type_int a < index_type_int b)"

instance
  by standard (auto simp: less_eq_IndexType_def less_IndexType_def)

end

datatype ('b, 'f, 'h) index =
    Flat_index "'f FaissIndex"
  | Hnsw_index "'h HNSWLibIndex"
  | Filter_index "'b filter_index"

record ('b, 'f, 'h) IndexFactory =
  index_map :: "(IndexType, ('b, 'f, 'h) index) omap"

definition globalIndexFactory :: "('b, 'f, 'h) IndexFactory" where
  "globalIndexFactory = \<lparr>index_map = []\<rparr>"

text \<open>The casts from \<^verbatim>\<open>void*\<close>, followed by a call on the object.\<close>

fun as_flat :: "('b, 'f, 'h) index option \<Rightarrow> 'f FaissIndex res" where
  "as_flat None = Inl (Abort (Null_dereference ''FaissIndex''))"
| "as_flat (Some (Flat_index x)) = Inr x"
| "as_flat (Some _) = Inl (Abort Bad_cast)"

fun as_hnsw :: "('b, 'f, 'h) index option \<Rightarrow> 'h HNSWLibIndex res" where
  "as_hnsw None = Inl (Abort (Null_dereference ''HNSWLibIndex''))"
| "as_hnsw (Some (Hnsw_index x)) = Inr x"
| "as_hnsw (Some _) = Inl (Abort Bad_cast)"

fun as_filter :: "('b, 'f, 'h) index option \<Rightarrow> 'b filter_index res" where
  "as_filter None = Inl (Abort (Null_dereference ''FilterIndex''))"
| "as_filter (Some (Filter_index x)) = Inr x"
| "as_filter (Some _) = Inl (Abort Bad_cast)"

definition set_index :: "IndexType \<Rightarrow> ('b, 'f, 'h) index \<Rightarrow> ('b, 'f, 'h) IndexFactory \<Rightarrow> ('b, 'f, 'h) IndexFactory" where
  "set_index t i x = x\<lparr>index_map := om_insert t i (index_map x)\<rparr>"

definition IndexFactory_init ::
  "('b, 'd, 'f, 'h) libs \<Rightarrow> IndexType \<Rightarrow> int \<Rightarrow> int \<Rightarrow> MetricType
   \<Rightarrow> ('b, 'f, 'h) IndexFactory \<Rightarrow> ('b, 'f, 'h) IndexFactory" where
  "IndexFactory_init L type dim num_data metric x =
     (case type of
        FLAT \<Rightarrow> set_index FLAT (Flat_index (FaissIndex_new (fa_new_idmap_flat (lib_fa L) dim (metric = L2)))) x
      | HNSW \<Rightarrow> set_index HNSW (Hnsw_index (HNSWLibIndex_new (lib_hn L) dim
                  (unat (word_of_int num_data :: u64)) metric 16 200)) x
      | FILTER \<Rightarrow> set_index FILTER (Filter_index FilterIndex_new) x
      | _ \<Rightarrow> x)"

definition getIndex :: "IndexType \<Rightarrow> ('b, 'f, 'h) IndexFactory \<Rightarrow> ('b, 'f, 'h) index option" where
  "getIndex type x = map_of (index_map x) type"

definition index_file_path :: "string \<Rightarrow> IndexType \<Rightarrow> string" where
  "index_file_path folder_path t = folder_path @ to_string_int (index_type_int t) @ ''.index''"

definition save_entry ::
  "('b, 'd, 'f, 'h) libs \<Rightarrow> string \<Rightarrow> 'd \<times> filesys \<Rightarrow> IndexType \<times> ('b, 'f, 'h) index \<Rightarrow> ('d \<times> filesys) res" where
  "save_entry L folder_path dfs entry =
     (let (db, fs) = dfs; (index_type, index) = entry;
          file_path = index_file_path folder_path index_type
      in case index_type of
           FLAT \<Rightarrow> andthen (as_flat (Some index)) (\<lambda>i.
                     andthen (faiss_saveIndex (lib_fa L) file_path i fs) (\<lambda>fs'. Inr (db, fs')))
         | HNSW \<Rightarrow> andthen (as_hnsw (Some index)) (\<lambda>i.
                     Inr (db, hnsw_saveIndex (lib_hn L) file_path i fs))
         | FILTER \<Rightarrow> andthen (as_filter (Some index)) (\<lambda>i.
                     andthen (FilterIndex_saveIndex (lib_rb L) (lib_rk L) file_path i db) (\<lambda>db'. Inr (db', fs)))
         | _ \<Rightarrow> Inr (db, fs))"

definition IndexFactory_saveIndex ::
  "('b, 'd, 'f, 'h) libs \<Rightarrow> string \<Rightarrow> ('b, 'f, 'h) IndexFactory \<Rightarrow> 'd \<times> filesys \<Rightarrow> ('d \<times> filesys) res" where
  "IndexFactory_saveIndex L folder_path x dfs = foldM (save_entry L folder_path) dfs (index_map x)"

definition load_entry ::
  "('b, 'd, 'f, 'h) libs \<Rightarrow> string \<Rightarrow> 'd \<Rightarrow> filesys \<Rightarrow> IndexType \<times> ('b, 'f, 'h) index
   \<Rightarrow> (IndexType \<times> ('b, 'f, 'h) index) res" where
  "load_entry L folder_path db fs entry =
     (let (index_type, index) = entry;
          file_path = index_file_path folder_path index_type
      in case index_type of
           FLAT \<Rightarrow> andthen (as_flat (Some index)) (\<lambda>i.
                     andthen (faiss_loadIndex (lib_fa L) file_path fs i) (\<lambda>i'. Inr (index_type, Flat_index i')))
         | HNSW \<Rightarrow> andthen (as_hnsw (Some index)) (\<lambda>i.
                     andthen (hnsw_loadIndex (lib_hn L) file_path fs i) (\<lambda>i'. Inr (index_type, Hnsw_index i')))
         | FILTER \<Rightarrow> andthen (as_filter (Some index)) (\<lambda>i.
                     andthen (FilterIndex_loadIndex (lib_rb L) (lib_rk L) file_path db i)
                       (\<lambda>i'. Inr (index_type, Filter_index i')))
         | _ \<Rightarrow> Inr entry)"

definition IndexFactory_loadIndex ::
  "('b, 'd, 'f, 'h) libs \<Rightarrow> string \<Rightarrow> 'd \<Rightarrow> filesys \<Rightarrow> ('b, 'f, 'h) IndexFactory \<Rightarrow> ('b, 'f, 'h) IndexFactory res" where
  "IndexFactory_loadIndex L folder_path db fs x =
     andthen (mapM (load_entry L folder_path db fs) (index_map x)) (\<lambda>m. Inr (x\<lparr>index_map := m\<rparr>))"

section \<open>Every entry has the type of its key\<close>

fun entry_typed :: "IndexType \<times> ('b, 'f, 'h) index \<Rightarrow> bool" where
  "entry_typed (FLAT, Flat_index _) = True"
| "entry_typed (HNSW, Hnsw_index _) = True"
| "entry_typed (FILTER, Filter_index _) = True"
| "entry_typed _ = False"

definition factory_ok :: "('b, 'f, 'h) IndexFactory \<Rightarrow> bool" where
  "factory_ok x \<longleftrightarrow> om_ok (index_map x) \<and> list_all entry_typed (index_map x)"

lemma entry_typed_iff:
  "entry_typed (t, i) \<longleftrightarrow>
     (\<exists>x. t = FLAT \<and> i = Flat_index x) \<or> (\<exists>x. t = HNSW \<and> i = Hnsw_index x) \<or>
     (\<exists>x. t = FILTER \<and> i = Filter_index x)"
  by (cases t; cases i) auto

lemma list_all_om_insert:
  "list_all P m \<Longrightarrow> P (k, v) \<Longrightarrow> list_all P (om_insert k v m)"
  by (induction k v m rule: om_insert.induct) auto

lemma factory_ok_set_index: "factory_ok x \<Longrightarrow> entry_typed (t, i) \<Longrightarrow> factory_ok (set_index t i x)"
  by (simp add: factory_ok_def set_index_def list_all_om_insert)

lemma factory_ok_empty: "factory_ok globalIndexFactory"
  by (simp add: factory_ok_def globalIndexFactory_def)

lemma factory_ok_init: "factory_ok x \<Longrightarrow> factory_ok (IndexFactory_init L t dim n m x)"
  by (cases t) (simp_all add: IndexFactory_init_def factory_ok_set_index)

lemma getIndex_set_index [simp]: "getIndex t (set_index s i x) = (if t = s then Some i else getIndex t x)"
  by (simp add: getIndex_def set_index_def)

lemma getIndex_typed:
  assumes "factory_ok x" "getIndex t x = Some i"
  shows "entry_typed (t, i)"
  using assms by (auto simp: factory_ok_def getIndex_def om_lookup_iff_mem list_all_iff)

lemma load_entry_typed:
  assumes "load_entry L p db fs e = Inr e'" "entry_typed e"
  shows "entry_typed e' \<and> fst e' = fst e"
proof -
  obtain t i where e: "e = (t, i)" by (cases e)
  show ?thesis
    using assms by (cases t; cases i) (auto simp: e load_entry_def Let_def res_simps)
qed

lemma load_entries_typed:
  assumes "mapM (load_entry L p db fs) m = Inr m'" "list_all entry_typed m"
  shows "list_all entry_typed m' \<and> map fst m' = map fst m"
  using assms
proof (induction m arbitrary: m')
  case Nil
  then show ?case by simp
next
  case (Cons e m)
  then show ?case by (auto simp: res_simps dest: load_entry_typed)
qed

lemma factory_ok_load:
  assumes "factory_ok x" "IndexFactory_loadIndex L p db fs x = Inr x'"
  shows "factory_ok x' \<and> map fst (index_map x') = map fst (index_map x)"
  using assms load_entries_typed
  by (fastforce simp: factory_ok_def om_ok_def IndexFactory_loadIndex_def res_simps)

section \<open>Index file paths\<close>

lemma to_string_int_inject [simp]: "to_string_int a = to_string_int b \<longleftrightarrow> a = b"
proof
  assume h: "to_string_int a = to_string_int b"
  have nm: "to_string n \<noteq> CHR ''-'' # s" for n s
    using to_string_no [of "CHR ''-''" n] by (metis list.set_intros(1) not_is_digit(3))
  show "a = b"
    using h nm nm [symmetric] by (auto simp: to_string_int_def eq_nat_nat_iff split: if_splits)
qed simp

lemma index_file_path_inject [simp]:
  "index_file_path p s = index_file_path p t \<longleftrightarrow> s = t"
  by (simp add: index_file_path_def)

text \<open>The path is not a document key: it has characters that are no digits.\<close>

lemma index_file_path_not_key: "CHR ''.'' \<in> set (index_file_path p t)"
  by (simp add: index_file_path_def)

end
