(* ===== verification/Wal_Persistence.thy ===== *)
theory Wal_Persistence
  imports Index_Factory
begin

text \<open>
  persistence.cpp: the write-ahead log and the snapshot number. The log is one file opened for
  reading and appending; a record is a line \<^verbatim>\<open>id|version|operation|json\<close>. Shown here: what is
  appended reads back in order, records up to the last snapshot are skipped, the id counter
  becomes the largest id seen, and the snapshot number survives a restart.
\<close>

named_theorems wal_simps

text \<open>
  \<open>wal_pos\<close> is the read position of the stream, \<open>wal_good\<close> that no error bit is set.
\<close>

record Persistence =
  increase_id :: u64
  last_snapshot_id :: u64
  wal_path :: string
  wal_pos :: nat
  wal_good :: bool

definition Persistence_new :: Persistence where
  "Persistence_new =
     \<lparr>increase_id = 10, last_snapshot_id = 0, wal_path = [], wal_pos = 0, wal_good = False\<rparr>"

definition snapshot_id_file :: string where
  "snapshot_id_file = ''snapshots_MaxLogID''"

text \<open>
  \<^verbatim>\<open>file >> n\<close> for an unsigned 64-bit number: nothing but white space leaves \<open>n\<close> alone, no
  numeral stores 0, an overflow stores the maximum, a minus sign wraps.
\<close>

definition extract_u64 :: "string \<Rightarrow> u64 \<Rightarrow> u64" where
  "extract_u64 s old =
     (if dropWhile isspace s = [] then old
      else case strto s of
             None \<Rightarrow> 0
           | Some (neg, n, _) \<Rightarrow>
               if n \<ge> 2 ^ 64 then - 1 else if neg then - of_nat n else of_nat n)"

definition loadLastSnapshotID :: "filesys \<Rightarrow> Persistence \<Rightarrow> Persistence" where
  "loadLastSnapshotID fs p =
     (case fs_read fs snapshot_id_file of
        None \<Rightarrow> p
      | Some s \<Rightarrow> p\<lparr>last_snapshot_id := extract_u64 s (last_snapshot_id p)\<rparr>)"

definition saveLastSnapshotID :: "Persistence \<Rightarrow> filesys \<Rightarrow> filesys" where
  "saveLastSnapshotID p fs =
     (if fs_writable fs snapshot_id_file
      then fs_write snapshot_id_file (to_string (unat (last_snapshot_id p))) fs
      else fs)"

text \<open>Opening with \<^verbatim>\<open>in | out | app\<close> creates a missing file and keeps what is there.\<close>

definition Persistence_init :: "string \<Rightarrow> filesys \<Rightarrow> Persistence \<Rightarrow> (Persistence \<times> filesys) res" where
  "Persistence_init local_path fs p =
     (if \<not> fs_writable fs local_path
      then Inl (Throw (Runtime_error (''Failed to open WAL log file at path: '' @ local_path)))
      else
        let data = (case fs_read fs local_path of None \<Rightarrow> [] | Some s \<Rightarrow> s);
            fs1 = fs_write local_path data fs;
            p1 = p\<lparr>wal_path := local_path, wal_pos := 0, wal_good := True\<rparr>
        in Inr (loadLastSnapshotID fs1 p1, fs1))"

definition increaseID :: "Persistence \<Rightarrow> u64 \<times> Persistence" where
  "increaseID p = (let n = increase_id p + 1 in (n, p\<lparr>increase_id := n\<rparr>))"

definition getID :: "Persistence \<Rightarrow> u64" where
  "getID p = increase_id p"

definition wal_data :: "Persistence \<Rightarrow> filesys \<Rightarrow> string" where
  "wal_data p fs = (case fs_read fs (wal_path p) of None \<Rightarrow> [] | Some s \<Rightarrow> s)"

text \<open>
  Output to the log: it goes to the end of the file, where the read position is then as well. A
  stream in an error state writes nothing; a failed write sets the error state.
\<close>

definition wal_output :: "string \<Rightarrow> Persistence \<times> filesys \<Rightarrow> Persistence \<times> filesys" where
  "wal_output s pf =
     (let (p, fs) = pf in
      if \<not> wal_good p then (p, fs)
      else if \<not> fs_writable fs (wal_path p) then (p\<lparr>wal_good := False\<rparr>, fs)
      else let data = wal_data p fs @ s
           in (p\<lparr>wal_pos := length data\<rparr>, fs_write (wal_path p) data fs))"

definition wal_line :: "u64 \<Rightarrow> string \<Rightarrow> string \<Rightarrow> string \<Rightarrow> string" where
  "wal_line log_id version operation_type data =
     to_string (unat log_id) @ ''|'' @ version @ ''|'' @ operation_type @ ''|'' @ data @ [CHR 0x0A]"

definition writeWALLog ::
  "rapidjson \<Rightarrow> string \<Rightarrow> json \<Rightarrow> string \<Rightarrow> Persistence \<times> filesys \<Rightarrow> Persistence \<times> filesys" where
  "writeWALLog J operation_type json_data version pf =
     (let (log_id, p) = increaseID (fst pf)
      in wal_output (wal_line log_id version operation_type (c_str (rj_write J json_data))) (p, snd pf))"

definition writeWALRawLog ::
  "u64 \<Rightarrow> string \<Rightarrow> string \<Rightarrow> string \<Rightarrow> Persistence \<times> filesys \<Rightarrow> Persistence \<times> filesys" where
  "writeWALRawLog log_id operation_type raw_data version pf =
     wal_output (wal_line log_id version operation_type raw_data) pf"

text \<open>
  One line split at its bars: id, operation, JSON. \<open>op\<close> is what \<^verbatim>\<open>*operation_type\<close> held; a line
  that ends too early leaves it there.
\<close>

definition split_wal_line :: "string \<Rightarrow> string \<Rightarrow> string \<times> string \<times> string" where
  "split_wal_line op line =
     (let (log_id_str, s1, _) = getline CHR ''|'' [] (istringstream line);
          (version, s2, _) = getline CHR ''|'' [] s1;
          (op', s3, _) = getline CHR ''|'' op s2;
          (json_data_str, _, _) = getline CHR ''|'' [] s3
      in (log_id_str, op', json_data_str))"

text \<open>
  The loop of \<^verbatim>\<open>readNextWALLog\<close>: the number of the last snapshot, the id counter, the operation
  and the document the caller passed, the line variable and the stream.
\<close>

function read_wal_loop ::
  "rapidjson \<Rightarrow> u64 \<Rightarrow> u64 \<Rightarrow> string \<Rightarrow> json \<Rightarrow> string \<Rightarrow> istream \<Rightarrow> (u64 \<times> string \<times> json \<times> istream) res" where
  "read_wal_loop J lastSnapshotID inc op doc line wal =
     (case getline CHR 0x0A line wal of
        (line', wal', ok) \<Rightarrow>
          if \<not> ok then Inr (inc, [], doc, wal'\<lparr>is_good := True\<rparr>)
          else
            let (log_id_str, op', json_data_str) = split_wal_line op line'
            in andthen (stoull log_id_str) (\<lambda>log_id.
                 let inc' = (if log_id > inc then log_id else inc)
                 in if log_id > lastSnapshotID
                    then Inr (inc', op', rj_parse J (c_str json_data_str), wal')
                    else read_wal_loop J lastSnapshotID inc' op' doc line' wal'))"
  by pat_completeness auto
termination
  by (relation "measure (\<lambda>(J, ls, inc, op, doc, line, wal). length (is_rest wal))")
     (auto dest: getline_consumes_sym)

declare read_wal_loop.simps [simp del]

definition wal_stream :: "Persistence \<Rightarrow> filesys \<Rightarrow> istream" where
  "wal_stream p fs = \<lparr>is_rest = drop (wal_pos p) (wal_data p fs), is_good = wal_good p\<rparr>"

definition readNextWALLog ::
  "rapidjson \<Rightarrow> string \<Rightarrow> json \<Rightarrow> filesys \<Rightarrow> Persistence \<Rightarrow> (string \<times> json \<times> Persistence) res" where
  "readNextWALLog J operation_type json_data fs p =
     andthen (read_wal_loop J (last_snapshot_id p) (increase_id p) operation_type json_data []
                (wal_stream p fs))
       (\<lambda>(inc, op, doc, wal).
          Inr (op, doc, p\<lparr>increase_id := inc, wal_pos := length (wal_data p fs) - length (is_rest wal),
                          wal_good := is_good wal\<rparr>))"

text \<open>
  The snapshot number is taken before the indexes are written; an exception from writing them
  leaves the number in memory.
\<close>

definition Persistence_takeSnapshot ::
  "('b, 'd, 'f, 'h) libs \<Rightarrow> ('b, 'f, 'h) IndexFactory \<Rightarrow> Persistence \<times> 'd \<times> filesys
   \<Rightarrow> (Persistence \<times> 'd \<times> filesys) \<times> unit res" where
  "Persistence_takeSnapshot L index_factory pdf =
     (let (p, db, fs) = pdf;
          p1 = p\<lparr>last_snapshot_id := increase_id p\<rparr>
      in case IndexFactory_saveIndex L ''snapshots_'' index_factory (db, fs) of
           Inl e \<Rightarrow> ((p1, db, fs), Inl e)
         | Inr (db', fs') \<Rightarrow> ((p1, db', saveLastSnapshotID p1 fs'), Inr ()))"

definition Persistence_loadSnapshot ::
  "('b, 'd, 'f, 'h) libs \<Rightarrow> 'd \<Rightarrow> filesys \<Rightarrow> ('b, 'f, 'h) IndexFactory \<Rightarrow> ('b, 'f, 'h) IndexFactory res" where
  "Persistence_loadSnapshot L db fs index_factory = IndexFactory_loadIndex L ''snapshots_'' db fs index_factory"

section \<open>The snapshot number\<close>

lemma extract_to_string [wal_simps]: "extract_u64 (to_string (unat (w :: u64))) old = w"
proof -
  have "unat w < 2 ^ LENGTH(64)" by (rule unsigned_less)
  then show ?thesis
    using strto_to_string [of "[]" "unat w"] dropWhile_isspace_to_string [of "unat w" "[]"]
    by (simp add: extract_u64_def)
qed

lemma snapshot_id_save_load:
  "fs_writable fs snapshot_id_file \<Longrightarrow>
     loadLastSnapshotID (saveLastSnapshotID p fs) q = q\<lparr>last_snapshot_id := last_snapshot_id p\<rparr>"
  by (simp add: loadLastSnapshotID_def saveLastSnapshotID_def extract_to_string)

section \<open>The log as a list of records\<close>

text \<open>A record: id, operation, data. The two callers write version \<^verbatim>\<open>1.0\<close>.\<close>

type_synonym wal_record = "u64 \<times> string \<times> string"

definition record_line :: "wal_record \<Rightarrow> string" where
  "record_line r = (case r of (i, op, d) \<Rightarrow> wal_line i ''1.0'' op d)"

definition record_body :: "wal_record \<Rightarrow> string" where
  "record_body r = (case r of (i, op, d) \<Rightarrow> to_string (unat i) @ ''|1.0|'' @ op @ ''|'' @ d)"

lemma record_line_body: "record_line r = record_body r @ [CHR 0x0A]"
  by (simp add: record_line_def record_body_def wal_line_def split: prod.splits)

definition log_text :: "wal_record list \<Rightarrow> string" where
  "log_text rs = concat (map record_line rs)"

text \<open>
  A record that reads back: no bar and no newline in the operation, which is not empty, and no
  newline in the data. A bar in the data cuts it off, see \<open>wal_payload\<close>.
\<close>

definition record_ok :: "wal_record \<Rightarrow> bool" where
  "record_ok r = (case r of (i, op, d) \<Rightarrow>
     op \<noteq> [] \<and> CHR ''|'' \<notin> set op \<and> CHR 0x0A \<notin> set op \<and> CHR 0x0A \<notin> set d)"

definition wal_payload :: "string \<Rightarrow> string" where
  "wal_payload d = takeWhile (\<lambda>c. c \<noteq> CHR ''|'') d"

lemma wal_payload_id [simp]: "CHR ''|'' \<notin> set d \<Longrightarrow> wal_payload d = d"
  by (auto simp: wal_payload_def takeWhile_eq_all_conv)

lemma log_text_simps [simp]:
  "log_text [] = []" "log_text (r # rs) = record_line r @ log_text rs"
  "log_text (rs @ rs') = log_text rs @ log_text rs'"
  by (simp_all add: log_text_def)

lemma getline_fst: "fst (getline d old (istringstream s)) = takeWhile (\<lambda>c. c \<noteq> d) s"
  by (simp add: getline_def istringstream_def Let_def)

lemma record_body_no_newline: "record_ok r \<Longrightarrow> CHR 0x0A \<notin> set (record_body r)"
  by (auto simp: record_ok_def record_body_def)

lemma split_record_body:
  assumes "record_ok (i, op, d)"
  shows "split_wal_line old (record_body (i, op, d)) = (to_string (unat i), op, wal_payload d)"
proof -
  have 1: "getline CHR ''|'' [] (istringstream (record_body (i, op, d)))
      = (to_string (unat i), istringstream (''1.0|'' @ op @ ''|'' @ d), True)"
    using getline_delim [of "CHR ''|''" "to_string (unat i)" "[]" "''1.0|'' @ op @ ''|'' @ d"]
    by (simp add: istringstream_def record_body_def)
  have 2: "getline CHR ''|'' [] (istringstream (''1.0|'' @ op @ ''|'' @ d))
      = (''1.0'', istringstream (op @ ''|'' @ d), True)"
    using getline_delim [of "CHR ''|''" "''1.0''" "[]" "op @ ''|'' @ d"]
    by (simp add: istringstream_def)
  have 3: "getline CHR ''|'' old (istringstream (op @ ''|'' @ d)) = (op, istringstream d, True)"
    using getline_delim [of "CHR ''|''" op old d] assms by (simp add: istringstream_def record_ok_def)
  have 4: "fst (getline CHR ''|'' [] (istringstream d)) = wal_payload d"
    by (simp add: getline_fst wal_payload_def)
  show ?thesis
    using 4 by (simp only: split_wal_line_def 1 2 3 Let_def split_beta fst_conv snd_conv)
qed

lemma read_record:
  assumes "record_ok (i, op', d)"
  shows "read_wal_loop J ls inc op doc line (istringstream (record_line (i, op', d) @ s)) =
    (if i > ls
     then Inr (max i inc, op', rj_parse J (c_str (wal_payload d)), istringstream s)
     else read_wal_loop J ls (max i inc) op' doc (record_body (i, op', d)) (istringstream s))"
proof -
  have g: "getline CHR 0x0A line (istringstream (record_line (i, op', d) @ s))
      = (record_body (i, op', d), istringstream s, True)"
    using getline_delim [OF record_body_no_newline [OF assms], of line s]
    by (simp add: record_line_body istringstream_def)
  have m: "(if i > inc then i else inc) = max i inc" by (auto simp: max_def)
  show ?thesis
    by (subst read_wal_loop.simps)
       (simp only: g split_record_body [OF assms] stoull_to_string_word Let_def split_beta
         fst_conv snd_conv not_True_eq_False if_False andthen_Inr m)
qed

lemma read_end:
  "read_wal_loop J ls inc op doc line (istringstream []) = Inr (inc, [], doc, istringstream [])"
  by (subst read_wal_loop.simps) (simp add: getline_def istringstream_def)

definition max_ids :: "u64 \<Rightarrow> wal_record list \<Rightarrow> u64" where
  "max_ids inc rs = fold (\<lambda>r m. max (fst r) m) rs inc"

lemma max_ids_simps [simp]:
  "max_ids inc [] = inc" "max_ids inc (r # rs) = max_ids (max (fst r) inc) rs"
  by (simp_all add: max_ids_def)

lemma max_ids_append [simp]: "max_ids inc (rs @ rs') = max_ids (max_ids inc rs) rs'"
  by (simp add: max_ids_def)

text \<open>
  Reading the next record of a well-formed log: the records up to the snapshot are passed over.
\<close>

lemma read_log_text:
  assumes "list_all record_ok rs"
  shows "read_wal_loop J ls inc op doc line (istringstream (log_text rs)) =
    (case dropWhile (\<lambda>r. fst r \<le> ls) rs of
       [] \<Rightarrow> Inr (max_ids inc rs, [], doc, istringstream [])
     | (i, op', d) # rs' \<Rightarrow>
         Inr (max_ids inc (takeWhile (\<lambda>r. fst r \<le> ls) rs @ [(i, op', d)]), op',
              rj_parse J (c_str (wal_payload d)), istringstream (log_text rs')))"
  using assms
proof (induction rs arbitrary: inc op line)
  case Nil
  then show ?case by (simp add: read_end)
next
  case (Cons r rs)
  obtain i op' d where r: "r = (i, op', d)" by (cases r)
  then have rok: "record_ok (i, op', d)" and ok: "list_all record_ok rs" using Cons.prems by auto
  show ?case
  proof (cases "ls < i")
    case True
    then have "\<not> i \<le> ls" by simp
    with True show ?thesis by (simp add: r read_record [OF rok])
  next
    case False
    then have "i \<le> ls" by simp
    with False show ?thesis
      by (cases "dropWhile (\<lambda>r. fst r \<le> ls) rs")
         (simp_all add: r read_record [OF rok] Cons.IH [OF ok] split_beta del: dropWhile_eq_Nil_conv)
  qed
qed

text \<open>What is left to read shrinks with every record returned.\<close>

definition wal_remaining :: "filesys \<Rightarrow> Persistence \<Rightarrow> nat" where
  "wal_remaining fs p = length (wal_data p fs) - wal_pos p"

lemma read_wal_loop_step:
  assumes "read_wal_loop J ls inc op doc line wal = Inr (inc', op', doc', wal')" "op' \<noteq> []"
  shows "\<exists>line1 wal1. getline CHR 0x0A line wal = (line1, wal1, True) \<and>
    (wal' = wal1 \<or> (\<exists>inc1 op1. read_wal_loop J ls inc1 op1 doc line1 wal1 = Inr (inc', op', doc', wal')))"
proof -
  obtain line1 wal1 ok where g: "getline CHR 0x0A line wal = (line1, wal1, ok)"
    by (cases "getline CHR 0x0A line wal")
  obtain ids op1 js where s: "split_wal_line op line1 = (ids, op1, js)"
    by (cases "split_wal_line op line1")
  from assms g s have ok: ok by (subst (asm) read_wal_loop.simps) (auto split: if_splits)
  with assms g s show ?thesis
    by (subst (asm) read_wal_loop.simps) (auto simp: res_simps Let_def split: if_splits)
qed

lemma read_wal_loop_consumes:
  "read_wal_loop J ls inc op doc line wal = Inr (inc', op', doc', wal') \<Longrightarrow> op' \<noteq> [] \<Longrightarrow>
     length (is_rest wal') < length (is_rest wal)"
proof (induction "length (is_rest wal)" arbitrary: inc op line wal rule: less_induct)
  case less
  from read_wal_loop_step [OF less.prems] obtain line1 wal1
    where g: "getline CHR 0x0A line wal = (line1, wal1, True)"
      and c: "wal' = wal1 \<or> (\<exists>inc1 op1. read_wal_loop J ls inc1 op1 doc line1 wal1 = Inr (inc', op', doc', wal'))"
    by blast
  have len: "length (is_rest wal1) < length (is_rest wal)" using g by (rule getline_consumes)
  from c show ?case
  proof (elim disjE exE)
    assume "wal' = wal1"
    with len show ?thesis by simp
  next
    fix inc1 op1
    assume "read_wal_loop J ls inc1 op1 doc line1 wal1 = Inr (inc', op', doc', wal')"
    from less.hyps [OF len this less.prems(2)] len show ?thesis by simp
  qed
qed

lemma readNextWALLog_consumes:
  assumes "readNextWALLog J op doc fs p = Inr (op', doc', p')" "op' \<noteq> []"
  shows "wal_remaining fs p' < wal_remaining fs p"
proof -
  from assms(1) obtain inc wal where
    r: "read_wal_loop J (last_snapshot_id p) (increase_id p) op doc [] (wal_stream p fs) = Inr (inc, op', doc', wal)"
    and p': "p' = p\<lparr>increase_id := inc, wal_pos := length (wal_data p fs) - length (is_rest wal), wal_good := is_good wal\<rparr>"
    by (auto simp: readNextWALLog_def res_simps)
  have "length (is_rest wal) < length (drop (wal_pos p) (wal_data p fs))"
    using read_wal_loop_consumes [OF r assms(2)] by (simp add: wal_stream_def)
  moreover have "wal_data p' fs = wal_data p fs" by (simp add: p' wal_data_def)
  ultimately show ?thesis by (simp add: wal_remaining_def p')
qed

end
