(* ===== verification/Vector_Database.thy ===== *)
theory Vector_Database
  imports Scalar_Storage Wal_Persistence
begin

text \<open>
  vector_database.cpp: the database over the scalar storage, the indexes of the process and the
  write-ahead log. A function of the C++ class is one definition here, composed of its steps in
  the order of the code; an exception or an abort is the \<open>Inl\<close> of the result. Shown here: what
  each operation changes of the state, and that replaying the log is running its operations.
\<close>

named_theorems vdb_simps

record ('b, 'd, 'f, 'h) VectorDatabase =
  scalar_storage :: 'd
  persistence :: Persistence
  index_factory :: "('b, 'f, 'h) IndexFactory"
  files :: filesys

definition VectorDatabase_new ::
  "('b, 'd, 'f, 'h) libs \<Rightarrow> string \<Rightarrow> string \<Rightarrow> ('b, 'f, 'h) IndexFactory \<Rightarrow> filesys
   \<Rightarrow> ('b, 'd, 'f, 'h) VectorDatabase res" where
  "VectorDatabase_new L db_path wal_file factory fs =
     andthen (ScalarStorage_open (lib_rk L) db_path) (\<lambda>db.
     andthen (Persistence_init wal_file fs Persistence_new) (\<lambda>(p, fs').
       Inr \<lparr>scalar_storage = db, persistence = p, index_factory = factory, files = fs'\<rparr>))"

definition index_type_of_string :: "string \<Rightarrow> IndexType" where
  "index_type_of_string s =
     (if s = INDEX_TYPE_FLAT then FLAT else if s = INDEX_TYPE_HNSW then HNSW else UNKNOWN)"

definition getIndexTypeFromRequest :: "json \<Rightarrow> IndexType res" where
  "getIndexTypeFromRequest json_request =
     andthen (j_HasMember json_request REQUEST_INDEX_TYPE) (\<lambda>has.
       if \<not> has then Inr UNKNOWN
       else andthen (j_at json_request REQUEST_INDEX_TYPE) (\<lambda>t.
              if j_IsString t then andthen (j_GetString t) (\<lambda>s. Inr (index_type_of_string s))
              else Inr UNKNOWN))"

section \<open>\<^verbatim>\<open>upsert\<close>\<close>

text \<open>The old vector goes only from the flat index; the branch for HNSW is empty.\<close>

definition remove_old_vector ::
  "('b, 'd, 'f, 'h) libs \<Rightarrow> u64 \<Rightarrow> IndexType \<Rightarrow> json \<Rightarrow> ('b, 'f, 'h) IndexFactory
   \<Rightarrow> ('b, 'f, 'h) IndexFactory res" where
  "remove_old_vector L uid index_type existingData factory =
     (if \<not> j_IsObject existingData then Inr factory
      else
        andthen (j_at existingData ''vectors'') (\<lambda>vectors.
        andthen (json_floats (lib_json L) vectors) (\<lambda>existingVector.
          case index_type of
            FLAT \<Rightarrow> andthen (as_flat (getIndex FLAT factory)) (\<lambda>i.
                      andthen (faiss_remove_vectors (lib_fa L) [sint uid] i) (\<lambda>i'.
                        Inr (set_index FLAT (Flat_index i') factory)))
          | _ \<Rightarrow> Inr factory)))"

definition insert_new_vector ::
  "('b, 'd, 'f, 'h) libs \<Rightarrow> u64 \<Rightarrow> IndexType \<Rightarrow> json \<Rightarrow> ('b, 'f, 'h) IndexFactory
   \<Rightarrow> ('b, 'f, 'h) IndexFactory res" where
  "insert_new_vector L uid index_type data factory =
     andthen (j_at data ''vectors'') (\<lambda>vectors.
     andthen (json_floats (lib_json L) vectors) (\<lambda>newVector.
       case index_type of
         FLAT \<Rightarrow> andthen (as_flat (getIndex FLAT factory)) (\<lambda>i.
                   andthen (faiss_insert_vectors (lib_fa L) newVector uid i) (\<lambda>i'.
                     Inr (set_index FLAT (Flat_index i') factory)))
       | HNSW \<Rightarrow> andthen (as_hnsw (getIndex HNSW factory)) (\<lambda>i.
                   andthen (hnsw_insert_vectors (lib_hn L) newVector uid i) (\<lambda>i'.
                     Inr (set_index HNSW (Hnsw_index i') factory)))
       | _ \<Rightarrow> Inr factory))"

text \<open>One pass of the loop over the members of the document.\<close>

definition old_field_value :: "json \<Rightarrow> string \<Rightarrow> int option res" where
  "old_field_value existingData field_name =
     (if j_IsObject existingData
      then andthen (j_at existingData (c_str field_name)) (\<lambda>v.
             andthen (j_GetInt64 v) (\<lambda>i. Inr (Some i)))
      else Inr None)"

definition update_field ::
  "('b, 'd, 'f, 'h) libs \<Rightarrow> u64 \<Rightarrow> json \<Rightarrow> ('b, 'f, 'h) IndexFactory \<Rightarrow> string \<times> json
   \<Rightarrow> ('b, 'f, 'h) IndexFactory res" where
  "update_field L uid existingData factory it =
     (let field_name = c_str (fst it) in
      if j_IsInt (snd it) \<and> field_name \<noteq> ''id'' then
        andthen (j_GetInt64 (snd it)) (\<lambda>field_value.
        andthen (old_field_value existingData field_name) (\<lambda>old_field_value_p.
        andthen (as_filter (getIndex FILTER factory)) (\<lambda>filter_index.
        andthen (updateIntFieldFilter (lib_rb L) field_name old_field_value_p field_value uid filter_index)
          (\<lambda>fi'. Inr (set_index FILTER (Filter_index fi') factory)))))
      else Inr factory)"

definition upsert ::
  "('b, 'd, 'f, 'h) libs \<Rightarrow> u64 \<Rightarrow> json \<Rightarrow> IndexType \<Rightarrow> ('b, 'd, 'f, 'h) VectorDatabase
   \<Rightarrow> ('b, 'd, 'f, 'h) VectorDatabase res" where
  "upsert L uid data index_type v =
     (let existingData = get_scalar (lib_json L) (lib_rk L) uid (scalar_storage v) in
      andthen (remove_old_vector L uid index_type existingData (index_factory v)) (\<lambda>f1.
      andthen (insert_new_vector L uid index_type data f1) (\<lambda>f2.
      andthen (j_members data) (\<lambda>members.
      andthen (foldM (update_field L uid existingData) f2 members) (\<lambda>f3.
        Inr (v\<lparr>index_factory := f3,
               scalar_storage := insert_scalar (lib_json L) (lib_rk L) uid data (scalar_storage v)\<rparr>))))))"

definition vdb_query :: "('b, 'd, 'f, 'h) libs \<Rightarrow> u64 \<Rightarrow> ('b, 'd, 'f, 'h) VectorDatabase \<Rightarrow> json" where
  "vdb_query L uid v = get_scalar (lib_json L) (lib_rk L) uid (scalar_storage v)"

section \<open>\<^verbatim>\<open>search\<close>\<close>

definition filter_op_of_string :: "string \<Rightarrow> filter_op" where
  "filter_op_of_string s = (if s = ''='' then EQUAL else NOT_EQUAL)"

definition search_filter_bitmap ::
  "('b, 'd, 'f, 'h) libs \<Rightarrow> json \<Rightarrow> ('b, 'f, 'h) IndexFactory \<Rightarrow> 'b option res" where
  "search_filter_bitmap L json_request factory =
     andthen (j_HasMember json_request ''filter'') (\<lambda>has.
       if \<not> has then Inr None
       else andthen (j_at json_request ''filter'') (\<lambda>filter.
         if \<not> j_IsObject filter then Inr None
         else
           andthen (j_at filter ''fieldName'') (\<lambda>n. andthen (j_GetString n) (\<lambda>fieldName.
           andthen (j_at filter ''op'') (\<lambda>o'. andthen (j_GetString o') (\<lambda>op_str.
           andthen (j_at filter ''value'') (\<lambda>w. andthen (j_GetInt64 w) (\<lambda>v.
           andthen (as_filter (getIndex FILTER factory)) (\<lambda>filter_index.
           andthen (getIntFieldFilterBitmap (lib_rb L) fieldName (filter_op_of_string op_str) v
                      (rb_create (lib_rb L)) filter_index) (\<lambda>b. Inr (Some b)))))))))))"

definition search_index ::
  "('b, 'd, 'f, 'h) libs \<Rightarrow> IndexType \<Rightarrow> f32 list \<Rightarrow> int \<Rightarrow> 'b option \<Rightarrow> ('b, 'f, 'h) IndexFactory
   \<Rightarrow> ((int list \<times> f32 list) \<times> ('b, 'f, 'h) IndexFactory) res" where
  "search_index L indexType query k filter_bitmap factory =
     (case indexType of
        FLAT \<Rightarrow> andthen (as_flat (getIndex FLAT factory)) (\<lambda>i.
                  andthen (faiss_search_vectors (lib_fa L) (lib_rb L) query k filter_bitmap i) (\<lambda>r.
                    Inr (r, factory)))
      | HNSW \<Rightarrow> andthen (as_hnsw (getIndex HNSW factory)) (\<lambda>i.
                  andthen (hnsw_search_vectors (lib_hn L) (lib_rb L) query k filter_bitmap 50 i) (\<lambda>(r, i').
                    Inr (r, set_index HNSW (Hnsw_index i') factory)))
      | _ \<Rightarrow> Inr (([], []), factory))"

definition vdb_search ::
  "('b, 'd, 'f, 'h) libs \<Rightarrow> json \<Rightarrow> ('b, 'd, 'f, 'h) VectorDatabase
   \<Rightarrow> ((int list \<times> f32 list) \<times> ('b, 'd, 'f, 'h) VectorDatabase) res" where
  "vdb_search L json_request v =
     andthen (j_at json_request REQUEST_VECTORS) (\<lambda>vs.
     andthen (json_floats (lib_json L) vs) (\<lambda>query.
     andthen (j_at json_request REQUEST_K) (\<lambda>kv.
     andthen (j_GetInt kv) (\<lambda>k.
     andthen (getIndexTypeFromRequest json_request) (\<lambda>indexType.
     andthen (search_filter_bitmap L json_request (index_factory v)) (\<lambda>filter_bitmap.
     andthen (search_index L indexType query k filter_bitmap (index_factory v)) (\<lambda>(results, f).
       Inr (results, v\<lparr>index_factory := f\<rparr>))))))))"

section \<open>The log, snapshots and recovery\<close>

definition vdb_writeWALLog ::
  "('b, 'd, 'f, 'h) libs \<Rightarrow> string \<Rightarrow> json \<Rightarrow> ('b, 'd, 'f, 'h) VectorDatabase \<Rightarrow> ('b, 'd, 'f, 'h) VectorDatabase" where
  "vdb_writeWALLog L operation_type json_data v =
     (let (p, fs) = writeWALLog (lib_json L) operation_type json_data ''1.0'' (persistence v, files v)
      in v\<lparr>persistence := p, files := fs\<rparr>)"

definition writeWALLogWithID ::
  "u64 \<Rightarrow> string \<Rightarrow> ('b, 'd, 'f, 'h) VectorDatabase \<Rightarrow> ('b, 'd, 'f, 'h) VectorDatabase" where
  "writeWALLogWithID log_id data v =
     (let (p, fs) = writeWALRawLog log_id ''upsert'' data ''1.0'' (persistence v, files v)
      in v\<lparr>persistence := p, files := fs\<rparr>)"

definition vdb_takeSnapshot ::
  "('b, 'd, 'f, 'h) libs \<Rightarrow> ('b, 'd, 'f, 'h) VectorDatabase \<Rightarrow> ('b, 'd, 'f, 'h) VectorDatabase \<times> unit res" where
  "vdb_takeSnapshot L v =
     (let ((p, db, fs), r) =
            Persistence_takeSnapshot L (index_factory v) (persistence v, scalar_storage v, files v)
      in (v\<lparr>persistence := p, scalar_storage := db, files := fs\<rparr>, r))"

definition getStartIndexID :: "('b, 'd, 'f, 'h) VectorDatabase \<Rightarrow> u64" where
  "getStartIndexID v = getID (persistence v)"

definition getScalarsPage ::
  "('b, 'd, 'f, 'h) libs \<Rightarrow> string \<Rightarrow> string \<Rightarrow> u64 \<Rightarrow> u64 \<Rightarrow> ('b, 'd, 'f, 'h) VectorDatabase \<Rightarrow> scalar_kv_page" where
  "getScalarsPage L key_prefix key page_num page_size v =
     scan_page (lib_rk L) key_prefix key page_num page_size (scalar_storage v)"

text \<open>What the recovery loop does with one record.\<close>

definition replay_record ::
  "('b, 'd, 'f, 'h) libs \<Rightarrow> string \<Rightarrow> json \<Rightarrow> ('b, 'd, 'f, 'h) VectorDatabase \<Rightarrow> ('b, 'd, 'f, 'h) VectorDatabase res" where
  "replay_record L operation_type json_data v =
     (if operation_type = ''upsert'' then
        andthen (j_at json_data REQUEST_ID) (\<lambda>i. andthen (j_GetUint64 i) (\<lambda>uid.
        andthen (getIndexTypeFromRequest json_data) (\<lambda>index_type.
          upsert L uid json_data index_type v)))
      else Inr v)"

lemma upsert_keeps [vdb_simps]:
  "upsert L uid d t v = Inr v' \<Longrightarrow> persistence v' = persistence v \<and> files v' = files v"
  by (auto simp: upsert_def Let_def res_simps)

lemma replay_record_keeps [vdb_simps]:
  "replay_record L op d v = Inr v' \<Longrightarrow> persistence v' = persistence v \<and> files v' = files v"
  by (auto simp: replay_record_def res_simps dest!: upsert_keeps split: if_splits)

function reload_loop ::
  "('b, 'd, 'f, 'h) libs \<Rightarrow> string \<Rightarrow> json \<Rightarrow> ('b, 'd, 'f, 'h) VectorDatabase \<Rightarrow> ('b, 'd, 'f, 'h) VectorDatabase res" where
  "reload_loop L operation_type json_data v =
     (if operation_type = [] then Inr v
      else andthen (replay_record L operation_type json_data v) (\<lambda>v1.
           andthen (readNextWALLog (lib_json L) [] JNull (files v1) (persistence v1)) (\<lambda>(op, doc, p).
             reload_loop L op doc (v1\<lparr>persistence := p\<rparr>))))"
  by pat_completeness auto
termination
proof (relation "measure (\<lambda>(L, op, doc, v). if op = [] then 0 else Suc (wal_remaining (files v) (persistence v)))",
    goal_cases)
  case 1
  show ?case by simp
next
  case (2 L op d v v1 r op' dp doc p)
  then show ?case
    using readNextWALLog_consumes [of "lib_json L" "[]" JNull "files v1" "persistence v1" op' doc p]
      replay_record_keeps [of L op d v v1]
    by simp
qed

declare reload_loop.simps [simp del]

definition reloadDatabase ::
  "('b, 'd, 'f, 'h) libs \<Rightarrow> ('b, 'd, 'f, 'h) VectorDatabase \<Rightarrow> ('b, 'd, 'f, 'h) VectorDatabase res" where
  "reloadDatabase L v =
     andthen (Persistence_loadSnapshot L (scalar_storage v) (files v) (index_factory v)) (\<lambda>f.
       let v1 = v\<lparr>index_factory := f\<rparr> in
       andthen (readNextWALLog (lib_json L) [] JNull (files v1) (persistence v1)) (\<lambda>(op, doc, p).
         reload_loop L op doc (v1\<lparr>persistence := p\<rparr>)))"

end
