(* ===== verification/Hybrid_Search.thy ===== *)
theory Hybrid_Search
  imports Vector_Database
begin

text \<open>
  What makes filtered search right: the filter index agrees with the documents in the scalar
  storage, and the flat index holds only ids that were stored. The documents of a collection
  share their integer fields (\<open>doc_ok\<close>) and the ids differ in their low 32 bits, the part a
  bitmap keeps. Shown here: \<open>upsert\<close> succeeds on such documents and keeps the agreement, also
  while a log is replayed over a storage that is ahead of the indexes.
\<close>

section \<open>Documents of a collection\<close>

fun int_value :: "json \<Rightarrow> int" where
  "int_value (JInt i) = i"
| "int_value _ = 0"

definition int_members :: "(string \<times> json) list \<Rightarrow> (string \<times> int) list" where
  "int_members ms =
     map (\<lambda>m. (fst m, int_value (snd m))) (filter (\<lambda>m. j_IsInt (snd m) \<and> fst m \<noteq> ''id'') ms)"

fun int_fields :: "json \<Rightarrow> (string \<times> int) list" where
  "int_fields (JObject ms) = int_members ms"
| "int_fields _ = []"

text \<open>
  A document of a collection with vectors of dimension \<open>dim\<close> and integer fields \<open>F\<close>: a JSON
  object with distinct member names without NUL that reads back as it was written.
\<close>

definition doc_ok :: "rapidjson \<Rightarrow> nat \<Rightarrow> string set \<Rightarrow> json \<Rightarrow> bool" where
  "doc_ok J dim F d \<longleftrightarrow>
     (case d of
        JObject ms \<Rightarrow>
          distinct (map fst ms) \<and> (\<forall>m \<in> set ms. CHR 0x00 \<notin> set (fst m)) \<and>
          (case map_of ms ''vectors'' of
             Some vec \<Rightarrow> (case json_floats J vec of Inr xs \<Rightarrow> length xs = dim | Inl _ \<Rightarrow> False)
           | None \<Rightarrow> False) \<and>
          fst ` set (int_members ms) = F \<and> rj_roundtrip J d
      | _ \<Rightarrow> False)"

lemma doc_okE:
  assumes "doc_ok J dim F d"
  obtains ms vec xs where "d = JObject ms" "distinct (map fst ms)" "\<forall>m \<in> set ms. CHR 0x00 \<notin> set (fst m)"
    "map_of ms ''vectors'' = Some vec" "json_floats J vec = Inr xs" "length xs = dim"
    "fst ` set (int_members ms) = F" "rj_roundtrip J d"
  using assms by (auto simp: doc_ok_def split: json.splits option.splits sum.splits)

lemma int_members_distinct: "distinct (map fst ms) \<Longrightarrow> distinct (map fst (int_members ms))"
  by (induction ms) (auto simp: int_members_def)

lemma int_members_of:
  assumes "distinct (map fst ms)"
  shows "map_of (int_members ms) f = Some i \<longleftrightarrow>
    f \<noteq> ''id'' \<and> map_of ms f = Some (JInt i) \<and> - (2 ^ 31) \<le> i \<and> i < 2 ^ 31"
proof -
  have "map_of (int_members ms) f = Some i \<longleftrightarrow> (f, i) \<in> set (int_members ms)"
    using int_members_distinct [OF assms] by simp
  also have "\<dots> \<longleftrightarrow> f \<noteq> ''id'' \<and> (f, JInt i) \<in> set ms \<and> - (2 ^ 31) \<le> i \<and> i < 2 ^ 31"
    by (force simp: int_members_def j_IsInt_iff image_iff)
  finally show ?thesis using assms by simp
qed

lemma doc_int_fields:
  assumes "doc_ok J dim F d"
  shows "distinct (map fst (int_fields d))" "map_of (int_fields d) f \<noteq> None \<longleftrightarrow> f \<in> F"
  using assms by (auto elim!: doc_okE simp: int_members_distinct map_of_eq_None_iff)

section \<open>The filter step of \<^verbatim>\<open>upsert\<close>\<close>

text \<open>The old value the loop finds for a field, and the updates it makes.\<close>

definition old_value :: "json \<Rightarrow> string \<Rightarrow> int option" where
  "old_value existing f = map_of (int_fields existing) f"

definition field_updates :: "json \<Rightarrow> (string \<times> json) list \<Rightarrow> (string \<times> int option \<times> int) list" where
  "field_updates existing ms = map (\<lambda>(f, i). (f, old_value existing f, i)) (int_members ms)"

definition storable :: "rapidjson \<Rightarrow> nat \<Rightarrow> string set \<Rightarrow> json \<Rightarrow> bool" where
  "storable J dim F d \<longleftrightarrow> d = JNull \<or> doc_ok J dim F d"

lemma old_field_value_ok:
  assumes "storable J dim F existing" "f \<in> F" "CHR 0x00 \<notin> set f"
  shows "old_field_value existing f = Inr (old_value existing f)"
proof (cases "existing = JNull")
  case True
  then show ?thesis by (simp add: old_field_value_def old_value_def)
next
  case False
  with assms(1) have ok: "doc_ok J dim F existing" by (simp add: storable_def)
  then obtain ms where e: "existing = JObject ms" "distinct (map fst ms)"
    by (auto elim: doc_okE)
  from doc_int_fields(2) [OF ok, of f] assms(2) obtain i where i: "map_of (int_members ms) f = Some i"
    by (auto simp: e)
  then have "map_of ms f = Some (JInt i)" "- (2 ^ 31) \<le> i" "i < 2 ^ 31"
    using int_members_of [OF e(2)] by auto
  with i assms(3) e show ?thesis
    by (simp add: old_field_value_def old_value_def)
qed

lemma update_fields_eq:
  assumes "storable J dim F existing" "\<forall>m \<in> set ms. CHR 0x00 \<notin> set (fst m)"
    and "fst ` set (int_members ms) \<subseteq> F" "getIndex FILTER fac = Some (Filter_index fi)"
  shows "foldM (update_field L uid existing) fac ms =
    andthen (foldM (\<lambda>s (f, old, new). updateIntFieldFilter (lib_rb L) f old new uid s) fi (field_updates existing ms))
      (\<lambda>fi'. Inr (if int_members ms = [] then fac else set_index FILTER (Filter_index fi') fac))"
  using assms(2-)
proof (induction ms arbitrary: fac fi)
  case Nil
  then show ?case by (simp add: field_updates_def int_members_def)
next
  case (Cons m ms)
  obtain n d where m: "m = (n, d)" by (cases m)
  have nul: "CHR 0x00 \<notin> set n" "\<forall>m \<in> set ms. CHR 0x00 \<notin> set (fst m)" using Cons.prems(1) m by auto
  show ?case
  proof (cases "j_IsInt d \<and> n \<noteq> ''id''")
    case False
    then have "int_members (m # ms) = int_members ms" by (auto simp: int_members_def m)
    moreover have "update_field L uid existing fac m = Inr fac"
      using False nul by (auto simp: update_field_def m Let_def)
    ultimately show ?thesis
      using Cons.IH [OF nul(2) _ Cons.prems(3)] Cons.prems(2) by (simp add: field_updates_def)
  next
    case True
    then obtain i where d: "d = JInt i" "- (2 ^ 31) \<le> i" "i < 2 ^ 31" by (auto simp: j_IsInt_iff)
    have im: "int_members (m # ms) = (n, i) # int_members ms" using True d by (simp add: int_members_def m)
    have "n \<in> F" and sub: "fst ` set (int_members ms) \<subseteq> F" using Cons.prems(2) im by auto
    then have old: "old_field_value existing n = Inr (old_value existing n)"
      using old_field_value_ok [OF assms(1)] nul by blast
    have step: "update_field L uid existing fac m =
        andthen (updateIntFieldFilter (lib_rb L) n (old_value existing n) i uid fi)
          (\<lambda>fi'. Inr (set_index FILTER (Filter_index fi') fac))"
      using True d old nul Cons.prems(3) by (simp add: update_field_def m Let_def)
    have twice: "set_index FILTER b (set_index FILTER a fac) = set_index FILTER b fac" for a b
      by (simp add: set_index_def om_insert_twice)
    show ?thesis
    proof (cases "updateIntFieldFilter (lib_rb L) n (old_value existing n) i uid fi")
      case (Inl e)
      with step im show ?thesis by (simp add: field_updates_def)
    next
      case (Inr fi1)
      have "getIndex FILTER (set_index FILTER (Filter_index fi1) fac) = Some (Filter_index fi1)" by simp
      from Cons.IH [OF nul(2) sub this] Inr step im show ?thesis
        by (auto simp: field_updates_def twice andthen_def int_members_def split: sum.splits)
    qed
  qed
qed

section \<open>The agreement invariant\<close>

definition libs_ok :: "('b, 'd, 'f, 'h) libs \<Rightarrow> bool" where
  "libs_ok L \<longleftrightarrow> roaring_ok (lib_rb L) \<and> rocks_ok (lib_rk L) \<and> rocks_writable (lib_rk L) \<and>
     faiss_shape_ok (lib_fa L) \<and> faiss_labels_ok (lib_fa L) \<and> faiss_search_ok (lib_fa L)"

text \<open>
  \<open>S\<close> is the set of ids upserted since the indexes were empty. The filter index says of each of
  them what its stored document says, and nothing of any other id.
\<close>

definition filter_agrees ::
  "('b, 'd, 'f, 'h) libs \<Rightarrow> u64 set \<Rightarrow> ('b, 'd, 'f, 'h) VectorDatabase \<Rightarrow> 'b filter_index \<Rightarrow> bool" where
  "filter_agrees L S v fi \<longleftrightarrow>
     (\<forall>f w x. fi_member (lib_rb L) fi f w x \<longleftrightarrow>
        (\<exists>uid \<in> S. ucast uid = x \<and> map_of (int_fields (vdb_query L uid v)) f = Some w))"

definition collection_inv ::
  "('b, 'd, 'f, 'h) libs \<Rightarrow> nat \<Rightarrow> string set \<Rightarrow> u64 set \<Rightarrow> ('b, 'd, 'f, 'h) VectorDatabase \<Rightarrow> bool" where
  "collection_inv L dim F S v \<longleftrightarrow>
     (\<exists>fi. getIndex FILTER (index_factory v) = Some (Filter_index fi) \<and> fi_ok fi \<and> filter_agrees L S v fi) \<and>
     (\<forall>uid. storable (lib_json L) dim F (vdb_query L uid v)) \<and>
     (\<forall>uid \<in> S. vdb_query L uid v \<noteq> JNull) \<and>
     inj_on (\<lambda>uid. ucast uid :: u32) S"

definition flat_inv ::
  "('b, 'd, 'f, 'h) libs \<Rightarrow> nat \<Rightarrow> u64 set \<Rightarrow> ('b, 'd, 'f, 'h) VectorDatabase \<Rightarrow> bool" where
  "flat_inv L dim S v \<longleftrightarrow>
     (\<exists>x. getIndex FLAT (index_factory v) = Some (Flat_index x) \<and> flat_ok (lib_fa L) (int dim) x \<and>
        flat_labels (lib_fa L) x \<subseteq> sint ` S)"

lemma remove_old_other:
  assumes "remove_old_vector L uid t e fac = Inr fac'"
  shows "getIndex FILTER fac' = getIndex FILTER fac"
  using assms
  by (cases t) (auto simp: remove_old_vector_def res_simps split: if_splits)

lemma insert_new_other:
  assumes "insert_new_vector L uid t d fac = Inr fac'"
  shows "getIndex FILTER fac' = getIndex FILTER fac"
  using assms
  by (cases t) (auto simp: insert_new_vector_def res_simps)

lemma update_fields_flat:
  "foldM (update_field L uid e) fac ms = Inr fac' \<Longrightarrow> getIndex FLAT fac' = getIndex FLAT fac"
proof (induction ms arbitrary: fac)
  case Nil
  then show ?case by simp
next
  case (Cons m ms)
  then obtain fac1 where 1: "update_field L uid e fac m = Inr fac1"
    and 2: "foldM (update_field L uid e) fac1 ms = Inr fac'" by (auto simp: res_simps)
  have "getIndex FLAT fac1 = getIndex FLAT fac"
    using 1 by (auto simp: update_field_def Let_def res_simps split: if_splits)
  with Cons.IH [OF 2] show ?case by simp
qed

lemma vdb_query_upsert:
  assumes "libs_ok L" "rj_roundtrip (lib_json L) d" "upsert L uid d t v = Inr v'"
  shows "vdb_query L u v' = (if u = uid then d else vdb_query L u v)"
proof -
  have "scalar_storage v' = insert_scalar (lib_json L) (lib_rk L) uid d (scalar_storage v)"
    using assms(3) by (auto simp: upsert_def Let_def res_simps)
  then show ?thesis
    using assms(1,2) get_insert_scalar [of "lib_rk L" "lib_json L" u uid d]
    by (simp add: vdb_query_def libs_ok_def rj_roundtrip_def)
qed

lemma field_updates_lookup:
  "map_of (field_updates e ms) f =
     map_option (\<lambda>i. (old_value e f, i)) (map_of (int_members ms) f)"
proof -
  have "map_of (map (\<lambda>(f, i). (f, old_value e f, i)) l) f = map_option (\<lambda>i. (old_value e f, i)) (map_of l f)" for l
    by (induction l) auto
  then show ?thesis by (simp add: field_updates_def)
qed

lemma field_updates_fst: "map fst (field_updates e ms) = map fst (int_members ms)"
  by (simp add: field_updates_def comp_def case_prod_beta)

text \<open>
  The filter step on a collection: it succeeds, and afterwards the id is a member exactly under
  the values of the new document.
\<close>

lemma filter_step:
  assumes L: "libs_ok L" and d: "doc_ok (lib_json L) dim F d" "d = JObject ms"
    and e: "storable (lib_json L) dim F e" and fi: "getIndex FILTER fac = Some (Filter_index fi)" "fi_ok fi"
    and clean: "\<And>f w. fi_member (lib_rb L) fi f w (ucast uid) \<Longrightarrow> old_value e f = Some w"
  shows "\<exists>fac' fi'. foldM (update_field L uid e) fac ms = Inr fac' \<and>
    getIndex FILTER fac' = Some (Filter_index fi') \<and> fi_ok fi' \<and>
    (\<forall>f w x. fi_member (lib_rb L) fi' f w x \<longleftrightarrow>
       (if x = ucast uid then map_of (int_fields d) f = Some w else fi_member (lib_rb L) fi f w x))"
proof -
  from d have ms: "distinct (map fst ms)" "\<forall>m \<in> set ms. CHR 0x00 \<notin> set (fst m)" "fst ` set (int_members ms) = F"
    by (auto elim!: doc_okE)
  let ?upd = "\<lambda>s (f, old, new). updateIntFieldFilter (lib_rb L) f old new uid s"
  have R: "roaring_ok (lib_rb L)" using L by (simp add: libs_ok_def)
  obtain fi' where fi': "foldM ?upd fi (field_updates e ms) = Inr fi'" "fi_ok fi'"
    using ff.updates_total [OF fi(2)] by blast
  have dist: "distinct (map fst (field_updates e ms))"
    using int_members_distinct [OF ms(1)] by (simp only: field_updates_fst)
  note mem = ff.updates_member [OF R fi(2) dist fi'(1)]
  have agree: "fi_member (lib_rb L) fi' f w x \<longleftrightarrow>
       (if x = ucast uid then map_of (int_fields d) f = Some w else fi_member (lib_rb L) fi f w x)" for f w x
  proof (cases "map_of (int_members ms) f")
    case None
    then have "f \<notin> F" using ms(3) by (simp add: map_of_eq_None_iff)
    then have "old_value e f = None"
      using e doc_int_fields(2) [of "lib_json L" dim F e f] by (auto simp: old_value_def storable_def)
    with None clean [of f w] mem [of f w x] d(2) show ?thesis
      by (auto simp: field_updates_lookup)
  next
    case (Some i)
    with clean [of f w] mem [of f w x] d(2) show ?thesis
      by (auto simp: field_updates_lookup)
  qed
  have "foldM (update_field L uid e) fac ms =
      Inr (if int_members ms = [] then fac else set_index FILTER (Filter_index fi') fac)"
    using update_fields_eq [OF e ms(2) _ fi(1), of L uid] ms(3) fi' by simp
  moreover have "getIndex FILTER (if int_members ms = [] then fac else set_index FILTER (Filter_index fi') fac)
      = Some (Filter_index fi')"
    using fi(1) fi'(1) by (auto simp: field_updates_def)
  ultimately show ?thesis using fi'(2) agree by blast
qed

lemma upsert_filter_step:
  assumes L: "libs_ok L" and inv: "collection_inv L dim F S v"
    and d: "doc_ok (lib_json L) dim F d" "d = JObject ms"
    and inj: "inj_on (\<lambda>uid. ucast uid :: u32) (insert uid S)"
    and fac: "getIndex FILTER fac = getIndex FILTER (index_factory v)"
    and q: "\<And>u. vdb_query L u v' = (if u = uid then d else vdb_query L u v)"
  shows "\<exists>fac'. foldM (update_field L uid (vdb_query L uid v)) fac ms = Inr fac' \<and>
    (index_factory v' = fac' \<longrightarrow> collection_inv L dim F (insert uid S) v')"
proof -
  from inv obtain fi where fi: "getIndex FILTER (index_factory v) = Some (Filter_index fi)" "fi_ok fi"
    and ag: "filter_agrees L S v fi" by (auto simp: collection_inv_def)
  have same: "u = uid" if "u \<in> S" "ucast u = (ucast uid :: u32)" for u
    using inj that by (auto simp: inj_on_def)
  have clean: "old_value (vdb_query L uid v) f = Some w" if "fi_member (lib_rb L) fi f w (ucast uid)" for f w
    using ag that same by (auto simp: filter_agrees_def old_value_def)
  have e: "storable (lib_json L) dim F (vdb_query L uid v)" using inv by (simp add: collection_inv_def)
  have f1: "getIndex FILTER fac = Some (Filter_index fi)" using fac fi(1) by simp
  from filter_step [OF L d e f1 fi(2) clean] obtain fac' fi'
    where fac': "foldM (update_field L uid (vdb_query L uid v)) fac ms = Inr fac'"
      "getIndex FILTER fac' = Some (Filter_index fi')" "fi_ok fi'"
      and m: "\<And>f w x. fi_member (lib_rb L) fi' f w x \<longleftrightarrow>
       (if x = ucast uid then map_of (int_fields d) f = Some w else fi_member (lib_rb L) fi f w x)" by blast
  have "filter_agrees L (insert uid S) v' fi'"
    unfolding filter_agrees_def
  proof (intro allI)
    fix f w and x :: u32
    show "fi_member (lib_rb L) fi' f w x \<longleftrightarrow>
        (\<exists>u \<in> insert uid S. ucast u = x \<and> map_of (int_fields (vdb_query L u v')) f = Some w)"
    proof (cases "x = ucast uid")
      case True
      with same show ?thesis by (auto simp: m q)
    next
      case False
      then have "vdb_query L u v' = vdb_query L u v" if "ucast u = x" for u
        using that by (auto simp: q)
      with False ag show ?thesis by (auto simp: m filter_agrees_def)
    qed
  qed
  moreover have "d \<noteq> JNull" using d(2) by simp
  ultimately have "index_factory v' = fac' \<longrightarrow> collection_inv L dim F (insert uid S) v'"
    using inv fac' inj d(1) by (auto simp: collection_inv_def q storable_def)
  with fac'(1) show ?thesis by blast
qed

section \<open>\<^verbatim>\<open>upsert\<close> on a collection\<close>

lemma upsert_collection:
  assumes L: "libs_ok L" and inv: "collection_inv L dim F S v"
    and d: "doc_ok (lib_json L) dim F d" and inj: "inj_on (\<lambda>uid. ucast uid :: u32) (insert uid S)"
    and up: "upsert L uid d t v = Inr v'"
  shows "collection_inv L dim F (insert uid S) v'"
proof -
  from d obtain ms where ms: "d = JObject ms" and rt: "rj_roundtrip (lib_json L) d" by (auto elim!: doc_okE)
  from up ms obtain f1 f2 f3
    where 1: "remove_old_vector L uid t (vdb_query L uid v) (index_factory v) = Inr f1"
      and 2: "insert_new_vector L uid t d f1 = Inr f2"
      and 3: "foldM (update_field L uid (vdb_query L uid v)) f2 ms = Inr f3"
      and v': "index_factory v' = f3"
    by (auto simp: upsert_def Let_def res_simps vdb_query_def)
  have "getIndex FILTER f2 = getIndex FILTER (index_factory v)"
    using remove_old_other [OF 1] insert_new_other [OF 2] by simp
  from upsert_filter_step [OF L inv d ms inj this vdb_query_upsert [OF L rt up]] 3 v'
  show ?thesis by auto
qed

lemma remove_old_flat:
  assumes "remove_old_vector L uid t e fac = Inr fac'" "getIndex FLAT fac = Some (Flat_index x)"
  shows "\<exists>x'. getIndex FLAT fac' = Some (Flat_index x') \<and>
    (x' = x \<or> faiss_remove_vectors (lib_fa L) [sint uid] x = Inr x')"
  using assms by (cases t) (auto simp: remove_old_vector_def res_simps split: if_splits)

lemma remove_keeps_shape:
  "faiss_remove_vectors F ids x = Inr x' \<Longrightarrow> faiss_shape_ok F \<Longrightarrow> flat_ok F d x \<Longrightarrow> flat_ok F d x'"
  using flat_remove_total [of F d x ids] by auto

lemma upsert_flat_labels:
  assumes L: "libs_ok L" and fl: "flat_inv L dim S v" and up: "upsert L uid d t v = Inr v'"
  shows "flat_inv L dim (insert uid S) v'"
proof -
  from up obtain f1 f2 f3 ms
    where 1: "remove_old_vector L uid t (vdb_query L uid v) (index_factory v) = Inr f1"
      and 2: "insert_new_vector L uid t d f1 = Inr f2"
      and 3: "foldM (update_field L uid (vdb_query L uid v)) f2 ms = Inr f3"
      and v': "index_factory v' = f3"
    by (auto simp: upsert_def Let_def res_simps vdb_query_def)
  have shape: "faiss_shape_ok (lib_fa L)" and labels: "faiss_labels_ok (lib_fa L)"
    using L by (simp_all add: libs_ok_def)
  from fl obtain x where x: "getIndex FLAT (index_factory v) = Some (Flat_index x)"
    "flat_ok (lib_fa L) (int dim) x" "flat_labels (lib_fa L) x \<subseteq> sint ` S" by (auto simp: flat_inv_def)
  from remove_old_flat [OF 1 x(1)] obtain x1 where x1: "getIndex FLAT f1 = Some (Flat_index x1)"
    and c: "x1 = x \<or> faiss_remove_vectors (lib_fa L) [sint uid] x = Inr x1" by blast
  have x1_ok: "flat_ok (lib_fa L) (int dim) x1" using c x(2) remove_keeps_shape [OF _ shape x(2)] by blast
  have x1_labels: "flat_labels (lib_fa L) x1 \<subseteq> sint ` S"
    using c x(3) flat_labels_remove [OF labels] by blast
  note x1 = x1 x1_ok x1_labels
  have "\<exists>x2. getIndex FLAT f2 = Some (Flat_index x2) \<and> flat_ok (lib_fa L) (int dim) x2 \<and>
      flat_labels (lib_fa L) x2 \<subseteq> sint ` insert uid S"
  proof (cases "t = FLAT")
    case True
    with 2 x1 obtain vec x2 where i: "faiss_insert_vectors (lib_fa L) vec uid x1 = Inr x2"
      and f2: "f2 = set_index FLAT (Flat_index x2) f1"
      by (auto simp: insert_new_vector_def res_simps)
    have "flat_ok (lib_fa L) (int dim) x2"
      using i x1(2) shape
      by (auto simp: faiss_insert_vectors_def Let_def flat_ok_def faiss_shape_ok_def split: if_splits)
    moreover have "flat_labels (lib_fa L) x2 \<subseteq> sint ` insert uid S"
      using flat_labels_insert [OF labels i] x1(3) by blast
    ultimately show ?thesis by (simp add: f2)
  next
    case False
    with 2 x1 show ?thesis
      by (cases t) (auto simp: insert_new_vector_def res_simps)
  qed
  then show ?thesis
    using update_fields_flat [OF 3] by (auto simp: flat_inv_def v')
qed

text \<open>
  An upsert into the flat index, or with no vector index named, succeeds: it needs the indexes to
  be there and the stored documents to be of the collection, not that they agree.
\<close>

definition well_indexed ::
  "('b, 'd, 'f, 'h) libs \<Rightarrow> nat \<Rightarrow> string set \<Rightarrow> ('b, 'd, 'f, 'h) VectorDatabase \<Rightarrow> bool" where
  "well_indexed L dim F v \<longleftrightarrow>
     (\<exists>fi. getIndex FILTER (index_factory v) = Some (Filter_index fi) \<and> fi_ok fi) \<and>
     (\<exists>x. getIndex FLAT (index_factory v) = Some (Flat_index x) \<and> flat_ok (lib_fa L) (int dim) x) \<and>
     (\<forall>uid. storable (lib_json L) dim F (vdb_query L uid v))"

lemma remove_old_total:
  assumes "faiss_shape_ok (lib_fa L)" "getIndex FLAT fac = Some (Flat_index x)" "flat_ok (lib_fa L) (int dim) x"
    and "storable (lib_json L) dim F e" "t = FLAT \<or> t = UNKNOWN"
  shows "\<exists>f1 x1. remove_old_vector L uid t e fac = Inr f1 \<and>
    getIndex FLAT f1 = Some (Flat_index x1) \<and> flat_ok (lib_fa L) (int dim) x1"
proof (cases "j_IsObject e")
  case False
  then show ?thesis using assms(2,3) by (simp add: remove_old_vector_def)
next
  case True
  then obtain es ev exs where es: "e = JObject es" "map_of es ''vectors'' = Some ev"
    "json_floats (lib_json L) ev = Inr exs"
    using assms(4) by (auto simp: storable_def elim!: doc_okE)
  obtain x1 where "faiss_remove_vectors (lib_fa L) [sint uid] x = Inr x1" "flat_ok (lib_fa L) (int dim) x1"
    using flat_remove_total [OF assms(1,3)] by blast
  with assms(2,3,5) es show ?thesis
    by (auto simp: remove_old_vector_def)
qed

lemma insert_new_total:
  assumes "faiss_shape_ok (lib_fa L)" "getIndex FLAT fac = Some (Flat_index x)" "flat_ok (lib_fa L) (int dim) x"
    and "doc_ok (lib_json L) dim F d" "t = FLAT \<or> t = UNKNOWN"
  shows "\<exists>f2 x2. insert_new_vector L uid t d fac = Inr f2 \<and>
    getIndex FLAT f2 = Some (Flat_index x2) \<and> flat_ok (lib_fa L) (int dim) x2"
proof -
  from assms(4) obtain vec xs where vs: "j_at d ''vectors'' = Inr vec" "json_floats (lib_json L) vec = Inr xs"
    "length xs = dim" by (auto elim!: doc_okE)
  obtain x2 where "faiss_insert_vectors (lib_fa L) xs uid x = Inr x2" "flat_ok (lib_fa L) (int dim) x2"
    using flat_insert_total [OF assms(1,3), of xs uid] vs(3) by auto
  with assms(2,3,5) vs(1,2) show ?thesis by (auto simp: insert_new_vector_def)
qed

lemma upsert_total:
  assumes L: "libs_ok L" and wi: "well_indexed L dim F v" and d: "doc_ok (lib_json L) dim F d"
    and t: "t = FLAT \<or> t = UNKNOWN"
  shows "\<exists>v'. upsert L uid d t v = Inr v' \<and> well_indexed L dim F v'"
proof -
  have shape: "faiss_shape_ok (lib_fa L)" using L by (simp add: libs_ok_def)
  from d obtain ms where ms: "d = JObject ms" "\<forall>m \<in> set ms. CHR 0x00 \<notin> set (fst m)"
    "fst ` set (int_members ms) = F" and rt: "rj_roundtrip (lib_json L) d"
    by (auto elim!: doc_okE)
  let ?e = "vdb_query L uid v"
  from wi obtain fi x where fi: "getIndex FILTER (index_factory v) = Some (Filter_index fi)" "fi_ok fi"
    and x: "getIndex FLAT (index_factory v) = Some (Flat_index x)" "flat_ok (lib_fa L) (int dim) x"
    and st: "\<And>u. storable (lib_json L) dim F (vdb_query L u v)" by (auto simp: well_indexed_def)
  obtain f1 x1 where 1: "remove_old_vector L uid t ?e (index_factory v) = Inr f1"
    and x1: "getIndex FLAT f1 = Some (Flat_index x1)" "flat_ok (lib_fa L) (int dim) x1"
    using remove_old_total [OF shape x st t] by blast
  obtain f2 x2 where 2: "insert_new_vector L uid t d f1 = Inr f2"
    and x2: "getIndex FLAT f2 = Some (Flat_index x2)" "flat_ok (lib_fa L) (int dim) x2"
    using insert_new_total [OF shape x1 d t] by blast
  have f2: "getIndex FILTER f2 = Some (Filter_index fi)"
    using remove_old_other [OF 1] insert_new_other [OF 2] fi(1) by simp
  obtain fi' where fi': "foldM (\<lambda>s (f, old, new). updateIntFieldFilter (lib_rb L) f old new uid s) fi
      (field_updates ?e ms) = Inr fi'" "fi_ok fi'"
    using ff.updates_total [OF fi(2)] by blast
  let ?f3 = "if int_members ms = [] then f2 else set_index FILTER (Filter_index fi') f2"
  have 3: "foldM (update_field L uid ?e) f2 ms = Inr ?f3"
    using update_fields_eq [OF st ms(2) _ f2, where L = L and uid = uid] ms(3) fi' by simp
  have up: "upsert L uid d t v = Inr (v\<lparr>index_factory := ?f3,
      scalar_storage := insert_scalar (lib_json L) (lib_rk L) uid d (scalar_storage v)\<rparr>)" (is "_ = Inr ?v'")
    using 1 2 3 ms(1) by (simp add: upsert_def Let_def vdb_query_def)
  have "storable (lib_json L) dim F (vdb_query L u ?v')" for u
    using vdb_query_upsert [OF L rt up, of u] st d by (simp add: storable_def)
  moreover have "\<exists>fi. getIndex FILTER ?f3 = Some (Filter_index fi) \<and> fi_ok fi"
    using f2 fi fi'(2) by auto
  moreover have "getIndex FLAT ?f3 = Some (Flat_index x2)" using x2(1) by simp
  ultimately have "well_indexed L dim F ?v'" using x2(2) by (simp add: well_indexed_def)
  with up show ?thesis by blast
qed

lemma collection_well_indexed:
  "collection_inv L dim F S v \<Longrightarrow> flat_inv L dim T v \<Longrightarrow> well_indexed L dim F v"
  by (auto simp: collection_inv_def flat_inv_def well_indexed_def)

text \<open>The step both properties of a run rest on.\<close>

lemma upsert_step:
  assumes "libs_ok L" "collection_inv L dim F S v" "flat_inv L dim S v" "doc_ok (lib_json L) dim F d"
    and "inj_on (\<lambda>uid. ucast uid :: u32) (insert uid S)" "t = FLAT \<or> t = UNKNOWN"
  shows "\<exists>v'. upsert L uid d t v = Inr v' \<and> collection_inv L dim F (insert uid S) v' \<and>
    flat_inv L dim (insert uid S) v'"
  using upsert_total [OF assms(1) collection_well_indexed [OF assms(2,3)] assms(4,6)]
    upsert_collection [OF assms(1,2,4,5)] upsert_flat_labels [OF assms(1,3)]
  by blast

section \<open>The entries of the flat index\<close>

text \<open>
  \<open>flat_holds\<close>: the flat index holds one entry for every id of \<open>T\<close>, with the vector \<open>T\<close> has for it,
  and no other entry.
\<close>

definition flat_entries :: "('f \<Rightarrow> (int \<times> f32 list) list) \<Rightarrow> ('b, 'f, 'h) IndexFactory \<Rightarrow> (int \<times> f32 list) list" where
  "flat_entries held x = (case getIndex FLAT x of Some (Flat_index i) \<Rightarrow> held (fi_index i) | _ \<Rightarrow> [])"

definition flat_holds ::
  "('f \<Rightarrow> (int \<times> f32 list) list) \<Rightarrow> (u64 \<rightharpoonup> f32 list) \<Rightarrow> ('b, 'd, 'f, 'h) VectorDatabase \<Rightarrow> bool" where
  "flat_holds held T v \<longleftrightarrow> distinct (map fst (flat_entries held (index_factory v))) \<and>
     set (flat_entries held (index_factory v)) = {(sint uid, x) |uid x. T uid = Some x}"

definition doc_vector :: "rapidjson \<Rightarrow> json \<Rightarrow> f32 list" where
  "doc_vector J d = (case andthen (j_at d ''vectors'') (json_floats J) of Inr xs \<Rightarrow> xs | Inl _ \<Rightarrow> [])"

lemma sint_u64_inject: "sint (a :: u64) = sint b \<longleftrightarrow> a = b"
  by (metis signed_word_eqI)

text \<open>What \<open>upsert\<close> does to the entries.\<close>

lemma upsert_flat_entries:
  assumes L: "faiss_holds_ok (lib_fa L) held" and d: "doc_ok (lib_json L) dim F d"
    and x: "getIndex FLAT (index_factory v) = Some (Flat_index x)" "flat_ok (lib_fa L) (int dim) x"
    and shape: "faiss_shape_ok (lib_fa L)" and up: "upsert L uid d t v = Inr v'"
  shows "flat_entries held (index_factory v') =
    (if t = FLAT
     then (if j_IsObject (vdb_query L uid v)
           then filter (\<lambda>e. fst e \<noteq> sint uid) (flat_entries held (index_factory v))
           else flat_entries held (index_factory v)) @ [(sint uid, doc_vector (lib_json L) d)]
     else flat_entries held (index_factory v))"
proof -
  note h = faiss_holds_okD [OF L]
  from d obtain vec xs where vs: "j_at d ''vectors'' = Inr vec" "json_floats (lib_json L) vec = Inr xs" "length xs = dim"
    by (auto elim!: doc_okE)
  then have dv: "doc_vector (lib_json L) d = xs" by (simp add: doc_vector_def)
  from up obtain f1 f2 f3 ms
    where 1: "remove_old_vector L uid t (vdb_query L uid v) (index_factory v) = Inr f1"
      and 2: "insert_new_vector L uid t d f1 = Inr f2"
      and 3: "foldM (update_field L uid (vdb_query L uid v)) f2 ms = Inr f3"
      and v': "index_factory v' = f3"
    by (auto simp: upsert_def Let_def res_simps vdb_query_def)
  have e3: "flat_entries held (index_factory v') = flat_entries held f2"
    using update_fields_flat [OF 3] by (simp add: flat_entries_def v')
  show ?thesis
  proof (cases "t = FLAT")
    case True
    let ?e = "if j_IsObject (vdb_query L uid v)
           then filter (\<lambda>e. fst e \<noteq> sint uid) (flat_entries held (index_factory v))
           else flat_entries held (index_factory v)"
    have "\<exists>x1. getIndex FLAT f1 = Some (Flat_index x1) \<and> fa_d (lib_fa L) (fi_index x1) = int dim \<and>
        held (fi_index x1) = ?e"
      using 1 x shape True h
      by (auto simp: remove_old_vector_def res_simps faiss_remove_vectors_def flat_entries_def flat_ok_def
          faiss_shape_ok_def split: if_splits)
    then obtain x1 where x1: "getIndex FLAT f1 = Some (Flat_index x1)" "fa_d (lib_fa L) (fi_index x1) = int dim"
      "held (fi_index x1) = ?e" by blast
    have "flat_entries held f2 = ?e @ [(sint uid, xs)]"
      using 2 x1 vs True h
      by (auto simp: insert_new_vector_def res_simps faiss_insert_vectors_def flat_entries_def Let_def)
    then show ?thesis using True by (simp add: e3 dv)
  next
    case False
    have "getIndex FLAT f1 = getIndex FLAT (index_factory v)"
      using 1 False by (cases t) (auto simp: remove_old_vector_def res_simps split: if_splits)
    moreover have "getIndex FLAT f2 = getIndex FLAT f1"
      using 2 False by (cases t) (auto simp: insert_new_vector_def res_simps)
    ultimately show ?thesis using False by (simp add: e3) (simp add: flat_entries_def)
  qed
qed

lemma upsert_flat_holds:
  assumes L: "libs_ok L" "faiss_holds_ok (lib_fa L) held" and inv: "collection_inv L dim F S v" "flat_inv L dim S v"
    and d: "doc_ok (lib_json L) dim F d" and up: "upsert L uid d t v = Inr v'"
    and T: "flat_holds held T v" "dom T \<subseteq> S"
  shows "flat_holds held (if t = FLAT then T(uid \<mapsto> doc_vector (lib_json L) d) else T) v'"
proof -
  let ?es = "flat_entries held (index_factory v)"
  have shape: "faiss_shape_ok (lib_fa L)" using L(1) by (simp add: libs_ok_def)
  from inv(2) obtain x where x: "getIndex FLAT (index_factory v) = Some (Flat_index x)"
    "flat_ok (lib_fa L) (int dim) x" by (auto simp: flat_inv_def)
  note eq = upsert_flat_entries [OF L(2) d x shape up]
  have dist: "distinct (map fst ?es)" and set: "set ?es = {(sint uid, x) |uid x. T uid = Some x}"
    using T(1) by (simp_all add: flat_holds_def)
  have new: "j_IsObject (vdb_query L uid v)" if "uid \<in> S"
    using that inv(1) by (auto simp: collection_inv_def storable_def elim!: doc_okE)
  show ?thesis
  proof (cases "t = FLAT")
    case False
    then show ?thesis using T(1) eq by (simp add: flat_holds_def)
  next
    case True
    let ?old = "filter (\<lambda>e. fst e \<noteq> sint uid) ?es"
    have same: "?old = ?es" if "\<not> j_IsObject (vdb_query L uid v)"
    proof -
      have "T uid = None" using that new T(2) by blast
      then show ?thesis by (auto simp: filter_id_conv set sint_u64_inject)
    qed
    have e: "flat_entries held (index_factory v') = ?old @ [(sint uid, doc_vector (lib_json L) d)]"
      using eq True same by auto
    have "distinct (map fst ?old)" using dist by (rule distinct_map_filter)
    then show ?thesis
      unfolding flat_holds_def e using True by (auto simp: set sint_u64_inject split: if_splits)
  qed
qed

section \<open>Filtered search\<close>

definition filter_holds :: "filter_op \<Rightarrow> string \<Rightarrow> int \<Rightarrow> json \<Rightarrow> bool" where
  "filter_holds op f w d =
     (case map_of (int_fields d) f of
        None \<Rightarrow> False
      | Some i \<Rightarrow> (case op of EQUAL \<Rightarrow> i = w | NOT_EQUAL \<Rightarrow> i \<noteq> w))"

lemma filter_bitmap_agrees:
  assumes L: "libs_ok L" and inv: "collection_inv L dim F S v"
    and fi: "getIndex FILTER (index_factory v) = Some (Filter_index fi)"
  shows "\<exists>b. getIntFieldFilterBitmap (lib_rb L) f op w (rb_create (lib_rb L)) fi = Inr b \<and>
    (\<forall>x. rb_contains (lib_rb L) b x \<longleftrightarrow>
       (\<exists>uid \<in> S. ucast uid = x \<and> filter_holds op f w (vdb_query L uid v)))"
proof -
  have R: "roaring_ok (lib_rb L)" using L by (simp add: libs_ok_def)
  have ok: "fi_ok fi" and ag: "filter_agrees L S v fi" using inv fi by (auto simp: collection_inv_def)
  obtain b where b: "getIntFieldFilterBitmap (lib_rb L) f op w (rb_create (lib_rb L)) fi = Inr b"
    and m: "\<And>x. rb_contains (lib_rb L) b x \<longleftrightarrow>
       (case op of EQUAL \<Rightarrow> fi_member (lib_rb L) fi f w x
        | NOT_EQUAL \<Rightarrow> \<exists>u. u \<noteq> w \<and> fi_member (lib_rb L) fi f u x)"
    using query_bitmap [OF R ok, of f op w "rb_create (lib_rb L)"] roaring_okD(1) [OF R] by auto
  have "rb_contains (lib_rb L) b x \<longleftrightarrow>
       (\<exists>uid \<in> S. ucast uid = x \<and> filter_holds op f w (vdb_query L uid v))" for x
  proof (cases op)
    case EQUAL
    then show ?thesis
      using ag by (auto simp: m filter_agrees_def filter_holds_def split: option.splits)
  next
    case NOT_EQUAL
    have "(\<exists>u. u \<noteq> w \<and> (\<exists>uid \<in> S. ucast uid = x \<and> map_of (int_fields (vdb_query L uid v)) f = Some u)) \<longleftrightarrow>
        (\<exists>uid \<in> S. ucast uid = x \<and> filter_holds NOT_EQUAL f w (vdb_query L uid v))"
      by (auto simp: filter_holds_def split: option.splits)
    with NOT_EQUAL ag show ?thesis by (simp add: m filter_agrees_def)
  qed
  with b show ?thesis by blast
qed

text \<open>The parts of a search request with a filter.\<close>

definition search_request :: "json \<Rightarrow> int \<Rightarrow> string \<Rightarrow> string \<Rightarrow> string \<Rightarrow> int \<Rightarrow> json" where
  "search_request vectors k index_type f op w =
     JObject [(''vectors'', vectors), (''k'', JInt k), (''indexType'', JString index_type),
       (''filter'', JObject [(''fieldName'', JString f), (''op'', JString op), (''value'', JInt w)])]"

lemma search_request_parts:
  "j_at (search_request vs k t f op w) REQUEST_VECTORS = Inr vs"
  "j_at (search_request vs k t f op w) REQUEST_K = Inr (JInt k)"
  "getIndexTypeFromRequest (search_request vs k t f op w) = Inr (index_type_of_string (c_str t))"
  by (simp_all add: search_request_def constants_defs getIndexTypeFromRequest_def)

lemma search_request_filter:
  assumes "- (2 ^ 63) \<le> w" "w < 2 ^ 63" "getIndex FILTER fac = Some (Filter_index fi)"
  shows "search_filter_bitmap L (search_request vs k t f op w) fac =
    andthen (getIntFieldFilterBitmap (lib_rb L) (c_str f) (filter_op_of_string (c_str op)) w
      (rb_create (lib_rb L)) fi) (\<lambda>b. Inr (Some b))"
  using assms by (simp add: search_filter_bitmap_def search_request_def)

lemma flat_filtered_search:
  assumes L: "libs_ok L" and inv: "collection_inv L dim F S v" and fl: "flat_inv L dim S v"
    and w: "- (2 ^ 63) \<le> w" "w < 2 ^ 63"
    and s: "vdb_search L (search_request vs k ''FLAT'' f op w) v = Inr ((ls, ds), v')"
  shows "v' = v" "length ds = length ls"
    and "l \<in> set ls \<Longrightarrow> l = -1 \<or> (\<exists>uid \<in> S. l = sint uid \<and>
           filter_holds (filter_op_of_string (c_str op)) (c_str f) w (vdb_query L uid v))"
proof -
  from fl obtain x where x: "getIndex FLAT (index_factory v) = Some (Flat_index x)"
    "flat_labels (lib_fa L) x \<subseteq> sint ` S" by (auto simp: flat_inv_def)
  from inv obtain fi where fi: "getIndex FILTER (index_factory v) = Some (Filter_index fi)"
    and inj: "inj_on (\<lambda>uid. ucast uid :: u32) S" by (auto simp: collection_inv_def)
  have fa: "faiss_search_ok (lib_fa L)" using L by (simp add: libs_ok_def)
  let ?op = "filter_op_of_string (c_str op)"
  obtain b where b: "getIntFieldFilterBitmap (lib_rb L) (c_str f) ?op w (rb_create (lib_rb L)) fi = Inr b"
    and m: "\<And>x. rb_contains (lib_rb L) b x \<longleftrightarrow>
       (\<exists>uid \<in> S. ucast uid = x \<and> filter_holds ?op (c_str f) w (vdb_query L uid v))"
    using filter_bitmap_agrees [OF L inv fi] by blast
  have t: "index_type_of_string ''FLAT'' = FLAT"
    by (simp add: index_type_of_string_def INDEX_TYPE_FLAT_def)
  from s obtain query where q: "faiss_search_vectors (lib_fa L) (lib_rb L) query k (Some b) x = Inr (ls, ds)"
    and v': "v' = v\<lparr>index_factory := index_factory v\<rparr>"
    by (auto simp: vdb_search_def search_request_parts search_request_filter [OF w fi] b t search_index_def x(1)
        res_simps split: if_splits)
  show "v' = v" by (simp add: v')
  show "length ds = length ls" using faiss_search_result(2) [OF fa q] .
  assume l: "l \<in> set ls"
  show "l = -1 \<or> (\<exists>uid \<in> S. l = sint uid \<and> filter_holds ?op (c_str f) w (vdb_query L uid v))"
  proof (cases "l = -1")
    case False
    then obtain uid where uid: "uid \<in> S" "l = sint uid"
      using flat_search_labels [OF q] l x(2) by auto
    have "rb_contains (lib_rb L) b (word_of_int l)"
      using flat.search_filtered [of "(lib_fa L, x)" "lib_rb L" query k b ls ds l] fa q l False by simp
    then obtain u where "u \<in> S" "ucast u = (ucast uid :: u32)"
      "filter_holds ?op (c_str f) w (vdb_query L u v)"
      by (auto simp: m uid(2))
    with inj uid show ?thesis by (auto simp: inj_on_def)
  qed simp
qed

section \<open>Filtered search of either index\<close>

text \<open>The HNSW index, if there is one, has points only for ids of \<open>S\<close>.\<close>

definition hnsw_inv ::
  "('h \<Rightarrow> u64 set) \<Rightarrow> u64 set \<Rightarrow> ('b, 'd, 'f, 'h) VectorDatabase \<Rightarrow> bool" where
  "hnsw_inv ids S v \<longleftrightarrow>
     (\<forall>x. getIndex HNSW (index_factory v) = Some (Hnsw_index x) \<longrightarrow> ids (hi_index x) \<subseteq> S)"

lemma update_fields_hnsw:
  "foldM (update_field L uid e) fac ms = Inr fac' \<Longrightarrow> getIndex HNSW fac' = getIndex HNSW fac"
proof (induction ms arbitrary: fac)
  case Nil
  then show ?case by simp
next
  case (Cons m ms)
  then obtain fac1 where 1: "update_field L uid e fac m = Inr fac1"
    and 2: "foldM (update_field L uid e) fac1 ms = Inr fac'" by (auto simp: res_simps)
  have "getIndex HNSW fac1 = getIndex HNSW fac"
    using 1 by (auto simp: update_field_def Let_def res_simps split: if_splits)
  with Cons.IH [OF 2] show ?case by simp
qed

lemma upsert_hnsw_ids:
  assumes "hnsw_ids_ok (lib_hn L) ids" "hnsw_inv ids S v" "upsert L uid d t v = Inr v'"
  shows "hnsw_inv ids (insert uid S) v'"
proof -
  from assms(3) obtain f1 f2 f3 ms
    where 1: "remove_old_vector L uid t (vdb_query L uid v) (index_factory v) = Inr f1"
      and 2: "insert_new_vector L uid t d f1 = Inr f2"
      and 3: "foldM (update_field L uid (vdb_query L uid v)) f2 ms = Inr f3"
      and v': "index_factory v' = f3"
    by (auto simp: upsert_def Let_def res_simps vdb_query_def)
  have f1: "getIndex HNSW f1 = getIndex HNSW (index_factory v)"
    using 1 by (cases t) (auto simp: remove_old_vector_def res_simps split: if_splits)
  have "\<forall>x. getIndex HNSW f2 = Some (Hnsw_index x) \<longrightarrow> ids (hi_index x) \<subseteq> insert uid S"
  proof (cases "t = HNSW")
    case False
    then have "getIndex HNSW f2 = getIndex HNSW f1"
      using 2 by (cases t) (auto simp: insert_new_vector_def res_simps)
    then show ?thesis using assms(2) f1 by (auto simp: hnsw_inv_def)
  next
    case True
    with 2 obtain vec h h' where h: "as_hnsw (getIndex HNSW f1) = Inr h"
      "hnsw_insert_vectors (lib_hn L) vec uid h = Inr h'" "f2 = set_index HNSW (Hnsw_index h') f1"
      by (auto simp: insert_new_vector_def res_simps)
    then have "getIndex HNSW f1 = Some (Hnsw_index h)"
      by (cases "getIndex HNSW f1" rule: as_hnsw.cases) auto
    then have "ids (hi_index h) \<subseteq> S" using assms(2) f1 by (simp add: hnsw_inv_def)
    then show ?thesis using hnsw_insert_ids [OF assms(1) h(2)] h(3) by auto
  qed
  then show ?thesis using update_fields_hnsw [OF 3] by (simp add: hnsw_inv_def v')
qed

text \<open>A search request with a filter, whatever else it holds.\<close>

definition filter_request :: "json \<Rightarrow> string \<Rightarrow> string \<Rightarrow> int \<Rightarrow> bool" where
  "filter_request d f op w \<longleftrightarrow>
     (\<exists>ms fl. d = JObject ms \<and> map_of ms ''filter'' = Some (JObject fl) \<and>
        map_of fl ''fieldName'' = Some (JString f) \<and> map_of fl ''op'' = Some (JString op) \<and>
        map_of fl ''value'' = Some (JInt w) \<and> - (2 ^ 63) \<le> w \<and> w < 2 ^ 63)"

lemma filter_request_bitmap:
  assumes "filter_request d f op w" "getIndex FILTER fac = Some (Filter_index fi)"
  shows "search_filter_bitmap L d fac =
    andthen (getIntFieldFilterBitmap (lib_rb L) (c_str f) (filter_op_of_string (c_str op)) w
      (rb_create (lib_rb L)) fi) (\<lambda>b. Inr (Some b))"
  using assms by (auto simp: search_filter_bitmap_def filter_request_def)

lemma filtered_search:
  assumes L: "libs_ok L" and hn: "hnsw_search_ok (lib_hn L)" "hnsw_ids_ok (lib_hn L) ids"
    and inv: "collection_inv L dim F S v" and fl: "flat_inv L dim S v" and hi: "hnsw_inv ids S v"
    and r: "filter_request d f op w" and s: "vdb_search L d v = Inr ((ls, ds), v')"
  shows "length ds = length ls"
    and "l \<in> set ls \<Longrightarrow> l = -1 \<or> (\<exists>uid \<in> S. l = sint uid \<and>
           filter_holds (filter_op_of_string (c_str op)) (c_str f) w (vdb_query L uid v))"
    and "scalar_storage v' = scalar_storage v" "getIndex FILTER (index_factory v') = getIndex FILTER (index_factory v)"
      "getIndex FLAT (index_factory v') = getIndex FLAT (index_factory v)" "hnsw_inv ids S v'"
proof -
  let ?op = "filter_op_of_string (c_str op)" and ?fac = "index_factory v"
  from inv obtain fi where fi: "getIndex FILTER ?fac = Some (Filter_index fi)"
    and inj: "inj_on (\<lambda>uid. ucast uid :: u32) S" by (auto simp: collection_inv_def)
  obtain b where b: "getIntFieldFilterBitmap (lib_rb L) (c_str f) ?op w (rb_create (lib_rb L)) fi = Inr b"
    and m: "\<And>x. rb_contains (lib_rb L) b x \<longleftrightarrow>
       (\<exists>uid \<in> S. ucast uid = x \<and> filter_holds ?op (c_str f) w (vdb_query L uid v))"
    using filter_bitmap_agrees [OF L inv fi] by blast
  from s obtain query k t fac' where q: "search_index L t query k (Some b) ?fac = Inr ((ls, ds), fac')"
    and v': "v' = v\<lparr>index_factory := fac'\<rparr>"
    by (auto simp: vdb_search_def filter_request_bitmap [OF r fi] b res_simps)
  have sel: "\<exists>uid \<in> S. l = sint uid \<and> filter_holds ?op (c_str f) w (vdb_query L uid v)"
    if l: "uid \<in> S" "l = sint uid" "rb_contains (lib_rb L) b (word_of_int l)" for l uid
  proof -
    obtain u where "u \<in> S" "ucast u = (ucast uid :: u32)" "filter_holds ?op (c_str f) w (vdb_query L u v)"
      using l by (auto simp: m)
    with inj l show ?thesis by (auto simp: inj_on_def)
  qed
  have "length ds = length ls \<and>
    (\<forall>l \<in> set ls. l = -1 \<or> (\<exists>uid \<in> S. l = sint uid \<and> filter_holds ?op (c_str f) w (vdb_query L uid v))) \<and>
    getIndex FILTER fac' = getIndex FILTER ?fac \<and> getIndex FLAT fac' = getIndex FLAT ?fac \<and>
    hnsw_inv ids S (v\<lparr>index_factory := fac'\<rparr>)"
  proof (cases t)
    case FLAT
    from fl obtain x where x: "getIndex FLAT ?fac = Some (Flat_index x)"
      "flat_labels (lib_fa L) x \<subseteq> sint ` S" by (auto simp: flat_inv_def)
    have fa: "faiss_search_ok (lib_fa L)" using L by (simp add: libs_ok_def)
    from q FLAT x(1) have c: "faiss_search_vectors (lib_fa L) (lib_rb L) query k (Some b) x = Inr (ls, ds)" "fac' = ?fac"
      by (auto simp: search_index_def res_simps)
    have "l = -1 \<or> (\<exists>uid \<in> S. l = sint uid \<and> filter_holds ?op (c_str f) w (vdb_query L uid v))" if "l \<in> set ls" for l
      using flat_search_labels [OF c(1)] faiss_search_result(3) [OF fa c(1) refl that] sel x(2) that by blast
    then show ?thesis using faiss_search_result(2) [OF fa c(1)] c(2) hi by simp
  next
    case HNSW
    from q HNSW obtain h h' where h: "as_hnsw (getIndex HNSW ?fac) = Inr h"
      "hnsw_search_vectors (lib_hn L) (lib_rb L) query k (Some b) 50 h = Inr ((ls, ds), h')"
      "fac' = set_index HNSW (Hnsw_index h') ?fac"
      by (auto simp: search_index_def res_simps)
    then have "getIndex HNSW ?fac = Some (Hnsw_index h)"
      by (cases "getIndex HNSW ?fac" rule: as_hnsw.cases) auto
    then have S: "ids (hi_index h) \<subseteq> S" using hi by (simp add: hnsw_inv_def)
    note i = hnsw_search_ids [OF hn(2) h(2)]
    have "\<exists>uid \<in> S. l = sint uid \<and> filter_holds ?op (c_str f) w (vdb_query L uid v)" if "l \<in> set ls" for l
      using i(1) S sel hnsw_search_result(3) [OF hn(1) h(2) refl that] that by blast
    then show ?thesis
      using hnsw_search_result(2) [OF hn(1) h(2)] h(3) i(2) S by (simp add: hnsw_inv_def)
  next
    case FILTER
    then show ?thesis using q hi by (auto simp: search_index_def)
  next
    case UNKNOWN
    then show ?thesis using q hi by (auto simp: search_index_def)
  qed
  then show "length ds = length ls"
    and "l \<in> set ls \<Longrightarrow> l = -1 \<or> (\<exists>uid \<in> S. l = sint uid \<and> filter_holds ?op (c_str f) w (vdb_query L uid v))"
    and "scalar_storage v' = scalar_storage v" "getIndex FILTER (index_factory v') = getIndex FILTER ?fac"
      "getIndex FLAT (index_factory v') = getIndex FLAT ?fac" "hnsw_inv ids S v'"
    by (auto simp: v')
qed

section \<open>Properties\<close>

definition sample_factory :: "(u32 list, list_flat, list_graph) IndexFactory" where
  "sample_factory =
     IndexFactory_init sample_libs FILTER 1 0 L2
       (IndexFactory_init sample_libs FLAT 1 0 L2 globalIndexFactory)"

definition sample_db :: "kv_writes \<Rightarrow> filesys \<Rightarrow> Persistence \<Rightarrow> (u32 list, kv_writes, list_flat, list_graph) VectorDatabase" where
  "sample_db db fs p = \<lparr>scalar_storage = db, persistence = p, index_factory = sample_factory, files = fs\<rparr>"

lemma sample_libs_ok [simp]: "libs_ok sample_libs"
  by (simp add: libs_ok_def)

lemma sample_factory_get:
  "getIndex FILTER sample_factory = Some (Filter_index FilterIndex_new)"
  "getIndex FLAT sample_factory = Some (Flat_index (FaissIndex_new (fa_new_idmap_flat list_faiss 1 True)))"
  "factory_ok sample_factory"
  by (simp_all add: sample_factory_def IndexFactory_init_def factory_ok_set_index factory_ok_empty)

lemma sample_doc_ok [simp]:
  "doc_ok table_json 1 {''a''} (sample_doc 1 1)" "doc_ok table_json 1 {''a''} (sample_doc 1 2)"
  "doc_ok table_json 1 {''a''} (sample_doc 2 1)"
  by (simp_all add: doc_ok_def sample_doc_def json_floats_def int_members_def rj_roundtrip_def
      table_json_def sample_table_def)

lemmas sample_doc_ok_Suc [simp] = sample_doc_ok [unfolded One_nat_def]

lemma sample_query_empty: "vdb_query sample_libs uid (sample_db [] fs p) = JNull"
  by (simp add: vdb_query_def sample_db_def get_scalar_def list_rocks_def)

lemma sample_collection:
  "collection_inv sample_libs 1 F {} (sample_db [] fs p)" "flat_inv sample_libs 1 {} (sample_db [] fs p)"
proof -
  show "collection_inv sample_libs 1 F {} (sample_db [] fs p)"
    unfolding collection_inv_def
    by (simp add: sample_query_empty storable_def filter_agrees_def fi_member_new fi_ok_new)
       (simp add: sample_db_def sample_factory_get fi_ok_new fi_member_new)
  have "flat_labels list_faiss (FaissIndex_new (fa_new_idmap_flat list_faiss 1 True)) = {}"
    by (rule flat_labels_new) simp
  then show "flat_inv sample_libs 1 {} (sample_db [] fs p)"
    by (simp add: flat_inv_def sample_db_def sample_factory_get flat_ok_new)
qed

text \<open>
  C6. On a collection whose documents share their integer fields, \<open>upsert\<close> into the flat index
  (or with no index named) succeeds, and afterwards the filter index agrees with the stored
  documents: an id is under a value of a field exactly when its stored document has that value.
  The flat index then returns no id that was never upserted.
\<close>

theorem upsert_keeps_filter_agreement:
  assumes "libs_ok L" "collection_inv L dim F S v" "flat_inv L dim S v" "doc_ok (lib_json L) dim F d"
    and "inj_on (\<lambda>uid. ucast uid :: u32) (insert uid S)" "t = FLAT \<or> t = UNKNOWN"
  shows "\<exists>v'. upsert L uid d t v = Inr v' \<and> collection_inv L dim F (insert uid S) v' \<and>
    flat_inv L dim (insert uid S) v' \<and>
    (\<forall>u. vdb_query L u v' = (if u = uid then d else vdb_query L u v))"
proof -
  have "rj_roundtrip (lib_json L) d" using assms(4) by (auto elim: doc_okE)
  then show ?thesis
    using upsert_step [OF assms] vdb_query_upsert [OF assms(1)] by blast
qed

text \<open>The first document of a collection, computed.\<close>

definition sample_stored :: "filesys \<Rightarrow> Persistence \<Rightarrow> (u32 list, kv_writes, list_flat, list_graph) VectorDatabase" where
  "sample_stored fs p = \<lparr>scalar_storage = [(''1'', ''{Aid1C'')], persistence = p,
     index_factory = \<lparr>index_map =
       [(FLAT, Flat_index \<lparr>fi_index = \<lparr>lf_dim = 1, lf_entries = [(1, [0])]\<rparr>\<rparr>),
        (FILTER, Filter_index \<lparr>intFieldFilter = [(''a'', [(2, Some [1])])]\<rparr>)]\<rparr>,
     files = fs\<rparr>"

lemma sample_doc_members: "j_members (sample_doc i a) = Inr [(''id'', JInt i), (''vectors'', JArray [JInt 1]),
    (''indexType'', JString ''FLAT''), (''a'', JInt a)]"
  "j_at (sample_doc i a) ''vectors'' = Inr (JArray [JInt 1])"
  by (simp_all add: sample_doc_def)

lemma sample_factory_map:
  "sample_factory = \<lparr>index_map =
       [(FLAT, Flat_index \<lparr>fi_index = \<lparr>lf_dim = 1, lf_entries = []\<rparr>\<rparr>),
        (FILTER, Filter_index \<lparr>intFieldFilter = []\<rparr>)]\<rparr>"
proof -
  have "FLAT < FILTER" "\<not> FILTER < FLAT" by (simp_all add: less_IndexType_def index_type_int_def)
  then show ?thesis
    by (simp add: sample_factory_def IndexFactory_init_def globalIndexFactory_def set_index_def
        FaissIndex_new_def FilterIndex_new_def list_faiss_def)
qed

lemma sample_upsert:
  "upsert sample_libs 1 (sample_doc 1 2) FLAT (sample_db [] fs p) = Inr (sample_stored fs p)"
proof -
  have k: "scalar_key 1 = ''1''" by (simp add: scalar_key_def to_string_digit digit_char_def)
  have w: "c_str (rj_write table_json (sample_doc 1 2)) = ''{Aid1C''"
    by (simp add: table_json_def sample_table_def sample_doc_def)
  have g: "get_scalar table_json list_rocks 1 [] = JNull" by (simp add: get_scalar_def list_rocks_def)
  show ?thesis
    by (simp add: upsert_def sample_db_def g remove_old_vector_def)
       (simp add: sample_factory_map insert_new_vector_def sample_doc_members json_floats_def getIndex_def
         faiss_insert_vectors_def list_faiss_def set_index_def update_field_def old_field_value_def
         updateIntFieldFilter_def addIntFieldFilter_def set_bitmap_def value_map_of_def list_bitmap_def
         insert_scalar_def k w list_rocks_def sample_stored_def Let_def less_IndexType_def index_type_int_def)
qed

lemma sample_stored_inv:
  "collection_inv sample_libs 1 {''a''} {1} (sample_stored fs p)" "flat_inv sample_libs 1 {1} (sample_stored fs p)"
  using upsert_collection [OF sample_libs_ok sample_collection(1) _ _ sample_upsert, where F = "{''a''}"]
    upsert_flat_labels [OF sample_libs_ok sample_collection(2) sample_upsert]
  by simp_all

theorem upsert_keeps_filter_agreement_witness:
  "\<exists>v'. upsert sample_libs 1 (sample_doc 1 2) FLAT (sample_db [] sample_files Persistence_new) = Inr v' \<and>
    collection_inv sample_libs 1 {''a''} {1} v' \<and> vdb_query sample_libs 1 v' = sample_doc 1 2"
proof -
  from upsert_keeps_filter_agreement [OF sample_libs_ok sample_collection, of "{''a''}" "sample_doc 1 2" 1 FLAT
      sample_files Persistence_new]
  obtain v' where "upsert sample_libs 1 (sample_doc 1 2) FLAT (sample_db [] sample_files Persistence_new) = Inr v'"
    "collection_inv sample_libs 1 {''a''} {1} v'"
    "\<forall>u. vdb_query sample_libs u v' = (if u = 1 then sample_doc 1 2
       else vdb_query sample_libs u (sample_db [] sample_files Persistence_new))"
    by auto
  then show ?thesis by auto
qed

lemma sample_search:
  "vdb_search sample_libs (search_request (JArray [JInt 1]) 1 ''FLAT'' ''a'' ''='' 2) (sample_stored fs p) =
     Inr (([1], [0]), sample_stored fs p)"
  by (simp add: vdb_search_def search_request_def constants_defs json_floats_def getIndexTypeFromRequest_def
      index_type_of_string_def search_filter_bitmap_def filter_op_of_string_def getIntFieldFilterBitmap_def
      search_index_def sample_stored_def getIndex_def faiss_search_vectors_def faiss_num_queries_def list_faiss_def
      list_bitmap_def lf_ids_def
      RoaringBitmapIDSelector_is_member_def flat_hits_def pad_labels_def)



end
