(* ===== verification/Vector_Recovery.thy ===== *)
theory Vector_Recovery
  imports Hybrid_Search
begin

text \<open>
  Restart: the indexes are rebuilt from the last snapshot and the log. Shown here: what was
  written to the log is what is read after a restart; reloading loads the snapshot and runs the
  logged operations after it, one after the other; from empty indexes it ends in agreement with
  the storage, from a snapshot an entry the storage has moved on from stays.
\<close>

section \<open>Replay is a run of the logged operations\<close>

text \<open>The persistence object and the files are no input of \<^verbatim>\<open>upsert\<close>.\<close>

lemma upsert_persistence:
  "upsert L uid d t (v\<lparr>persistence := p\<rparr>) = andthen (upsert L uid d t v) (\<lambda>v'. Inr (v'\<lparr>persistence := p\<rparr>))"
  by (cases v) (simp add: upsert_def Let_def andthen_assoc)

lemma upsert_files:
  "upsert L uid d t (v\<lparr>files := fs\<rparr>) = andthen (upsert L uid d t v) (\<lambda>v'. Inr (v'\<lparr>files := fs\<rparr>))"
  by (cases v) (simp add: upsert_def Let_def andthen_assoc)

lemma replay_files:
  "replay_record L op d (v\<lparr>files := fs\<rparr>) = andthen (replay_record L op d v) (\<lambda>v'. Inr (v'\<lparr>files := fs\<rparr>))"
  by (simp add: replay_record_def upsert_files andthen_assoc)

lemma replay_persistence:
  "replay_record L op d (v\<lparr>persistence := p\<rparr>) =
     andthen (replay_record L op d v) (\<lambda>v'. Inr (v'\<lparr>persistence := p\<rparr>))"
  by (simp add: replay_record_def upsert_persistence andthen_assoc)

definition replay_log ::
  "('b, 'd, 'f, 'h) libs \<Rightarrow> wal_record list \<Rightarrow> ('b, 'd, 'f, 'h) VectorDatabase
   \<Rightarrow> ('b, 'd, 'f, 'h) VectorDatabase res" where
  "replay_log L rs v =
     foldM (\<lambda>v (i, op, d). replay_record L op (rj_parse (lib_json L) (c_str (wal_payload d))) v) v rs"

lemma replay_log_simps [simp]:
  "replay_log L [] v = Inr v"
  "replay_log L ((i, op, d) # rs) v =
     andthen (replay_record L op (rj_parse (lib_json L) (c_str (wal_payload d))) v) (replay_log L rs)"
  by (simp_all add: replay_log_def cong: andthen_cong)

lemma replay_log_keeps:
  "replay_log L rs v = Inr v' \<Longrightarrow> persistence v' = persistence v \<and> files v' = files v"
proof (induction rs arbitrary: v)
  case Nil
  then show ?case by simp
next
  case (Cons r rs)
  then show ?case by (cases r) (fastforce simp: res_simps dest: replay_record_keeps)
qed

lemma replay_log_persistence:
  "replay_log L rs (v\<lparr>persistence := p\<rparr>) = andthen (replay_log L rs v) (\<lambda>v'. Inr (v'\<lparr>persistence := p\<rparr>))"
proof (induction rs arbitrary: v)
  case Nil
  then show ?case by simp
next
  case (Cons r rs)
  then show ?case by (cases r) (simp add: replay_persistence andthen_assoc)
qed

lemma replay_log_files:
  "replay_log L rs (v\<lparr>files := fs\<rparr>) = andthen (replay_log L rs v) (\<lambda>v'. Inr (v'\<lparr>files := fs\<rparr>))"
proof (induction rs arbitrary: v)
  case Nil
  then show ?case by simp
next
  case (Cons r rs)
  then show ?case by (cases r) (simp add: replay_files andthen_assoc)
qed

lemma replay_log_append: "replay_log L (rs @ rs') v = andthen (replay_log L rs v) (replay_log L rs')"
proof (induction rs arbitrary: v)
  case Nil
  then show ?case by simp
next
  case (Cons r rs)
  then show ?case by (cases r) (simp add: andthen_assoc cong: andthen_cong)
qed

text \<open>Reading one record off a log stands at the text of the rest.\<close>

definition at_log :: "filesys \<Rightarrow> Persistence \<Rightarrow> wal_record list \<Rightarrow> bool" where
  "at_log fs p rs \<longleftrightarrow> list_all record_ok rs \<and> wal_good p \<and> drop (wal_pos p) (wal_data p fs) = log_text rs"

lemma at_log_stream: "at_log fs p rs \<Longrightarrow> wal_stream p fs = istringstream (log_text rs)"
  by (simp add: at_log_def wal_stream_def istringstream_def)

definition after_log :: "filesys \<Rightarrow> wal_record list \<Rightarrow> wal_record list \<Rightarrow> Persistence \<Rightarrow> Persistence" where
  "after_log fs rs rest p =
     p\<lparr>increase_id := max_ids (increase_id p) rs,
       wal_pos := length (wal_data p fs) - length (log_text rest), wal_good := True\<rparr>"

lemma after_log_at:
  assumes "at_log fs p (rs @ rest)"
  shows "at_log fs (after_log fs rs rest p) rest"
proof -
  have d: "drop (wal_pos p) (wal_data p fs) = log_text rs @ log_text rest"
    using assms by (simp add: at_log_def)
  have "drop (length (wal_data p fs) - length (log_text rest)) (wal_data p fs) = log_text rest"
  proof -
    have "wal_data p fs = take (wal_pos p) (wal_data p fs) @ log_text rs @ log_text rest"
      using d by (metis append_take_drop_id)
    then show ?thesis
      by (metis append.assoc append_eq_conv_conj diff_add_inverse2 length_append)
  qed
  then show ?thesis
    using assms by (simp add: at_log_def after_log_def wal_data_def)
qed

lemma after_log_last:
  "after_log fs rs' rest' (after_log fs rs rest p) = after_log fs (rs @ rs') rest' p"
  by (simp add: after_log_def wal_data_def)

lemma after_log_snapshot [simp]: "last_snapshot_id (after_log fs rs rest p) = last_snapshot_id p"
  by (simp add: after_log_def)

lemma read_next_record:
  assumes "at_log fs p rs"
  shows "readNextWALLog J [] JNull fs p =
    (case dropWhile (\<lambda>r. fst r \<le> last_snapshot_id p) rs of
       [] \<Rightarrow> Inr ([], JNull, after_log fs rs [] p)
     | (i, op, d) # rs' \<Rightarrow>
         Inr (op, rj_parse J (c_str (wal_payload d)),
              after_log fs (takeWhile (\<lambda>r. fst r \<le> last_snapshot_id p) rs @ [(i, op, d)]) rs' p))"
proof -
  have "list_all record_ok rs" using assms by (simp add: at_log_def)
  from read_log_text [OF this] show ?thesis
    by (cases "dropWhile (\<lambda>r. fst r \<le> last_snapshot_id p) rs")
       (simp_all add: readNextWALLog_def at_log_stream [OF assms] istringstream_def after_log_def split_beta
         del: dropWhile_eq_Nil_conv)
qed

section \<open>What was written is what is read\<close>

text \<open>Reading the log to its end, one \<^verbatim>\<open>readNextWALLog\<close> after the other, as the recovery does.\<close>

function read_whole_log :: "rapidjson \<Rightarrow> filesys \<Rightarrow> Persistence \<Rightarrow> ((string \<times> json) list \<times> Persistence) res" where
  "read_whole_log J fs p =
     andthen (readNextWALLog J [] JNull fs p) (\<lambda>(op, doc, p').
       if op = [] then Inr ([], p')
       else andthen (read_whole_log J fs p') (\<lambda>(rs, q). Inr ((op, doc) # rs, q)))"
  by pat_completeness auto
termination
  by (relation "measure (\<lambda>(J, fs, p). wal_remaining fs p)") (auto dest: readNextWALLog_consumes)

declare read_whole_log.simps [simp del]

definition read_back :: "rapidjson \<Rightarrow> wal_record \<Rightarrow> string \<times> json" where
  "read_back J r = (case r of (i, op, d) \<Rightarrow> (op, rj_parse J (c_str (wal_payload d))))"

lemma log_new_records:
  fixes ls :: u64
  assumes "dropWhile (\<lambda>r. fst r \<le> ls) rs = r # rs'"
  shows "rs = (takeWhile (\<lambda>r. fst r \<le> ls) rs @ [r]) @ rs'" "filter (\<lambda>r. ls < fst r) rs = r # filter (\<lambda>r. ls < fst r) rs'"
    and "r \<in> set rs"
proof -
  let ?old = "\<lambda>r :: u64 \<times> 'c. fst r \<le> ls"
  show split: "rs = (takeWhile ?old rs @ [r]) @ rs'"
    using takeWhile_dropWhile_id [of ?old rs] assms by simp
  have new: "\<not> ?old r" using assms by (metis hd_dropWhile list.distinct(1) list.sel(1))
  have skip: "filter (\<lambda>r. ls < fst r) (takeWhile ?old rs) = []"
    by (auto simp: filter_empty_conv dest: set_takeWhileD)
  show "filter (\<lambda>r. ls < fst r) rs = r # filter (\<lambda>r. ls < fst r) rs'"
    using arg_cong [OF split, of "filter (\<lambda>r. ls < fst r)"] skip new
    by (simp only: filter_append append.assoc append_Nil append_Cons filter.simps not_le if_True)
  show "r \<in> set rs" using split by (metis in_set_conv_decomp append.assoc append_Cons append_Nil)
qed

lemma read_whole_log_records:
  assumes "at_log fs p rs"
  shows "read_whole_log J fs p =
    Inr (map (read_back J) (filter (\<lambda>r. last_snapshot_id p < fst r) rs), after_log fs rs [] p)"
  using assms
proof (induction "length rs" arbitrary: rs p rule: less_induct)
  case less
  show ?case
  proof (cases "dropWhile (\<lambda>r. fst r \<le> last_snapshot_id p) rs")
    case Nil
    then have "filter (\<lambda>r. last_snapshot_id p < fst r) rs = []"
      by (auto simp: filter_empty_conv)
    then show ?thesis
      using Nil by (subst read_whole_log.simps)
        (simp add: read_next_record [OF less.prems] del: dropWhile_eq_Nil_conv)
  next
    case (Cons r rs')
    obtain i op d where r: "r = (i, op, d)" by (cases r)
    let ?done = "takeWhile (\<lambda>r. fst r \<le> last_snapshot_id p) rs @ [r]"
    note new = log_new_records [OF Cons]
    let ?p' = "after_log fs ?done rs' p"
    have at: "at_log fs ?p' rs'" using after_log_at [of fs p ?done rs'] less.prems new(1) by simp
    have "op \<noteq> []"
      using less.prems new(3) r by (auto simp: at_log_def record_ok_def list_all_iff)
    moreover have "length rs' < length rs"
      using arg_cong [OF new(1), of length] by simp
    moreover have "after_log fs rs' [] ?p' = after_log fs rs [] p"
      unfolding after_log_last using new(1) by simp
    ultimately show ?thesis
      using less.hyps [OF _ at] Cons new(2)
      by (subst read_whole_log.simps)
        (simp add: read_next_record [OF less.prems] r read_back_def)
  qed
qed

text \<open>Writing: the log store appends one line per record, in the order of the records.\<close>

definition write_records :: "wal_record list \<Rightarrow> Persistence \<times> filesys \<Rightarrow> Persistence \<times> filesys" where
  "write_records rs pf = fold (\<lambda>(i, op, d). writeWALRawLog i op d ''1.0'') rs pf"

lemma write_records_simps [simp]:
  "write_records [] pf = pf"
  "write_records ((i, op, d) # rs) pf = write_records rs (writeWALRawLog i op d ''1.0'' pf)"
  by (simp_all add: write_records_def)

lemma write_record_text:
  assumes "wal_good p" "fs_writable fs (wal_path p)"
  shows "writeWALRawLog i op d ''1.0'' (p, fs) =
    (p\<lparr>wal_pos := length (wal_data p fs @ record_line (i, op, d))\<rparr>,
     fs_write (wal_path p) (wal_data p fs @ record_line (i, op, d)) fs)"
  using assms by (simp add: writeWALRawLog_def wal_output_def record_line_def Let_def)

lemma write_records_text:
  assumes "wal_good p" "fs_writable fs (wal_path p)" "fs_read fs (wal_path p) = Some t"
  shows "\<exists>p' fs'. write_records rs (p, fs) = (p', fs') \<and> fs_writable fs' = fs_writable fs \<and>
    (\<forall>q. fs_read fs' q = (if q = wal_path p then Some (t @ log_text rs) else fs_read fs q))"
  using assms
proof (induction rs arbitrary: p fs t)
  case Nil
  then show ?case by simp
next
  case (Cons r rs)
  obtain i op d where r: "r = (i, op, d)" by (cases r)
  let ?t = "t @ record_line (i, op, d)"
  let ?p = "p\<lparr>wal_pos := length ?t\<rparr>" and ?fs = "fs_write (wal_path p) ?t fs"
  have "wal_data p fs = t" using Cons.prems(3) by (simp add: wal_data_def)
  then have w: "writeWALRawLog i op d ''1.0'' (p, fs) = (?p, ?fs)"
    using write_record_text [OF Cons.prems(1,2)] by simp
  from Cons.IH [of ?p ?fs ?t] Cons.prems(1,2) obtain p' fs'
    where "write_records rs (?p, ?fs) = (p', fs')" "fs_writable fs' = fs_writable fs"
      "\<forall>q. fs_read fs' q = (if q = wal_path p then Some (?t @ log_text rs) else fs_read ?fs q)" by auto
  then show ?case by (simp add: r w)
qed

text \<open>One run of the process as far as the log goes: open the file, write records.\<close>

definition log_session :: "string \<Rightarrow> filesys \<Rightarrow> wal_record list \<Rightarrow> filesys res" where
  "log_session path fs rs =
     andthen (Persistence_init path fs Persistence_new) (\<lambda>pf. Inr (snd (write_records rs pf)))"

definition file_text :: "filesys \<Rightarrow> string \<Rightarrow> string" where
  "file_text fs path = (case fs_read fs path of None \<Rightarrow> [] | Some t \<Rightarrow> t)"

definition stored_snapshot_id :: "filesys \<Rightarrow> u64" where
  "stored_snapshot_id fs = (case fs_read fs snapshot_id_file of None \<Rightarrow> 0 | Some t \<Rightarrow> extract_u64 t 0)"

lemma open_log:
  assumes "fs_writable fs path"
  shows "\<exists>p fs'. Persistence_init path fs Persistence_new = Inr (p, fs') \<and> wal_good p \<and> wal_path p = path \<and>
    wal_pos p = 0 \<and> increase_id p = 10 \<and> fs_writable fs' = fs_writable fs \<and>
    (path \<noteq> snapshot_id_file \<longrightarrow> last_snapshot_id p = stored_snapshot_id fs) \<and>
    (\<forall>q. fs_read fs' q = (if q = path then Some (file_text fs path) else fs_read fs q))"
  using assms
  by (auto simp: Persistence_init_def Let_def loadLastSnapshotID_def Persistence_new_def file_text_def
      stored_snapshot_id_def split: option.split)

lemma log_sessions_text:
  assumes "fs_writable fs path"
  shows "\<exists>fs'. foldM (log_session path) fs ss = Inr fs' \<and> fs_writable fs' = fs_writable fs \<and>
    file_text fs' path = file_text fs path @ log_text (concat ss) \<and>
    (\<forall>q. q \<noteq> path \<longrightarrow> fs_read fs' q = fs_read fs q)"
  using assms
proof (induction ss arbitrary: fs)
  case Nil
  then show ?case by simp
next
  case (Cons rs ss)
  from open_log [OF Cons.prems] obtain p fs1
    where o: "Persistence_init path fs Persistence_new = Inr (p, fs1)" "wal_good p" "wal_path p = path"
      "fs_writable fs1 = fs_writable fs" "\<forall>q. fs_read fs1 q = (if q = path then Some (file_text fs path) else fs_read fs q)" by blast
  from write_records_text [of p fs1 "file_text fs path" rs] o Cons.prems obtain p2 fs2
    where w: "write_records rs (p, fs1) = (p2, fs2)" "fs_writable fs2 = fs_writable fs"
      "fs_read fs2 path = Some (file_text fs path @ log_text rs)" "\<forall>q. q \<noteq> path \<longrightarrow> fs_read fs2 q = fs_read fs q" by auto
  then have t: "file_text fs2 path = file_text fs path @ log_text rs" by (simp add: file_text_def)
  from Cons.IH [of fs2] w(2) Cons.prems obtain fs'
    where "foldM (log_session path) fs2 ss = Inr fs'" "fs_writable fs' = fs_writable fs2"
      "file_text fs' path = file_text fs2 path @ log_text (concat ss)"
      "\<forall>q. q \<noteq> path \<longrightarrow> fs_read fs' q = fs_read fs2 q" by auto
  moreover have "log_session path fs rs = Inr fs2" using o(1) w(1) by (simp add: log_session_def)
  ultimately show ?case using w(2,4) t by simp
qed

lemma open_at_log:
  assumes "Persistence_init path fs Persistence_new = Inr (p, fs')" "file_text fs path = log_text rs" "list_all record_ok rs"
  shows "at_log fs' p rs"
proof -
  have "fs_writable fs path" using assms(1) by (auto simp: Persistence_init_def split: if_splits)
  from open_log [OF this] assms show ?thesis by (auto simp: at_log_def wal_data_def)
qed

definition reload_from ::
  "('b, 'd, 'f, 'h) libs \<Rightarrow> ('b, 'd, 'f, 'h) VectorDatabase \<Rightarrow> ('b, 'd, 'f, 'h) VectorDatabase res" where
  "reload_from L v =
     andthen (readNextWALLog (lib_json L) [] JNull (files v) (persistence v)) (\<lambda>(op, doc, p).
       reload_loop L op doc (v\<lparr>persistence := p\<rparr>))"

lemma reload_from_log:
  assumes "at_log (files v) (persistence v) rs"
  shows "reload_from L v =
    andthen (replay_log L (filter (\<lambda>r. fst r > last_snapshot_id (persistence v)) rs) v)
      (\<lambda>v'. Inr (v'\<lparr>persistence := after_log (files v) rs [] (persistence v)\<rparr>))"
  using assms
proof (induction "length rs" arbitrary: rs v rule: less_induct)
  case less
  let ?p = "persistence v" and ?fs = "files v"
  show ?case
  proof (cases "dropWhile (\<lambda>r. fst r \<le> last_snapshot_id ?p) rs")
    case Nil
    then have "filter (\<lambda>r. fst r > last_snapshot_id ?p) rs = []"
      by (auto simp: filter_empty_conv)
    then show ?thesis
      using Nil by (subst reload_from_def)
        (simp add: read_next_record [OF less.prems] reload_loop.simps del: dropWhile_eq_Nil_conv)
  next
    case (Cons r rs')
    obtain i op d where r: "r = (i, op, d)" by (cases r)
    let ?done = "takeWhile (\<lambda>r. fst r \<le> last_snapshot_id ?p) rs @ [r]"
    note new = log_new_records [OF Cons]
    let ?p' = "after_log ?fs ?done rs' ?p"
    have at: "at_log ?fs ?p' rs'" using after_log_at [of ?fs ?p ?done rs'] less.prems new(1) by simp
    have "op \<noteq> []"
      using less.prems new(3) r by (auto simp: at_log_def record_ok_def list_all_iff)
    let ?doc = "rj_parse (lib_json L) (c_str (wal_payload d))"
    have fin: "after_log ?fs rs' [] ?p' = after_log ?fs rs [] ?p"
      unfolding after_log_last using new(1) by simp
    have len: "length rs' < length rs" using arg_cong [OF new(1), of length] by simp
    have "reload_from L v = reload_loop L op ?doc (v\<lparr>persistence := ?p'\<rparr>)"
      using Cons by (simp add: reload_from_def read_next_record [OF less.prems] r)
    also have "\<dots> = andthen (replay_record L op ?doc v) (\<lambda>v1. reload_from L (v1\<lparr>persistence := ?p'\<rparr>))"
      using \<open>op \<noteq> []\<close>
      by (subst reload_loop.simps) (simp add: replay_persistence andthen_assoc reload_from_def)
    also have "\<dots> = andthen (replay_record L op ?doc v) (\<lambda>v1.
        andthen (replay_log L (filter (\<lambda>r. fst r > last_snapshot_id ?p) rs') (v1\<lparr>persistence := ?p'\<rparr>))
          (\<lambda>v'. Inr (v'\<lparr>persistence := after_log ?fs rs [] ?p\<rparr>)))"
    proof (rule andthen_cong [OF refl])
      fix v1
      assume "replay_record L op ?doc v = Inr v1"
      then have v1: "files v1 = ?fs" using replay_record_keeps by blast
      from less.hyps [OF len, of "v1\<lparr>persistence := ?p'\<rparr>"] at v1
      show "reload_from L (v1\<lparr>persistence := ?p'\<rparr>) =
        andthen (replay_log L (filter (\<lambda>r. fst r > last_snapshot_id ?p) rs') (v1\<lparr>persistence := ?p'\<rparr>))
          (\<lambda>v'. Inr (v'\<lparr>persistence := after_log ?fs rs [] ?p\<rparr>))"
        by (simp add: fin)
    qed
    finally show ?thesis
      by (simp add: new(2) r replay_log_persistence andthen_assoc)
  qed
qed

lemma reloadDatabase_from:
  "reloadDatabase L v =
     andthen (Persistence_loadSnapshot L (scalar_storage v) (files v) (index_factory v)) (\<lambda>f.
       reload_from L (v\<lparr>index_factory := f\<rparr>))"
  by (simp add: reloadDatabase_def reload_from_def Let_def)

lemma reloadDatabase_log:
  assumes "at_log (files v) (persistence v) rs"
  shows "reloadDatabase L v =
    andthen (Persistence_loadSnapshot L (scalar_storage v) (files v) (index_factory v)) (\<lambda>f.
    andthen (replay_log L (filter (\<lambda>r. fst r > last_snapshot_id (persistence v)) rs) (v\<lparr>index_factory := f\<rparr>)) (\<lambda>v'.
      Inr (v'\<lparr>persistence := after_log (files v) rs [] (persistence v)\<rparr>)))"
  using reload_from_log [of "v\<lparr>index_factory := f\<rparr>" rs L for f] assms
  by (simp add: reloadDatabase_from cong: andthen_cong)

section \<open>A log of upserts of a collection\<close>

definition log_doc :: "rapidjson \<Rightarrow> wal_record \<Rightarrow> json" where
  "log_doc J r = rj_parse J (c_str (wal_payload (snd (snd r))))"

definition doc_uid :: "json \<Rightarrow> u64 res" where
  "doc_uid d = andthen (j_at d REQUEST_ID) j_GetUint64"

definition log_uid :: "rapidjson \<Rightarrow> wal_record \<Rightarrow> u64" where
  "log_uid J r = (case doc_uid (log_doc J r) of Inr uid \<Rightarrow> uid | Inl _ \<Rightarrow> 0)"

text \<open>An upsert of a document of the collection, into the flat index or into none.\<close>

definition upsert_record :: "rapidjson \<Rightarrow> nat \<Rightarrow> string set \<Rightarrow> wal_record \<Rightarrow> bool" where
  "upsert_record J dim F r \<longleftrightarrow>
     fst (snd r) = ''upsert'' \<and> doc_ok J dim F (log_doc J r) \<and>
     (case doc_uid (log_doc J r) of Inr _ \<Rightarrow> True | Inl _ \<Rightarrow> False) \<and>
     (getIndexTypeFromRequest (log_doc J r) = Inr FLAT \<or> getIndexTypeFromRequest (log_doc J r) = Inr UNKNOWN)"

lemma doc_uid_andthen:
  "doc_uid d = Inr uid \<Longrightarrow> andthen (j_at d REQUEST_ID) (\<lambda>j. andthen (j_GetUint64 j) f) = f uid"
  by (auto simp: doc_uid_def res_simps)

lemma replay_upsert_record:
  assumes "upsert_record (lib_json L) dim F (i, op, d)"
  shows "\<exists>t. (t = FLAT \<or> t = UNKNOWN) \<and>
    getIndexTypeFromRequest (log_doc (lib_json L) (i, op, d)) = Inr t \<and>
    replay_record L op (log_doc (lib_json L) (i, op, d)) v =
      upsert L (log_uid (lib_json L) (i, op, d)) (log_doc (lib_json L) (i, op, d)) t v"
proof -
  let ?d = "log_doc (lib_json L) (i, op, d)"
  obtain uid where uid: "doc_uid ?d = Inr uid"
    using assms by (auto simp: upsert_record_def split: sum.splits)
  then show ?thesis
    using assms by (auto simp: upsert_record_def replay_record_def log_uid_def doc_uid_andthen)
qed

text \<open>The document the log leaves for an id: the last one written, or what was stored before.\<close>

definition logged_doc :: "rapidjson \<Rightarrow> wal_record list \<Rightarrow> u64 \<Rightarrow> json option" where
  "logged_doc J rs uid = map_of (rev (map (\<lambda>r. (log_uid J r, log_doc J r)) rs)) uid"

lemma logged_doc_simps [simp]:
  "logged_doc J [] uid = None"
  "logged_doc J (r # rs) uid =
     (case logged_doc J rs uid of
        None \<Rightarrow> if uid = log_uid J r then Some (log_doc J r) else None
      | Some d \<Rightarrow> Some d)"
  by (simp_all add: logged_doc_def map_add_def split: option.splits)

text \<open>The vector the log leaves for an id: that of the last document written for the flat index.\<close>

definition flat_records :: "rapidjson \<Rightarrow> wal_record list \<Rightarrow> wal_record list" where
  "flat_records J rs = filter (\<lambda>r. getIndexTypeFromRequest (log_doc J r) = Inr FLAT) rs"

definition logged_vector :: "rapidjson \<Rightarrow> wal_record list \<Rightarrow> u64 \<rightharpoonup> f32 list" where
  "logged_vector J rs = map_option (doc_vector J) \<circ> logged_doc J (flat_records J rs)"

lemma logged_vector_Nil [simp]: "logged_vector J [] = Map.empty"
  by (simp add: logged_vector_def flat_records_def fun_eq_iff)

lemma logged_vector_Cons:
  "T ++ logged_vector J (r # rs) =
     (if getIndexTypeFromRequest (log_doc J r) = Inr FLAT
      then T(log_uid J r \<mapsto> doc_vector J (log_doc J r)) else T) ++ logged_vector J rs"
  by (auto simp: logged_vector_def flat_records_def fun_eq_iff map_add_def split: option.split)

lemma replay_log_collection:
  assumes "libs_ok L" "faiss_holds_ok (lib_fa L) held" "list_all (upsert_record (lib_json L) dim F) rs"
    and "collection_inv L dim F S v" "flat_inv L dim S v"
    and "inj_on (\<lambda>uid. ucast uid :: u32) (S \<union> log_uid (lib_json L) ` set rs)"
    and "flat_holds held T v" "dom T \<subseteq> S"
  shows "\<exists>v'. replay_log L rs v = Inr v' \<and>
    collection_inv L dim F (S \<union> log_uid (lib_json L) ` set rs) v' \<and>
    flat_inv L dim (S \<union> log_uid (lib_json L) ` set rs) v' \<and>
    flat_holds held (T ++ logged_vector (lib_json L) rs) v' \<and>
    (\<forall>uid. vdb_query L uid v' =
       (case logged_doc (lib_json L) rs uid of Some d \<Rightarrow> d | None \<Rightarrow> vdb_query L uid v))"
  using assms(3-)
proof (induction rs arbitrary: S T v)
  case Nil
  then show ?case by simp
next
  case (Cons r rs)
  obtain i op d where r: "r = (i, op, d)" by (cases r)
  let ?J = "lib_json L"
  let ?uid = "log_uid ?J r" and ?d = "log_doc ?J r"
  have rec: "upsert_record ?J dim F r" "list_all (upsert_record ?J dim F) rs" using Cons.prems by simp_all
  then have ok: "doc_ok ?J dim F ?d" by (simp add: upsert_record_def)
  have un: "S \<union> log_uid ?J ` set (r # rs) = insert ?uid S \<union> log_uid ?J ` set rs" by auto
  have inj: "inj_on (\<lambda>uid. ucast uid :: u32) (insert ?uid S \<union> log_uid ?J ` set rs)"
    using Cons.prems(4) unfolding un .
  then have inj1: "inj_on (\<lambda>uid. ucast uid :: u32) (insert ?uid S)"
    by (rule inj_on_subset) blast
  obtain t where t: "t = FLAT \<or> t = UNKNOWN" "getIndexTypeFromRequest ?d = Inr t"
    and rep: "replay_record L op ?d v = upsert L ?uid ?d t v"
    using replay_upsert_record rec(1) r by metis
  obtain v1 where v1: "upsert L ?uid ?d t v = Inr v1" "collection_inv L dim F (insert ?uid S) v1"
    "flat_inv L dim (insert ?uid S) v1"
    using upsert_step [OF assms(1) Cons.prems(2,3) ok inj1 t(1)] by blast
  let ?T = "if t = FLAT then T(?uid \<mapsto> doc_vector ?J ?d) else T"
  have T: "flat_holds held ?T v1"
    using upsert_flat_holds [OF assms(1,2) Cons.prems(2,3) ok v1(1) Cons.prems(5,6)] .
  have dom: "dom ?T \<subseteq> insert ?uid S" using Cons.prems(6) by auto
  have vec: "?T ++ logged_vector ?J rs = T ++ logged_vector ?J (r # rs)"
    using t(2) by (simp add: logged_vector_Cons)
  have rt: "rj_roundtrip ?J ?d" using ok by (auto elim: doc_okE)
  from Cons.IH [OF rec(2) v1(2,3) inj T dom] obtain v' where v': "replay_log L rs v1 = Inr v'"
    "collection_inv L dim F (insert ?uid S \<union> log_uid ?J ` set rs) v'"
    "flat_inv L dim (insert ?uid S \<union> log_uid ?J ` set rs) v'"
    "flat_holds held (T ++ logged_vector ?J (r # rs)) v'"
    and q: "\<And>uid. vdb_query L uid v' =
       (case logged_doc ?J rs uid of Some d \<Rightarrow> d | None \<Rightarrow> vdb_query L uid v1)" unfolding vec by blast
  have "replay_log L (r # rs) v = Inr v'"
    using rep v1(1) v'(1) by (simp add: r log_doc_def)
  moreover have "vdb_query L uid v' =
       (case logged_doc ?J (r # rs) uid of Some d \<Rightarrow> d | None \<Rightarrow> vdb_query L uid v)" for uid
    using vdb_query_upsert [OF assms(1) rt v1(1)] by (simp add: q split: option.split)
  ultimately show ?case using v'(2-4) unfolding un by blast
qed

section \<open>Restart without a snapshot\<close>

definition no_snapshot :: "('b, 'd, 'f, 'h) libs \<Rightarrow> ('b, 'd, 'f, 'h) VectorDatabase \<Rightarrow> bool" where
  "no_snapshot L v \<longleftrightarrow>
     fs_read (files v) (index_file_path ''snapshots_'' FLAT) = None \<and>
     fs_read (files v) (index_file_path ''snapshots_'' HNSW) = None \<and>
     rk_get (lib_rk L) (scalar_storage v) (index_file_path ''snapshots_'' FILTER) = None"

lemma deserialize_empty: "deserializeIntFieldFilter R [] x = Inr x"
  by (subst deserializeIntFieldFilter_def, subst deserialize_lines.simps)
     (simp add: getline_def istringstream_def)

lemma load_without_snapshot:
  assumes "no_snapshot L v" "factory_ok (index_factory v)"
  shows "Persistence_loadSnapshot L (scalar_storage v) (files v) (index_factory v) = Inr (index_factory v)"
proof -
  have one: "load_entry L ''snapshots_'' (scalar_storage v) (files v) e = Inr e" if "entry_typed e" for e
  proof -
    obtain t i where e: "e = (t, i)" by (cases e)
    show ?thesis
      using that assms(1)
      by (cases t; cases i)
         (simp_all add: deserialize_empty e load_entry_def no_snapshot_def faiss_loadIndex_def hnsw_loadIndex_def
           FilterIndex_loadIndex_def storage_get_def)
  qed
  have "mapM (load_entry L ''snapshots_'' (scalar_storage v) (files v)) m = Inr m" if "list_all entry_typed m" for m
    using that by (induction m) (auto simp: one)
  with assms(2) show ?thesis
    by (simp add: Persistence_loadSnapshot_def IndexFactory_loadIndex_def factory_ok_def)
qed

text \<open>The indexes a start makes before it reloads.\<close>

definition fresh_indexes :: "('b, 'd, 'f, 'h) libs \<Rightarrow> nat \<Rightarrow> ('b, 'f, 'h) IndexFactory \<Rightarrow> bool" where
  "fresh_indexes L dim x \<longleftrightarrow> factory_ok x \<and>
     (\<exists>m. getIndex FLAT x = Some (Flat_index (FaissIndex_new (fa_new_idmap_flat (lib_fa L) (int dim) m)))) \<and>
     getIndex FILTER x = Some (Filter_index FilterIndex_new)"

lemma fresh_collection:
  assumes "fresh_indexes L dim (index_factory v)" "\<And>uid. storable (lib_json L) dim F (vdb_query L uid v)"
  shows "collection_inv L dim F {} v"
  using assms fi_ok_new
  by (auto simp: collection_inv_def fresh_indexes_def filter_agrees_def fi_member_new)

lemma fresh_flat:
  assumes "libs_ok L" "fresh_indexes L dim (index_factory v)"
  shows "flat_inv L dim {} v"
proof -
  have "faiss_shape_ok (lib_fa L)" "faiss_labels_ok (lib_fa L)" using assms(1) by (simp_all add: libs_ok_def)
  then show ?thesis
    using assms(2) flat_ok_new flat_labels_new by (fastforce simp: flat_inv_def fresh_indexes_def)
qed

lemma fresh_holds:
  assumes "faiss_holds_ok (lib_fa L) held" "fresh_indexes L dim (index_factory v)"
  shows "flat_holds held Map.empty v"
  using assms by (auto simp: fresh_indexes_def flat_holds_def flat_entries_def FaissIndex_new_def faiss_holds_okD(1))

lemma reloadDatabase_eq:
  assumes "no_snapshot L v" "factory_ok (index_factory v)"
  shows "reloadDatabase L v = reload_from L v"
  by (simp add: reloadDatabase_def load_without_snapshot [OF assms] reload_from_def)

lemma collection_inv_persistence [simp]:
  "collection_inv L dim F S (v\<lparr>persistence := p\<rparr>) = collection_inv L dim F S v"
  "flat_inv L dim S (v\<lparr>persistence := p\<rparr>) = flat_inv L dim S v"
  "flat_holds held T (v\<lparr>persistence := p\<rparr>) = flat_holds held T v"
  "vdb_query L uid (v\<lparr>persistence := p\<rparr>) = vdb_query L uid v"
  by (simp_all add: collection_inv_def flat_inv_def flat_holds_def vdb_query_def filter_agrees_def)

lemma recovery:
  assumes L: "libs_ok L" "faiss_holds_ok (lib_fa L) held"
    and fresh: "fresh_indexes L dim (index_factory v)" "no_snapshot L v"
    and st: "\<And>uid. storable (lib_json L) dim F (vdb_query L uid v)"
    and log: "at_log (files v) (persistence v) rs" "\<forall>r \<in> set rs. last_snapshot_id (persistence v) < fst r"
    and rec: "list_all (upsert_record (lib_json L) dim F) rs"
    and inj: "inj_on (\<lambda>uid. ucast uid :: u32) (log_uid (lib_json L) ` set rs)"
  shows "\<exists>v'. reloadDatabase L v = Inr v' \<and>
    collection_inv L dim F (log_uid (lib_json L) ` set rs) v' \<and>
    flat_inv L dim (log_uid (lib_json L) ` set rs) v' \<and>
    flat_holds held (logged_vector (lib_json L) rs) v' \<and>
    (\<forall>uid. vdb_query L uid v' =
       (case logged_doc (lib_json L) rs uid of Some d \<Rightarrow> d | None \<Rightarrow> vdb_query L uid v)) \<and>
    increase_id (persistence v') = max_ids (increase_id (persistence v)) rs"
proof -
  have "factory_ok (index_factory v)" using fresh(1) by (simp add: fresh_indexes_def)
  note eq = reloadDatabase_eq [OF fresh(2) this]
  have all: "filter (\<lambda>r. fst r > last_snapshot_id (persistence v)) rs = rs"
    using log(2) by (simp add: filter_id_conv)
  from replay_log_collection [OF L rec fresh_collection [OF fresh(1) st] fresh_flat [OF L(1) fresh(1)] _
      fresh_holds [OF L(2) fresh(1)]] inj
  obtain v' where "replay_log L rs v = Inr v'"
    and "collection_inv L dim F (log_uid (lib_json L) ` set rs) v'"
    and "flat_inv L dim (log_uid (lib_json L) ` set rs) v'"
    and "flat_holds held (logged_vector (lib_json L) rs) v'"
    and "\<forall>uid. vdb_query L uid v' =
       (case logged_doc (lib_json L) rs uid of Some d \<Rightarrow> d | None \<Rightarrow> vdb_query L uid v)" by auto
  then show ?thesis
    by (simp add: eq reload_from_log [OF log(1)] all after_log_def)
qed

section \<open>Replay over a newer storage\<close>

text \<open>
  The storage is not part of a snapshot: at a restart it is ahead of the snapshot's filter. The
  replayed update then looks up the value to remove in the newer document, and the entry the
  snapshot has under the older value stays.
\<close>

lemma upsert_keeps_stale:
  assumes L: "libs_ok L" and wi: "well_indexed L dim F v" and d: "doc_ok (lib_json L) dim F d"
    and fi: "getIndex FILTER (index_factory v) = Some (Filter_index fi)"
    and stale: "fi_member (lib_rb L) fi f w x"
    and ahead: "ucast uid = x \<Longrightarrow> map_of (int_fields (vdb_query L uid v)) f \<noteq> Some w"
    and up: "upsert L uid d t v = Inr v'"
  shows "\<exists>fi'. getIndex FILTER (index_factory v') = Some (Filter_index fi') \<and> fi_member (lib_rb L) fi' f w x"
proof -
  let ?e = "vdb_query L uid v"
  have e: "storable (lib_json L) dim F ?e" and ok: "fi_ok fi" using wi fi by (auto simp: well_indexed_def)
  from d obtain ms where ms: "d = JObject ms" "distinct (map fst ms)" "\<forall>m \<in> set ms. CHR 0x00 \<notin> set (fst m)"
    "fst ` set (int_members ms) = F" by (auto elim!: doc_okE)
  from up ms obtain f1 f2 f3
    where 1: "remove_old_vector L uid t ?e (index_factory v) = Inr f1"
      and 2: "insert_new_vector L uid t d f1 = Inr f2"
      and 3: "foldM (update_field L uid ?e) f2 ms = Inr f3"
      and v': "index_factory v' = f3"
    by (auto simp: upsert_def Let_def res_simps vdb_query_def)
  have f2: "getIndex FILTER f2 = Some (Filter_index fi)"
    using remove_old_other [OF 1] insert_new_other [OF 2] fi by simp
  have R: "roaring_ok (lib_rb L)" using L by (simp add: libs_ok_def)
  let ?us = "field_updates ?e ms"
  let ?upd = "\<lambda>s (f, old, new). updateIntFieldFilter (lib_rb L) f old new uid s"
  obtain fi' where fi': "foldM ?upd fi ?us = Inr fi'" using ff.updates_total [OF ok] by blast
  have dist: "distinct (map fst ?us)"
    using int_members_distinct [OF ms(2)] by (simp only: field_updates_fst)
  have "fi_member (lib_rb L) fi' f w x"
    using ff.updates_member [OF R ok dist fi'] stale ahead
    by (auto simp: field_updates_lookup old_value_def split: option.split)
  moreover have "getIndex FILTER f3 = Some (Filter_index fi')"
    using 3 update_fields_eq [OF e ms(3) _ f2, where L = L and uid = uid] ms(4) fi' f2
    by (auto simp: field_updates_def split: if_splits)
  ultimately show ?thesis by (simp add: v')
qed

lemma replay_log_stale:
  assumes L: "libs_ok L"
    and "list_all (upsert_record (lib_json L) dim F) rs" "well_indexed L dim F v"
    and "getIndex FILTER (index_factory v) = Some (Filter_index fi)" "fi_member (lib_rb L) fi f w (ucast uid)"
    and "map_of (int_fields (vdb_query L uid v)) f \<noteq> Some w"
    and "\<forall>r \<in> set rs. ucast (log_uid (lib_json L) r) = (ucast uid :: u32) \<longrightarrow>
      log_uid (lib_json L) r = uid \<and> map_of (int_fields (log_doc (lib_json L) r)) f \<noteq> Some w"
  shows "\<exists>v' fi'. replay_log L rs v = Inr v' \<and> well_indexed L dim F v' \<and>
    getIndex FILTER (index_factory v') = Some (Filter_index fi') \<and> fi_member (lib_rb L) fi' f w (ucast uid) \<and>
    map_of (int_fields (vdb_query L uid v')) f \<noteq> Some w"
  using assms(2-)
proof (induction rs arbitrary: v fi)
  case Nil
  then show ?case by simp
next
  case (Cons r rs)
  obtain i op d where r: "r = (i, op, d)" by (cases r)
  let ?uid = "log_uid (lib_json L) r" and ?d = "log_doc (lib_json L) r"
  have rec: "upsert_record (lib_json L) dim F (i, op, d)" "list_all (upsert_record (lib_json L) dim F) rs"
    using Cons.prems(1) r by simp_all
  then have ok: "doc_ok (lib_json L) dim F ?d" and rt: "rj_roundtrip (lib_json L) ?d"
    by (auto simp: upsert_record_def r elim!: doc_okE)
  obtain t where t: "t = FLAT \<or> t = UNKNOWN" and rep: "replay_record L op ?d v = upsert L ?uid ?d t v"
    using replay_upsert_record rec(1) r by metis
  obtain v1 where v1: "upsert L ?uid ?d t v = Inr v1" "well_indexed L dim F v1"
    using upsert_total [OF L Cons.prems(2) ok t] by blast
  have same: "ucast ?uid = (ucast uid :: u32) \<Longrightarrow> ?uid = uid \<and> map_of (int_fields ?d) f \<noteq> Some w"
    using Cons.prems(6) by simp
  obtain fi1 where fi1: "getIndex FILTER (index_factory v1) = Some (Filter_index fi1)"
    "fi_member (lib_rb L) fi1 f w (ucast uid)"
    using upsert_keeps_stale [OF L Cons.prems(2) ok Cons.prems(3,4) _ v1(1)] same Cons.prems(5) by metis
  have "map_of (int_fields (vdb_query L uid v1)) f \<noteq> Some w"
    using vdb_query_upsert [OF L rt v1(1), of uid] same Cons.prems(5) by auto
  from Cons.IH [OF rec(2) v1(2) fi1 this] Cons.prems(6) show ?case
    using rep v1(1) by (simp add: r log_doc_def)
qed

section \<open>Properties\<close>

text \<open>A record the format can hold: no separator in its texts, no NUL in the document.\<close>

definition record_plain :: "wal_record \<Rightarrow> bool" where
  "record_plain r = (case r of (i, op, d) \<Rightarrow>
     op \<noteq> [] \<and> set op \<inter> {CHR ''|'', CHR 0x0A} = {} \<and> set d \<inter> {CHR ''|'', CHR 0x0A, CHR 0x00} = {})"

lemma record_plain_ok: "record_plain r \<Longrightarrow> record_ok r"
  by (auto simp: record_plain_def record_ok_def)

lemma read_back_plain: "record_plain r \<Longrightarrow> read_back J r = (fst (snd r), rj_parse J (snd (snd r)))"
  by (auto simp: record_plain_def read_back_def split: prod.split)

text \<open>
  C11. The log survives restarts. Let the process open a log file that is not there yet, append
  records to it, stop, open it again, append more, and so on any number of times; opened once
  more and read to its end with \<^verbatim>\<open>readNextWALLog\<close>, it gives the operation and the parsed document of
  every record ever written, in the order of writing, but for those with ids up to the last
  snapshot, and the id counter ends at the largest id (10 at least). The records hold no bar and no
  newline, which the format does not escape, and no NUL.
\<close>

theorem wal_survives_restarts:
  assumes "fs_writable fs path" "fs_read fs path = None" "path \<noteq> snapshot_id_file"
    and "\<forall>rs \<in> set ss. list_all record_plain rs"
  shows "\<exists>fs' p fs'' q. foldM (log_session path) fs ss = Inr fs' \<and>
    Persistence_init path fs' Persistence_new = Inr (p, fs'') \<and>
    read_whole_log J fs'' p =
      Inr (map (\<lambda>(i, op, d). (op, rj_parse J d)) (filter (\<lambda>(i, op, d). stored_snapshot_id fs < i) (concat ss)), q) \<and>
    increase_id q = fold (\<lambda>(i, op, d). max i) (concat ss) 10"
proof -
  obtain fs' where w: "foldM (log_session path) fs ss = Inr fs'" "fs_writable fs' = fs_writable fs"
      "file_text fs' path = log_text (concat ss)" "fs_read fs' snapshot_id_file = fs_read fs snapshot_id_file"
    using assms(3) log_sessions_text [OF assms(1), of ss] assms(2) by (auto simp: file_text_def)
  have "fs_writable fs' path" using w(2) assms(1) by simp
  from open_log [OF this] obtain p fs''
    where o: "Persistence_init path fs' Persistence_new = Inr (p, fs'')" "increase_id p = 10"
      "last_snapshot_id p = stored_snapshot_id fs'"
    using assms(3) by blast
  have id: "last_snapshot_id p = stored_snapshot_id fs" using w(4) by (simp add: o(3) stored_snapshot_id_def)
  have plain: "list_all record_plain (concat ss)" using assms(4) by (induction ss) auto
  then have "list_all record_ok (concat ss)" using record_plain_ok by (auto simp: list_all_iff)
  from open_at_log [OF o(1) w(3) this] have at: "at_log fs'' p (concat ss)" .
  have "map (read_back J) (filter (\<lambda>r. last_snapshot_id p < fst r) (concat ss)) =
      map (\<lambda>(i, op, d). (op, rj_parse J d)) (filter (\<lambda>(i, op, d). stored_snapshot_id fs < i) (concat ss))"
    unfolding id using plain by (auto simp: list_all_iff read_back_plain split_beta intro!: map_cong filter_cong)
  moreover have "max_ids inc rs = fold (\<lambda>(i, op, d). max i) rs inc" for inc rs
    by (induction rs arbitrary: inc) auto
  ultimately show ?thesis
    using w(1) o(1,2) read_whole_log_records [OF at, of J] by (simp add: after_log_def)
qed

text \<open>Three runs, with a snapshot up to record 11 by the time the log is read.\<close>

theorem wal_survives_restarts_witness:
  "\<exists>fs' p fs'' q. foldM (log_session ''w'') (fs_write snapshot_id_file ''11'' sample_files)
      [[(11, ''upsert'', ''{Aid1B''), (12, ''upsert'', ''{Aid1C'')], [], [(13, ''upsert'', ''{Aid2B'')]] = Inr fs' \<and>
    Persistence_init ''w'' fs' Persistence_new = Inr (p, fs'') \<and>
    read_whole_log table_json fs'' p = Inr ([(''upsert'', sample_doc 1 2), (''upsert'', sample_doc 2 1)], q) \<and>
    increase_id q = 13"
proof -
  let ?ss = "[[(11, ''upsert'', ''{Aid1B''), (12, ''upsert'', ''{Aid1C'')], [], [(13, ''upsert'', ''{Aid2B'')]] :: wal_record list list"
  let ?fs = "fs_write snapshot_id_file ''11'' sample_files"
  have plain: "\<forall>rs \<in> set ?ss. list_all record_plain rs" by (simp add: record_plain_def)
  have fs: "fs_writable ?fs ''w''" "fs_read ?fs ''w'' = None" "''w'' \<noteq> snapshot_id_file"
    by (simp_all add: sample_files_def fs_read_def fs_write_def snapshot_id_file_def)
  have "extract_u64 ''11'' 0 = 11"
    by (simp add: extract_u64_def strto_def isspace_def is_digit_def digits_value_def digit_val_def Let_def)
  then have id: "stored_snapshot_id ?fs = 11" by (simp add: stored_snapshot_id_def)
  from wal_survives_restarts [OF fs plain, of table_json] obtain fs' p fs'' q
    where "foldM (log_session ''w'') ?fs ?ss = Inr fs'"
      "Persistence_init ''w'' fs' Persistence_new = Inr (p, fs'')"
      "read_whole_log table_json fs'' p = Inr (map (\<lambda>(i, op, d). (op, rj_parse table_json d))
         (filter (\<lambda>(i, op, d). stored_snapshot_id ?fs < i) (concat ?ss)), q)"
      "increase_id q = fold (\<lambda>(i, op, d). max i) (concat ?ss) 10"
    by blast
  then show ?thesis by (auto simp: id max_def table_json_def sample_table_def)
qed

definition sample_log :: "wal_record list" where
  "sample_log = [(11, ''upsert'', ''{Aid1B''), (12, ''upsert'', ''{Aid1C''), (13, ''upsert'', ''{Aid2B'')]"

definition sample_wal :: Persistence where
  "sample_wal = \<lparr>increase_id = 10, last_snapshot_id = 0, wal_path = ''w'', wal_pos = 0, wal_good = True\<rparr>"

definition sample_wal_files :: filesys where
  "sample_wal_files = fs_write ''w'' (log_text sample_log) sample_files"

lemma sample_at_log: "at_log sample_wal_files sample_wal sample_log"
  unfolding at_log_def sample_wal_files_def
  by (simp add: sample_wal_def wal_data_def sample_log_def record_ok_def)

lemma sample_no_snapshot: "no_snapshot sample_libs (sample_db [] sample_wal_files sample_wal)"
  by (simp add: no_snapshot_def sample_db_def sample_wal_files_def sample_files_def fs_read_def fs_write_def
      index_file_path_def list_rocks_def)

text \<open>
  C10. A restart, with or without a snapshot, is: load the snapshot, then run the logged operations
  with ids after it, in the order they were written, and nothing else. The id counter is left at
  the largest id of the log, those of skipped records included.
\<close>

theorem reload_replays_log:
  assumes "at_log (files v) (persistence v) rs"
  shows "reloadDatabase L v =
    andthen (Persistence_loadSnapshot L (scalar_storage v) (files v) (index_factory v)) (\<lambda>snapshot.
    andthen (replay_log L (filter (\<lambda>r. fst r > last_snapshot_id (persistence v)) rs)
               (v\<lparr>index_factory := snapshot\<rparr>)) (\<lambda>v'.
      Inr (v'\<lparr>persistence := (persistence v)\<lparr>increase_id := max_ids (increase_id (persistence v)) rs,
         wal_pos := length (wal_data (persistence v) (files v)), wal_good := True\<rparr>\<rparr>)))"
  using reloadDatabase_log [OF assms] by (simp add: after_log_def)

text \<open>
  A node stopped some time after a snapshot: the snapshot was taken at record 11, when document 1
  had value 1; the storage has the documents of records 12 and 13, in which it has value 2.
\<close>

definition sample_snapshot :: "(u32 list, kv_writes, list_flat, list_graph) VectorDatabase" where
  "sample_snapshot = \<lparr>
     scalar_storage = [(''2'', ''{Aid2B''), (''1'', ''{Aid1C''), (''snapshots_2.index'', ''a|1|1,'' @ [CHR 0x0A])],
     persistence = sample_wal\<lparr>last_snapshot_id := 11\<rparr>, index_factory = sample_factory,
     files = fs_write ''snapshots_0.index'' [] sample_wal_files\<rparr>"

definition loaded_snapshot :: "(u32 list, list_flat, list_graph) IndexFactory" where
  "loaded_snapshot = \<lparr>index_map =
     [(FLAT, Flat_index \<lparr>fi_index = \<lparr>lf_dim = 1, lf_entries = []\<rparr>\<rparr>),
      (FILTER, Filter_index \<lparr>intFieldFilter = [(''a'', [(1, Some [1])])]\<rparr>)]\<rparr>"

lemma sample_snapshot_load:
  "Persistence_loadSnapshot sample_libs (scalar_storage sample_snapshot) (files sample_snapshot)
     (index_factory sample_snapshot) = Inr loaded_snapshot"
proof -
  have paths: "index_file_path ''snapshots_'' FLAT = ''snapshots_0.index''"
    "index_file_path ''snapshots_'' FILTER = ''snapshots_2.index''"
    by (simp_all add: index_file_path_def index_type_int_def to_string_int_def to_string_digit digit_char_def)
  have line: "entry_line list_bitmap (''a'', 1, [1]) = ''a|1|1,'' @ [CHR 0x0A]"
    by (simp add: entry_line_def list_bitmap_def to_string_int_def to_string_digit digit_char_def)
  have port: "list_all (entry_portable list_bitmap) [(''a'', 1, [1])]"
    by (simp add: entry_portable_def roaring_portable_def list_bitmap_def to_string_digit digit_char_def digit_val_def)
  have "deserializeIntFieldFilter list_bitmap (''a|1|1,'' @ [CHR 0x0A]) FilterIndex_new =
      Inr \<lparr>intFieldFilter = [(''a'', [(1, Some [1])])]\<rparr>"
    using deserialize_entry_lines [OF port, of "[]" FilterIndex_new]
    by (simp only: list.map concat.simps append_Nil2 line deserializeIntFieldFilter_def)
      (simp add: set_bitmap_def FilterIndex_new_def value_map_of_def)
  then have filt: "FilterIndex_loadIndex list_bitmap list_rocks ''snapshots_2.index'' (scalar_storage sample_snapshot)
      \<lparr>intFieldFilter = []\<rparr> = Inr \<lparr>intFieldFilter = [(''a'', [(1, Some [1])])]\<rparr>"
    by (simp add: FilterIndex_loadIndex_def storage_get_def list_rocks_def sample_snapshot_def FilterIndex_new_def)
  have flat: "faiss_loadIndex list_faiss ''snapshots_0.index'' (files sample_snapshot) i =
      Inr (i\<lparr>fi_index := \<lparr>lf_dim = 1, lf_entries = []\<rparr>\<rparr>)" for i
    by (simp add: faiss_loadIndex_def sample_snapshot_def list_faiss_def)
  have "index_factory sample_snapshot = sample_factory" by (simp add: sample_snapshot_def)
  then show ?thesis
    by (simp add: Persistence_loadSnapshot_def IndexFactory_loadIndex_def load_entry_def paths filt flat
        sample_factory_map loaded_snapshot_def)
qed

lemma sample_snapshot_log: "at_log (files sample_snapshot) (persistence sample_snapshot) sample_log"
  using sample_at_log by (simp add: at_log_def sample_snapshot_def sample_wal_def wal_data_def)

theorem reload_replays_log_witness:
  "reloadDatabase sample_libs sample_snapshot =
    andthen (replay_log sample_libs [(12, ''upsert'', ''{Aid1C''), (13, ''upsert'', ''{Aid2B'')]
               (sample_snapshot\<lparr>index_factory := loaded_snapshot\<rparr>))
      (\<lambda>v'. Inr (v'\<lparr>persistence := \<lparr>increase_id = 13, last_snapshot_id = 11, wal_path = ''w'',
         wal_pos = length (log_text sample_log), wal_good = True\<rparr>\<rparr>))"
proof -
  have "wal_data (persistence sample_snapshot) (files sample_snapshot) = log_text sample_log"
    by (simp add: sample_snapshot_def sample_wal_def wal_data_def sample_wal_files_def)
  moreover have "persistence sample_snapshot = sample_wal\<lparr>last_snapshot_id := 11\<rparr>" by (simp add: sample_snapshot_def)
  ultimately show ?thesis
    using reload_replays_log [OF sample_snapshot_log, of sample_libs]
    by (simp add: sample_snapshot_load sample_wal_def) (simp add: sample_log_def max_def)
qed


lemma sample_log_docs:
  "log_doc table_json (11, ''upsert'', ''{Aid1B'') = sample_doc 1 1"
  "log_doc table_json (12, ''upsert'', ''{Aid1C'') = sample_doc 1 2"
  "log_doc table_json (13, ''upsert'', ''{Aid2B'') = sample_doc 2 1"
  by (simp_all add: log_doc_def table_json_def sample_table_def)

lemma sample_doc_request:
  "doc_uid (sample_doc 1 a) = Inr 1" "doc_uid (sample_doc 2 a) = Inr 2"
  "getIndexTypeFromRequest (sample_doc i a) = Inr FLAT"
  by (simp_all add: doc_uid_def sample_doc_def constants_defs getIndexTypeFromRequest_def index_type_of_string_def)


text \<open>
  C13. A restart with a snapshot can leave the filter index wrong. RocksDB keeps what was written
  after the snapshot, so at the restart the stored document of an id is newer than the snapshot's
  filter index. Let the loaded snapshot have the id under a value of a field that neither the
  stored document nor any document replayed for it has. Then the reload succeeds, and afterwards
  the bitmap of that value still has the id, whose stored document does not satisfy the filter: the
  replayed update takes the value to remove from the newer document, so nothing removes the entry.
\<close>

theorem restart_keeps_stale_filter_entry:
  assumes "libs_ok L"
    and "Persistence_loadSnapshot L (scalar_storage v) (files v) (index_factory v) = Inr snapshot"
    and "well_indexed L dim F (v\<lparr>index_factory := snapshot\<rparr>)" "getIndex FILTER snapshot = Some (Filter_index fi)"
    and "fi_member (lib_rb L) fi f w (ucast uid)" "\<not> filter_holds EQUAL f w (vdb_query L uid v)"
    and "at_log (files v) (persistence v) rs" "new = filter (\<lambda>r. last_snapshot_id (persistence v) < fst r) rs"
    and "list_all (upsert_record (lib_json L) dim F) new"
    and "\<forall>r \<in> set new. ucast (log_uid (lib_json L) r) = (ucast uid :: u32) \<longrightarrow>
      log_uid (lib_json L) r = uid \<and> \<not> filter_holds EQUAL f w (log_doc (lib_json L) r)"
  shows "\<exists>v' fi' b. reloadDatabase L v = Inr v' \<and> getIndex FILTER (index_factory v') = Some (Filter_index fi') \<and>
    getIntFieldFilterBitmap (lib_rb L) f EQUAL w (rb_create (lib_rb L)) fi' = Inr b \<and>
    rb_contains (lib_rb L) b (ucast uid) \<and> \<not> filter_holds EQUAL f w (vdb_query L uid v')"
proof -
  have R: "roaring_ok (lib_rb L)" using assms(1) by (simp add: libs_ok_def)
  have h: "filter_holds EQUAL f w d \<longleftrightarrow> map_of (int_fields d) f = Some w" for d
    by (simp add: filter_holds_def split: option.split)
  let ?v = "v\<lparr>index_factory := snapshot\<rparr>"
  have q: "vdb_query L uid ?v = vdb_query L uid v" by (simp add: vdb_query_def)
  from replay_log_stale [OF assms(1,9,3), of fi f w uid] assms(4-6,10) obtain v1 fi'
    where v1: "replay_log L new ?v = Inr v1" "well_indexed L dim F v1"
      "getIndex FILTER (index_factory v1) = Some (Filter_index fi')" "fi_member (lib_rb L) fi' f w (ucast uid)"
      "\<not> filter_holds EQUAL f w (vdb_query L uid v1)"
    by (auto simp: h q)
  have "fi_ok fi'" using v1(2,3) by (simp add: well_indexed_def)
  from query_bitmap [OF R this, of f EQUAL w "rb_create (lib_rb L)"] v1(4) obtain b
    where b: "getIntFieldFilterBitmap (lib_rb L) f EQUAL w (rb_create (lib_rb L)) fi' = Inr b"
      "rb_contains (lib_rb L) b (ucast uid)" by auto
  let ?v' = "v1\<lparr>persistence := after_log (files v) rs [] (persistence v)\<rparr>"
  have "reloadDatabase L v = Inr ?v'"
    using reloadDatabase_log [OF assms(7)] assms(2,8) v1(1) by simp
  moreover have "getIndex FILTER (index_factory ?v') = Some (Filter_index fi')" using v1(3) by simp
  moreover have "\<not> filter_holds EQUAL f w (vdb_query L uid ?v')" using v1(5) by simp
  ultimately show ?thesis using b by blast
qed

text \<open>
  The restart of \<open>sample_snapshot\<close>: document 1 has value 2, and a search for value 1 finds it.
\<close>

theorem restart_keeps_stale_filter_entry_witness:
  "\<exists>v' fi' b. reloadDatabase sample_libs sample_snapshot = Inr v' \<and>
    getIndex FILTER (index_factory v') = Some (Filter_index fi') \<and>
    getIntFieldFilterBitmap list_bitmap ''a'' EQUAL 1 [] fi' = Inr b \<and> 1 \<in> set b \<and>
    \<not> filter_holds EQUAL ''a'' 1 (vdb_query sample_libs 1 v')"
proof -
  let ?v = "sample_snapshot\<lparr>index_factory := loaded_snapshot\<rparr>"
  let ?fi = "\<lparr>intFieldFilter = [(''a'', [(1, Some [1])])]\<rparr> :: u32 list filter_index"
  have key: "scalar_key uid = ''1'' \<longleftrightarrow> uid = 1" "scalar_key uid = ''2'' \<longleftrightarrow> uid = 2" for uid
    using scalar_key_inject [of uid 1] scalar_key_inject [of uid 2]
    by (simp_all add: scalar_key_def to_string_digit digit_char_def)
  have "scalar_key uid \<noteq> ''snapshots_2.index''" for uid
  proof
    assume "scalar_key uid = ''snapshots_2.index''"
    then have "CHR ''s'' \<in> set (scalar_key uid)" by simp
    then show False by simp
  qed
  then have q: "vdb_query sample_libs uid sample_snapshot =
      (if uid = 1 then sample_doc 1 2 else if uid = 2 then sample_doc 2 1 else JNull)" for uid
    by (simp add: vdb_query_def sample_snapshot_def get_scalar_def list_rocks_def key table_json_def sample_table_def)
  have f: "getIndex FILTER loaded_snapshot = Some (Filter_index ?fi)" "fi_ok ?fi" "fi_member list_bitmap ?fi ''a'' 1 1"
    by (auto simp: loaded_snapshot_def getIndex_def fi_ok_def vm_ok_def om_ok_Cons fi_member_def value_map_of_def
        vm_member_def list_bitmap_def split: if_splits)
  have "vdb_query sample_libs uid ?v = vdb_query sample_libs uid sample_snapshot" for uid
    by (simp add: vdb_query_def)
  then have wi: "well_indexed sample_libs 1 {''a''} ?v"
    using f by (auto simp: well_indexed_def q storable_def)
      (simp add: loaded_snapshot_def getIndex_def flat_ok_def list_faiss_def)
  have p: "last_snapshot_id (persistence sample_snapshot) = 11" by (simp add: sample_snapshot_def)
  let ?new = "[(12, ''upsert'', ''{Aid1C''), (13, ''upsert'', ''{Aid2B'')] :: wal_record list"
  have new: "?new = filter (\<lambda>r. last_snapshot_id (persistence sample_snapshot) < fst r) sample_log"
    by (simp add: p sample_log_def)
  have rec: "list_all (upsert_record table_json 1 {''a''}) ?new"
    by (simp add: upsert_record_def sample_log_docs sample_doc_request)
  have hold: "filter_holds EQUAL ''a'' w (sample_doc i a) \<longleftrightarrow> w = a" if "- (2 ^ 31) \<le> a" "a < 2 ^ 31" for w i a
    using that by (auto simp: filter_holds_def sample_doc_def int_members_def)
  have docs: "\<forall>r \<in> set ?new. ucast (log_uid table_json r) = (ucast (1 :: u64) :: u32) \<longrightarrow>
      log_uid table_json r = 1 \<and> \<not> filter_holds EQUAL ''a'' 1 (log_doc table_json r)"
    by (simp add: log_uid_def sample_log_docs sample_doc_request hold)
  have stored: "\<not> filter_holds EQUAL ''a'' 1 (vdb_query sample_libs 1 sample_snapshot)" by (simp add: q hold)
  have b: "rb_create list_bitmap = []" "rb_contains list_bitmap b x \<longleftrightarrow> x \<in> set b" for b x
    by (simp_all add: list_bitmap_def)
  have one: "(ucast (1 :: u64) :: u32) = 1" by simp
  from restart_keeps_stale_filter_entry [OF sample_libs_ok sample_snapshot_load wi f(1) _ stored sample_snapshot_log new,
      unfolded sample_libs_simps one, OF f(3) rec docs [unfolded one]]
  show ?thesis unfolding b .
qed

end
