(* ===== verification/Log_Store.thy ===== *)
theory Log_Store
  imports Raft_Instances Vector_Recovery
begin

text \<open>
  in_memory_log_store.cpp: the Raft log, in a \<^verbatim>\<open>std::map\<close> from index to entry with a dummy entry
  at index 0; an application entry is also written to the write-ahead log of the database. Shown
  here: the map holds consecutive indexes from \<open>start_idx\<close> on, the operations are those of a list
  of entries with a base, and compaction returns except for the largest index.
\<close>

named_theorems log_simps

record 'e inmem_log_store =
  logs :: "(u64, 'e) omap"
  start_idx :: u64
  raft_server_bwd_pointer :: bool  \<comment> \<open>not null\<close>
  disk_emul_delay :: u64
  disk_emul_thread :: bool
  disk_emul_thread_stop_signal :: bool
  disk_emul_logs_being_written :: "(u64, u64) omap"
  disk_emul_last_durable_index :: u64

definition inmem_log_store_new ::
  "('u, 'e) nuraft \<Rightarrow> ('b, 'd, 'f, 'h) VectorDatabase \<Rightarrow> 'e inmem_log_store" where
  "inmem_log_store_new N v =
     \<lparr>logs = om_insert 0 (le_new N 0 (nb_alloc N 8)) [],
      start_idx = getStartIndexID v + 1, raft_server_bwd_pointer = False, disk_emul_delay = 0,
      disk_emul_thread = False, disk_emul_thread_stop_signal = False,
      disk_emul_logs_being_written = [], disk_emul_last_durable_index = 0\<rparr>"

definition make_clone :: "('u, 'e) nuraft \<Rightarrow> 'e \<Rightarrow> 'e" where
  "make_clone N entry =
     le_make N (le_term N entry) (nb_clone N (le_buf N entry)) (le_val_type N entry)
       (le_timestamp N entry) (le_has_crc32 N entry) (le_crc32 N entry) False"

definition next_slot :: "'e inmem_log_store \<Rightarrow> u64" where
  "next_slot s = start_idx s + of_nat (length (logs s)) - 1"

definition start_index :: "'e inmem_log_store \<Rightarrow> u64" where
  "start_index s = start_idx s"

text \<open>An absent index falls back to the dummy entry; without one \<^verbatim>\<open>end()\<close> is dereferenced.\<close>

definition find_or_dummy :: "u64 \<Rightarrow> 'e inmem_log_store \<Rightarrow> 'e res" where
  "find_or_dummy i s =
     (case map_of (logs s) i of
        Some e \<Rightarrow> Inr e
      | None \<Rightarrow> (case map_of (logs s) 0 of
                   Some e \<Rightarrow> Inr e
                 | None \<Rightarrow> Inl (Abort (Out_of_bounds ''logs_.end()''))))"

definition last_entry :: "('u, 'e) nuraft \<Rightarrow> 'e inmem_log_store \<Rightarrow> 'e res" where
  "last_entry N s =
     (let next_idx = next_slot s
      in andthen (find_or_dummy (next_idx - 1) s) (\<lambda>e. Inr (make_clone N e)))"

definition begin_disk_write :: "u64 \<Rightarrow> u64 \<Rightarrow> 'e inmem_log_store \<Rightarrow> 'e inmem_log_store" where
  "begin_disk_write cur_time idx s =
     s\<lparr>disk_emul_logs_being_written :=
         om_insert (cur_time + disk_emul_delay s * 1000) idx (disk_emul_logs_being_written s)\<rparr>"

definition log_append ::
  "('u, 'e) nuraft \<Rightarrow> u64 \<Rightarrow> 'e \<Rightarrow> 'e inmem_log_store \<times> ('b, 'd, 'f, 'h) VectorDatabase
   \<Rightarrow> (u64 \<times> 'e inmem_log_store \<times> ('b, 'd, 'f, 'h) VectorDatabase) res" where
  "log_append N cur_time entry sv =
     (let (s, v) = sv;
          clone = make_clone N entry;
          idx = start_idx s + of_nat (length (logs s)) - 1;
          s1 = s\<lparr>logs := om_insert idx clone (logs s)\<rparr>
      in andthen
           (if le_val_type N entry = val_app_log N
            then andthen (app_content N (le_buf N clone)) (\<lambda>content. Inr (writeWALLogWithID idx content v))
            else andthen (whole_content N (le_buf N clone)) (\<lambda>content. Inr v))
           (\<lambda>v1.
              let s2 = (if disk_emul_delay s1 \<noteq> 0 then begin_disk_write cur_time idx s1 else s1)
              in Inr (idx, s2, v1)))"

definition log_write_at ::
  "('u, 'e) nuraft \<Rightarrow> u64 \<Rightarrow> u64 \<Rightarrow> 'e \<Rightarrow> 'e inmem_log_store \<times> ('b, 'd, 'f, 'h) VectorDatabase
   \<Rightarrow> ('e inmem_log_store \<times> ('b, 'd, 'f, 'h) VectorDatabase) res" where
  "log_write_at N cur_time index entry sv =
     (let (s, v) = sv;
          clone = make_clone N entry;
          s1 = s\<lparr>logs := om_insert index clone (om_erase_from index (logs s))\<rparr>
      in andthen (app_content N (le_buf N clone)) (\<lambda>content.
           let v1 = (if le_val_type N entry = val_app_log N then writeWALLogWithID index content v else v);
               s2 = (if disk_emul_delay s1 \<noteq> 0
                     then let s' = begin_disk_write cur_time index s1
                          in s'\<lparr>disk_emul_logs_being_written :=
                                  filter (\<lambda>e. \<not> snd e > index) (disk_emul_logs_being_written s')\<rparr>
                     else s1)
           in Inr (s2, v1)))"

text \<open>The indexes of \<^verbatim>\<open>for (ulong ii = start; ii < end; ++ii)\<close>.\<close>

definition index_range :: "u64 \<Rightarrow> u64 \<Rightarrow> u64 list" where
  "index_range a b = map of_nat [unat a..<unat b]"

definition find_or_assert :: "u64 \<Rightarrow> 'e inmem_log_store \<Rightarrow> 'e res" where
  "find_or_assert i s =
     (case map_of (logs s) i of Some e \<Rightarrow> Inr e | None \<Rightarrow> Inl (Abort (Assertion_failed ''0'')))"

text \<open>\<^verbatim>\<open>resize\<close> throws beyond the largest vector of 16-byte pointers.\<close>

definition log_entries :: "('u, 'e) nuraft \<Rightarrow> u64 \<Rightarrow> u64 \<Rightarrow> 'e inmem_log_store \<Rightarrow> 'e list res" where
  "log_entries N start end' s =
     (if unat (end' - start) \<ge> 2 ^ 59 then Inl (Throw (Length_error ''vector''))
      else mapM (\<lambda>ii. andthen (find_or_assert ii s) (\<lambda>src. Inr (make_clone N src))) (index_range start end'))"

fun log_entries_loop ::
  "('u, 'e) nuraft \<Rightarrow> u64 \<Rightarrow> 'e inmem_log_store \<Rightarrow> u64 \<Rightarrow> 'e list \<Rightarrow> u64 list \<Rightarrow> 'e list res" where
  "log_entries_loop N batch s accum ret [] = Inr ret"
| "log_entries_loop N batch s accum ret (ii # is) =
     andthen (find_or_assert ii s) (\<lambda>src.
       let ret' = ret @ [make_clone N src]; accum' = accum + nb_size N (le_buf N src)
       in if batch \<noteq> 0 \<and> accum' \<ge> batch then Inr ret'
          else log_entries_loop N batch s accum' ret' is)"

definition log_entries_ext ::
  "('u, 'e) nuraft \<Rightarrow> u64 \<Rightarrow> u64 \<Rightarrow> int \<Rightarrow> 'e inmem_log_store \<Rightarrow> 'e list res" where
  "log_entries_ext N start end' batch_size_hint_in_bytes s =
     (if batch_size_hint_in_bytes < 0 then Inr []
      else log_entries_loop N (word_of_int batch_size_hint_in_bytes) s 0 [] (index_range start end'))"

definition entry_at :: "('u, 'e) nuraft \<Rightarrow> u64 \<Rightarrow> 'e inmem_log_store \<Rightarrow> 'e res" where
  "entry_at N index s = andthen (find_or_dummy index s) (\<lambda>src. Inr (make_clone N src))"

definition term_at :: "('u, 'e) nuraft \<Rightarrow> u64 \<Rightarrow> 'e inmem_log_store \<Rightarrow> u64 res" where
  "term_at N index s = andthen (find_or_dummy index s) (\<lambda>e. Inr (le_term N e))"

definition log_pack :: "('u, 'e) nuraft \<Rightarrow> u64 \<Rightarrow> int \<Rightarrow> 'e inmem_log_store \<Rightarrow> 'u res" where
  "log_pack N index cnt s =
     andthen
       (mapM (\<lambda>ii. case map_of (logs s) ii of
                     None \<Rightarrow> Inl (Abort (Assertion_failed ''le.get()''))
                   | Some le \<Rightarrow> Inr (le_serialize N le))
          (index_range index (index + word_of_int cnt)))
       (\<lambda>bufs.
          let size_total = sum_list (map (nb_size N) bufs);
              buf_out = nb_set_pos N (nb_alloc N (4 + word_of_int cnt * 4 + size_total)) 0
          in andthen (throwing (nb_put_int N buf_out cnt)) (\<lambda>b0.
               foldM (\<lambda>b bb. andthen (throwing (nb_put_int N b (sint (ucast (nb_size N bb) :: u32)))) (\<lambda>b1.
                        throwing (nb_put_buffer N b1 bb))) b0 bufs))"

fun apply_pack_loop ::
  "('u, 'e) nuraft \<Rightarrow> u64 \<Rightarrow> nat \<Rightarrow> 'u \<Rightarrow> (u64, 'e) omap \<Rightarrow> ((u64, 'e) omap \<times> 'u) res" where
  "apply_pack_loop N cur_idx 0 pack m = Inr (m, pack)"
| "apply_pack_loop N cur_idx (Suc n) pack m =
     andthen (throwing (nb_get_int N pack)) (\<lambda>(buf_size, p1).
     andthen (throwing (nb_get_buffer N p1 (nb_alloc N (word_of_int buf_size)))) (\<lambda>(p2, buf_local).
     andthen (throwing (le_deserialize N buf_local)) (\<lambda>le.
       apply_pack_loop N (cur_idx + 1) n p2 (om_insert cur_idx le m))))"

definition log_apply_pack ::
  "('u, 'e) nuraft \<Rightarrow> u64 \<Rightarrow> 'u \<Rightarrow> 'e inmem_log_store \<Rightarrow> ('e inmem_log_store \<times> 'u) res" where
  "log_apply_pack N index pack s =
     andthen (throwing (nb_get_int N (nb_set_pos N pack 0))) (\<lambda>(num_logs, p0).
     andthen (apply_pack_loop N index (nat num_logs) p0 (logs s)) (\<lambda>(m, p1).
       let start = (case om_upper_bound 0 m of [] \<Rightarrow> 1 | e # _ \<Rightarrow> fst e)
       in Inr (s\<lparr>logs := m, start_idx := start\<rparr>, p1)))"

text \<open>
  The loop of \<^verbatim>\<open>compact\<close>. Its condition \<^verbatim>\<open>ii <= last_log_index\<close> never fails for the largest index,
  so it is a partial function.
\<close>

partial_function (option) compact_loop :: "u64 \<Rightarrow> u64 \<Rightarrow> (u64, 'e) omap \<Rightarrow> (u64, 'e) omap option" where
  "compact_loop ii last_log_index m =
     (if ii \<le> last_log_index then compact_loop (ii + 1) last_log_index (om_erase ii m) else Some m)"

definition log_compact :: "u64 \<Rightarrow> 'e inmem_log_store \<Rightarrow> (bool \<times> 'e inmem_log_store) option" where
  "log_compact last_log_index s =
     (case compact_loop (start_idx s) last_log_index (logs s) of
        None \<Rightarrow> None
      | Some m \<Rightarrow>
          Some (True, s\<lparr>logs := m,
                 start_idx := (if start_idx s \<le> last_log_index then last_log_index + 1 else start_idx s)\<rparr>))"

definition log_flush :: "'e inmem_log_store \<Rightarrow> bool \<times> 'e inmem_log_store" where
  "log_flush s = (True, s\<lparr>disk_emul_last_durable_index := next_slot s - 1\<rparr>)"

definition set_disk_delay :: "bool \<Rightarrow> u64 \<Rightarrow> 'e inmem_log_store \<Rightarrow> 'e inmem_log_store" where
  "set_disk_delay raft delay_ms s =
     s\<lparr>disk_emul_delay := delay_ms, raft_server_bwd_pointer := raft, disk_emul_thread := True\<rparr>"

definition last_durable_index :: "'e inmem_log_store \<Rightarrow> u64" where
  "last_durable_index s =
     (let last_log = next_slot s - 1
      in if disk_emul_delay s = 0 then last_log else disk_emul_last_durable_index s)"

text \<open>
  One round of the disk thread at time \<open>cur_time\<close>: the state, how long it sleeps next, and
  whether it notified the Raft server.
\<close>

definition disk_emul_step :: "u64 \<Rightarrow> 'e inmem_log_store \<Rightarrow> ('e inmem_log_store \<times> u64 \<times> bool) res" where
  "disk_emul_step cur_time s =
     (let w = disk_emul_logs_being_written s;
          done = takeWhile (\<lambda>e. fst e \<le> cur_time) w;
          w' = dropWhile (\<lambda>e. fst e \<le> cur_time) w;
          durable = (if done = [] then disk_emul_last_durable_index s else snd (last done));
          next_sleep_us = (case w' of [] \<Rightarrow> 100 * 1000 | e # _ \<Rightarrow> fst e - cur_time)
      in if done \<noteq> [] \<and> \<not> raft_server_bwd_pointer s
         then Inl (Abort (Null_dereference ''raft_server_bwd_pointer_''))
         else Inr (s\<lparr>disk_emul_logs_being_written := w', disk_emul_last_durable_index := durable\<rparr>,
                   next_sleep_us, done \<noteq> []))"

definition log_store_close :: "'e inmem_log_store \<Rightarrow> 'e inmem_log_store" where
  "log_store_close s = s"

section \<open>The log as a list with a base\<close>

definition indexed :: "nat \<Rightarrow> 'e list \<Rightarrow> (u64, 'e) omap" where
  "indexed b es = map (\<lambda>k. (of_nat (b + k), es ! k)) [0..<length es]"

text \<open>
  The shape of the map: the dummy entry at 0, then consecutive indexes from \<open>start_idx\<close> on that
  stay below the largest one.
\<close>

definition log_shape :: "'e inmem_log_store \<Rightarrow> 'e \<Rightarrow> 'e list \<Rightarrow> bool" where
  "log_shape s d es \<longleftrightarrow> logs s = (0, d) # indexed (unat (start_idx s)) es \<and>
     0 < unat (start_idx s) \<and> unat (start_idx s) + length es < 2 ^ 64"

definition log_ok :: "'e inmem_log_store \<Rightarrow> bool" where
  "log_ok s \<longleftrightarrow> (\<exists>d es. log_shape s d es)"

definition log_view :: "'e inmem_log_store \<Rightarrow> nat \<times> 'e list" where
  "log_view s = (unat (start_idx s), map snd (tl (logs s)))"

lemma map_snd_indexed [simp]: "map snd (indexed b es) = es"
  by (simp add: indexed_def comp_def map_nth)

lemma length_indexed [simp]: "length (indexed b es) = length es"
  by (simp add: indexed_def)

lemma indexed_snoc: "indexed b (es @ [e]) = indexed b es @ [(of_nat (b + length es), e)]"
  by (simp add: indexed_def nth_append)

lemma indexed_Nil [simp]: "indexed b [] = []"
  by (simp add: indexed_def)

lemma log_shape_view: "log_shape s d es \<Longrightarrow> log_view s = (unat (start_idx s), es)"
  by (simp add: log_shape_def log_view_def)

lemma unat_u64_of_nat: "n < 2 ^ 64 \<Longrightarrow> unat (of_nat n :: u64) = n"
  by (simp add: unat_of_nat)

lemma u64_less_of_nat: "a < 2 ^ 64 \<Longrightarrow> b < 2 ^ 64 \<Longrightarrow> (of_nat a :: u64) < of_nat b \<longleftrightarrow> a < b"
  by (simp add: word_less_nat_alt unat_u64_of_nat)

lemma indexed_keys:
  assumes "b + length es < 2 ^ 64"
  shows "k \<in> fst ` set (indexed b es) \<longleftrightarrow> b \<le> unat k \<and> unat k < b + length es"
proof
  assume "k \<in> fst ` set (indexed b es)"
  then obtain i where "i < length es" "k = of_nat (b + i)" by (auto simp: indexed_def)
  with assms show "b \<le> unat k \<and> unat k < b + length es"
    by (simp del: of_nat_add add: unat_u64_of_nat)
next
  assume k: "b \<le> unat k \<and> unat k < b + length es"
  then have "k = of_nat (b + (unat k - b))" by simp
  moreover have "unat k - b < length es" using k by auto
  ultimately show "k \<in> fst ` set (indexed b es)"
    unfolding indexed_def by (force simp del: of_nat_add)
qed

lemma om_ok_indexed:
  "b + length es < 2 ^ 64 \<Longrightarrow> om_ok (indexed b es)"
proof (induction es rule: rev_induct)
  case Nil
  then show ?case by simp
next
  case (snoc e es)
  have b: "b + length es < 2 ^ 64" using snoc.prems by simp
  have "k < of_nat (b + length es)" if "k \<in> fst ` set (indexed b es)" for k :: u64
    using that indexed_keys [OF b] b
    by (simp del: of_nat_add add: word_less_nat_alt unat_u64_of_nat)
  with snoc.IH b show ?case by (auto simp: indexed_snoc om_ok_append om_ok_Cons)
qed

lemma log_shape_ok: "log_shape s d es \<Longrightarrow> om_ok (logs s)"
proof -
  assume a: "log_shape s d es"
  let ?b = "unat (start_idx s)"
  have b: "?b + length es < 2 ^ 64" "0 < ?b" and l: "logs s = (0, d) # indexed ?b es"
    using a by (simp_all add: log_shape_def)
  have "0 < k" if "k \<in> fst ` set (indexed ?b es)" for k
    using that indexed_keys [OF b(1)] b(2) by (simp add: word_less_nat_alt)
  then show ?thesis using om_ok_indexed [OF b(1)] by (simp add: l om_ok_Cons)
qed

lemma indexed_find:
  assumes "b + length es < 2 ^ 64"
  shows "map_of (indexed b es) k =
    (if b \<le> unat k \<and> unat k < b + length es then Some (es ! (unat k - b)) else None)"
proof (cases "b \<le> unat k \<and> unat k < b + length es")
  case True
  then have "(k, es ! (unat k - b)) = (of_nat (b + (unat k - b)), es ! (unat k - b))" by simp
  moreover have "unat k - b < length es" using True by auto
  ultimately have "(k, es ! (unat k - b)) \<in> set (indexed b es)"
    unfolding indexed_def by (force simp del: of_nat_add)
  with True om_ok_indexed [OF assms] show ?thesis by (simp add: om_lookup_iff_mem)
next
  case False
  then have "k \<notin> fst ` set (indexed b es)" using indexed_keys [OF assms] by blast
  then show ?thesis using False by (auto simp: map_of_eq_None_iff)
qed

lemma log_shape_find:
  assumes "log_shape s d es"
  shows "map_of (logs s) i =
    (if i = 0 then Some d
     else if unat (start_idx s) \<le> unat i \<and> unat i < unat (start_idx s) + length es
     then Some (es ! (unat i - unat (start_idx s))) else None)"
  using assms by (auto simp: log_shape_def indexed_find)

lemma log_shape_next:
  assumes "log_shape s d es"
  shows "next_slot s = of_nat (unat (start_idx s) + length es)"
  using assms by (simp add: next_slot_def log_shape_def)

lemma log_shape_push:
  assumes "log_shape s d es" "unat (start_idx s) + length es + 1 < 2 ^ 64" "logs s' = om_insert (next_slot s) e (logs s)"
    "start_idx s' = start_idx s"
  shows "log_shape s' d (es @ [e])"
proof -
  let ?b = "unat (start_idx s)"
  have b: "?b + length es < 2 ^ 64" using assms(2) by simp
  have n: "next_slot s = of_nat (?b + length es)" using log_shape_next [OF assms(1)] .
  have lt: "k < next_slot s" if "k \<in> fst ` set (indexed ?b es)" for k
    unfolding n using that indexed_keys [OF b] b
    by (simp del: of_nat_add add: word_less_nat_alt unat_u64_of_nat)
  have z: "0 < next_slot s"
    unfolding n using assms(1) b
    by (simp del: of_nat_add add: word_less_nat_alt unat_u64_of_nat log_shape_def)
  have "om_insert (next_slot s) e (logs s) = logs s @ [(next_slot s, e)]"
    using lt z assms(1) by (intro om_insert_last) (auto simp: log_shape_def)
  then show ?thesis
    using assms by (simp add: log_shape_def indexed_snoc n del: of_nat_add)
qed

lemma take_indexed: "k \<le> length es \<Longrightarrow> take k (indexed b es) = indexed b (take k es)"
  by (simp add: indexed_def take_map min_def)

lemma takeWhile_indexed:
  assumes "b + length es < 2 ^ 64" "b \<le> unat i" "unat i \<le> b + length es"
  shows "takeWhile (\<lambda>e. fst e < i) (indexed b es) = indexed b (take (unat i - b) es)"
proof -
  let ?k = "unat i - b"
  have k: "?k \<le> length es" using assms by simp
  have "takeWhile (\<lambda>e. fst e < i) (indexed b es) = take ?k (indexed b es)"
  proof (rule takeWhile_eq_take_P_nth)
    fix j
    assume j: "j < ?k" "j < length (indexed b es)"
    then have "b + j < unat i" "b + j < 2 ^ 64" using assms by auto
    then show "fst (indexed b es ! j) < i"
      using j by (simp add: indexed_def word_less_nat_alt unat_u64_of_nat del: of_nat_add)
  next
    assume "?k < length (indexed b es)"
    then show "\<not> fst (indexed b es ! ?k) < i"
      using assms by (simp add: indexed_def word_less_nat_alt unat_u64_of_nat del: of_nat_add)
  qed
  then show ?thesis using k by (simp add: take_indexed)
qed

lemma log_shape_cut:
  assumes "log_shape s d es" "unat (start_idx s) \<le> unat i" "unat i \<le> unat (start_idx s) + length es"
    "unat i + 1 < 2 ^ 64" "logs s' = om_insert i e (om_erase_from i (logs s))" "start_idx s' = start_idx s"
  shows "log_shape s' d (take (unat i - unat (start_idx s)) es @ [e])"
proof -
  let ?b = "unat (start_idx s)" and ?es = "take (unat i - unat (start_idx s)) es"
  have pos: "0 < i" using assms(1,2) by (simp add: log_shape_def word_less_nat_alt)
  have b: "?b + length es < 2 ^ 64" using assms(1) by (simp add: log_shape_def)
  let ?s = "s\<lparr>logs := om_erase_from i (logs s)\<rparr>"
  have "om_erase_from i (logs s) = (0, d) # indexed ?b ?es"
    using assms(1) pos takeWhile_indexed [OF b assms(2,3)] by (simp add: om_erase_from_def log_shape_def)
  then have sh: "log_shape ?s d ?es" using assms(1-3) by (auto simp: log_shape_def)
  have len: "?b + length ?es = unat i" using assms(2,3) by (auto simp: min_def)
  have "next_slot ?s = i" using log_shape_next [OF sh] len by simp
  moreover have "unat (start_idx ?s) + length ?es + 1 < 2 ^ 64" using len assms(4) by simp
  ultimately show ?thesis
    using log_shape_push [OF sh, of s' e] assms(5,6) by simp
qed

section \<open>The contract of a Raft log store\<close>

text \<open>
  NuRaft's \<^verbatim>\<open>log_store\<close> asks of an implementation that appending extends the list by one entry at
  the index it returns, and that writing at an index drops what was at it and after it.
\<close>

locale raft_log =
  fixes ok :: "'s \<Rightarrow> bool"
    and view :: "'s \<Rightarrow> nat \<times> 'e list"
    and stored :: "'e \<Rightarrow> 'e"
    and push :: "u64 \<Rightarrow> 'e \<Rightarrow> 's \<times> 'w \<Rightarrow> (u64 \<times> 's \<times> 'w) res"
    and overwrite :: "u64 \<Rightarrow> u64 \<Rightarrow> 'e \<Rightarrow> 's \<times> 'w \<Rightarrow> ('s \<times> 'w) res"
  assumes push_view: "ok s \<Longrightarrow> view s = (b, es) \<Longrightarrow> b + length es + 1 < 2 ^ 64 \<Longrightarrow>
      push t e (s, w) = Inr (i, s', w') \<Longrightarrow>
      ok s' \<and> view s' = (b, es @ [stored e]) \<and> unat i = b + length es"
    and overwrite_view: "ok s \<Longrightarrow> view s = (b, es) \<Longrightarrow> b \<le> unat i \<Longrightarrow> unat i \<le> b + length es \<Longrightarrow>
      unat i + 1 < 2 ^ 64 \<Longrightarrow> overwrite t i e (s, w) = Inr (s', w') \<Longrightarrow>
      ok s' \<and> view s' = (b, take (unat i - b) es @ [stored e])"
begin

definition push_all :: "u64 \<Rightarrow> 'e list \<Rightarrow> 's \<times> 'w \<Rightarrow> ('s \<times> 'w) res" where
  "push_all t xs sw = foldM (\<lambda>sw e. andthen (push t e sw) (\<lambda>r. Inr (snd r))) sw xs"

lemma push_all_view:
  "push_all t xs (s, w) = Inr (s', w') \<Longrightarrow> ok s \<Longrightarrow> view s = (b, es) \<Longrightarrow>
     b + length es + length xs < 2 ^ 64 \<Longrightarrow>
     ok s' \<and> view s' = (b, es @ map stored xs)"
proof (induction xs arbitrary: s w es)
  case Nil
  then show ?case by (simp add: push_all_def)
next
  case (Cons e xs)
  then obtain i s1 w1 where p: "push t e (s, w) = Inr (i, s1, w1)"
    and rest: "push_all t xs (s1, w1) = Inr (s', w')"
    by (auto simp: push_all_def res_simps)
  have "ok s1 \<and> view s1 = (b, es @ [stored e])"
    using push_view [OF Cons.prems(2,3) _ p] Cons.prems(4) by simp
  with Cons.IH [OF rest, of "es @ [stored e]"] Cons.prems(4) show ?case by simp
qed

text \<open>
  A follower whose log departs from the leader's at \<open>i\<close> and is sent the leader's entries from
  there on ends with the leader's log.
\<close>

lemma overwrite_catches_up:
  assumes "ok s" "view s = (b, es)" "b \<le> unat i" "unat i \<le> b + length es"
    and "unat i + 1 + length xs < 2 ^ 64" "take (unat i - b) es = take (unat i - b) (map stored leader)"
    and "drop (unat i - b) leader = x # xs"
    and "overwrite t i x (s, w) = Inr (s1, w1)" "push_all t xs (s1, w1) = Inr (s2, w2)"
  shows "ok s2 \<and> view s2 = (b, map stored leader)"
proof -
  have s1: "ok s1" "view s1 = (b, take (unat i - b) es @ [stored x])"
    using overwrite_view [OF assms(1-4) _ assms(8)] assms(5) by auto
  have len: "b + length (take (unat i - b) es @ [stored x]) + length xs < 2 ^ 64"
    using assms(3-5) by (auto simp: min_def)
  have "map stored leader = take (unat i - b) (map stored leader) @ map stored (x # xs)"
    by (metis append_take_drop_id assms(7) drop_map)
  then show ?thesis
    using push_all_view [OF assms(9) s1 len] assms(6) by simp
qed

end

lemma log_append_state:
  assumes "log_append N t e (s, v) = Inr (i, s', v')"
  shows "i = next_slot s" "logs s' = om_insert (next_slot s) (make_clone N e) (logs s)" "start_idx s' = start_idx s"
  using assms
  by (auto simp: log_append_def Let_def res_simps next_slot_def begin_disk_write_def split: if_splits)

lemma log_write_at_state:
  assumes "log_write_at N t i e (s, v) = Inr (s', v')"
  shows "logs s' = om_insert i (make_clone N e) (om_erase_from i (logs s))" "start_idx s' = start_idx s"
  using assms
  by (auto simp: log_write_at_def Let_def res_simps begin_disk_write_def split: if_splits)

interpretation il: raft_log "log_ok :: 'e inmem_log_store \<Rightarrow> bool" log_view "make_clone (N :: ('u, 'e) nuraft)"
  "log_append N :: u64 \<Rightarrow> 'e \<Rightarrow> 'e inmem_log_store \<times> ('b, 'd, 'f, 'h) VectorDatabase \<Rightarrow> _" "log_write_at N"
proof unfold_locales
  fix s :: "'e inmem_log_store" and b es t e i s' and w w' :: "('b, 'd, 'f, 'h) VectorDatabase"
  assume a: "log_ok s" "log_view s = (b, es)" "b + length es + 1 < 2 ^ 64" "log_append N t e (s, w) = Inr (i, s', w')"
  then obtain d where sh: "log_shape s d es" "b = unat (start_idx s)"
    by (auto simp: log_ok_def log_shape_view)
  note st = log_append_state [OF a(4)]
  have sh': "log_shape s' d (es @ [make_clone N e])"
    using log_shape_push [OF sh(1) _ st(2,3)] a(3) sh(2) by simp
  have "unat i = b + length es"
    using log_shape_next [OF sh(1)] a(3) sh(2) st(1) by (simp del: of_nat_add add: unat_u64_of_nat)
  then show "log_ok s' \<and> log_view s' = (b, es @ [make_clone N e]) \<and> unat i = b + length es"
    using sh' log_shape_view [OF sh'] st(3) sh(2) by (auto simp: log_ok_def)
next
  fix s :: "'e inmem_log_store" and b es i t e s' and w w' :: "('b, 'd, 'f, 'h) VectorDatabase"
  assume a: "log_ok s" "log_view s = (b, es)" "b \<le> unat i" "unat i \<le> b + length es" "unat i + 1 < 2 ^ 64"
    "log_write_at N t i e (s, w) = Inr (s', w')"
  then obtain d where sh: "log_shape s d es" "b = unat (start_idx s)"
    by (auto simp: log_ok_def log_shape_view)
  note st = log_write_at_state [OF a(6)]
  have sh': "log_shape s' d (take (unat i - b) es @ [make_clone N e])"
    using log_shape_cut [OF sh(1) _ _ a(5) st] a(3,4) sh(2) by simp
  then show "log_ok s' \<and> log_view s' = (b, take (unat i - b) es @ [make_clone N e])"
    using log_shape_view [OF sh'] st(2) sh(2) by (auto simp: log_ok_def)
qed

section \<open>Compaction\<close>

lemma unat_u64_Suc: "(w :: u64) \<noteq> - 1 \<Longrightarrow> unat (w + 1) = unat w + 1"
  using unatSuc [of w] by (simp add: add.commute eq_neg_iff_add_eq_0)

lemma u64_max_le: "(- 1 :: u64) \<le> w \<Longrightarrow> w = - 1"
  by (metis order_antisym word_n1_ge)

lemma compact_loop_erases:
  assumes "lst \<noteq> - 1"
  shows "compact_loop ii lst m = Some (filter (\<lambda>e. \<not> (ii \<le> fst e \<and> fst e \<le> lst)) m)"
proof (induction "unat lst + 1 - unat ii" arbitrary: ii m rule: less_induct)
  case less
  show ?case
  proof (cases "ii \<le> lst")
    case False
    then have "filter (\<lambda>e. \<not> (ii \<le> fst e \<and> fst e \<le> lst)) m = m"
      by (auto simp: filter_id_conv)
    with False show ?thesis by (subst compact_loop.simps) simp
  next
    case True
    then have nmax: "ii \<noteq> - 1" using assms u64_max_le by blast
    then have up: "unat (ii + 1) = unat ii + 1" by (rule unat_u64_Suc)
    have "unat lst + 1 - unat (ii + 1) < unat lst + 1 - unat ii"
      using True by (simp add: up word_le_nat_alt)
    from less [OF this, of "om_erase ii m"]
    have "compact_loop ii lst m = Some (filter (\<lambda>e. \<not> (ii + 1 \<le> fst e \<and> fst e \<le> lst)) (om_erase ii m))"
      using True by (subst compact_loop.simps) simp
    moreover have "filter (\<lambda>e. \<not> (ii + 1 \<le> fst e \<and> fst e \<le> lst)) (om_erase ii m) =
        filter (\<lambda>e. \<not> (ii \<le> fst e \<and> fst e \<le> lst)) m"
    proof -
      have "k \<noteq> ii \<and> \<not> (ii + 1 \<le> k \<and> k \<le> lst) \<longleftrightarrow> \<not> (ii \<le> k \<and> k \<le> lst)" for k
        using up True unfolding word_le_nat_alt word_unat_eq_iff by auto
      then show ?thesis
        unfolding om_erase_def filter_filter by (intro filter_cong refl) blast
    qed
    ultimately show ?thesis by simp
  qed
qed

lemma compact_loop_returns: "compact_loop ii lst m = Some r \<Longrightarrow> lst \<noteq> - 1"
proof (induction rule: compact_loop.raw_induct [rotated, consumes 1])
  case (1 f ii lst m r)
  then show ?case by (cases "ii \<le> lst") auto
qed

lemma compact_loop_diverges: "compact_loop ii (- 1) m = None"
  using compact_loop_returns by (metis option.exhaust)

lemma indexed_append: "indexed b (xs @ ys) = indexed b xs @ indexed (b + length xs) ys"
  by (induction ys rule: rev_induct)
     (simp_all add: indexed_snoc add.assoc flip: append_assoc del: of_nat_add)

lemma indexed_mem:
  "e \<in> set (indexed b es) \<Longrightarrow> b + length es < 2 ^ 64 \<Longrightarrow>
     b \<le> unat (fst e) \<and> unat (fst e) < b + length es"
  using indexed_keys [of b es "fst e"] by blast

lemma filter_indexed:
  assumes "b + length es < 2 ^ 64" "b \<le> unat i" "unat i < b + length es"
  shows "filter (\<lambda>e. \<not> fst e \<le> i) (indexed b es) = indexed (unat i + 1) (drop (unat i + 1 - b) es)"
proof -
  let ?k = "unat i + 1 - b"
  have k: "?k \<le> length es" "b + ?k = unat i + 1" using assms by auto
  have split: "indexed b es = indexed b (take ?k es) @ indexed (unat i + 1) (drop ?k es)"
    using indexed_append [of b "take ?k es" "drop ?k es"] k by (simp add: min_def)
  have b1: "b + length (take ?k es) < 2 ^ 64" and b2: "unat i + 1 + length (drop ?k es) < 2 ^ 64"
    and l1: "b + length (take ?k es) = unat i + 1" using assms k by auto
  have "unat (fst e) \<le> unat i" if "e \<in> set (indexed b (take ?k es))" for e
    using indexed_mem [OF that b1] l1 by linarith
  then have "filter (\<lambda>e. \<not> fst e \<le> i) (indexed b (take ?k es)) = []"
    by (auto simp: filter_empty_conv word_le_nat_alt)
  moreover have "unat i < unat (fst e)" if "e \<in> set (indexed (unat i + 1) (drop ?k es))" for e
    using indexed_mem [OF that b2] by linarith
  then have "filter (\<lambda>e. \<not> fst e \<le> i) (indexed (unat i + 1) (drop ?k es)) = indexed (unat i + 1) (drop ?k es)"
    by (simp add: filter_id_conv word_le_nat_alt not_le)
  ultimately show ?thesis unfolding split filter_append by simp
qed

lemma log_compact_view:
  assumes "log_shape s d es" "i \<noteq> - 1" "start_idx s \<le> i"
  shows "\<exists>s'. log_compact i s = Some (True, s') \<and> log_shape s' d (drop (unat i + 1 - unat (start_idx s)) es) \<and>
    start_idx s' = i + 1"
proof -
  let ?b = "unat (start_idx s)" and ?es = "drop (unat i + 1 - unat (start_idx s)) es"
  let ?m = "filter (\<lambda>e. \<not> (start_idx s \<le> fst e \<and> fst e \<le> i)) (logs s)"
  let ?s = "s\<lparr>logs := ?m, start_idx := i + 1\<rparr>"
  have b: "?b + length es < 2 ^ 64" "0 < ?b" and l: "logs s = (0, d) # indexed ?b es"
    using assms(1) by (simp_all add: log_shape_def)
  have i1: "unat (i + 1) = unat i + 1"
    using assms(2) by (rule unat_u64_Suc)
  have ib: "?b \<le> unat i" using assms(3) by (simp add: word_le_nat_alt)
  have "0 < start_idx s" using b(2) by (simp add: word_less_nat_alt)
  then have z: "\<not> start_idx s \<le> 0" by simp
  have "filter (\<lambda>e. \<not> (start_idx s \<le> fst e \<and> fst e \<le> i)) (indexed ?b es) = indexed (unat i + 1) ?es"
  proof -
    have "filter (\<lambda>e. \<not> (start_idx s \<le> fst e \<and> fst e \<le> i)) (indexed ?b es) =
        filter (\<lambda>e. \<not> fst e \<le> i) (indexed ?b es)"
      by (intro filter_cong refl) (auto simp: word_le_nat_alt dest: indexed_mem [OF _ b(1)])
    also have "\<dots> = indexed (unat i + 1) ?es"
    proof (cases "unat i < ?b + length es")
      case True
      then show ?thesis using filter_indexed [OF b(1) ib] by simp
    next
      case False
      then have "filter (\<lambda>e. \<not> fst e \<le> i) (indexed ?b es) = []"
        by (auto simp: filter_empty_conv word_le_nat_alt dest: indexed_mem [OF _ b(1)])
      moreover have "?es = []" using False by simp
      ultimately show ?thesis by (simp only: indexed_Nil)
    qed
    finally show ?thesis .
  qed
  then have m: "?m = (0, d) # indexed (unat (i + 1)) ?es" using z by (simp add: l i1)
  have "unat (i + 1) < 2 ^ 64" using unsigned_less [of "i + 1"] by simp
  then have "log_shape ?s d ?es"
    using m b ib by (auto simp: log_shape_def i1)
  moreover have "log_compact i s = Some (True, ?s)"
    using compact_loop_erases [OF assms(2), of "start_idx s" "logs s"] assms(3) by (simp add: log_compact_def)
  ultimately show ?thesis by auto
qed

section \<open>Reads\<close>

lemma log_shape_read:
  assumes "log_shape s d es" "i \<noteq> 0"
  shows "find_or_dummy i s =
    Inr (if unat (start_idx s) \<le> unat i \<and> unat i < unat (start_idx s) + length es
         then es ! (unat i - unat (start_idx s)) else d)"
  using log_shape_find [OF assms(1), of i] log_shape_find [OF assms(1), of 0] assms(2)
  by (simp add: find_or_dummy_def)

lemma log_entries_slice:
  assumes "log_shape s d es" "unat (start_idx s) \<le> unat a" "unat a \<le> unat b"
    "unat b \<le> unat (start_idx s) + length es"
  shows "mapM (\<lambda>ii. andthen (find_or_assert ii s) (\<lambda>src. Inr (make_clone N src))) (index_range a b) =
    Inr (map (make_clone N) (take (unat b - unat a) (drop (unat a - unat (start_idx s)) es)))"
proof -
  let ?s = "unat (start_idx s)"
  have lim: "?s + length es < 2 ^ 64" "0 < ?s" using assms(1) by (simp_all add: log_shape_def)
  have get: "find_or_assert (of_nat k) s = Inr (es ! (k - ?s))" if "?s \<le> k" "k < ?s + length es" for k
  proof -
    have "unat (of_nat k :: u64) = k" using that lim by (intro unat_u64_of_nat) simp
    moreover have "of_nat k \<noteq> (0 :: u64)" using calculation that lim by auto
    ultimately show ?thesis using that by (simp add: find_or_assert_def log_shape_find [OF assms(1)])
  qed
  have "mapM (\<lambda>ii. andthen (find_or_assert ii s) (\<lambda>src. Inr (make_clone N src))) (map of_nat [unat a..<unat a + n]) =
      Inr (map (make_clone N) (take n (drop (unat a - ?s) es)))" if "unat a + n \<le> ?s + length es" for n
    using that
  proof (induction n)
    case 0
    then show ?case by simp
  next
    case (Suc n)
    have "find_or_assert (of_nat (unat a + n)) s = Inr (es ! (unat a + n - ?s))"
      using get [of "unat a + n"] assms(2) Suc.prems by (simp del: of_nat_add)
    moreover have "take (Suc n) (drop (unat a - ?s) es) = take n (drop (unat a - ?s) es) @ [es ! (unat a + n - ?s)]"
      using Suc.prems assms(2) by (simp add: take_Suc_conv_app_nth add.commute)
    ultimately show ?case using Suc by (simp add: mapM_append del: of_nat_add)
  qed
  from this [of "unat b - unat a"] show ?thesis using assms(3,4) by (simp add: index_range_def)
qed

section \<open>Properties\<close>

text \<open>
  C9. Appending puts a copy of the entry at the end of the list and returns its index, which was
  the next slot; an application entry goes to the write-ahead log under that index.
\<close>

theorem append_extends_log:
  assumes "log_ok s" "log_view s = (b, es)" "b + length es + 1 < 2 ^ 64"
    and "log_append N t e (s, v) = Inr (i, s', v')"
  shows "log_ok s' \<and> log_view s' = (b, es @ [make_clone N e]) \<and> i = next_slot s \<and> next_slot s' = i + 1 \<and>
    (le_val_type N e = val_app_log N \<longrightarrow>
       (\<exists>content. app_content N (le_buf N (make_clone N e)) = Inr content \<and> v' = writeWALLogWithID i content v)) \<and>
    (le_val_type N e \<noteq> val_app_log N \<longrightarrow> v' = v)"
proof -
  have p: "log_ok s'" "log_view s' = (b, es @ [make_clone N e])"
    using il.push_view [OF assms] by simp_all
  obtain d d' es' where sh: "log_shape s d es" "log_shape s' d' es'"
    using assms(1,2) p(1) by (auto simp: log_ok_def log_shape_view)
  then have "es' = es @ [make_clone N e]" using log_shape_view [OF sh(2)] p(2) by simp
  then have "next_slot s' = next_slot s + 1"
    using log_shape_next [OF sh(1)] log_shape_next [OF sh(2)] log_append_state(3) [OF assms(4)] by simp
  then show ?thesis
    using p assms(4) log_append_state(1) [OF assms(4)]
    by (auto simp: log_append_def Let_def res_simps split: if_splits)
qed

text \<open>
  C7. A follower whose log departs from the leader's at index \<open>i\<close> ends with the leader's entries
  when they are written from \<open>i\<close> on: the first by \<^verbatim>\<open>write_at\<close>, which drops the conflicting
  suffix, the rest by \<^verbatim>\<open>append\<close>.
\<close>

theorem write_at_resolves_conflict:
  assumes "log_ok s" "log_view s = (b, es)" "b \<le> unat i" "unat i \<le> b + length es"
    and "unat i + 1 + length xs < 2 ^ 64" "take (unat i - b) es = take (unat i - b) (map (make_clone N) leader)"
    and "drop (unat i - b) leader = x # xs"
    and "log_write_at N t i x (s, v) = Inr (s1, v1)"
    and "foldM (\<lambda>sw e. andthen (log_append N t e sw) (\<lambda>r. Inr (snd r))) (s1, v1) xs = Inr (s2, v2)"
  shows "log_ok s2 \<and> log_view s2 = (b, map (make_clone N) leader)"
  using il.overwrite_catches_up [OF assms(1-8)] assms(9) by (simp add: il.push_all_def)

text \<open>
  C19. Reads see the list: an index inside it gives its entry, every other index the dummy entry,
  and a range inside it gives that slice.
\<close>

theorem log_reads:
  assumes "log_shape s d es" "i \<noteq> 0"
    and "unat (start_idx s) \<le> unat a" "unat a \<le> unat b" "unat b \<le> unat (start_idx s) + length es"
    and "unat (b - a) < 2 ^ 59"
  shows "entry_at N i s = Inr (make_clone N
      (if unat (start_idx s) \<le> unat i \<and> unat i < unat (start_idx s) + length es
       then es ! (unat i - unat (start_idx s)) else d)) \<and>
    term_at N i s = Inr (le_term N
      (if unat (start_idx s) \<le> unat i \<and> unat i < unat (start_idx s) + length es
       then es ! (unat i - unat (start_idx s)) else d)) \<and>
    log_entries N a b s =
      Inr (map (make_clone N) (take (unat b - unat a) (drop (unat a - unat (start_idx s)) es)))"
  using log_shape_read [OF assms(1,2)] log_entries_slice [OF assms(1,3-5), of N] assms(6)
  by (simp add: entry_at_def term_at_def log_entries_def)

text \<open>
  C20. Compaction up to an index at or after the start returns, removes exactly the entries up to
  it and moves the start behind it, unless the index is the largest 64-bit number: then the loop
  condition never fails and the call does not return.
\<close>

theorem compact_drops_prefix:
  assumes "log_shape s d es" "start_idx s \<le> i"
  shows "(i \<noteq> - 1 \<longrightarrow> (\<exists>s'. log_compact i s = Some (True, s') \<and> start_idx s' = i + 1 \<and>
      log_shape s' d (drop (unat i + 1 - unat (start_idx s)) es))) \<and>
    log_compact (- 1) s = None"
  using log_compact_view [OF assms(1) _ assms(2)]
  by (auto simp: log_compact_def [of "- 1"] compact_loop_diverges)

section \<open>A log of two entries\<close>

definition sample_store :: "string_entry inmem_log_store" where
  "sample_store = \<lparr>logs = [(0, app_entry 0 []), (11, app_entry 1 ''{Aid1B''), (12, app_entry 1 ''{Aid1C'')],
     start_idx = 11, raft_server_bwd_pointer = False, disk_emul_delay = 0,
     disk_emul_thread = False, disk_emul_thread_stop_signal = False,
     disk_emul_logs_being_written = [], disk_emul_last_durable_index = 0\<rparr>"

lemma sample_store_shape:
  "log_shape sample_store (app_entry 0 []) [app_entry 1 ''{Aid1B'', app_entry 1 ''{Aid1C'']"
  by (simp add: log_shape_def sample_store_def indexed_def upt_rec)

lemma sample_store_ok: "log_ok sample_store"
  "log_view sample_store = (11, [app_entry 1 ''{Aid1B'', app_entry 1 ''{Aid1C''])"
proof -
  show "log_ok sample_store" using sample_store_shape unfolding log_ok_def by blast
  show "log_view sample_store = (11, [app_entry 1 ''{Aid1B'', app_entry 1 ''{Aid1C''])"
    by (simp add: log_view_def sample_store_def)
qed

lemma make_clone_string [simp]: "make_clone string_raft e = e"
  by (cases e) (simp add: make_clone_def string_raft_def)

lemma sample_append_returns:
  assumes "length s < 2 ^ 32"
  shows "\<exists>s' v'. log_append string_raft 0 (app_entry 1 s) (sample_store, v) = Inr (13, s', v')"
proof -
  have "le_val_type string_raft (app_entry 1 s) = val_app_log string_raft" "le_buf string_raft (app_entry 1 s) = se_buf (app_entry 1 s)"
    by (simp_all add: string_raft_def app_entry_def)
  moreover have "start_idx sample_store + of_nat (length (logs sample_store)) - 1 = 13"
    by (simp add: sample_store_def)
  ultimately show ?thesis
    by (simp add: log_append_def Let_def app_content_entry [OF assms])
qed

theorem append_extends_log_witness:
  "\<exists>s' v'. log_append string_raft 0 (app_entry 1 ''{Aid2B'') (sample_store, sample_db [] sample_wal_files sample_wal) =
      Inr (13, s', v') \<and>
    log_view s' = (11, [app_entry 1 ''{Aid1B'', app_entry 1 ''{Aid1C'', app_entry 1 ''{Aid2B'']) \<and> next_slot s' = 14"
proof -
  let ?v = "sample_db [] sample_wal_files sample_wal"
  obtain s' v' where a: "log_append string_raft 0 (app_entry 1 ''{Aid2B'') (sample_store, ?v) = Inr (13, s', v')"
    using sample_append_returns [of "''{Aid2B''" ?v] by auto
  with append_extends_log [OF sample_store_ok _ a] show ?thesis by auto
qed

theorem write_at_resolves_conflict_witness:
  "\<exists>s1 v1 s2 v2.
     log_write_at string_raft 0 12 (app_entry 2 ''x'') (sample_store, sample_db [] sample_wal_files sample_wal) = Inr (s1, v1) \<and>
     log_append string_raft 0 (app_entry 2 ''y'') (s1, v1) = Inr (13, s2, v2) \<and>
     log_view s2 = (11, [app_entry 1 ''{Aid1B'', app_entry 2 ''x'', app_entry 2 ''y''])"
proof -
  let ?v = "sample_db [] sample_wal_files sample_wal"
  have c: "app_content string_raft (le_buf string_raft (app_entry 2 s)) = Inr s" if "length s < 2 ^ 32" for s
    using app_content_entry [OF that] by (simp add: string_raft_def)
  have ty: "le_val_type string_raft (app_entry t s) = val_app_log string_raft" for t s
    by (simp add: string_raft_def app_entry_def)
  obtain s1 v1 where w: "log_write_at string_raft 0 12 (app_entry 2 ''x'') (sample_store, ?v) = Inr (s1, v1)"
    by (simp add: log_write_at_def Let_def c)
  have v1: "log_ok s1" "log_view s1 = (11, [app_entry 1 ''{Aid1B'', app_entry 2 ''x''])"
    using il.overwrite_view [OF sample_store_ok _ _ _ w] by simp_all
  obtain i s2 v2 where a: "log_append string_raft 0 (app_entry 2 ''y'') (s1, v1) = Inr (i, s2, v2)"
    by (simp add: log_append_def Let_def c ty)
  have "i = 13" using il.push_view [OF v1 _ a] by (simp add: word_unat_eq_iff)
  moreover have f: "foldM (\<lambda>sw e. andthen (log_append string_raft 0 e sw) (\<lambda>r. Inr (snd r))) (s1, v1) [app_entry 2 ''y''] = Inr (s2, v2)"
    by (simp add: a)
  have "log_ok s2 \<and> log_view s2 = (11, map (make_clone string_raft) [app_entry 1 ''{Aid1B'', app_entry 2 ''x'', app_entry 2 ''y''])"
    by (rule write_at_resolves_conflict [OF sample_store_ok _ _ _ _ _ w f]) simp_all
  ultimately show ?thesis using w a by auto
qed

theorem log_reads_witness:
  "entry_at string_raft 12 sample_store = Inr (app_entry 1 ''{Aid1C'') \<and> term_at string_raft 12 sample_store = Inr 1 \<and>
    log_entries string_raft 11 13 sample_store = Inr [app_entry 1 ''{Aid1B'', app_entry 1 ''{Aid1C'']"
proof -
  have "le_term string_raft (app_entry 1 ''{Aid1C'') = 1" by (simp add: string_raft_def app_entry_def)
  then show ?thesis
    using log_reads [OF sample_store_shape, of 12 11 13 string_raft] by (simp add: sample_store_def)
qed

theorem compact_drops_prefix_witness:
  "\<exists>s'. log_compact 11 sample_store = Some (True, s') \<and> start_idx s' = 12 \<and>
    log_shape s' (app_entry 0 []) [app_entry 1 ''{Aid1C'']"
  using compact_drops_prefix [OF sample_store_shape, of 11] by (simp add: sample_store_def)

end
