(* ===== verification/State_Machine.thy ===== *)
theory State_Machine
  imports Log_Store
begin

text \<open>
  log_state_machine.cpp and its header: the Raft state machine, which applies a committed entry
  to the database by an upsert. Shown here: a commit is the upsert of the entry's document and
  moves the last committed index; an entry that was logged and not committed is applied by the
  next restart as the commit would have.
\<close>

record log_state_machine =
  last_committed_idx :: u64

definition log_state_machine_new :: log_state_machine where
  "log_state_machine_new = \<lparr>last_committed_idx = 0\<rparr>"

definition setVectorDatabase ::
  "('b, 'd, 'f, 'h) VectorDatabase \<Rightarrow> log_state_machine \<Rightarrow> log_state_machine" where
  "setVectorDatabase vector_database sm = sm\<lparr>last_committed_idx := getStartIndexID vector_database\<rparr>"

text \<open>
  The index moves before the upsert: a failure in the document's id leaves it, one in the upsert
  does not, but then the process ends, since the Raft thread does not catch it.
\<close>

definition sm_commit ::
  "('u, 'e) nuraft \<Rightarrow> ('b, 'd, 'f, 'h) libs \<Rightarrow> u64 \<Rightarrow> 'u \<Rightarrow> log_state_machine \<times> ('b, 'd, 'f, 'h) VectorDatabase
   \<Rightarrow> ('u \<times> log_state_machine \<times> ('b, 'd, 'f, 'h) VectorDatabase) res" where
  "sm_commit N L log_idx data smv =
     (let (sm, v) = smv in
      andthen (app_content N data) (\<lambda>content.
        let json_request = rj_parse (lib_json L) (c_str content) in
        andthen (j_at json_request REQUEST_ID) (\<lambda>i. andthen (j_GetUint64 i) (\<lambda>label.
          let sm' = sm\<lparr>last_committed_idx := log_idx\<rparr> in
          andthen (getIndexTypeFromRequest json_request) (\<lambda>indexType.
          andthen (upsert L label json_request indexType v) (\<lambda>v'.
          andthen (throwing (bs_put_u64 N (nb_alloc N 8) log_idx)) (\<lambda>ret.
            Inr (ret, sm', v'))))))))"

definition sm_pre_commit :: "('u, 'e) nuraft \<Rightarrow> u64 \<Rightarrow> 'u \<Rightarrow> 'u option res" where
  "sm_pre_commit N log_idx data = andthen (app_content N data) (\<lambda>content. Inr None)"

definition sm_commit_config :: "u64 \<Rightarrow> log_state_machine \<Rightarrow> log_state_machine" where
  "sm_commit_config log_idx sm = sm\<lparr>last_committed_idx := log_idx\<rparr>"

definition sm_rollback :: "u64 \<Rightarrow> 'u \<Rightarrow> log_state_machine \<Rightarrow> log_state_machine" where
  "sm_rollback log_idx data sm = sm"

definition sm_read_logical_snp_obj :: "log_state_machine \<Rightarrow> int" where
  "sm_read_logical_snp_obj sm = 0"

definition sm_apply_snapshot :: "log_state_machine \<Rightarrow> bool \<times> log_state_machine" where
  "sm_apply_snapshot sm = (True, sm)"

definition sm_last_snapshot :: "log_state_machine \<Rightarrow> 'u option" where
  "sm_last_snapshot sm = None"

definition sm_last_commit_index :: "log_state_machine \<Rightarrow> u64" where
  "sm_last_commit_index sm = last_committed_idx sm"

text \<open>A commit that returns, in one step.\<close>

lemma sm_commit_effect:
  assumes "sm_commit N L log_idx data (sm, v) = Inr (ret, sm', v')"
  shows "\<exists>content. app_content N data = Inr content \<and> sm_last_commit_index sm' = log_idx \<and>
    replay_record L ''upsert'' (rj_parse (lib_json L) (c_str content)) v = Inr v'"
  using assms
  by (auto simp: sm_commit_def Let_def res_simps replay_record_def sm_last_commit_index_def)

section \<open>An entry that was logged and not committed\<close>

lemma load_snapshot_files:
  assumes "\<And>t. fs_read fs' (index_file_path ''snapshots_'' t) = fs_read fs (index_file_path ''snapshots_'' t)"
  shows "Persistence_loadSnapshot L db fs' x = Persistence_loadSnapshot L db fs x"
proof -
  have "load_entry L ''snapshots_'' db fs' e = load_entry L ''snapshots_'' db fs e" for e
    using assms by (cases e) (auto simp: load_entry_def faiss_loadIndex_def hnsw_loadIndex_def Let_def split: IndexType.split)
  then have "load_entry L ''snapshots_'' db fs' = load_entry L ''snapshots_'' db fs" ..
  then show ?thesis by (simp add: Persistence_loadSnapshot_def IndexFactory_loadIndex_def)
qed

text \<open>Opening the log before and after a line was appended to it.\<close>

lemma open_after_append:
  assumes "Persistence_init path fs Persistence_new = Inr (q, fs0)" "at_log fs0 q rs"
    and "wal_good p" "wal_path p = path" "path \<noteq> snapshot_id_file" "record_ok (i, ''upsert'', content)"
    and "writeWALRawLog i ''upsert'' content ''1.0'' (p, fs) = (p1, fs1)"
  shows "\<exists>q1 fs2. Persistence_init path fs1 Persistence_new = Inr (q1, fs2) \<and>
    at_log fs2 q1 (rs @ [(i, ''upsert'', content)]) \<and> last_snapshot_id q1 = last_snapshot_id q \<and>
    (\<forall>f. f \<noteq> path \<longrightarrow> fs_read fs2 f = fs_read fs0 f)"
proof -
  have w: "fs_writable fs path" using assms(1) by (simp add: Persistence_init_def split: if_splits)
  from open_log [OF w] assms(1) have q: "wal_path q = path" "wal_pos q = 0" "last_snapshot_id q = stored_snapshot_id fs"
    and fs0: "\<And>f. fs_read fs0 f = (if f = path then Some (file_text fs path) else fs_read fs f)"
    using assms(5) by auto
  have log: "file_text fs path = log_text rs" and ok: "list_all record_ok rs"
    using assms(2) q fs0 by (simp_all add: at_log_def wal_data_def)
  have fs1: "fs1 = fs_write path (file_text fs path @ record_line (i, ''upsert'', content)) fs"
    using write_record_text [OF assms(3), of fs i "''upsert''" content] assms(4,7) w
    by (simp add: wal_data_def file_text_def)
  have w1: "fs_writable fs1 path" using w fs1 by simp
  from open_log [OF w1] obtain q1 fs2
    where o: "Persistence_init path fs1 Persistence_new = Inr (q1, fs2)" "last_snapshot_id q1 = stored_snapshot_id fs1"
      "\<forall>f. fs_read fs2 f = (if f = path then Some (file_text fs1 path) else fs_read fs1 f)"
    using assms(5) by blast
  have "file_text fs1 path = log_text (rs @ [(i, ''upsert'', content)])"
    by (simp add: fs1 file_text_def [of "fs_write p t f" for p t f] log)
  from open_at_log [OF o(1) this] ok assms(6) have "at_log fs2 q1 (rs @ [(i, ''upsert'', content)])" by simp
  moreover have "stored_snapshot_id fs1 = stored_snapshot_id fs" using assms(5) by (simp add: stored_snapshot_id_def fs1)
  moreover have "\<forall>f. f \<noteq> path \<longrightarrow> fs_read fs2 f = fs_read fs0 f" using o(3) fs0 by (simp add: fs1)
  ultimately show ?thesis using o(1,2) q(3) by auto
qed

text \<open>
  C12. A node logs an entry when it is appended and applies it when it is committed. If it stops in
  between, the restart applies it: let \<open>w\<close> be the database a restart gives before the entry is
  appended. After \<^verbatim>\<open>append\<close> has written the entry's line to the log file, a restart on the same
  storage reads that line back and ends with the storage and the indexes that committing the entry
  on \<open>w\<close> gives; the commit records the entry's index. The document holds no bar, newline or NUL,
  and the index is after the last snapshot.
\<close>

theorem commit_is_replay:
  assumes "Persistence_init path (files v) Persistence_new = Inr (q, fs)" "at_log fs q rs"
    and "reloadDatabase L \<lparr>scalar_storage = db, persistence = q, index_factory = x, files = fs\<rparr> = Inr w"
    and "wal_good (persistence v)" "wal_path (persistence v) = path" "path \<noteq> snapshot_id_file"
    and "\<And>t. path \<noteq> index_file_path ''snapshots_'' t"
    and "log_append N now e (s, v) = Inr (i, s', v1)" "le_val_type N e = val_app_log N"
    and "app_content N (le_buf N (make_clone N e)) = Inr content" "app_content N data = Inr content"
    and "record_plain (i, ''upsert'', content)" "last_snapshot_id q < i"
    and "sm_commit N L i data (sm, w) = Inr (ret, sm', w')"
  shows "\<exists>q1 fs1 w1. Persistence_init path (files v1) Persistence_new = Inr (q1, fs1) \<and>
    reloadDatabase L \<lparr>scalar_storage = db, persistence = q1, index_factory = x, files = fs1\<rparr> = Inr w1 \<and>
    scalar_storage w1 = scalar_storage w' \<and> index_factory w1 = index_factory w' \<and> sm_last_commit_index sm' = i"
proof -
  let ?r = "(i, ''upsert'', content) :: wal_record" and ?doc = "rj_parse (lib_json L) (c_str content)"
  let ?v = "\<lambda>x. \<lparr>scalar_storage = db, persistence = q, index_factory = x, files = fs\<rparr>"
  have "v1 = writeWALLogWithID i content v"
    using assms(8-10) by (auto simp: log_append_def Let_def)
  then have wr: "writeWALRawLog i ''upsert'' content ''1.0'' (persistence v, files v) = (persistence v1, files v1)"
    by (simp add: writeWALLogWithID_def split_beta)
  from open_after_append [OF assms(1,2,4,5,6) record_plain_ok [OF assms(12)] wr] obtain q1 fs1
    where o: "Persistence_init path (files v1) Persistence_new = Inr (q1, fs1)" "at_log fs1 q1 (rs @ [?r])"
      "last_snapshot_id q1 = last_snapshot_id q" "\<forall>f. f \<noteq> path \<longrightarrow> fs_read fs1 f = fs_read fs f" by blast
  let ?new = "filter (\<lambda>r. last_snapshot_id q < fst r) rs"
  have load: "Persistence_loadSnapshot L db fs1 x = Persistence_loadSnapshot L db fs x"
    using o(4) assms(7) by (intro load_snapshot_files) metis
  from assms(3) reloadDatabase_log [of "?v x" rs L] assms(2) obtain f w0
    where f: "Persistence_loadSnapshot L db fs x = Inr f" "replay_log L ?new (?v f) = Inr w0"
      and w: "w = w0\<lparr>persistence := after_log fs rs [] q\<rparr>"
    by (auto simp: res_simps)
  from sm_commit_effect [OF assms(14)] assms(11) have c: "sm_last_commit_index sm' = i"
    "replay_record L ''upsert'' ?doc w = Inr w'" by auto
  then obtain w2 where w2: "replay_record L ''upsert'' ?doc w0 = Inr w2" "w' = w2\<lparr>persistence := after_log fs rs [] q\<rparr>"
    unfolding w replay_persistence by (auto simp: res_simps)
  have "CHR ''|'' \<notin> set content" using assms(12) by (auto simp: record_plain_def)
  then have "replay_log L (?new @ [?r]) (?v f) = Inr w2"
    using f(2) w2(1) by (simp add: replay_log_append)
  then have "replay_log L (?new @ [?r]) ((?v f)\<lparr>persistence := q1, files := fs1\<rparr>) =
      Inr (w2\<lparr>persistence := q1, files := fs1\<rparr>)"
    using replay_log_files [where L = L and rs = "?new @ [?r]" and v = "(?v f)\<lparr>persistence := q1\<rparr>" and fs = fs1]
      replay_log_persistence [where L = L and rs = "?new @ [?r]" and v = "?v f" and p = q1] by simp
  then show ?thesis
    using reloadDatabase_log [of "\<lparr>scalar_storage = db, persistence = q1, index_factory = x, files = fs1\<rparr>" "rs @ [?r]" L]
      o load f(1) assms(13) c(1) w2(2) by simp
qed

text \<open>A first entry, logged at index 13 and lost before its commit; the restart has its document.\<close>

theorem commit_is_replay_witness:
  "\<exists>s' v1 q1 fs1 w1. log_append string_raft 0 (app_entry 1 ''{Aid1C'') (sample_store, sample_db [] sample_files sample_wal) =
      Inr (13, s', v1) \<and>
    Persistence_init ''w'' (files v1) Persistence_new = Inr (q1, fs1) \<and>
    reloadDatabase sample_libs \<lparr>scalar_storage = [], persistence = q1, index_factory = sample_factory, files = fs1\<rparr> = Inr w1 \<and>
    scalar_storage w1 = [(''1'', ''{Aid1C'')]"
proof -
  let ?v = "sample_db [] sample_files sample_wal" and ?e = "app_entry 1 ''{Aid1C''"
  let ?q = "Persistence_new\<lparr>wal_path := ''w'', wal_pos := 0, wal_good := True\<rparr>" and ?fs = "fs_write ''w'' [] sample_files"
  let ?start = "\<lparr>scalar_storage = [], persistence = ?q, index_factory = sample_factory, files = ?fs\<rparr> ::
    (u32 list, kv_writes, list_flat, list_graph) VectorDatabase"
  let ?w = "sample_db [] ?fs (after_log ?fs [] [] ?q)"
  have init: "Persistence_init ''w'' (files ?v) Persistence_new = Inr (?q, ?fs)"
    by (simp add: Persistence_init_def sample_db_def sample_files_def loadLastSnapshotID_def snapshot_id_file_def
        fs_read_def fs_write_def)
  have at: "at_log ?fs ?q []" by (simp add: at_log_def wal_data_def)
  have ns: "no_snapshot sample_libs ?start"
    by (simp add: no_snapshot_def sample_files_def fs_read_def fs_write_def index_file_path_def list_rocks_def)
  have w: "reloadDatabase sample_libs ?start = Inr ?w"
    using reloadDatabase_eq [OF ns] reload_from_log [of ?start "[]" sample_libs] at
    by (simp add: sample_factory_get sample_db_def)
  have c: "app_content string_raft (se_buf ?e) = Inr ''{Aid1C''" by (rule app_content_entry) simp
  have buf: "le_buf string_raft (make_clone string_raft ?e) = se_buf ?e" "le_val_type string_raft ?e = val_app_log string_raft"
    by (simp_all add: make_clone_def string_raft_def app_entry_def)
  obtain s' v1 where a: "log_append string_raft 0 ?e (sample_store, ?v) = Inr (13, s', v1)"
    using sample_append_returns [of "''{Aid1C''" ?v] by auto
  have p: "rj_parse table_json ''{Aid1C'' = sample_doc 1 2" by (simp add: table_json_def sample_table_def)
  obtain ret where ret: "bs_put_u64 string_raft (nb_alloc string_raft 8) 13 = Inr ret"
    by (simp add: string_raft_def put_bytes_def byte_string_def)
  have i: "j_at (sample_doc 1 2) REQUEST_ID = Inr (JInt 1)" by (simp add: sample_doc_def constants_defs)
  have s: "sm_commit string_raft sample_libs 13 (se_buf ?e) (log_state_machine_new, ?w) =
      Inr (ret, log_state_machine_new\<lparr>last_committed_idx := 13\<rparr>, sample_stored ?fs (after_log ?fs [] [] ?q))"
    by (simp add: sm_commit_def c p i sample_doc_request sample_upsert ret)
  have path: "''w'' \<noteq> snapshot_id_file" "''w'' \<noteq> index_file_path ''snapshots_'' t" for t
    by (simp_all add: snapshot_id_file_def index_file_path_def)
  have v: "wal_good (persistence ?v)" "wal_path (persistence ?v) = ''w''"
    by (simp_all add: sample_db_def sample_wal_def)
  have plain: "record_plain (13, ''upsert'', ''{Aid1C'')" "last_snapshot_id ?q < 13"
    by (simp_all add: record_plain_def Persistence_new_def)
  from commit_is_replay [OF init at w v path a buf(2) c [folded buf(1)] c plain s] a show ?thesis
    by (auto simp: sample_stored_def)
qed

end
