(* ===== verification/Raft_Node.thy ===== *)
theory Raft_Node
  imports State_Machine
begin

text \<open>
  in_memory_state_mgr.h and raft_stuff.cpp: what a node keeps for Raft and the calls the HTTP
  server makes into it. The Raft server itself is NuRaft's (\<open>raft_server\<close>, with its state
  \<open>'r\<close>). Shown here: only a leader's document becomes an entry, with the length and the text the
  state machine reads back, and the node information lists the configured servers with at most
  one leader.
\<close>

section \<open>The state manager\<close>

record srv_config =
  srv_id :: int
  srv_endpoint :: string

text \<open>The cluster configuration and the server state pass through NuRaft's serialisation.\<close>

record ('c, 't) state_codec =
  cc_new :: "srv_config list \<Rightarrow> 'c"
  cc_servers :: "'c \<Rightarrow> srv_config option list"  \<comment> \<open>\<open>None\<close>: a null pointer\<close>
  cc_copy :: "'c \<Rightarrow> cxx_exception + 'c"  \<comment> \<open>\<^verbatim>\<open>serialize\<close>, then \<^verbatim>\<open>deserialize\<close>\<close>
  ss_copy :: "'t \<Rightarrow> cxx_exception + 't"

record ('e, 'c, 't) inmem_state_mgr =
  my_id :: int
  my_endpoint :: string
  cur_log_store :: "'e inmem_log_store"
  my_srv_config :: srv_config
  saved_config :: 'c
  saved_state :: "'t option"

definition inmem_state_mgr_new ::
  "('u, 'e) nuraft \<Rightarrow> ('c, 't) state_codec \<Rightarrow> int \<Rightarrow> string \<Rightarrow> ('b, 'd, 'f, 'h) VectorDatabase
   \<Rightarrow> ('e, 'c, 't) inmem_state_mgr" where
  "inmem_state_mgr_new N C srv_id0 endpoint0 vector_database =
     (let cfg = \<lparr>srv_id = srv_id0, srv_endpoint = endpoint0\<rparr>
      in \<lparr>my_id = srv_id0, my_endpoint = endpoint0, cur_log_store = inmem_log_store_new N vector_database,
          my_srv_config = cfg, saved_config = cc_new C [cfg], saved_state = None\<rparr>)"

definition load_config :: "('e, 'c, 't) inmem_state_mgr \<Rightarrow> 'c" where
  "load_config m = saved_config m"

definition save_config :: "('c, 't) state_codec \<Rightarrow> 'c \<Rightarrow> ('e, 'c, 't) inmem_state_mgr \<Rightarrow> ('e, 'c, 't) inmem_state_mgr res" where
  "save_config C config m = andthen (throwing (cc_copy C config)) (\<lambda>c. Inr (m\<lparr>saved_config := c\<rparr>))"

definition save_state :: "('c, 't) state_codec \<Rightarrow> 't \<Rightarrow> ('e, 'c, 't) inmem_state_mgr \<Rightarrow> ('e, 'c, 't) inmem_state_mgr res" where
  "save_state C state m = andthen (throwing (ss_copy C state)) (\<lambda>s. Inr (m\<lparr>saved_state := Some s\<rparr>))"

definition read_state :: "('e, 'c, 't) inmem_state_mgr \<Rightarrow> 't option" where
  "read_state m = saved_state m"

definition load_log_store :: "('e, 'c, 't) inmem_state_mgr \<Rightarrow> 'e inmem_log_store" where
  "load_log_store m = cur_log_store m"

definition server_id :: "('e, 'c, 't) inmem_state_mgr \<Rightarrow> int" where
  "server_id m = my_id m"

definition system_exit :: "int \<Rightarrow> ('e, 'c, 't) inmem_state_mgr \<Rightarrow> ('e, 'c, 't) inmem_state_mgr" where
  "system_exit exit_code m = m"

definition get_srv_config :: "('e, 'c, 't) inmem_state_mgr \<Rightarrow> srv_config" where
  "get_srv_config m = my_srv_config m"

section \<open>The Raft server\<close>

record raft_params =
  election_timeout_lower_bound :: int
  election_timeout_upper_bound :: int

record peer_info =
  pi_last_log_idx :: u64
  pi_last_succ_resp_us :: u64

text \<open>
  \<open>'x\<close> is the command result NuRaft hands back; \<open>rs_launch\<close> may give no server. \<open>rs_config\<close> lists
  the servers of the configuration, \<open>None\<close> when there is no configuration.
\<close>

record ('u, 'r, 'x) raft_server =
  rs_default_params :: raft_params
  rs_launch :: "int \<Rightarrow> raft_params \<Rightarrow> 'r option"
  rs_is_leader :: "'r \<Rightarrow> bool"
  rs_leader :: "'r \<Rightarrow> int"
  rs_config :: "'r \<Rightarrow> srv_config option list option"
  rs_peer_info :: "'r \<Rightarrow> int \<Rightarrow> peer_info"
  rs_add_srv :: "'r \<Rightarrow> srv_config \<Rightarrow> 'x \<times> 'r"
  rs_append_entries :: "'r \<Rightarrow> 'u list \<Rightarrow> 'x \<times> 'r"
  rs_params :: "'r \<Rightarrow> raft_params"
  rs_update_params :: "'r \<Rightarrow> raft_params \<Rightarrow> 'r"

record ('e, 'c, 't, 'r) RaftStuff =
  node_id :: int
  endpoint :: string
  raft_port :: int
  smgr :: "('e, 'c, 't) inmem_state_mgr"
  state_machine :: log_state_machine
  raft_instance :: "'r option"

definition RaftStuff_Init ::
  "('u, 'e) nuraft \<Rightarrow> ('c, 't) state_codec \<Rightarrow> ('u, 'r, 'x) raft_server \<Rightarrow> int \<Rightarrow> string \<Rightarrow> int
   \<Rightarrow> ('b, 'd, 'f, 'h) VectorDatabase \<Rightarrow> ('e, 'c, 't, 'r) RaftStuff" where
  "RaftStuff_Init N C G node_id0 endpoint0 port0 vector_database =
     (let params = (rs_default_params G)\<lparr>election_timeout_lower_bound := 10000,
                                        election_timeout_upper_bound := 20000\<rparr>
      in \<lparr>node_id = node_id0, endpoint = endpoint0, raft_port = port0,
          smgr = inmem_state_mgr_new N C node_id0 endpoint0 vector_database,
          state_machine = setVectorDatabase vector_database log_state_machine_new,
          raft_instance = rs_launch G port0 params\<rparr>)"

definition addSrv ::
  "('u, 'r, 'x) raft_server \<Rightarrow> int \<Rightarrow> string \<Rightarrow> ('e, 'c, 't, 'r) RaftStuff
   \<Rightarrow> ('x \<times> ('e, 'c, 't, 'r) RaftStuff) res" where
  "addSrv G srv_id0 srv_endpoint0 x =
     andthen (deref ''raft_instance_'' (raft_instance x)) (\<lambda>r.
       let (res, r') = rs_add_srv G r \<lparr>srv_id = srv_id0, srv_endpoint = srv_endpoint0\<rparr>
       in Inr (res, x\<lparr>raft_instance := Some r'\<rparr>))"

text \<open>\<open>None\<close> is the null pointer a node that is not the leader returns.\<close>

definition appendEntries ::
  "('u, 'e) nuraft \<Rightarrow> ('u, 'r, 'x) raft_server \<Rightarrow> string \<Rightarrow> ('e, 'c, 't, 'r) RaftStuff
   \<Rightarrow> ('x option \<times> ('e, 'c, 't, 'r) RaftStuff) res" where
  "appendEntries N G entry x =
     (case raft_instance x of
        None \<Rightarrow> Inr (None, x)
      | Some r \<Rightarrow>
          if \<not> rs_is_leader G r then Inr (None, x)
          else
            let total_size = 4 + of_nat (length entry)
            in andthen (throwing (bs_put_str N (nb_alloc N total_size) entry)) (\<lambda>log_entry_buffer.
                 let (res, r') = rs_append_entries G r [log_entry_buffer]
                 in Inr (Some res, x\<lparr>raft_instance := Some r'\<rparr>)))"

definition enableElectionTimeout ::
  "('u, 'r, 'x) raft_server \<Rightarrow> int \<Rightarrow> int \<Rightarrow> ('e, 'c, 't, 'r) RaftStuff \<Rightarrow> ('e, 'c, 't, 'r) RaftStuff" where
  "enableElectionTimeout G lower_bound upper_bound x =
     (case raft_instance x of
        None \<Rightarrow> x
      | Some r \<Rightarrow>
          let params = (rs_params G r)\<lparr>election_timeout_lower_bound := lower_bound,
                                     election_timeout_upper_bound := upper_bound\<rparr>
          in x\<lparr>raft_instance := Some (rs_update_params G r params)\<rparr>)"

definition isLeader :: "('u, 'r, 'x) raft_server \<Rightarrow> ('e, 'c, 't, 'r) RaftStuff \<Rightarrow> bool" where
  "isLeader G x = (case raft_instance x of None \<Rightarrow> False | Some r \<Rightarrow> rs_is_leader G r)"

type_synonym node_info = "int \<times> string \<times> string \<times> u64 \<times> u64"

definition node_info_of :: "('u, 'r, 'x) raft_server \<Rightarrow> 'r \<Rightarrow> srv_config \<Rightarrow> node_info" where
  "node_info_of G r srv =
     (let node_state = (if srv_id srv = rs_leader G r then ''leader'' else ''follower'');
          info = rs_peer_info G r (srv_id srv)
      in (srv_id srv, srv_endpoint srv, node_state, pi_last_log_idx info, pi_last_succ_resp_us info))"

fun collect_nodes :: "('u, 'r, 'x) raft_server \<Rightarrow> 'r \<Rightarrow> srv_config option list \<Rightarrow> node_info list" where
  "collect_nodes G r [] = []"
| "collect_nodes G r (None # ss) = collect_nodes G r ss"
| "collect_nodes G r (Some srv # ss) = node_info_of G r srv # collect_nodes G r ss"

definition getAllNodesInfo :: "('u, 'r, 'x) raft_server \<Rightarrow> ('e, 'c, 't, 'r) RaftStuff \<Rightarrow> node_info list" where
  "getAllNodesInfo G x =
     (case raft_instance x of
        None \<Rightarrow> []
      | Some r \<Rightarrow> (case rs_config G r of None \<Rightarrow> [] | Some servers \<Rightarrow> collect_nodes G r servers))"

text \<open>The value-initialised tuple when the node is not found.\<close>

definition no_node_info :: node_info where
  "no_node_info = (0, [], [], 0, 0)"

fun find_node :: "('u, 'r, 'x) raft_server \<Rightarrow> 'r \<Rightarrow> int \<Rightarrow> srv_config option list \<Rightarrow> node_info" where
  "find_node G r nid [] = no_node_info"
| "find_node G r nid (None # ss) = find_node G r nid ss"
| "find_node G r nid (Some srv # ss) = (if srv_id srv = nid then node_info_of G r srv else find_node G r nid ss)"

definition getCurrentNodesInfo :: "('u, 'r, 'x) raft_server \<Rightarrow> ('e, 'c, 't, 'r) RaftStuff \<Rightarrow> node_info" where
  "getCurrentNodesInfo G x =
     (case raft_instance x of
        None \<Rightarrow> no_node_info
      | Some r \<Rightarrow> (case rs_config G r of None \<Rightarrow> no_node_info
                   | Some servers \<Rightarrow> find_node G r (node_id x) servers))"

section \<open>Node information\<close>

definition config_servers :: "('u, 'r, 'x) raft_server \<Rightarrow> ('e, 'c, 't, 'r) RaftStuff \<Rightarrow> srv_config list" where
  "config_servers G x =
     (case raft_instance x of
        None \<Rightarrow> []
      | Some r \<Rightarrow> (case rs_config G r of None \<Rightarrow> [] | Some ss \<Rightarrow> map the (filter (\<lambda>s. s \<noteq> None) ss)))"

lemma fst_node_info [simp]: "fst (node_info_of G r srv) = srv_id srv"
  by (simp add: node_info_of_def Let_def)

lemma node_info_state: "node_info_of G r srv = (i, e, s, a, b) \<Longrightarrow> s = ''leader'' \<longleftrightarrow> i = rs_leader G r"
  by (auto simp: node_info_of_def Let_def split: if_splits)

lemma collect_nodes_map: "collect_nodes G r ss = map (node_info_of G r) (map the (filter (\<lambda>s. s \<noteq> None) ss))"
  by (induction G r ss rule: collect_nodes.induct) simp_all

lemma find_node_find:
  "find_node G r nid ss =
     (case find (\<lambda>s. srv_id s = nid) (map the (filter (\<lambda>s. s \<noteq> None) ss)) of
        None \<Rightarrow> no_node_info | Some s \<Rightarrow> node_info_of G r s)"
  by (induction G r nid ss rule: find_node.induct) simp_all

section \<open>Properties\<close>

text \<open>
  The node list has one element per configured server, in order, and shows a server as leader
  exactly when it is the one Raft names; the current node's information is its element of that
  list, or the empty tuple when the node is not configured.
\<close>

theorem nodes_info_lists_servers:
  "map fst (getAllNodesInfo G x) = map srv_id (config_servers G x) \<and>
   (\<forall>r i e s a b. raft_instance x = Some r \<longrightarrow> (i, e, s, a, b) \<in> set (getAllNodesInfo G x) \<longrightarrow>
      (s = ''leader'' \<longleftrightarrow> i = rs_leader G r)) \<and>
   getCurrentNodesInfo G x =
     (case find (\<lambda>n. fst n = node_id x) (getAllNodesInfo G x) of None \<Rightarrow> no_node_info | Some n \<Rightarrow> n)"
proof (cases "raft_instance x")
  case None
  then show ?thesis by (simp add: getAllNodesInfo_def config_servers_def getCurrentNodesInfo_def)
next
  case (Some r)
  have f: "find (\<lambda>n. fst n = k) (map (node_info_of G r) ss) = map_option (node_info_of G r) (find (\<lambda>s. srv_id s = k) ss)"
    for k ss by (induction ss) auto
  have all: "getAllNodesInfo G x = map (node_info_of G r) (config_servers G x)"
    using Some by (simp add: getAllNodesInfo_def config_servers_def collect_nodes_map split: option.split)
  have "getCurrentNodesInfo G x =
      (case find (\<lambda>s. srv_id s = node_id x) (config_servers G x) of
         None \<Rightarrow> no_node_info | Some s \<Rightarrow> node_info_of G r s)"
    using Some by (simp add: getCurrentNodesInfo_def config_servers_def find_node_find split: option.split)
  then have "getCurrentNodesInfo G x =
     (case find (\<lambda>n. fst n = node_id x) (getAllNodesInfo G x) of None \<Rightarrow> no_node_info | Some n \<Rightarrow> n)"
    by (simp add: all f split: option.split)
  moreover have "map fst (getAllNodesInfo G x) = map srv_id (config_servers G x)"
    by (simp add: all)
  moreover have "s = ''leader'' \<longleftrightarrow> i = rs_leader G r" if "(i, e, s, a, b) \<in> set (getAllNodesInfo G x)" for i e s a b
    using that node_info_state [of G r _ i e s a b] unfolding all by auto
  ultimately show ?thesis using Some by simp
qed

record list_server =
  ls_leader :: bool
  ls_log :: "string_buffer list"
  ls_params :: raft_params

definition list_raft_server :: "(string_buffer, list_server, unit) raft_server" where
  "list_raft_server = \<lparr>
     rs_default_params = \<lparr>election_timeout_lower_bound = 250, election_timeout_upper_bound = 500\<rparr>,
     rs_launch = (\<lambda>port params. Some \<lparr>ls_leader = True, ls_log = [], ls_params = params\<rparr>),
     rs_is_leader = ls_leader, rs_leader = (\<lambda>r. if ls_leader r then 1 else 2),
     rs_config = (\<lambda>r. Some [Some \<lparr>srv_id = 1, srv_endpoint = ''a''\<rparr>, None, Some \<lparr>srv_id = 2, srv_endpoint = ''b''\<rparr>]),
     rs_peer_info = (\<lambda>r i. \<lparr>pi_last_log_idx = of_nat (length (ls_log r)), pi_last_succ_resp_us = 0\<rparr>),
     rs_add_srv = (\<lambda>r s. ((), r)),
     rs_append_entries = (\<lambda>r bs. ((), r\<lparr>ls_log := ls_log r @ bs\<rparr>)),
     rs_params = ls_params, rs_update_params = (\<lambda>r p. r\<lparr>ls_params := p\<rparr>)\<rparr>"

definition sample_codec :: "(srv_config list, unit) state_codec" where
  "sample_codec = \<lparr>cc_new = (\<lambda>ss. ss), cc_servers = map Some, cc_copy = Inr, ss_copy = Inr\<rparr>"

definition sample_raft_stuff :: "bool \<Rightarrow> (string_entry, srv_config list, unit, list_server) RaftStuff" where
  "sample_raft_stuff leader =
     (RaftStuff_Init string_raft sample_codec list_raft_server 1 ''a'' 9090 (sample_db [] sample_files sample_wal))
       \<lparr>raft_instance := Some \<lparr>ls_leader = leader, ls_log = [],
          ls_params = \<lparr>election_timeout_lower_bound = 10000, election_timeout_upper_bound = 20000\<rparr>\<rparr>\<rparr>"

theorem nodes_info_lists_servers_witness:
  "map fst (getAllNodesInfo list_raft_server (sample_raft_stuff False)) = [1, 2] \<and>
   getCurrentNodesInfo list_raft_server (sample_raft_stuff False) = (1, ''a'', ''follower'', 0, 0)"
proof -
  have "config_servers list_raft_server (sample_raft_stuff False) =
      [\<lparr>srv_id = 1, srv_endpoint = ''a''\<rparr>, \<lparr>srv_id = 2, srv_endpoint = ''b''\<rparr>]"
    "getAllNodesInfo list_raft_server (sample_raft_stuff False) =
      [(1, ''a'', ''follower'', 0, 0), (2, ''b'', ''leader'', 0, 0)]"
    "node_id (sample_raft_stuff False) = 1"
    by (simp_all add: config_servers_def getAllNodesInfo_def sample_raft_stuff_def list_raft_server_def
        node_info_of_def RaftStuff_Init_def)
  with nodes_info_lists_servers [of list_raft_server "sample_raft_stuff False"] show ?thesis by simp
qed

text \<open>
  A document reaches the Raft log only on the leader, as one entry from which the state
  machine reads back exactly the request body; a node that is not the leader does nothing and
  says so with a null result.
\<close>

theorem append_entries_leader_only:
  assumes "put_str_ok N" "length entry < 2 ^ 31"
  shows "(isLeader G x \<longrightarrow> (\<exists>r b res r'. raft_instance x = Some r \<and> app_content N b = Inr entry \<and>
      rs_append_entries G r [b] = (res, r') \<and>
      appendEntries N G entry x = Inr (Some res, x\<lparr>raft_instance := Some r'\<rparr>))) \<and>
    (\<not> isLeader G x \<longrightarrow> appendEntries N G entry x = Inr (None, x))"
proof -
  obtain b where b: "bs_put_str N (nb_alloc N (4 + of_nat (length entry))) entry = Inr b" "app_content N b = Inr entry"
    using put_str_content [OF assms] by blast
  have "\<exists>res r'. rs_append_entries G r [b] = (res, r') \<and>
      appendEntries N G entry x = Inr (Some res, x\<lparr>raft_instance := Some r'\<rparr>)"
    if "raft_instance x = Some r" "rs_is_leader G r" for r
    using that b by (cases "rs_append_entries G r [b]") (simp add: appendEntries_def)
  with b(2) show ?thesis
    by (fastforce simp: isLeader_def appendEntries_def split: option.splits)
qed

theorem append_entries_leader_only_witness:
  "(\<exists>b res r'. app_content string_raft b = Inr ''{Aid1C'' \<and>
      appendEntries string_raft list_raft_server ''{Aid1C'' (sample_raft_stuff True) =
        Inr (Some res, (sample_raft_stuff True)\<lparr>raft_instance := Some r'\<rparr>)) \<and>
    appendEntries string_raft list_raft_server ''{Aid1C'' (sample_raft_stuff False) = Inr (None, sample_raft_stuff False)"
proof -
  have "isLeader list_raft_server (sample_raft_stuff True)" "\<not> isLeader list_raft_server (sample_raft_stuff False)"
    by (simp_all add: isLeader_def sample_raft_stuff_def list_raft_server_def)
  with append_entries_leader_only [OF string_raft_put_str, of "''{Aid1C''" list_raft_server "sample_raft_stuff True"]
    append_entries_leader_only [OF string_raft_put_str, of "''{Aid1C''" list_raft_server "sample_raft_stuff False"]
  show ?thesis by auto
qed

end
