(* ===== verification/Http_Server.thy ===== *)
theory Http_Server
  imports Raft_Node
begin

text \<open>
  http_server.cpp: the handlers of the HTTP interface. A handler takes the request, the database
  and the Raft object, and gives the response and the new state; the HTTP library calls it with
  a response whose status is not set yet. Shown here: the error responses and that they leave the
  state alone, the paging parameters, and what a search, an upsert and a query answer.
\<close>

named_theorems http_simps

record request =
  req_body :: string
  req_params :: "(string \<times> string) list"

record response =
  status :: int
  res_body :: string
  content_type :: string

definition response_new :: response where
  "response_new = \<lparr>status = -1, res_body = [], content_type = []\<rparr>"

definition get_param_value :: "request \<Rightarrow> string \<Rightarrow> string" where
  "get_param_value req key = (case map_of (req_params req) key of None \<Rightarrow> [] | Some v \<Rightarrow> v)"

record ('b, 'd, 'f, 'h, 'e, 'c, 't, 'r) HttpServer =
  http_host :: string
  http_port :: int
  vector_database :: "('b, 'd, 'f, 'h) VectorDatabase"
  raft_stuff :: "('e, 'c, 't, 'r) RaftStuff"

definition HttpServer_new ::
  "string \<Rightarrow> int \<Rightarrow> ('b, 'd, 'f, 'h) VectorDatabase \<Rightarrow> ('e, 'c, 't, 'r) RaftStuff
   \<Rightarrow> ('b, 'd, 'f, 'h, 'e, 'c, 't, 'r) HttpServer" where
  "HttpServer_new host port0 v x =
     \<lparr>http_host = host, http_port = port0, vector_database = v, raft_stuff = x\<rparr>"

datatype http_method = GET | POST

datatype handler =
    Search_handler | Insert_handler | Upsert_handler | Query_handler | Snapshot_handler
  | Set_leader_handler | Add_follower_handler | List_node_handler | Get_node_handler
  | Get_scalar_handler

definition routes :: "((http_method \<times> string) \<times> handler) list" where
  "routes =
     [((POST, ''/search''), Search_handler), ((POST, ''/insert''), Insert_handler),
      ((POST, ''/upsert''), Upsert_handler), ((POST, ''/query''), Query_handler),
      ((POST, ''/admin/snapshot''), Snapshot_handler), ((POST, ''/admin/setLeader''), Set_leader_handler),
      ((POST, ''/admin/addFollower''), Add_follower_handler), ((GET, ''/admin/listNode''), List_node_handler),
      ((GET, ''/admin/getNode''), Get_node_handler), ((GET, ''/admin/getScalar''), Get_scalar_handler)]"

section \<open>Responses\<close>

definition setJsonResponse :: "rapidjson \<Rightarrow> json \<Rightarrow> response \<Rightarrow> response" where
  "setJsonResponse J json_response res =
     res\<lparr>res_body := c_str (rj_write J json_response), content_type := RESPONSE_CONTENT_TYPE_JSON\<rparr>"

definition setErrorJsonResponse :: "rapidjson \<Rightarrow> int \<Rightarrow> string \<Rightarrow> response \<Rightarrow> response" where
  "setErrorJsonResponse J error_code errorMsg res =
     setJsonResponse J (JObject [(RESPONSE_RETCODE, JInt error_code), (RESPONSE_ERROR_MSG, JString (c_str errorMsg))]) res"

text \<open>\<^verbatim>\<open>res.status = 400\<close> and the error body, the shape of every early return.\<close>

definition bad_request :: "rapidjson \<Rightarrow> string \<Rightarrow> response \<Rightarrow> response" where
  "bad_request J msg res = setErrorJsonResponse J RESPONSE_RETCODE_ERROR msg (res\<lparr>status := 400\<rparr>)"

definition ok_response :: "rapidjson \<Rightarrow> (string \<times> json) list \<Rightarrow> response \<Rightarrow> response" where
  "ok_response J members res =
     setJsonResponse J (JObject (members @ [(RESPONSE_RETCODE, JInt RESPONSE_RETCODE_SUCCESS)])) res"

section \<open>Checks\<close>

datatype CheckType = SEARCH | INSERT | UPSERT

definition and_then_check :: "bool res \<Rightarrow> bool res \<Rightarrow> bool res" where
  "and_then_check a b = andthen a (\<lambda>x. if x then b else Inr False)"

definition index_type_is_string :: "json \<Rightarrow> bool res" where
  "index_type_is_string d =
     andthen (j_HasMember d REQUEST_INDEX_TYPE) (\<lambda>has.
       if \<not> has then Inr True
       else andthen (j_at d REQUEST_INDEX_TYPE) (\<lambda>v. Inr (j_IsString v)))"

definition isRequestValid :: "json \<Rightarrow> CheckType \<Rightarrow> bool res" where
  "isRequestValid d t =
     (case t of
        SEARCH \<Rightarrow> and_then_check (j_HasMember d REQUEST_VECTORS)
                    (and_then_check (j_HasMember d REQUEST_K) (index_type_is_string d))
      | INSERT \<Rightarrow> and_then_check (j_HasMember d REQUEST_VECTORS)
                    (and_then_check (j_HasMember d REQUEST_ID) (index_type_is_string d))
      | UPSERT \<Rightarrow> and_then_check (j_HasMember d REQUEST_VECTORS)
                    (and_then_check (j_HasMember d REQUEST_ID) (index_type_is_string d)))"

definition http_getIndexTypeFromRequest :: "json \<Rightarrow> IndexType res" where
  "http_getIndexTypeFromRequest json_request =
     andthen (j_HasMember json_request REQUEST_INDEX_TYPE) (\<lambda>has.
       if \<not> has then Inr UNKNOWN
       else andthen (j_at json_request REQUEST_INDEX_TYPE) (\<lambda>t.
              if j_IsString t then andthen (j_GetString t) (\<lambda>s.
                Inr (if s = INDEX_TYPE_FLAT then FLAT else if s = INDEX_TYPE_HNSW then HNSW else UNKNOWN))
              else Inr UNKNOWN))"

section \<open>Handlers of the data interface\<close>

text \<open>The results without the empty slots; a distance is read for every label that is not \<open>-1\<close>.\<close>

fun valid_results :: "int list \<Rightarrow> f32 list \<Rightarrow> (int \<times> f32) list res" where
  "valid_results [] ds = Inr []"
| "valid_results (l # ls) ds =
     (if l = -1 then valid_results ls (tl ds)
      else case ds of
             [] \<Rightarrow> Inl (Abort (Out_of_bounds ''results.second''))
           | d # ds' \<Rightarrow> andthen (valid_results ls ds') (\<lambda>r. Inr ((l, d) # r)))"

definition searchHandler ::
  "('b, 'd, 'f, 'h) libs \<Rightarrow> request \<Rightarrow> response \<Rightarrow> ('b, 'd, 'f, 'h, 'e, 'c, 't, 'r) HttpServer
   \<Rightarrow> (response \<times> ('b, 'd, 'f, 'h, 'e, 'c, 't, 'r) HttpServer) res" where
  "searchHandler L req res srv =
     (let J = lib_json L; json_request = rj_parse J (c_str (req_body req)) in
      if \<not> j_IsObject json_request then Inr (bad_request J ''Invalid JSON request'' res, srv)
      else andthen (isRequestValid json_request SEARCH) (\<lambda>valid.
        if \<not> valid then Inr (bad_request J ''Missing vectors or k parameter in the request'' res, srv)
        else
          andthen (j_at json_request REQUEST_VECTORS) (\<lambda>vs.
          andthen (json_floats J vs) (\<lambda>query.
          andthen (j_at json_request REQUEST_K) (\<lambda>kv.
          andthen (j_GetInt kv) (\<lambda>k.
          andthen (http_getIndexTypeFromRequest json_request) (\<lambda>indexType.
            if indexType = UNKNOWN
            then Inr (bad_request J ''Invalid indexType parameter in the request'' res, srv)
            else
              andthen (vdb_search L json_request (vector_database srv)) (\<lambda>(results, v).
              andthen (valid_results (fst results) (snd results)) (\<lambda>hits.
                let members = (if hits \<noteq> []
                      then [(RESPONSE_VECTORS, JArray (map (\<lambda>h. JInt (fst h)) hits)),
                            (RESPONSE_DISTANCES, JArray (map (\<lambda>h. rj_of_float J (snd h)) hits))]
                      else [])
                in Inr (ok_response J members res, srv\<lparr>vector_database := v\<rparr>))))))))))"

text \<open>\<^verbatim>\<open>/insert\<close> writes to the vector index only.\<close>

definition insertHandler ::
  "('b, 'd, 'f, 'h) libs \<Rightarrow> request \<Rightarrow> response \<Rightarrow> ('b, 'd, 'f, 'h, 'e, 'c, 't, 'r) HttpServer
   \<Rightarrow> (response \<times> ('b, 'd, 'f, 'h, 'e, 'c, 't, 'r) HttpServer) res" where
  "insertHandler L req res srv =
     (let J = lib_json L; json_request = rj_parse J (c_str (req_body req));
          factory = index_factory (vector_database srv);
          finish = (\<lambda>f. Inr (ok_response J [] res,
             srv\<lparr>vector_database := (vector_database srv)\<lparr>index_factory := f\<rparr>\<rparr>)) in
      if \<not> j_IsObject json_request then Inr (bad_request J ''Invalid JSON request'' res, srv)
      else andthen (isRequestValid json_request INSERT) (\<lambda>valid.
        if \<not> valid then Inr (bad_request J ''Missing vectors or k parameter in the request'' res, srv)
        else
          andthen (j_at json_request REQUEST_VECTORS) (\<lambda>vs.
          andthen (json_floats J vs) (\<lambda>data.
          andthen (j_at json_request REQUEST_ID) (\<lambda>i.
          andthen (j_GetUint64 i) (\<lambda>label.
          andthen (http_getIndexTypeFromRequest json_request) (\<lambda>indexType.
            case indexType of
              UNKNOWN \<Rightarrow> Inr (bad_request J ''Invalid indexType parameter in the request'' res, srv)
            | FLAT \<Rightarrow> andthen (as_flat (getIndex FLAT factory)) (\<lambda>i.
                        andthen (faiss_insert_vectors (lib_fa L) data label i) (\<lambda>i'.
                          finish (set_index FLAT (Flat_index i') factory)))
            | HNSW \<Rightarrow> andthen (as_hnsw (getIndex HNSW factory)) (\<lambda>i.
                        andthen (hnsw_insert_vectors (lib_hn L) data label i) (\<lambda>i'.
                          finish (set_index HNSW (Hnsw_index i') factory)))
            | _ \<Rightarrow> finish factory)))))))"

text \<open>The result of \<^verbatim>\<open>appendEntries\<close> is not looked at.\<close>

definition upsertHandler ::
  "('u, 'e) nuraft \<Rightarrow> ('u, 'r, 'x) raft_server \<Rightarrow> ('b, 'd, 'f, 'h) libs \<Rightarrow> request \<Rightarrow> response
   \<Rightarrow> ('b, 'd, 'f, 'h, 'e, 'c, 't, 'r) HttpServer
   \<Rightarrow> (response \<times> ('b, 'd, 'f, 'h, 'e, 'c, 't, 'r) HttpServer) res" where
  "upsertHandler N G L req res srv =
     (let J = lib_json L; json_request = rj_parse J (c_str (req_body req)) in
      if \<not> j_IsObject json_request then Inr (bad_request J ''Invalid JSON request'' res, srv)
      else andthen (isRequestValid json_request UPSERT) (\<lambda>valid.
        if \<not> valid then Inr (bad_request J ''Missing vectors or id parameter in the request'' res, srv)
        else
          andthen (j_at json_request REQUEST_ID) (\<lambda>i.
          andthen (j_GetUint64 i) (\<lambda>label.
          andthen (http_getIndexTypeFromRequest json_request) (\<lambda>indexType.
          andthen (appendEntries N G (req_body req) (raft_stuff srv)) (\<lambda>(_, x).
            Inr (ok_response J [] res, srv\<lparr>raft_stuff := x\<rparr>)))))))"

definition queryHandler ::
  "('b, 'd, 'f, 'h) libs \<Rightarrow> request \<Rightarrow> response \<Rightarrow> ('b, 'd, 'f, 'h, 'e, 'c, 't, 'r) HttpServer \<Rightarrow> response res" where
  "queryHandler L req res srv =
     (let J = lib_json L; json_request = rj_parse J (c_str (req_body req)) in
      if \<not> j_IsObject json_request then Inr (bad_request J ''Invalid JSON request'' res)
      else
        andthen (j_at json_request REQUEST_ID) (\<lambda>i.
        andthen (j_GetUint64 i) (\<lambda>uid.
          let json_data = vdb_query L uid (vector_database srv) in
          andthen (if j_IsNull json_data then Inr [] else j_members json_data) (\<lambda>members.
            Inr (ok_response J members res)))))"

section \<open>Handlers of the administration interface\<close>

text \<open>An exception from the snapshot reaches the HTTP library with the database it leaves.\<close>

definition snapshotHandler ::
  "('b, 'd, 'f, 'h) libs \<Rightarrow> request \<Rightarrow> response \<Rightarrow> ('b, 'd, 'f, 'h, 'e, 'c, 't, 'r) HttpServer
   \<Rightarrow> response res \<times> ('b, 'd, 'f, 'h, 'e, 'c, 't, 'r) HttpServer" where
  "snapshotHandler L req res srv =
     (let (v, r) = vdb_takeSnapshot L (vector_database srv)
      in (andthen r (\<lambda>_. Inr (ok_response (lib_json L) [] res)), srv\<lparr>vector_database := v\<rparr>))"

definition setLeaderHandler ::
  "('u, 'r, 'x) raft_server \<Rightarrow> ('b, 'd, 'f, 'h) libs \<Rightarrow> request \<Rightarrow> response
   \<Rightarrow> ('b, 'd, 'f, 'h, 'e, 'c, 't, 'r) HttpServer \<Rightarrow> response \<times> ('b, 'd, 'f, 'h, 'e, 'c, 't, 'r) HttpServer" where
  "setLeaderHandler G L req res srv =
     (ok_response (lib_json L) [] res,
      srv\<lparr>raft_stuff := enableElectionTimeout G 10000 20000 (raft_stuff srv)\<rparr>)"

definition addFollowerHandler ::
  "('u, 'r, 'x) raft_server \<Rightarrow> ('b, 'd, 'f, 'h) libs \<Rightarrow> request \<Rightarrow> response
   \<Rightarrow> ('b, 'd, 'f, 'h, 'e, 'c, 't, 'r) HttpServer
   \<Rightarrow> (response \<times> ('b, 'd, 'f, 'h, 'e, 'c, 't, 'r) HttpServer) res" where
  "addFollowerHandler G L req res srv =
     (let J = lib_json L; json_request = rj_parse J (c_str (req_body req)) in
      if \<not> j_IsObject json_request then Inr (bad_request J ''Invalid JSON request'' res, srv)
      else if \<not> isLeader G (raft_stuff srv)
      then Inr (bad_request J ''Current node is not the leader'' res, srv)
      else
        andthen (j_at json_request ''nodeId'') (\<lambda>n. andthen (j_GetInt n) (\<lambda>nid.
        andthen (j_at json_request ''endpoint'') (\<lambda>e. andthen (j_GetString e) (\<lambda>ep.
        andthen (addSrv G nid ep (raft_stuff srv)) (\<lambda>(_, x).
          Inr (ok_response J [] res, srv\<lparr>raft_stuff := x\<rparr>)))))))"

definition node_json :: "node_info \<Rightarrow> json" where
  "node_json info =
     (case info of (nid, ep, state, idx, us) \<Rightarrow>
        JObject [(''nodeId'', JInt nid), (''endpoint'', JString (c_str ep)), (''state'', JString (c_str state)),
          (''last_log_idx'', JInt (uint idx)), (''last_succ_resp_us'', JInt (uint us))])"

definition listNodeHandler ::
  "('u, 'r, 'x) raft_server \<Rightarrow> ('b, 'd, 'f, 'h) libs \<Rightarrow> request \<Rightarrow> response
   \<Rightarrow> ('b, 'd, 'f, 'h, 'e, 'c, 't, 'r) HttpServer \<Rightarrow> response" where
  "listNodeHandler G L req res srv =
     ok_response (lib_json L) [(''nodes'', JArray (map node_json (getAllNodesInfo G (raft_stuff srv))))] res"

definition getNodeHandler ::
  "('u, 'r, 'x) raft_server \<Rightarrow> ('b, 'd, 'f, 'h) libs \<Rightarrow> request \<Rightarrow> response
   \<Rightarrow> ('b, 'd, 'f, 'h, 'e, 'c, 't, 'r) HttpServer \<Rightarrow> response" where
  "getNodeHandler G L req res srv =
     ok_response (lib_json L) [(''node'', node_json (getCurrentNodesInfo G (raft_stuff srv)))] res"

text \<open>
  A paging parameter: \<^verbatim>\<open>strtoul\<close> on the whole text, neither 0 nor above the limit. A numeral that
  does not fit becomes the maximum, a minus sign negates modulo \<open>2 ^ 64\<close>.
\<close>

definition page_param :: "string \<Rightarrow> u64 \<Rightarrow> u64 \<Rightarrow> u64 option" where
  "page_param str dflt limit =
     (if str = [] then Some dflt
      else case strto (c_str str) of
             None \<Rightarrow> None
           | Some (neg, n, rest) \<Rightarrow>
               let v = (if n \<ge> 2 ^ 64 then - 1 else if neg then - of_nat n else of_nat n) :: u64
               in if rest \<noteq> [] \<or> v = 0 \<or> v > limit then None else Some v)"

definition scalar_item :: "rapidjson \<Rightarrow> kv \<Rightarrow> json" where
  "scalar_item J kv =
     (let data_doc = rj_parse J (c_str (snd kv))
      in JObject [(''key'', JString (c_str (fst kv))),
                  (''data'', if j_IsObject data_doc then data_doc else JNull)])"

definition getScalarHandler ::
  "('b, 'd, 'f, 'h) libs \<Rightarrow> request \<Rightarrow> response \<Rightarrow> ('b, 'd, 'f, 'h, 'e, 'c, 't, 'r) HttpServer \<Rightarrow> response" where
  "getScalarHandler L req res srv =
     (let J = lib_json L;
          key_prefix = get_param_value req ''key_prefix'';
          key_upper = get_param_value req ''key''
      in case page_param (get_param_value req ''page_num'') 1 1000000 of
           None \<Rightarrow> bad_request J ''Invalid page_num parameter'' res
         | Some page_num \<Rightarrow>
             (case page_param (get_param_value req ''page_size'') 100 1000 of
                None \<Rightarrow> bad_request J ''Invalid page_size parameter'' res
              | Some page_size \<Rightarrow>
                  let page = getScalarsPage L key_prefix key_upper page_num page_size (vector_database srv)
                  in ok_response J
                       [(''items'', JArray (map (scalar_item J) (items page))), (''hasMore'', JBool (has_more page)),
                        (''pageNum'', JInt (uint page_num)), (''pageSize'', JInt (uint page_size))] res))"

section \<open>Serving a request\<close>

text \<open>
  The part of \<^verbatim>\<open>Server::process_request\<close> after parsing, for a request without ranges: the first
  matching route runs; an exception becomes status 500, a handled request without a status 200, a
  request without a route 404.
\<close>

definition finish_status :: "bool \<Rightarrow> response \<Rightarrow> response" where
  "finish_status routed res =
     (if routed then (if status res = -1 then res\<lparr>status := 200\<rparr> else res)
      else (if status res = -1 then res\<lparr>status := 404\<rparr> else res))"

definition guarded :: "(response \<times> 's) res \<Rightarrow> 's \<Rightarrow> (response \<times> 's) res" where
  "guarded r srv =
     (case r of
        Inr (res, srv') \<Rightarrow> Inr (finish_status True res, srv')
      | Inl (Throw e) \<Rightarrow> Inr (finish_status False (response_new\<lparr>status := 500\<rparr>), srv)
      | Inl (Abort a) \<Rightarrow> Inl (Abort a))"

definition run_handler ::
  "('u, 'e) nuraft \<Rightarrow> ('u, 'r, 'x) raft_server \<Rightarrow> ('b, 'd, 'f, 'h) libs \<Rightarrow> handler \<Rightarrow> request
   \<Rightarrow> ('b, 'd, 'f, 'h, 'e, 'c, 't, 'r) HttpServer
   \<Rightarrow> (response \<times> ('b, 'd, 'f, 'h, 'e, 'c, 't, 'r) HttpServer) res" where
  "run_handler N G L h req srv =
     (case h of
        Search_handler \<Rightarrow> guarded (searchHandler L req response_new srv) srv
      | Insert_handler \<Rightarrow> guarded (insertHandler L req response_new srv) srv
      | Upsert_handler \<Rightarrow> guarded (upsertHandler N G L req response_new srv) srv
      | Query_handler \<Rightarrow> guarded (andthen (queryHandler L req response_new srv) (\<lambda>r. Inr (r, srv))) srv
      | Snapshot_handler \<Rightarrow>
          (let (r, srv') = snapshotHandler L req response_new srv
           in guarded (andthen r (\<lambda>res. Inr (res, srv'))) srv')
      | Set_leader_handler \<Rightarrow> guarded (Inr (setLeaderHandler G L req response_new srv)) srv
      | Add_follower_handler \<Rightarrow> guarded (addFollowerHandler G L req response_new srv) srv
      | List_node_handler \<Rightarrow> guarded (Inr (listNodeHandler G L req response_new srv, srv)) srv
      | Get_node_handler \<Rightarrow> guarded (Inr (getNodeHandler G L req response_new srv, srv)) srv
      | Get_scalar_handler \<Rightarrow> guarded (Inr (getScalarHandler L req response_new srv, srv)) srv)"

definition serve ::
  "('u, 'e) nuraft \<Rightarrow> ('u, 'r, 'x) raft_server \<Rightarrow> ('b, 'd, 'f, 'h) libs \<Rightarrow> http_method \<Rightarrow> string \<Rightarrow> request
   \<Rightarrow> ('b, 'd, 'f, 'h, 'e, 'c, 't, 'r) HttpServer
   \<Rightarrow> (response \<times> ('b, 'd, 'f, 'h, 'e, 'c, 't, 'r) HttpServer) res" where
  "serve N G L m path req srv =
     (case map_of routes (m, path) of
        None \<Rightarrow> Inr (finish_status False response_new, srv)
      | Some h \<Rightarrow> run_handler N G L h req srv)"

section \<open>Lemmas\<close>

lemma status_setJsonResponse [http_simps]:
  "status (setJsonResponse J d res) = status res" "status (setErrorJsonResponse J c m res) = status res"
  "status (bad_request J m res) = 400" "status (ok_response J ms res) = status res"
  by (simp_all add: setJsonResponse_def setErrorJsonResponse_def bad_request_def ok_response_def)

lemma index_type_is_string_object [http_simps]:
  "index_type_is_string (JObject ms) =
     Inr (case map_of ms REQUEST_INDEX_TYPE of None \<Rightarrow> True | Some t \<Rightarrow> j_IsString t)"
  by (simp add: index_type_is_string_def split: option.split)

lemma isRequestValid_object [http_simps]:
  "isRequestValid (JObject ms) t =
     Inr (map_of ms REQUEST_VECTORS \<noteq> None \<and>
       map_of ms (if t = SEARCH then REQUEST_K else REQUEST_ID) \<noteq> None \<and>
       (case map_of ms REQUEST_INDEX_TYPE of None \<Rightarrow> True | Some t \<Rightarrow> j_IsString t))"
  by (cases t) (auto simp: isRequestValid_def and_then_check_def index_type_is_string_object)

lemma http_index_type [http_simps]: "http_getIndexTypeFromRequest = getIndexTypeFromRequest"
  by (rule ext) (simp only: http_getIndexTypeFromRequest_def getIndexTypeFromRequest_def index_type_of_string_def)

lemma valid_results_hits:
  "length ds = length ls \<Longrightarrow> valid_results ls ds = Inr (filter (\<lambda>h. fst h \<noteq> -1) (zip ls ds))"
proof (induction ls arbitrary: ds)
  case Nil
  then show ?case by simp
next
  case (Cons l ls)
  then obtain d ds' where "ds = d # ds'" "length ds' = length ls" by (cases ds) auto
  with Cons.IH [of ds'] show ?case by simp
qed

lemma page_param_bounds:
  "page_param s d lim = Some v \<Longrightarrow> d \<noteq> 0 \<Longrightarrow> d \<le> lim \<Longrightarrow> v \<noteq> 0 \<and> v \<le> lim"
  by (auto simp: page_param_def Let_def not_less split: if_splits option.splits)

lemma getIndexType_object:
  "getIndexTypeFromRequest (JObject ms) =
     Inr (case map_of ms REQUEST_INDEX_TYPE of Some (JString s) \<Rightarrow> index_type_of_string (c_str s) | _ \<Rightarrow> UNKNOWN)"
  by (auto simp: getIndexTypeFromRequest_def j_IsString_iff split: option.split json.split)

text \<open>The early returns of the handlers that take a document.\<close>

lemma handlers_not_object:
  assumes "\<not> j_IsObject (rj_parse (lib_json L) (c_str (req_body req)))"
  shows "searchHandler L req res srv = Inr (bad_request (lib_json L) ''Invalid JSON request'' res, srv)"
    and "insertHandler L req res srv = Inr (bad_request (lib_json L) ''Invalid JSON request'' res, srv)"
    and "upsertHandler N G L req res srv = Inr (bad_request (lib_json L) ''Invalid JSON request'' res, srv)"
    and "queryHandler L req res srv = Inr (bad_request (lib_json L) ''Invalid JSON request'' res)"
    and "addFollowerHandler G L req res srv = Inr (bad_request (lib_json L) ''Invalid JSON request'' res, srv)"
  using assms
  by (simp_all add: searchHandler_def insertHandler_def upsertHandler_def queryHandler_def
      addFollowerHandler_def Let_def)

lemma searchHandler_rejects:
  assumes "searchHandler L req res srv = Inr (res', srv')" "status res \<noteq> 400" "status res' = 400"
  shows "srv' = srv"
  using assms by (auto simp: searchHandler_def Let_def res_simps http_simps split: if_splits)

lemma insertHandler_rejects:
  assumes "insertHandler L req res srv = Inr (res', srv')" "status res \<noteq> 400" "status res' = 400"
  shows "srv' = srv"
  using assms
  by (auto simp: insertHandler_def Let_def res_simps http_simps split: if_splits IndexType.split_asm)
     (metis IndexType.exhaust)

lemma upsertHandler_rejects:
  assumes "upsertHandler N G L req res srv = Inr (res', srv')" "status res \<noteq> 400" "status res' = 400"
  shows "srv' = srv"
  using assms by (auto simp: upsertHandler_def Let_def res_simps http_simps split: if_splits)

lemma addFollowerHandler_rejects:
  assumes "addFollowerHandler G L req res srv = Inr (res', srv')" "status res \<noteq> 400" "status res' = 400"
  shows "srv' = srv"
  using assms by (auto simp: addFollowerHandler_def Let_def res_simps http_simps split: if_splits)

lemma upsertHandler_appends:
  assumes "rj_parse (lib_json L) (c_str (req_body req)) = JObject ms"
    and "map_of ms REQUEST_VECTORS \<noteq> None" "map_of ms REQUEST_ID = Some i" "j_GetUint64 i = Inr uid"
    and "case map_of ms REQUEST_INDEX_TYPE of None \<Rightarrow> True | Some t \<Rightarrow> j_IsString t"
  shows "upsertHandler N G L req res srv =
    andthen (appendEntries N G (req_body req) (raft_stuff srv)) (\<lambda>(_, x).
      Inr (ok_response (lib_json L) [] res, srv\<lparr>raft_stuff := x\<rparr>))"
  using assms by (simp add: upsertHandler_def Let_def http_simps getIndexType_object)

lemma searchHandler_success:
  assumes p: "rj_parse (lib_json L) (c_str (req_body req)) = d"
    and s: "searchHandler L req res srv = Inr (res', srv')" "status res \<noteq> 400" "status res' \<noteq> 400"
  shows "\<exists>ls ds v hits. vdb_search L d (vector_database srv) = Inr ((ls, ds), v) \<and>
    valid_results ls ds = Inr hits \<and> srv' = srv\<lparr>vector_database := v\<rparr> \<and>
    res' = ok_response (lib_json L)
      (if hits \<noteq> [] then [(RESPONSE_VECTORS, JArray (map (\<lambda>h. JInt (fst h)) hits)),
          (RESPONSE_DISTANCES, JArray (map (\<lambda>h. rj_of_float (lib_json L) (snd h)) hits))] else []) res"
  using s by (fastforce simp: searchHandler_def p Let_def res_simps http_simps split: if_splits)

text \<open>The routes of the handlers that answer with an error of their own.\<close>

lemma serve_routes:
  "serve N G L POST ''/search'' req srv = guarded (searchHandler L req response_new srv) srv"
  "serve N G L POST ''/insert'' req srv = guarded (insertHandler L req response_new srv) srv"
  "serve N G L POST ''/upsert'' req srv = guarded (upsertHandler N G L req response_new srv) srv"
  "serve N G L POST ''/query'' req srv = guarded (andthen (queryHandler L req response_new srv) (\<lambda>r. Inr (r, srv))) srv"
  "serve N G L POST ''/admin/addFollower'' req srv = guarded (addFollowerHandler G L req response_new srv) srv"
  "serve N G L GET ''/admin/getScalar'' req srv = guarded (Inr (getScalarHandler L req response_new srv, srv)) srv"
  by (simp_all add: serve_def routes_def run_handler_def)

lemma guarded_status:
  assumes "guarded r srv = Inr (res, srv')" "status res \<noteq> 500"
  obtains res0 where "r = Inr (res0, srv')" "res = finish_status True res0"
  using assms by (auto simp: guarded_def finish_status_def split: sum.splits failure.splits)

lemma finish_status_True: "status (finish_status True res) = (if status res = -1 then 200 else status res)"
  by (simp add: finish_status_def)

lemma getScalarHandler_param_errors:
  "page_param (get_param_value req ''page_num'') 1 1000000 = None \<Longrightarrow>
     getScalarHandler L req res srv = bad_request (lib_json L) ''Invalid page_num parameter'' res"
  "page_param (get_param_value req ''page_num'') 1 1000000 = Some n \<Longrightarrow>
     page_param (get_param_value req ''page_size'') 100 1000 = None \<Longrightarrow>
     getScalarHandler L req res srv = bad_request (lib_json L) ''Invalid page_size parameter'' res"
  by (simp_all add: getScalarHandler_def Let_def)

lemma run_handler_rejects:
  assumes "run_handler N G L h req srv = Inr (res, srv')" "status res = 400"
  shows "srv' = srv"
proof -
  have g: "\<exists>res0. r = Inr (res0, srv') \<and> status res0 = 400" if "guarded r s = Inr (res, srv')" for r s
    using that assms(2) by (auto elim!: guarded_status simp: finish_status_True split: if_splits)
  have n: "status response_new \<noteq> 400" by (simp add: response_new_def)
  have q: "\<exists>r0. queryHandler L req response_new srv = Inr r0 \<and> srv' = srv"
    if "andthen (queryHandler L req response_new srv) (\<lambda>r. Inr (r, srv)) = Inr (res0, srv')" for res0
    using that by (auto simp: res_simps)
  show ?thesis
  proof (cases h)
    case Snapshot_handler
    then show ?thesis
      using g assms(1) by (fastforce simp: run_handler_def snapshotHandler_def split_beta res_simps http_simps response_new_def)
  next
    case Set_leader_handler
    then show ?thesis
      using g assms(1) by (fastforce simp: run_handler_def setLeaderHandler_def split_beta http_simps response_new_def)
  qed (use g assms(1) n q searchHandler_rejects insertHandler_rejects upsertHandler_rejects addFollowerHandler_rejects
      in \<open>fastforce simp: run_handler_def\<close>)+
qed

section \<open>Properties\<close>

type_synonym sample_server =
  "(u32 list, kv_writes, list_flat, list_graph, string_entry, srv_config list, unit, list_server) HttpServer"

definition sample_server :: "bool \<Rightarrow> sample_server" where
  "sample_server leader = HttpServer_new ''localhost'' 80 (sample_stored sample_files sample_wal) (sample_raft_stuff leader)"

text \<open>\<open>rejects\<close>: the answer has status 400 and the error body with the message; the server is as before.\<close>

definition rejects :: "rapidjson \<Rightarrow> string \<Rightarrow> (response \<times> 's) res \<Rightarrow> 's \<Rightarrow> bool" where
  "rejects J msg answer srv \<longleftrightarrow>
     (\<exists>res. answer = Inr (res, srv) \<and> status res = 400 \<and> content_type res = ''application/json'' \<and>
        res_body res = c_str (rj_write J (JObject [(''retCode'', JInt (-1)), (''errorMsg'', JString msg)])))"

lemma rejects_bad_request:
  "CHR 0x00 \<notin> set msg \<Longrightarrow> rejects J msg (guarded (Inr (bad_request J msg response_new, srv)) srv) srv"
  by (simp add: rejects_def guarded_def finish_status_True http_simps)
     (simp add: finish_status_def bad_request_def setErrorJsonResponse_def setJsonResponse_def constants_defs)

text \<open>The members a check asks for are there, and the index type, if there, is a string.\<close>

definition members_ok :: "(string \<times> json) list \<Rightarrow> string list \<Rightarrow> bool" where
  "members_ok ms names \<longleftrightarrow> (\<forall>n \<in> set names. map_of ms n \<noteq> None) \<and>
     (\<forall>t. map_of ms ''indexType'' = Some t \<longrightarrow> j_IsString t)"

definition names_index :: "(string \<times> json) list \<Rightarrow> bool" where
  "names_index ms \<longleftrightarrow> (\<exists>s. map_of ms ''indexType'' = Some (JString s) \<and> c_str s \<in> {''FLAT'', ''HNSW''})"

lemma isRequestValid_members_ok:
  "isRequestValid (JObject ms) SEARCH = Inr (members_ok ms [''vectors'', ''k''])"
  "isRequestValid (JObject ms) INSERT = Inr (members_ok ms [''vectors'', ''id''])"
  "isRequestValid (JObject ms) UPSERT = Inr (members_ok ms [''vectors'', ''id''])"
  by (auto simp: isRequestValid_object members_ok_def constants_defs split: option.splits)

lemma index_type_unknown: "\<not> names_index ms \<Longrightarrow> http_getIndexTypeFromRequest (JObject ms) = Inr UNKNOWN"
  by (auto simp: http_index_type getIndexType_object names_index_def index_type_of_string_def constants_defs
      split: option.splits json.splits)

lemma object_rejections:
  assumes "rj_parse (lib_json L) (c_str (req_body req)) = JObject ms"
  shows "\<not> members_ok ms [''vectors'', ''k''] \<Longrightarrow>
      searchHandler L req res srv = Inr (bad_request (lib_json L) ''Missing vectors or k parameter in the request'' res, srv)"
    and "\<not> members_ok ms [''vectors'', ''id''] \<Longrightarrow>
      insertHandler L req res srv = Inr (bad_request (lib_json L) ''Missing vectors or k parameter in the request'' res, srv)"
    and "\<not> members_ok ms [''vectors'', ''id''] \<Longrightarrow>
      upsertHandler N G L req res srv = Inr (bad_request (lib_json L) ''Missing vectors or id parameter in the request'' res, srv)"
    and "members_ok ms [''vectors'', ''k''] \<Longrightarrow> json_floats (lib_json L) (the (map_of ms ''vectors'')) = Inr q \<Longrightarrow>
      j_GetInt (the (map_of ms ''k'')) = Inr k \<Longrightarrow> \<not> names_index ms \<Longrightarrow>
      searchHandler L req res srv = Inr (bad_request (lib_json L) ''Invalid indexType parameter in the request'' res, srv)"
    and "members_ok ms [''vectors'', ''id''] \<Longrightarrow> json_floats (lib_json L) (the (map_of ms ''vectors'')) = Inr q \<Longrightarrow>
      j_GetUint64 (the (map_of ms ''id'')) = Inr uid \<Longrightarrow> \<not> names_index ms \<Longrightarrow>
      insertHandler L req res srv = Inr (bad_request (lib_json L) ''Invalid indexType parameter in the request'' res, srv)"
    and "\<not> isLeader G (raft_stuff srv) \<Longrightarrow>
      addFollowerHandler G L req res srv = Inr (bad_request (lib_json L) ''Current node is not the leader'' res, srv)"
  using assms
  by (auto simp: searchHandler_def insertHandler_def upsertHandler_def addFollowerHandler_def Let_def
      isRequestValid_members_ok index_type_unknown members_ok_def constants_defs)

text \<open>
  C21. The requests the checks reject, each with its message: a body that is no JSON object; for
  /search, /insert and /upsert a missing member or an index type that is no string; for /search and
  /insert, if the values are well typed, an index type other than FLAT and HNSW, or none; for
  /admin/addFollower a node that is not the leader; for /admin/getScalar a paging parameter that is
  no number in its range. Each is answered with status 400 and the error body and leaves the server
  as it was. And no request at all that is answered with status 400 changes the server.
\<close>

theorem rejected_requests_change_nothing:
  fixes L :: "('b, 'd, 'f, 'h) libs" and srv :: "('b, 'd, 'f, 'h, 'e, 'c, 't, 'r) HttpServer"
    and N :: "('u, 'e) nuraft" and G :: "('u, 'r, 'x) raft_server"
  shows "(\<not> j_IsObject (rj_parse (lib_json L) (c_str (req_body req))) \<longrightarrow>
      (\<forall>path \<in> {''/search'', ''/insert'', ''/upsert'', ''/query'', ''/admin/addFollower''}.
         rejects (lib_json L) ''Invalid JSON request'' (serve N G L POST path req srv) srv)) \<and>
    (\<forall>ms. rj_parse (lib_json L) (c_str (req_body req)) = JObject ms \<longrightarrow>
      (\<not> members_ok ms [''vectors'', ''k''] \<longrightarrow>
         rejects (lib_json L) ''Missing vectors or k parameter in the request'' (serve N G L POST ''/search'' req srv) srv) \<and>
      (\<not> members_ok ms [''vectors'', ''id''] \<longrightarrow>
         rejects (lib_json L) ''Missing vectors or k parameter in the request'' (serve N G L POST ''/insert'' req srv) srv \<and>
         rejects (lib_json L) ''Missing vectors or id parameter in the request'' (serve N G L POST ''/upsert'' req srv) srv) \<and>
      (\<forall>q k. members_ok ms [''vectors'', ''k''] \<and> json_floats (lib_json L) (the (map_of ms ''vectors'')) = Inr q \<and>
         j_GetInt (the (map_of ms ''k'')) = Inr k \<and> \<not> names_index ms \<longrightarrow>
         rejects (lib_json L) ''Invalid indexType parameter in the request'' (serve N G L POST ''/search'' req srv) srv) \<and>
      (\<forall>q uid. members_ok ms [''vectors'', ''id''] \<and> json_floats (lib_json L) (the (map_of ms ''vectors'')) = Inr q \<and>
         j_GetUint64 (the (map_of ms ''id'')) = Inr uid \<and> \<not> names_index ms \<longrightarrow>
         rejects (lib_json L) ''Invalid indexType parameter in the request'' (serve N G L POST ''/insert'' req srv) srv) \<and>
      (\<not> isLeader G (raft_stuff srv) \<longrightarrow>
         rejects (lib_json L) ''Current node is not the leader'' (serve N G L POST ''/admin/addFollower'' req srv) srv)) \<and>
    (page_param (get_param_value req ''page_num'') 1 1000000 = None \<longrightarrow>
       rejects (lib_json L) ''Invalid page_num parameter'' (serve N G L GET ''/admin/getScalar'' req srv) srv) \<and>
    (page_param (get_param_value req ''page_num'') 1 1000000 \<noteq> None \<and>
       page_param (get_param_value req ''page_size'') 100 1000 = None \<longrightarrow>
       rejects (lib_json L) ''Invalid page_size parameter'' (serve N G L GET ''/admin/getScalar'' req srv) srv) \<and>
    (\<forall>m path res srv'. serve N G L m path req srv = Inr (res, srv') \<and> status res = 400 \<longrightarrow> srv' = srv)"
proof -
  have "srv' = srv" if "serve N G L m path req srv = Inr (res, srv')" "status res = 400" for m path res srv'
    using that run_handler_rejects by (auto simp: serve_def split: option.splits)
  then show ?thesis
    by (auto simp: serve_routes handlers_not_object object_rejections getScalarHandler_param_errors
        intro!: rejects_bad_request)
qed

text \<open>A body that is no object, a search without \<open>vectors\<close> and \<open>k\<close>.\<close>

theorem rejected_requests_change_nothing_witness:
  "rejects table_json ''Invalid JSON request'' (serve string_raft list_raft_server sample_libs POST ''/upsert''
     \<lparr>req_body = ''x'', req_params = []\<rparr> (sample_server True)) (sample_server True) \<and>
   rejects table_json ''Missing vectors or k parameter in the request'' (serve string_raft list_raft_server sample_libs
     POST ''/search'' \<lparr>req_body = ''{Q'', req_params = []\<rparr> (sample_server True)) (sample_server True)"
proof -
  have p: "\<not> j_IsObject (rj_parse table_json ''x'')" "rj_parse table_json ''{Q'' = JObject [(''id'', JInt 1)]"
    by (simp_all add: table_json_def sample_table_def)
  have m: "\<not> members_ok [(''id'', JInt 1)] [''vectors'', ''k'']" by (simp add: members_ok_def)
  show ?thesis
    using rejected_requests_change_nothing [of sample_libs "\<lparr>req_body = ''x'', req_params = []\<rparr>"
        string_raft list_raft_server "sample_server True"]
      rejected_requests_change_nothing [of sample_libs "\<lparr>req_body = ''{Q'', req_params = []\<rparr>"
        string_raft list_raft_server "sample_server True"] p m by simp
qed

text \<open>
  C15. The scalar listing answers exactly the slice of the keys in range that its parameters name:
  accepted parameters are within 1 to 1000000 pages and 1 to 1000 items, so the number of skipped
  entries does not wrap.
\<close>

theorem get_scalar_lists_slice:
  assumes "rocks_ok (lib_rk L)"
    and "page_param (get_param_value req ''page_num'') 1 1000000 = Some n"
    and "page_param (get_param_value req ''page_size'') 100 1000 = Some s"
  shows "getScalarHandler L req res srv =
    (let es = entries_in_range (lib_rk L) (get_param_value req ''key_prefix'') (get_param_value req ''key'')
                (scalar_storage (vector_database srv))
     in ok_response (lib_json L)
          [(''items'', JArray (map (scalar_item (lib_json L)) (take (unat s) (drop ((unat n - 1) * unat s) es)))),
           (''hasMore'', JBool (unat n * unat s < length es)),
           (''pageNum'', JInt (uint n)), (''pageSize'', JInt (uint s))] res) \<and>
    1 \<le> unat n \<and> unat n \<le> 1000000 \<and> 1 \<le> unat s \<and> unat s \<le> 1000"
proof -
  have n: "n \<noteq> 0" "n \<le> 1000000" using page_param_bounds [OF assms(2)] by simp_all
  have s: "s \<noteq> 0" "s \<le> 1000" using page_param_bounds [OF assms(3)] by simp_all
  have un: "1 \<le> unat n" "unat n \<le> 1000000" "1 \<le> unat s" "unat s \<le> 1000"
    using n s by (simp_all add: word_le_nat_alt unat_gt_0 Suc_le_eq)
  then have "(unat n - 1) * unat s \<le> 1000000 * 1000" by (intro mult_le_mono) simp_all
  then have "(unat n - 1) * unat s < 2 ^ 64" by simp
  from scan_page_slice [OF assms(1) n(1) s(1) this] un show ?thesis
    by (simp add: getScalarHandler_def assms(2,3) getScalarsPage_def Let_def)
qed

theorem get_scalar_lists_slice_witness:
  "getScalarHandler sample_libs \<lparr>req_body = [], req_params = [(''page_size'', ''5'')]\<rparr> response_new (sample_server True) =
    ok_response table_json
      [(''items'', JArray [JObject [(''key'', JString ''1''), (''data'', sample_doc 1 2)]]), (''hasMore'', JBool False),
       (''pageNum'', JInt 1), (''pageSize'', JInt 5)] response_new"
proof -
  let ?req = "\<lparr>req_body = [], req_params = [(''page_size'', ''5'')]\<rparr>"
  have n: "page_param (get_param_value ?req ''page_num'') 1 1000000 = Some 1"
    by (simp add: get_param_value_def page_param_def)
  have "c_str ''5'' = ''5''" by simp
  moreover have "strto ''5'' = Some (False, 5, [])"
    using strto_to_string [of "[]" 5] by (simp add: to_string_digit digit_char_def)
  ultimately have s: "page_param (get_param_value ?req ''page_size'') 100 1000 = Some 5"
    by (simp add: get_param_value_def page_param_def)
  have e: "entries_in_range list_rocks (get_param_value ?req ''key_prefix'') (get_param_value ?req ''key'')
      (scalar_storage (vector_database (sample_server True))) = [(''1'', ''{Aid1C'')]"
    by (simp add: entries_in_range_def list_rocks_def get_param_value_def key_in_range_def sample_server_def
        HttpServer_new_def sample_stored_def)
  have i: "scalar_item table_json (''1'', ''{Aid1C'') = JObject [(''key'', JString ''1''), (''data'', sample_doc 1 2)]"
    by (simp add: scalar_item_def table_json_def sample_table_def sample_doc_def)
  show ?thesis
    using get_scalar_lists_slice [of sample_libs ?req 1 5 response_new "sample_server True"] n s by (simp add: e i)
qed

text \<open>
  C14. A /search request with a filter, whatever else it holds and whichever vector index it names,
  that is answered with status 200 lists one distance for each label, and every listed label is the
  id of a stored document that satisfies the filter. This is on a collection whose flat index and
  whose HNSW index, if there is one, have only ids that were upserted. The search changes neither
  the Raft object nor the storage nor what is known of the indexes.
\<close>

theorem search_answer_satisfies_filter:
  assumes "libs_ok L" "hnsw_search_ok (lib_hn L)" "hnsw_ids_ok (lib_hn L) ids"
    and "collection_inv L dim F S (vector_database srv)" "flat_inv L dim S (vector_database srv)"
    and "hnsw_inv ids S (vector_database srv)"
    and "filter_request (rj_parse (lib_json L) (c_str (req_body req))) f op w"
    and "serve N G L POST ''/search'' req srv = Inr (res, srv')" "status res = 200"
  shows "(\<exists>hits. res = (ok_response (lib_json L)
      (if hits \<noteq> [] then [(RESPONSE_VECTORS, JArray (map (\<lambda>h. JInt (fst h)) hits)),
          (RESPONSE_DISTANCES, JArray (map (\<lambda>h. rj_of_float (lib_json L) (snd h)) hits))] else []) response_new)\<lparr>status := 200\<rparr> \<and>
      (\<forall>h \<in> set hits. \<exists>uid \<in> S. fst h = sint uid \<and>
         filter_holds (filter_op_of_string (c_str op)) (c_str f) w (vdb_query L uid (vector_database srv)))) \<and>
    raft_stuff srv' = raft_stuff srv \<and> (\<forall>uid. vdb_query L uid (vector_database srv') = vdb_query L uid (vector_database srv)) \<and>
    collection_inv L dim F S (vector_database srv') \<and> flat_inv L dim S (vector_database srv') \<and>
    hnsw_inv ids S (vector_database srv')"
proof -
  let ?d = "rj_parse (lib_json L) (c_str (req_body req))" and ?v = "vector_database srv"
  have "status res \<noteq> 500" using assms(9) by simp
  from guarded_status [OF assms(8) [unfolded serve_routes] this] obtain res0
    where r: "searchHandler L req response_new srv = Inr (res0, srv')" "res = finish_status True res0" .
  have st: "status response_new \<noteq> 400" "status res0 \<noteq> 400"
    using assms(9) r(2) by (auto simp: finish_status_True response_new_def)
  from searchHandler_success [OF refl r(1) st] obtain ls ds v hits
    where s: "vdb_search L ?d ?v = Inr ((ls, ds), v)"
      and h: "valid_results ls ds = Inr hits" and srv': "srv' = srv\<lparr>vector_database := v\<rparr>"
      and res0: "res0 = ok_response (lib_json L)
        (if hits \<noteq> [] then [(RESPONSE_VECTORS, JArray (map (\<lambda>h. JInt (fst h)) hits)),
          (RESPONSE_DISTANCES, JArray (map (\<lambda>h. rj_of_float (lib_json L) (snd h)) hits))] else []) response_new"
    by blast
  note sound = filtered_search [OF assms(1-7) s]
  have "hits = filter (\<lambda>h. fst h \<noteq> -1) (zip ls ds)"
    using valid_results_hits [OF sound(1)] h by simp
  then have hits: "\<forall>h \<in> set hits. \<exists>uid \<in> S. fst h = sint uid \<and>
       filter_holds (filter_op_of_string (c_str op)) (c_str f) w (vdb_query L uid ?v)"
    using sound(2) by (auto dest!: set_zip_leftD)
  have res: "res = res0\<lparr>status := 200\<rparr>"
    using r(2) res0 by (simp add: finish_status_def http_simps response_new_def)
  have q: "vdb_query L uid v = vdb_query L uid ?v" for uid using sound(3) by (simp add: vdb_query_def)
  have inv: "collection_inv L dim F S v" "flat_inv L dim S v"
    using assms(4,5) sound(4,5) q by (simp_all add: collection_inv_def flat_inv_def filter_agrees_def)
  show ?thesis using hits res res0 srv' q inv sound(6) by auto
qed

text \<open>A node with an HNSW index that has a point for document 1.\<close>

definition sample_hnsw_server :: sample_server where
  "sample_hnsw_server = (sample_server True)\<lparr>vector_database := (sample_stored sample_files sample_wal)\<lparr>index_factory :=
     set_index HNSW (Hnsw_index \<lparr>hi_index = \<lparr>lg_dim = 1, lg_labels = [1]\<rparr>, max_elements = 100\<rparr>)
       (index_factory (sample_stored sample_files sample_wal))\<rparr>\<rparr>"

lemma sample_hnsw_search:
  "serve string_raft list_raft_server sample_libs POST ''/search'' \<lparr>req_body = ''{H'', req_params = []\<rparr> sample_hnsw_server =
     Inr ((ok_response table_json [(''vectors'', JArray [JInt 1]), (''distances'', JArray [JDouble 0])] response_new)
       \<lparr>status := 200\<rparr>, sample_hnsw_server)"
proof -
  let ?d = "JObject [(''vectors'', JArray [JInt 1]), (''k'', JInt 1), (''indexType'', JString ''HNSW''),
     (''filter'', JObject [(''fieldName'', JString ''a''), (''op'', JString ''=''), (''value'', JInt 2)])]"
  let ?v = "vector_database sample_hnsw_server"
  have p: "rj_parse table_json ''{H'' = ?d" by (simp add: table_json_def sample_table_def)
  have t: "index_type_of_string ''HNSW'' = HNSW" by (simp add: index_type_of_string_def constants_defs)
  have x: "getIndex HNSW (index_factory ?v) = Some (Hnsw_index \<lparr>hi_index = \<lparr>lg_dim = 1, lg_labels = [1]\<rparr>, max_elements = 100\<rparr>)"
    "getIndex FILTER (index_factory ?v) = Some (Filter_index \<lparr>intFieldFilter = [(''a'', [(2, Some [1])])]\<rparr>)"
    by (simp_all add: sample_hnsw_server_def) (simp add: sample_stored_def getIndex_def)
  have same: "?v\<lparr>index_factory := set_index HNSW (Hnsw_index \<lparr>hi_index = \<lparr>lg_dim = 1, lg_labels = [1]\<rparr>, max_elements = 100\<rparr>)
      (index_factory ?v)\<rparr> = ?v"
    by (simp add: sample_hnsw_server_def set_index_def om_insert_twice)
  have s: "vdb_search sample_libs ?d ?v = Inr (([1], [0]), ?v)"
    using same x by (simp add: vdb_search_def constants_defs json_floats_def getIndexTypeFromRequest_def t
        search_filter_bitmap_def filter_op_of_string_def getIntFieldFilterBitmap_def list_bitmap_def search_index_def
        hnsw_search_vectors_def list_hnsw_def graph_hits_def RoaringBitmapIDFilter_def Let_def)
  have h: "searchHandler sample_libs \<lparr>req_body = ''{H'', req_params = []\<rparr> response_new sample_hnsw_server =
      Inr (ok_response table_json [(''vectors'', JArray [JInt 1]), (''distances'', JArray [JDouble 0])] response_new,
        sample_hnsw_server)"
    using s by (simp add: searchHandler_def p http_simps getIndexType_object t constants_defs json_floats_def)
      (simp add: table_json_def sample_hnsw_server_def)
  show ?thesis
    unfolding serve_routes h by (simp add: guarded_def finish_status_def http_simps) (simp add: response_new_def)
qed

theorem search_answer_satisfies_filter_witness:
  "\<exists>res hits. serve string_raft list_raft_server sample_libs POST ''/search'' \<lparr>req_body = ''{H'', req_params = []\<rparr>
      sample_hnsw_server = Inr (res, sample_hnsw_server) \<and>
    res = (ok_response table_json (if hits \<noteq> [] then [(''vectors'', JArray (map (\<lambda>h. JInt (fst h)) hits)),
       (''distances'', JArray (map (\<lambda>h. rj_of_float table_json (snd h)) hits))] else []) response_new)\<lparr>status := 200\<rparr> \<and>
    list_all (\<lambda>h. fst h = 1 \<and> filter_holds EQUAL ''a'' 2
      (vdb_query sample_libs 1 (vector_database sample_hnsw_server))) hits"
proof -
  let ?v = "vector_database sample_hnsw_server"
  have ix: "getIndex FILTER (index_factory ?v) = getIndex FILTER (index_factory (sample_stored sample_files sample_wal))"
    "getIndex FLAT (index_factory ?v) = getIndex FLAT (index_factory (sample_stored sample_files sample_wal))"
    "scalar_storage ?v = scalar_storage (sample_stored sample_files sample_wal)"
    by (simp_all add: sample_hnsw_server_def)
  then have "vdb_query sample_libs uid ?v = vdb_query sample_libs uid (sample_stored sample_files sample_wal)" for uid
    by (simp add: vdb_query_def)
  then have inv: "collection_inv sample_libs 1 {''a''} {1} ?v" "flat_inv sample_libs 1 {1} ?v"
    using sample_stored_inv [of sample_files sample_wal] ix
    by (simp_all add: collection_inv_def flat_inv_def filter_agrees_def)
  have hi: "hnsw_inv (\<lambda>h. set (lg_labels h)) {1} ?v" by (simp add: hnsw_inv_def sample_hnsw_server_def)
  have r: "filter_request (rj_parse (lib_json sample_libs) (c_str (req_body \<lparr>req_body = ''{H'', req_params = []\<rparr>))) ''a'' ''='' 2"
    by (simp add: filter_request_def table_json_def sample_table_def)
  have hn: "hnsw_search_ok (lib_hn sample_libs)" "hnsw_ids_ok (lib_hn sample_libs) (\<lambda>h. set (lg_labels h))" by simp_all
  let ?res = "(ok_response table_json [(''vectors'', JArray [JInt 1]), (''distances'', JArray [JDouble 0])] response_new)
       \<lparr>status := 200\<rparr>"
  have st: "status ?res = 200" by simp
  have e: "filter_op_of_string (c_str ''='') = EQUAL" "c_str ''a'' = ''a''" "sint (1 :: u64) = 1"
    by (simp_all add: filter_op_of_string_def)
  obtain hits where "?res = (ok_response table_json (if hits \<noteq> [] then [(''vectors'', JArray (map (\<lambda>h. JInt (fst h)) hits)),
       (''distances'', JArray (map (\<lambda>h. rj_of_float table_json (snd h)) hits))] else []) response_new)\<lparr>status := 200\<rparr>"
    "\<forall>h \<in> set hits. \<exists>uid \<in> {1}. fst h = sint uid \<and> filter_holds EQUAL ''a'' 2 (vdb_query sample_libs uid ?v)"
    using search_answer_satisfies_filter [OF sample_libs_ok hn inv hi r sample_hnsw_search st, unfolded sample_libs_simps
        RESPONSE_VECTORS_def RESPONSE_DISTANCES_def e] by blast
  then show ?thesis using sample_hnsw_search by (intro exI [of _ ?res] exI [of _ hits]) (simp add: list_all_iff e)
qed

text \<open>
  C22. On a node that is not the leader an upsert is answered with success although nothing is
  stored or logged: the handler does not look at the null result of \<^verbatim>\<open>appendEntries\<close>.
\<close>

theorem upsert_on_follower_reports_success:
  assumes "rj_parse (lib_json L) (c_str (req_body req)) = JObject ms"
    and "map_of ms REQUEST_VECTORS \<noteq> None" "map_of ms REQUEST_ID = Some (JInt i)" "0 \<le> i" "i < 2 ^ 64"
    and "case map_of ms REQUEST_INDEX_TYPE of None \<Rightarrow> True | Some t \<Rightarrow> j_IsString t"
    and "\<not> isLeader G (raft_stuff srv)"
  shows "upsertHandler N G L req res srv = Inr (ok_response (lib_json L) [] res, srv)"
proof -
  have "appendEntries N G (req_body req) (raft_stuff srv) = Inr (None, raft_stuff srv)"
    using assms(7) by (simp add: isLeader_def appendEntries_def split: option.splits)
  then show ?thesis
    using upsertHandler_appends [OF assms(1,2,3) _ assms(6), of "word_of_int i" N G res srv] assms(4,5)
    by simp
qed

theorem upsert_on_follower_reports_success_witness:
  "upsertHandler string_raft list_raft_server sample_libs \<lparr>req_body = ''{Aid1C'', req_params = []\<rparr> response_new
     (sample_server False) = Inr (ok_response table_json [] response_new, sample_server False)"
proof -
  have p: "rj_parse table_json ''{Aid1C'' = sample_doc 1 2" by (simp add: table_json_def sample_table_def)
  have "\<not> isLeader list_raft_server (raft_stuff (sample_server False))"
    by (simp add: isLeader_def sample_server_def HttpServer_new_def sample_raft_stuff_def list_raft_server_def)
  then show ?thesis
    using upsert_on_follower_reports_success [of sample_libs "\<lparr>req_body = ''{Aid1C'', req_params = []\<rparr>" _ 1
        list_raft_server "sample_server False" string_raft response_new] p
    by (simp add: sample_doc_def constants_defs)
qed

text \<open>
  A query answers the stored document with the return code added, and the return code alone
  for an id without a document.
\<close>

theorem query_answers_document:
  assumes "rj_parse (lib_json L) (c_str (req_body req)) = JObject [(''id'', JInt i)]" "0 \<le> i" "i < 2 ^ 64"
  shows "(vdb_query L (word_of_int i) (vector_database srv) = JObject ms \<longrightarrow>
      queryHandler L req res srv = Inr (ok_response (lib_json L) ms res)) \<and>
    (vdb_query L (word_of_int i) (vector_database srv) = JNull \<longrightarrow>
      queryHandler L req res srv = Inr (ok_response (lib_json L) [] res))"
  using assms by (simp add: queryHandler_def constants_defs Let_def)

theorem query_answers_document_witness:
  "queryHandler sample_libs \<lparr>req_body = ''{Q'', req_params = []\<rparr> response_new (sample_server True) =
    Inr (ok_response table_json [(''id'', JInt 1), (''vectors'', JArray [JInt 1]), (''indexType'', JString ''FLAT''),
     (''a'', JInt 2)] response_new)"
proof -
  have "rj_parse table_json ''{Q'' = JObject [(''id'', JInt 1)]" by (simp add: table_json_def sample_table_def)
  moreover have "vdb_query sample_libs 1 (vector_database (sample_server True)) = sample_doc 1 2"
    by (simp add: sample_server_def HttpServer_new_def vdb_query_def sample_stored_def get_scalar_def list_rocks_def
        scalar_key_def to_string_digit digit_char_def table_json_def sample_table_def)
  ultimately show ?thesis
    using query_answers_document [of sample_libs "\<lparr>req_body = ''{Q'', req_params = []\<rparr>" 1 "sample_server True"]
    by (simp add: sample_doc_def)
qed

text \<open>
  No exception gets past the HTTP library: serving a request either answers, or ends the
  process with a failed assertion or another abort.
\<close>

theorem serve_answers_or_aborts:
  "(\<exists>res srv'. serve N G L m path req srv = Inr (res, srv') \<and> status res \<noteq> -1) \<or>
   (\<exists>a. serve N G L m path req srv = Inl (Abort a))"
proof -
  have g: "(\<exists>res srv'. guarded r s = Inr (res, srv') \<and> status res \<noteq> -1) \<or> (\<exists>a. guarded r s = Inl (Abort a))"
    for r :: "(response \<times> 's) res" and s
    by (auto simp: guarded_def finish_status_def response_new_def split: sum.split failure.split)
  show ?thesis
  proof (cases "map_of routes (m, path)")
    case None
    then show ?thesis by (simp add: serve_def finish_status_def response_new_def)
  next
    case (Some h)
    then show ?thesis
      using g by (cases h) (simp_all add: serve_def run_handler_def split_beta)
  qed
qed

text \<open>Vectors the loops of the sources can read: an array of numbers.\<close>

definition number_array :: "json \<Rightarrow> bool" where
  "number_array v \<longleftrightarrow> (\<exists>xs. v = JArray xs \<and> (\<forall>x \<in> set xs. (\<exists>i. x = JInt i) \<or> (\<exists>y. x = JDouble y)))"

lemma json_floats_bad:
  assumes "\<not> number_array v"
  shows "\<exists>w \<in> {''IsArray'', ''IsNumber''}. json_floats J v = Inl (Abort (Assertion_failed w))"
proof (cases v)
  case (JArray xs)
  have "mapM (j_GetFloat J) xs = Inl (Abort (Assertion_failed ''IsNumber''))"
    if "\<exists>x \<in> set xs. (\<forall>i. x \<noteq> JInt i) \<and> (\<forall>y. x \<noteq> JDouble y)"
    using that
  proof (induction xs)
    case Nil
    then show ?case by simp
  next
    case (Cons x xs)
    then show ?case by (cases x) (auto simp: json_assert_def)
  qed
  then show ?thesis using assms JArray by (auto simp: json_floats_def number_array_def)
qed (simp_all add: json_floats_def json_assert_def)

lemma upsert_needs_numbers:
  assumes "upsert L uid d t v = Inr v'" "j_at d ''vectors'' = Inr vs"
  shows "number_array vs"
proof (rule ccontr)
  assume "\<not> number_array vs"
  from json_floats_bad [OF this, of "lib_json L"] show False
    using assms by (auto simp: upsert_def insert_new_vector_def Let_def res_simps)
qed

lemma replay_needs_numbers:
  assumes "replay_log L rs v = Inr v'" "(idx, ''upsert'', content) \<in> set rs" "CHR ''|'' \<notin> set content"
    and "j_at (rj_parse (lib_json L) (c_str content)) ''vectors'' = Inr vs"
  shows "number_array vs"
proof -
  obtain as bs where rs: "rs = as @ (idx, ''upsert'', content) # bs" using assms(2) by (auto simp: in_set_conv_decomp)
  then obtain w w' where "replay_record L ''upsert'' (rj_parse (lib_json L) (c_str content)) w = Inr w'"
    using assms(1,3) by (auto simp: replay_log_append res_simps)
  then show ?thesis
    using upsert_needs_numbers [OF _ assms(4)] by (auto simp: replay_record_def res_simps)
qed

text \<open>
  C23. The checks look at which members a request has and not at their types. Let \<open>vectors\<close> be
  anything but an array of numbers. A /search and an /insert that pass the checks end the process in
  a failed assertion of rapidjson. An /upsert is handed to Raft and answered with status 200; but no
  commit of that document returns, on any node and in any state of the database, and once its line
  is in the log after the last snapshot no restart of the node gets past it.
\<close>

theorem wrong_vectors_kill_node:
  fixes srv :: "('b, 'd, 'f, 'h, 'e, 'c, 't, 'r) HttpServer"
  assumes "rj_parse (lib_json L) (c_str (req_body req)) = JObject ms"
    and "map_of ms ''vectors'' = Some vs" "\<not> number_array vs"
  shows "(members_ok ms [''vectors'', ''k''] \<longrightarrow> (\<exists>w \<in> {''IsArray'', ''IsNumber''}.
      serve N G L POST ''/search'' req srv = Inl (Abort (Assertion_failed w)))) \<and>
    (members_ok ms [''vectors'', ''id''] \<longrightarrow> (\<exists>w \<in> {''IsArray'', ''IsNumber''}.
      serve N G L POST ''/insert'' req srv = Inl (Abort (Assertion_failed w)))) \<and>
    (\<forall>uid r x. members_ok ms [''vectors'', ''id''] \<and> j_GetUint64 (the (map_of ms ''id'')) = Inr uid \<and>
      appendEntries N G (req_body req) (raft_stuff srv) = Inr (r, x) \<longrightarrow>
      (\<exists>res. serve N G L POST ''/upsert'' req srv = Inr (res, srv\<lparr>raft_stuff := x\<rparr>) \<and> status res = 200)) \<and>
    (\<forall>data idx sm v r. app_content N data = Inr (req_body req) \<longrightarrow> sm_commit N L idx data (sm, v) \<noteq> Inr r) \<and>
    (\<forall>v rs idx v'. at_log (files v) (persistence v) rs \<and> (idx, ''upsert'', req_body req) \<in> set rs \<and>
      CHR ''|'' \<notin> set (req_body req) \<and> last_snapshot_id (persistence v) < idx \<longrightarrow>
      reloadDatabase L v \<noteq> Inr v')"
proof -
  let ?d = "rj_parse (lib_json L) (c_str (req_body req))"
  have at: "j_at ?d ''vectors'' = Inr vs" using assms(1,2) by simp
  obtain w where w: "w \<in> {''IsArray'', ''IsNumber''}" "json_floats (lib_json L) vs = Inl (Abort (Assertion_failed w))"
    using json_floats_bad [OF assms(3), of "lib_json L"] by blast
  have search: "searchHandler L req res srv = Inl (Abort (Assertion_failed w))" if "members_ok ms [''vectors'', ''k'']" for res
    using that assms(1,2) w(2)
    by (simp add: searchHandler_def Let_def isRequestValid_members_ok REQUEST_VECTORS_def)
  have insert: "insertHandler L req res srv = Inl (Abort (Assertion_failed w))" if "members_ok ms [''vectors'', ''id'']" for res
    using that assms(1,2) w(2)
    by (simp add: insertHandler_def Let_def isRequestValid_members_ok REQUEST_VECTORS_def)
  have upsert: "upsertHandler N G L req response_new srv = Inr (ok_response (lib_json L) [] response_new, srv\<lparr>raft_stuff := x\<rparr>)"
    if "members_ok ms [''vectors'', ''id'']" "j_GetUint64 (the (map_of ms ''id'')) = Inr uid"
      "appendEntries N G (req_body req) (raft_stuff srv) = Inr (r, x)" for uid r x
    using that assms(1) upsertHandler_appends [of L req ms _ uid N G response_new srv]
    by (auto simp: members_ok_def constants_defs split: option.splits)
  have commit: False if "app_content N data = Inr (req_body req)" "sm_commit N L idx data (sm, v) = Inr r" for data idx sm v r
    using that upsert_needs_numbers [OF _ at] assms(3) by (auto simp: sm_commit_def Let_def res_simps)
  have reload: False
    if r: "at_log (files v) (persistence v) rs" "(idx, ''upsert'', req_body req) \<in> set rs" "CHR ''|'' \<notin> set (req_body req)"
      "last_snapshot_id (persistence v) < idx" "reloadDatabase L v = Inr v'" for v rs idx v'
  proof -
    let ?new = "filter (\<lambda>r. last_snapshot_id (persistence v) < fst r) rs"
    obtain f v1 where "replay_log L ?new (v\<lparr>index_factory := f\<rparr>) = Inr v1"
      using reloadDatabase_log [OF r(1)] r(5) by (auto simp: res_simps)
    moreover have "(idx, ''upsert'', req_body req) \<in> set ?new" using r(2,4) by simp
    ultimately show False using replay_needs_numbers [OF _ _ r(3) at] assms(3) by blast
  qed
  have "\<exists>res. serve N G L POST ''/upsert'' req srv = Inr (res, srv\<lparr>raft_stuff := x\<rparr>) \<and> status res = 200"
    if "members_ok ms [''vectors'', ''id'']" "j_GetUint64 (the (map_of ms ''id'')) = Inr uid"
      "appendEntries N G (req_body req) (raft_stuff srv) = Inr (r, x)" for uid r x
    unfolding serve_routes upsert [OF that]
    by (simp add: guarded_def finish_status_True http_simps response_new_def)
  moreover have "serve N G L POST ''/search'' req srv = Inl (Abort (Assertion_failed w))" if "members_ok ms [''vectors'', ''k'']"
    unfolding serve_routes search [OF that] by (simp add: guarded_def)
  moreover have "serve N G L POST ''/insert'' req srv = Inl (Abort (Assertion_failed w))" if "members_ok ms [''vectors'', ''id'']"
    unfolding serve_routes insert [OF that] by (simp add: guarded_def)
  ultimately show ?thesis using w(1) commit reload by blast
qed

text \<open>The same body as a search, as an upsert, and as a line of the log.\<close>

theorem wrong_vectors_kill_node_witness:
  "(\<exists>w. serve string_raft list_raft_server sample_libs POST ''/search'' \<lparr>req_body = ''{B'', req_params = []\<rparr>
      (sample_server True) = Inl (Abort (Assertion_failed w))) \<and>
   (\<exists>res x. serve string_raft list_raft_server sample_libs POST ''/upsert'' \<lparr>req_body = ''{B'', req_params = []\<rparr>
      (sample_server True) = Inr (res, (sample_server True)\<lparr>raft_stuff := x\<rparr>) \<and> status res = 200) \<and>
   (\<forall>v'. reloadDatabase sample_libs
     (sample_db [] (fs_write ''w'' (log_text [(11, ''upsert'', ''{B'')]) sample_files) sample_wal) \<noteq> Inr v')"
proof -
  let ?ms = "[(''vectors'', JInt 1), (''k'', JInt 1), (''id'', JInt 5)]" and ?req = "\<lparr>req_body = ''{B'', req_params = []\<rparr>"
  let ?v = "sample_db [] (fs_write ''w'' (log_text [(11, ''upsert'', ''{B'')]) sample_files) sample_wal"
  have p: "rj_parse (lib_json sample_libs) (c_str (req_body ?req)) = JObject ?ms"
    by (simp add: table_json_def sample_table_def)
  have bad: "map_of ?ms ''vectors'' = Some (JInt 1)" "\<not> number_array (JInt 1)" by (simp_all add: number_array_def)
  have m: "members_ok ?ms [''vectors'', ''k'']" "members_ok ?ms [''vectors'', ''id'']" by (simp_all add: members_ok_def)
  have at: "at_log (files ?v) (persistence ?v) [(11, ''upsert'', ''{B'')]" "last_snapshot_id (persistence ?v) < 11"
    by (simp_all add: at_log_def sample_db_def sample_wal_def wal_data_def record_ok_def)
  have "isLeader list_raft_server (raft_stuff (sample_server True))"
    by (simp add: isLeader_def sample_server_def HttpServer_new_def sample_raft_stuff_def list_raft_server_def)
  then obtain r x where a: "appendEntries string_raft list_raft_server ''{B'' (raft_stuff (sample_server True)) = Inr (r, x)"
    using put_str_content [OF string_raft_put_str, of "''{B''"]
    by (auto simp: appendEntries_def isLeader_def split_beta Let_def split: option.splits)
  note t = wrong_vectors_kill_node [OF p bad, of string_raft list_raft_server "sample_server True"]
  have id: "j_GetUint64 (the (map_of ?ms ''id'')) = Inr 5" by simp
  have in_log: "(11 :: u64, ''upsert'', req_body ?req) \<in> set [(11, ''upsert'', ''{B'')]" "CHR ''|'' \<notin> set (req_body ?req)"
    by simp_all
  from t m id a have "\<exists>res. serve string_raft list_raft_server sample_libs POST ''/upsert'' ?req (sample_server True) =
      Inr (res, (sample_server True)\<lparr>raft_stuff := x\<rparr>) \<and> status res = 200" by simp
  moreover from t m have "\<exists>w. serve string_raft list_raft_server sample_libs POST ''/search'' ?req (sample_server True) =
      Inl (Abort (Assertion_failed w))" by blast
  moreover from t at in_log have "\<forall>v'. reloadDatabase sample_libs ?v \<noteq> Inr v'" by blast
  ultimately show ?thesis by blast
qed

end
