(* ===== verification/Type_Safety.thy ===== *)
theory Type_Safety
  imports Vector_Recovery
begin

text \<open>
  The index factory keeps its indexes as \<^verbatim>\<open>void*\<close> and the database casts them back by the type
  it asked for. This theory is the type discipline behind the casts: in a database whose factory
  is typed (every entry has the type of its key, the three indexes are there, no bitmap is null)
  no request uses a null pointer or a pointer of the wrong type, and every request leaves the
  database typed.
\<close>

named_theorems safe_intros

section \<open>Results without pointer faults\<close>

definition pointer_fault :: "failure \<Rightarrow> bool" where
  "pointer_fault e \<longleftrightarrow> e = Abort Bad_cast \<or> (\<exists>what. e = Abort (Null_dereference what))"

text \<open>\<open>safe P r\<close>: the result is no pointer fault, and where there is a value it satisfies \<open>P\<close>.\<close>

definition safe :: "('a \<Rightarrow> bool) \<Rightarrow> 'a res \<Rightarrow> bool" where
  "safe P r = (case r of Inl e \<Rightarrow> \<not> pointer_fault e | Inr x \<Rightarrow> P x)"

lemma pointer_fault_simps [simp]:
  "\<not> pointer_fault (Throw e)" "pointer_fault (Abort Bad_cast)" "pointer_fault (Abort (Null_dereference w))"
  "\<not> pointer_fault (Abort (Assertion_failed w))" "\<not> pointer_fault (Abort (Out_of_bounds w))"
  "\<not> pointer_fault (Abort Division_by_zero)" "\<not> pointer_fault (Abort Signed_overflow)"
  by (simp_all add: pointer_fault_def)

lemma safe_simps [simp]: "safe P (Inr x) = P x" "safe P (Inl e) = (\<not> pointer_fault e)"
  by (simp_all add: safe_def)

lemma safe_andthen: "safe P m \<Longrightarrow> (\<And>x. P x \<Longrightarrow> safe Q (f x)) \<Longrightarrow> safe Q (andthen m f)"
  by (cases m) auto

lemma safe_mono: "safe P m \<Longrightarrow> (\<And>x. P x \<Longrightarrow> Q x) \<Longrightarrow> safe Q m"
  by (cases m) auto

lemma safe_any: "safe (\<lambda>_. True) m \<Longrightarrow> (\<And>x. safe Q (f x)) \<Longrightarrow> safe Q (andthen m f)"
  by (rule safe_andthen)

lemma safe_foldM: "P s \<Longrightarrow> (\<And>s x. P s \<Longrightarrow> safe P (f s x)) \<Longrightarrow> safe P (foldM f s xs)"
  by (induction xs arbitrary: s) (auto intro: safe_andthen)

lemma safe_mapM: "(\<And>x. x \<in> set xs \<Longrightarrow> safe (\<lambda>_. True) (f x)) \<Longrightarrow> safe (\<lambda>_. True) (mapM f xs)"
  by (induction xs) (auto intro!: safe_any)

lemma safe_throwing [simp]: "safe P (throwing r) \<longleftrightarrow> (\<forall>x. r = Inr x \<longrightarrow> P x)"
  by (cases r) auto

lemma safe_json [safe_intros]:
  "safe (\<lambda>_. True) (json_assert w)" "safe (\<lambda>_. True) (j_members d)" "safe (\<lambda>_. True) (j_at d n)"
  "safe (\<lambda>_. True) (j_HasMember d n)" "safe (\<lambda>_. True) (j_GetString d)" "safe (\<lambda>_. True) (j_GetArray d)"
  "safe (\<lambda>_. True) (j_GetInt d)" "safe (\<lambda>_. True) (j_GetInt64 d)" "safe (\<lambda>_. True) (j_GetUint64 d)"
  "safe (\<lambda>_. True) (j_GetFloat J d)" "safe (\<lambda>_. True) (json_floats J d)"
proof -
  have a: "safe (\<lambda>_. True) (json_assert w :: 'x res)" for w by (simp add: json_assert_def)
  then show "safe (\<lambda>_. True) (json_assert w :: 'x res)" .
  have m: "safe (\<lambda>_. True) (j_members d)" for d by (cases d) (simp_all add: a)
  then show "safe (\<lambda>_. True) (j_members d)" .
  show "safe (\<lambda>_. True) (j_at d n)" "safe (\<lambda>_. True) (j_HasMember d n)"
    unfolding j_at_def j_HasMember_def by (auto intro!: safe_any m simp: a split: option.split)
  have g: "safe (\<lambda>_. True) (j_GetArray d)" "safe (\<lambda>_. True) (j_GetFloat J d)" for d J
    by (cases d, simp_all add: a)+
  then show "safe (\<lambda>_. True) (j_GetArray d)" "safe (\<lambda>_. True) (j_GetFloat J d)" by blast+
  show "safe (\<lambda>_. True) (j_GetString d)" "safe (\<lambda>_. True) (j_GetInt d)" "safe (\<lambda>_. True) (j_GetInt64 d)"
    "safe (\<lambda>_. True) (j_GetUint64 d)"
    by (cases d, simp_all add: a)+
  show "safe (\<lambda>_. True) (json_floats J d)"
    unfolding json_floats_def by (intro safe_any g safe_mapM)
qed

section \<open>Typed factories\<close>

definition indexes_typed :: "('b, 'f, 'h) IndexFactory \<Rightarrow> bool" where
  "indexes_typed x \<longleftrightarrow> factory_ok x \<and> getIndex FLAT x \<noteq> None \<and> getIndex HNSW x \<noteq> None \<and>
     (\<exists>fi. getIndex FILTER x = Some (Filter_index fi) \<and> fi_ok fi)"

definition db_typed :: "('b, 'd, 'f, 'h) VectorDatabase \<Rightarrow> bool" where
  "db_typed v \<longleftrightarrow> indexes_typed (index_factory v)"

lemma typed_flat:
  assumes "indexes_typed x"
  obtains i where "getIndex FLAT x = Some (Flat_index i)"
proof -
  obtain i where "getIndex FLAT x = Some i" using assms by (auto simp: indexes_typed_def)
  moreover have "entry_typed (FLAT, i)" using assms calculation getIndex_typed by (auto simp: indexes_typed_def)
  ultimately show ?thesis using that by (cases i) auto
qed

lemma typed_hnsw:
  assumes "indexes_typed x"
  obtains i where "getIndex HNSW x = Some (Hnsw_index i)"
proof -
  obtain i where "getIndex HNSW x = Some i" using assms by (auto simp: indexes_typed_def)
  moreover have "entry_typed (HNSW, i)" using assms calculation getIndex_typed by (auto simp: indexes_typed_def)
  ultimately show ?thesis using that by (cases i) auto
qed

lemma typed_filter:
  assumes "indexes_typed x"
  obtains fi where "getIndex FILTER x = Some (Filter_index fi)" "fi_ok fi"
  using assms by (auto simp: indexes_typed_def)

lemma safe_as_flat: "indexes_typed x \<Longrightarrow> safe (\<lambda>_. True) (as_flat (getIndex FLAT x))"
  by (erule typed_flat) simp

lemma safe_as_hnsw: "indexes_typed x \<Longrightarrow> safe (\<lambda>_. True) (as_hnsw (getIndex HNSW x))"
  by (erule typed_hnsw) simp

lemma safe_as_filter: "indexes_typed x \<Longrightarrow> safe fi_ok (as_filter (getIndex FILTER x))"
  by (erule typed_filter) simp

lemma typed_set_index:
  assumes "indexes_typed x"
  shows "indexes_typed (set_index FLAT (Flat_index i) x)" "indexes_typed (set_index HNSW (Hnsw_index h) x)"
    and "fi_ok fi \<Longrightarrow> indexes_typed (set_index FILTER (Filter_index fi) x)"
  using assms by (auto simp: indexes_typed_def factory_ok_set_index)

section \<open>The wrappers\<close>

lemma safe_wrappers [safe_intros]:
  "safe (\<lambda>_. True) (faiss_insert_vectors F d l i)" "safe (\<lambda>_. True) (faiss_remove_vectors F ids i)"
  "safe (\<lambda>_. True) (faiss_search_vectors F R q k bm i)" "safe (\<lambda>_. True) (hnsw_insert_vectors H d l h)"
  "safe (\<lambda>_. True) (hnsw_search_vectors H R q k bm ef h)"
  unfolding faiss_insert_vectors_def faiss_remove_vectors_def faiss_search_vectors_def
    hnsw_insert_vectors_def hnsw_search_vectors_def Let_def
  by (auto intro!: safe_any split: option.split)

lemma safe_update: "fi_ok fi \<Longrightarrow> safe fi_ok (updateIntFieldFilter R f old new uid fi)"
  using update_bitmap_total [of fi R f old new uid] by auto

lemma safe_bitmap:
  assumes "fi_ok fi"
  shows "safe (\<lambda>_. True) (getIntFieldFilterBitmap R f op w b fi)"
proof (cases "map_of (intFieldFilter fi) f")
  case None
  then show ?thesis by (simp add: getIntFieldFilterBitmap_def)
next
  case (Some vm)
  then have vm: "vm_ok vm" using assms by (auto simp: fi_ok_def)
  have "safe (\<lambda>_. True) (foldM (\<lambda>r (k, p). if k \<noteq> w then andthen (deref ''bitmap'' p) (\<lambda>b. Inr (rb_or_inplace R r b))
      else Inr r) b m)" if "\<forall>(k, p) \<in> set m. p \<noteq> None" for m
    using that by (induction m arbitrary: b) auto
  note all = this [OF vm_ok_no_null [OF vm]]
  have "safe (\<lambda>_. True) (andthen (deref ''bitmap'' p) (\<lambda>c. Inr (rb_or_inplace R b c)))"
    if "map_of vm w = Some p" for p
    using that vm by (cases p) (auto simp: vm_ok_def)
  then show ?thesis
    using Some all by (cases op) (auto simp: getIntFieldFilterBitmap_def split: option.split)
qed

lemma safe_serialize:
  assumes "fi_ok fi"
  shows "safe (\<lambda>_. True) (serializeIntFieldFilter R fi)"
proof -
  have e: "safe (\<lambda>_. True) (serialize_entry R f (k, p))" if "vm_ok vm" "(k, p) \<in> set vm" for f k p vm
    using vm_ok_mem [OF that] by (auto simp: serialize_entry_def)
  have "safe (\<lambda>_. True) (andthen (mapM (serialize_entry R f) vm) (\<lambda>ls. Inr (concat ls)))"
    if "(f, vm) \<in> set (intFieldFilter fi)" for f vm
    using e fi_ok_mem [OF assms that] by (intro safe_any safe_mapM) auto
  then show ?thesis unfolding serializeIntFieldFilter_def by (intro safe_any safe_mapM) auto
qed

section \<open>The database\<close>

lemma safe_remove_old: "indexes_typed x \<Longrightarrow> safe indexes_typed (remove_old_vector L uid t e x)"
  unfolding remove_old_vector_def
  by (auto intro!: safe_any safe_intros safe_as_flat typed_set_index split: IndexType.split)

lemma safe_insert_new: "indexes_typed x \<Longrightarrow> safe indexes_typed (insert_new_vector L uid t d x)"
  unfolding insert_new_vector_def
  by (auto intro!: safe_any safe_intros safe_as_flat safe_as_hnsw typed_set_index split: IndexType.split)

lemma safe_old_value: "safe (\<lambda>_. True) (old_field_value e f)"
  unfolding old_field_value_def by (auto intro!: safe_any safe_intros)

lemma safe_update_field: "indexes_typed x \<Longrightarrow> safe indexes_typed (update_field L uid e x it)"
  unfolding update_field_def Let_def
  by (auto intro!: safe_any [OF safe_json(8)] safe_any [OF safe_old_value] safe_andthen [OF safe_as_filter]
      safe_andthen [OF safe_update] typed_set_index)

lemma safe_upsert: "db_typed v \<Longrightarrow> safe db_typed (upsert L uid d t v)"
  unfolding upsert_def Let_def db_typed_def
  by (intro safe_andthen [OF safe_remove_old] safe_andthen [OF safe_insert_new] safe_any [OF safe_json(2)]
      safe_andthen [OF safe_foldM]) (auto intro: safe_update_field)

lemma safe_index_type: "safe (\<lambda>_. True) (getIndexTypeFromRequest d)"
  unfolding getIndexTypeFromRequest_def by (auto intro!: safe_any safe_intros)

lemma safe_filter_bitmap: "indexes_typed x \<Longrightarrow> safe (\<lambda>_. True) (search_filter_bitmap L d x)"
  unfolding search_filter_bitmap_def
  by (auto intro!: safe_any [OF safe_json(3)] safe_any [OF safe_json(4)] safe_any [OF safe_json(5)]
      safe_any [OF safe_json(8)] safe_andthen [OF safe_as_filter] safe_any [OF safe_bitmap])

lemma safe_search_index:
  assumes "indexes_typed x"
  shows "safe (\<lambda>(r, x'). indexes_typed x') (search_index L t q k bm x)"
proof (cases t)
  case FLAT
  then show ?thesis unfolding search_index_def
    by (auto intro!: safe_any [OF safe_as_flat] safe_any [OF safe_wrappers(3)] assms)
next
  case HNSW
  then show ?thesis unfolding search_index_def
    by (auto intro!: safe_any [OF safe_as_hnsw] safe_any [OF safe_wrappers(5)] typed_set_index assms)
qed (simp_all add: search_index_def assms)

lemma safe_search:
  assumes "db_typed v"
  shows "safe (\<lambda>(r, v'). db_typed v') (vdb_search L d v)"
proof -
  have x: "indexes_typed (index_factory v)" using assms by (simp add: db_typed_def)
  show ?thesis
    unfolding vdb_search_def db_typed_def
    by (intro safe_any [OF safe_json(3)] safe_any [OF safe_json(11)] safe_any [OF safe_json(7)]
        safe_any [OF safe_index_type] safe_any [OF safe_filter_bitmap [OF x]]
        safe_andthen [OF safe_search_index [OF x]]) auto
qed

lemma safe_save_entry:
  assumes "entry_typed e" "\<forall>fi. snd e = Filter_index fi \<longrightarrow> fi_ok fi"
  shows "safe (\<lambda>_. True) (save_entry L p dfs e)"
proof -
  obtain t i where e: "e = (t, i)" by (cases e)
  obtain db fs where dfs: "dfs = (db, fs)" by (cases dfs)
  show ?thesis
    using assms
    by (cases t; cases i)
       (auto simp: e dfs save_entry_def faiss_saveIndex_def FilterIndex_saveIndex_def Let_def intro!: safe_any safe_serialize)
qed

lemma safe_save:
  assumes "indexes_typed x"
  shows "safe (\<lambda>_. True) (IndexFactory_saveIndex L p x dfs)"
proof -
  have "safe (\<lambda>_. True) (save_entry L p dfs e)" if "e \<in> set (index_map x)" for dfs e
  proof (rule safe_save_entry)
    show t: "entry_typed e" using assms that by (auto simp: indexes_typed_def factory_ok_def list_all_iff)
    show "\<forall>fi. snd e = Filter_index fi \<longrightarrow> fi_ok fi"
    proof (intro allI impI)
      fix fi
      assume fi: "snd e = Filter_index fi"
      then have "fst e = FILTER" using t by (cases e; cases "fst e") auto
      then have "getIndex FILTER x = Some (Filter_index fi)"
        using that fi assms om_lookup_iff_mem [of "index_map x" FILTER "Filter_index fi"]
        by (cases e) (auto simp: getIndex_def indexes_typed_def factory_ok_def)
      then show "fi_ok fi" using assms by (auto simp: indexes_typed_def)
    qed
  qed
  then have "safe (\<lambda>_. True) (foldM (save_entry L p) dfs m)" if "set m \<subseteq> set (index_map x)" for m
    using that by (induction m arbitrary: dfs) (auto intro!: safe_any)
  then show ?thesis by (simp add: IndexFactory_saveIndex_def)
qed

lemma safe_snapshot:
  assumes "db_typed v"
  shows "safe (\<lambda>_. True) (snd (vdb_takeSnapshot L v))" "db_typed (fst (vdb_takeSnapshot L v))"
proof -
  have s: "safe (\<lambda>_. True) (IndexFactory_saveIndex L p (index_factory v) dfs)" for p dfs
    using assms safe_save by (simp add: db_typed_def)
  show "safe (\<lambda>_. True) (snd (vdb_takeSnapshot L v))"
    using s [of "''snapshots_''" "(scalar_storage v, files v)"]
    by (auto simp: vdb_takeSnapshot_def Persistence_takeSnapshot_def Let_def split: sum.split prod.split)
  show "db_typed (fst (vdb_takeSnapshot L v))"
    using assms by (simp add: vdb_takeSnapshot_def Persistence_takeSnapshot_def Let_def db_typed_def
        split: sum.split prod.split)
qed

lemma safe_replay: "db_typed v \<Longrightarrow> safe db_typed (replay_record L op d v)"
  unfolding replay_record_def
  by (auto intro!: safe_any safe_intros safe_index_type safe_upsert)


section \<open>Reloading\<close>

lemma safe_stoull: "safe (\<lambda>_. True) (stoull s)"
  by (auto simp: stoull_def split: option.split)

lemma safe_read_loop: "safe (\<lambda>_. True) (read_wal_loop J ls inc op doc line wal)"
proof (induction J ls inc op doc line wal rule: read_wal_loop.induct)
  case (1 J ls inc op doc line wal)
  obtain line' wal' ok where g: "getline CHR 0x0A line wal = (line', wal', ok)" by (cases "getline CHR 0x0A line wal")
  obtain i op' d where p: "split_wal_line op line' = (i, op', d)" by (cases "split_wal_line op line'")
  note ih = 1 [OF g [symmetric] refl _ p [symmetric] refl refl _ refl]
  show ?case
  proof (cases "stoull i")
    case (Inl e)
    then show ?thesis using safe_stoull [of i] by (subst read_wal_loop.simps) (simp add: g p)
  next
    case (Inr n)
    then show ?thesis using ih by (subst read_wal_loop.simps) (simp add: g p Let_def)
  qed
qed

lemma safe_read_next: "safe (\<lambda>_. True) (readNextWALLog J op doc fs p)"
  unfolding readNextWALLog_def by (auto intro!: safe_any [OF safe_read_loop])

lemma db_typed_persistence [simp]: "db_typed (v\<lparr>persistence := p\<rparr>) = db_typed v"
  by (simp add: db_typed_def)

lemma safe_reload_loop: "db_typed v \<Longrightarrow> safe db_typed (reload_loop L op doc v)"
proof (induction L op doc v rule: reload_loop.induct)
  case (1 L op doc v)
  show ?case
  proof (cases "op = []")
    case True
    then show ?thesis using 1(2) by (simp add: reload_loop.simps)
  next
    case False
    have "safe db_typed (andthen (readNextWALLog (lib_json L) [] JNull (files v1) (persistence v1))
        (\<lambda>(op, doc, p). reload_loop L op doc (v1\<lparr>persistence := p\<rparr>)))"
      if v1: "replay_record L op doc v = Inr v1" for v1
    proof -
      have t: "db_typed v1" using safe_replay [OF 1(2), of L op doc] v1 by simp
      show ?thesis
      proof (cases "readNextWALLog (lib_json L) [] JNull (files v1) (persistence v1)")
        case (Inl e)
        then show ?thesis using safe_read_next [of "lib_json L" "[]" JNull "files v1" "persistence v1"] by simp
      next
        case (Inr r)
        then obtain op' doc' p where r: "readNextWALLog (lib_json L) [] JNull (files v1) (persistence v1) = Inr (op', doc', p)"
          by (cases r) auto
        show ?thesis using 1(1) [OF False v1 r refl refl] r t by simp
      qed
    qed
    moreover have "safe (\<lambda>_. True) (replay_record L op doc v)" using safe_replay [OF 1(2)] by (rule safe_mono) simp
    ultimately show ?thesis
      using False by (subst reload_loop.simps) (cases "replay_record L op doc v"; simp)
  qed
qed

text \<open>
  Loading a snapshot. The text of the filter index gives every value a bitmap, the null pointer
  where CRoaring cannot read the bytes; \<open>snapshot_readable\<close> says it can read them all. Nothing else
  about the snapshot is needed: files and texts that make the load throw are allowed.
\<close>

definition null_free :: "'b filter_index \<Rightarrow> bool" where
  "null_free fi \<longleftrightarrow> (\<forall>f vm w. map_of (intFieldFilter fi) f = Some vm \<longrightarrow> map_of vm w \<noteq> Some None)"

definition snapshot_readable :: "('b, 'd, 'f, 'h) libs \<Rightarrow> ('b, 'd, 'f, 'h) VectorDatabase \<Rightarrow> bool" where
  "snapshot_readable L v \<longleftrightarrow>
     (\<forall>x fi. Persistence_loadSnapshot L (scalar_storage v) (files v) (index_factory v) = Inr x \<longrightarrow>
        getIndex FILTER x = Some (Filter_index fi) \<longrightarrow> null_free fi)"

definition fi_ordered :: "'b filter_index \<Rightarrow> bool" where
  "fi_ordered fi \<longleftrightarrow> om_ok (intFieldFilter fi) \<and> (\<forall>f vm. map_of (intFieldFilter fi) f = Some vm \<longrightarrow> om_ok vm)"

lemma fi_ok_iff: "fi_ok fi \<longleftrightarrow> fi_ordered fi \<and> null_free fi"
  by (auto simp: fi_ok_def fi_ordered_def null_free_def vm_ok_def)

lemma set_bitmap_ordered: "fi_ordered fi \<Longrightarrow> fi_ordered (set_bitmap f v b fi)"
  by (auto simp: fi_ordered_def set_bitmap_def value_map_of_def split: option.split)

lemma safe_stol: "safe (\<lambda>_. True) (stol s)"
  by (auto simp: stol_def sto_signed_def split: option.split)

lemma safe_deserialize_lines:
  "fi_ordered fi \<Longrightarrow> safe fi_ordered (deserialize_lines R line iss fi)"
proof (induction R line iss fi rule: deserialize_lines.induct)
  case (1 R line iss fi)
  obtain line' iss' ok where g: "getline CHR 0x0A line iss = (line', iss', ok)" by (cases "getline CHR 0x0A line iss")
  have l: "safe fi_ordered (deserialize_line R line' fi)"
    unfolding deserialize_line_def Let_def split_beta
    using 1(2) by (auto intro!: safe_any [OF safe_stol] set_bitmap_ordered)
  show ?case
  proof (cases ok)
    case False
    then show ?thesis using 1(2) by (subst deserialize_lines.simps) (simp add: g)
  next
    case True
    then show ?thesis
      using l 1(1) [OF g [symmetric] refl]
      by (subst deserialize_lines.simps) (cases "deserialize_line R line' fi"; simp add: g)
  qed
qed

definition entry_ordered :: "IndexType \<times> ('b, 'f, 'h) index \<Rightarrow> bool" where
  "entry_ordered e \<longleftrightarrow> entry_typed e \<and> (\<forall>fi. snd e = Filter_index fi \<longrightarrow> fi_ordered fi)"

lemma safe_load_vector_index:
  "safe (\<lambda>_. True) (faiss_loadIndex F p fs i)" "safe (\<lambda>_. True) (hnsw_loadIndex H p fs h)"
  unfolding faiss_loadIndex_def hnsw_loadIndex_def by (auto intro!: safe_any split: option.split)

lemma safe_load_entry:
  assumes "entry_ordered e"
  shows "safe (\<lambda>e'. entry_ordered e' \<and> fst e' = fst e) (load_entry L p db fs e)"
proof -
  obtain t i where e: "e = (t, i)" by (cases e)
  have d: "safe fi_ordered (FilterIndex_loadIndex R K key db fi)" if "fi_ordered fi"
    for R K key and db :: 'd and fi
    using safe_deserialize_lines [OF that] by (simp add: FilterIndex_loadIndex_def deserializeIntFieldFilter_def)
  show ?thesis
    using assms
    by (cases t; cases i)
       (auto simp: e load_entry_def Let_def entry_ordered_def
         intro!: safe_andthen [OF d] safe_any [OF safe_load_vector_index(1)] safe_any [OF safe_load_vector_index(2)])
qed

lemma safe_load_entries:
  "list_all entry_ordered m \<Longrightarrow>
     safe (\<lambda>m'. list_all entry_ordered m' \<and> map fst m' = map fst m) (mapM (load_entry L p db fs) m)"
proof (induction m)
  case Nil
  then show ?case by simp
next
  case (Cons e m)
  then show ?case
    using safe_load_entry [of e L p db fs] by (auto intro!: safe_andthen [of _ "load_entry L p db fs e"] elim!: safe_andthen)
qed

lemma safe_load_snapshot:
  assumes "db_typed v" "snapshot_readable L v"
  shows "safe indexes_typed (Persistence_loadSnapshot L (scalar_storage v) (files v) (index_factory v))"
proof -
  let ?x = "index_factory v"
  have t: "indexes_typed ?x" using assms(1) by (simp add: db_typed_def)
  then have ok: "om_ok (index_map ?x)" "list_all entry_typed (index_map ?x)"
    by (simp_all add: indexes_typed_def factory_ok_def)
  have "entry_ordered e" if "e \<in> set (index_map ?x)" for e
  proof -
    have "entry_typed e" using ok(2) that by (simp add: list_all_iff)
    moreover have "fi_ordered fi" if fi: "snd e = Filter_index fi" for fi
    proof -
      have "fst e = FILTER" using \<open>entry_typed e\<close> fi by (cases e; cases "fst e") auto
      then have "getIndex FILTER ?x = Some (Filter_index fi)"
        using \<open>e \<in> set (index_map ?x)\<close> fi om_lookup_iff_mem [OF ok(1), of FILTER "Filter_index fi"]
        by (cases e) (auto simp: getIndex_def)
      then show ?thesis using t by (auto simp: indexes_typed_def fi_ok_iff)
    qed
    ultimately show ?thesis by (simp add: entry_ordered_def)
  qed
  then have ord: "list_all entry_ordered (index_map ?x)" by (simp add: list_all_iff)
  show ?thesis
  proof (cases "Persistence_loadSnapshot L (scalar_storage v) (files v) ?x")
    case (Inl e)
    then show ?thesis
      using safe_load_entries [OF ord, of L "''snapshots_''" "scalar_storage v" "files v"]
      by (cases "mapM (load_entry L ''snapshots_'' (scalar_storage v) (files v)) (index_map ?x)")
        (simp_all add: Persistence_loadSnapshot_def IndexFactory_loadIndex_def)
  next
    case (Inr x)
    then obtain m where m: "mapM (load_entry L ''snapshots_'' (scalar_storage v) (files v)) (index_map ?x) = Inr m"
      "x = ?x\<lparr>index_map := m\<rparr>"
      by (auto simp: Persistence_loadSnapshot_def IndexFactory_loadIndex_def res_simps)
    have keys: "map fst m = map fst (index_map ?x)" and m_ord: "list_all entry_ordered m"
      using safe_load_entries [OF ord, of L "''snapshots_''" "scalar_storage v" "files v"] m(1) by simp_all
    have "map_of m k = None \<longleftrightarrow> map_of (index_map ?x) k = None" for k
      using keys by (metis list.set_map map_of_eq_None_iff)
    then have has: "getIndex k x = None \<longleftrightarrow> getIndex k ?x = None" for k by (simp add: getIndex_def m(2))
    have fac: "factory_ok x"
      using m_ord keys ok(1) by (simp add: factory_ok_def m(2) om_ok_def list_all_iff entry_ordered_def)
    obtain i where i: "getIndex FILTER x = Some i" using has [of FILTER] t by (auto simp: indexes_typed_def)
    have "(FILTER, i) \<in> set m" using i by (auto simp: getIndex_def m(2) dest: map_of_SomeD)
    then have "entry_ordered (FILTER, i)" using m_ord by (auto simp: list_all_iff)
    then obtain fi where fi: "i = Filter_index fi" "fi_ordered fi" by (cases i) (auto simp: entry_ordered_def)
    have "null_free fi" using assms(2) Inr i fi(1) by (auto simp: snapshot_readable_def)
    then have "indexes_typed x" using fac has t i fi by (auto simp: indexes_typed_def fi_ok_iff)
    then show ?thesis using Inr by simp
  qed
qed

lemma no_snapshot_readable:
  assumes "db_typed v" "no_snapshot L v"
  shows "snapshot_readable L v"
proof -
  have "factory_ok (index_factory v)" using assms(1) by (simp add: db_typed_def indexes_typed_def)
  from load_without_snapshot [OF assms(2) this] show ?thesis
    using assms(1) by (auto simp: snapshot_readable_def db_typed_def indexes_typed_def fi_ok_iff)
qed

lemma safe_reload:
  assumes "db_typed v" "snapshot_readable L v"
  shows "safe db_typed (reloadDatabase L v)"
  unfolding reloadDatabase_def Let_def
  by (rule safe_andthen [OF safe_load_snapshot [OF assms]])
    (auto intro!: safe_any [OF safe_read_next] safe_reload_loop simp: db_typed_def)

section \<open>Properties\<close>

text \<open>
  C28. In a database whose indexes are typed no upsert, search or snapshot follows a null pointer
  or casts an index to a class it is not of, whatever the request holds, and each of them leaves
  the database typed.
\<close>

theorem requests_respect_types:
  assumes "db_typed v"
  shows "safe db_typed (upsert L uid d t v) \<and> safe (\<lambda>(r, v'). db_typed v') (vdb_search L d v) \<and>
    safe (\<lambda>_. True) (snd (vdb_takeSnapshot L v)) \<and> db_typed (fst (vdb_takeSnapshot L v))"
  using safe_upsert [OF assms] safe_search [OF assms] safe_snapshot [OF assms] by blast

text \<open>A database with the three empty indexes.\<close>

definition full_factory :: "('b, 'd, 'f, 'h) libs \<Rightarrow> ('b, 'f, 'h) IndexFactory" where
  "full_factory L = IndexFactory_init L FILTER 1 0 L2 (IndexFactory_init L HNSW 1 100000 L2
     (IndexFactory_init L FLAT 1 0 L2 globalIndexFactory))"

lemma full_factory_typed: "indexes_typed (full_factory L)"
  by (auto simp: full_factory_def indexes_typed_def IndexFactory_init_def factory_ok_set_index factory_ok_empty
      fi_ok_new)

theorem requests_respect_types_witness:
  "safe db_typed (upsert sample_libs 1 (sample_doc 1 2) HNSW
     ((sample_db [] sample_files Persistence_new)\<lparr>index_factory := full_factory sample_libs\<rparr>))"
  using requests_respect_types [of "(sample_db [] sample_files Persistence_new)\<lparr>index_factory := full_factory sample_libs\<rparr>"
      sample_libs 1 "sample_doc 1 2" HNSW] by (auto simp: db_typed_def full_factory_typed)

end
