(* ===== verification/Server_Main.thy ===== *)
theory Server_Main
  imports Http_Server Type_Safety
begin

text \<open>
  vdb_server.cpp and logger.cpp: the configuration file, the start of a node in the order of
  \<^verbatim>\<open>main\<close>, and the life of the server it starts, as the steps the HTTP library and NuRaft make it
  take. Shown here: a configuration file reads back what it was written from, a missing one ends
  the process in a null pointer, and a server whose snapshot, if there is one, has bitmaps that
  can be read stays free of null pointers and wrong casts for as long as it runs.
\<close>

section \<open>The global logger\<close>

text \<open>\<^verbatim>\<open>GlobalLogger\<close> is a pointer, null until \<^verbatim>\<open>init_global_logger\<close>; what it prints is no state.\<close>

record spdlog_logger =
  sl_name :: string
  sl_level :: nat

definition GlobalLogger_initial :: "spdlog_logger option" where
  "GlobalLogger_initial = None"

definition init_global_logger :: "spdlog_logger option \<Rightarrow> spdlog_logger option" where
  "init_global_logger logger = Some \<lparr>sl_name = ''GlobalLogger'', sl_level = 2\<rparr>"

definition set_log_level :: "nat \<Rightarrow> spdlog_logger option \<Rightarrow> spdlog_logger option res" where
  "set_log_level log_level logger =
     andthen (deref ''GlobalLogger'' logger) (\<lambda>l. Inr (Some (l\<lparr>sl_level := log_level\<rparr>)))"

text \<open>A log call: it needs the logger and changes nothing.\<close>

definition log_call :: "spdlog_logger option \<Rightarrow> unit res" where
  "log_call logger = andthen (deref ''GlobalLogger'' logger) (\<lambda>l. Inr ())"

section \<open>The configuration file\<close>

definition config_line :: "string \<Rightarrow> (string, string) omap \<Rightarrow> (string, string) omap" where
  "config_line line config =
     (let (k, ss, _) = getline CHR ''='' [] (istringstream line);
          (v, _, _) = getline CHR 0x0A [] ss
      in om_insert k v config)"

function read_config_loop :: "string \<Rightarrow> istream \<Rightarrow> (string, string) omap \<Rightarrow> (string, string) omap" where
  "read_config_loop line file config =
     (case getline CHR 0x0A line file of
        (line', file', ok) \<Rightarrow> if ok then read_config_loop line' file' (config_line line' config) else config)"
  by pat_completeness auto
termination
  by (relation "measure (\<lambda>(line, file, config). length (is_rest file))") (auto dest: getline_consumes_sym)

declare read_config_loop.simps [simp del]

definition readConfigFile :: "spdlog_logger option \<Rightarrow> filesys \<Rightarrow> string \<Rightarrow> (string, string) omap res" where
  "readConfigFile logger fs filename =
     (case fs_read fs filename of
        Some bytes \<Rightarrow> Inr (read_config_loop [] (istringstream bytes) [])
      | None \<Rightarrow>
          andthen (log_call logger) (\<lambda>_.
            Inl (Throw (Runtime_error (''Failed to open config file: '' @ filename)))))"

text \<open>\<^verbatim>\<open>config[key]\<close> gives the empty string for an absent key.\<close>

definition config_at :: "(string, string) omap \<Rightarrow> string \<Rightarrow> string" where
  "config_at config k = (case map_of config k of None \<Rightarrow> [] | Some v \<Rightarrow> v)"

section \<open>\<^verbatim>\<open>main\<close>\<close>

datatype 's main_result = Exit int | Serving 's

definition init_factory :: "('b, 'd, 'f, 'h) libs \<Rightarrow> ('b, 'f, 'h) IndexFactory" where
  "init_factory L =
     (let dim = 1; num_data = 100000;
          f1 = IndexFactory_init L FLAT dim 0 L2 globalIndexFactory;
          f2 = IndexFactory_init L HNSW dim num_data L2 f1
      in IndexFactory_init L FILTER 1 0 L2 f2)"

text \<open>An exception nobody catches, like an abort, is the \<open>Inl\<close> of the result.\<close>

definition vdb_main ::
  "('u, 'e) nuraft \<Rightarrow> ('c, 't) state_codec \<Rightarrow> ('u, 'r, 'x) raft_server \<Rightarrow> ('b, 'd, 'f, 'h) libs
   \<Rightarrow> string list \<Rightarrow> filesys \<Rightarrow> ('b, 'd, 'f, 'h, 'e, 'c, 't, 'r) HttpServer main_result res" where
  "vdb_main N C G L argv fs =
     (if length argv \<noteq> 2 then Inr (Exit 1)
      else
        andthen (readConfigFile GlobalLogger_initial fs (argv ! 1)) (\<lambda>config.
        andthen (set_log_level 1 (init_global_logger GlobalLogger_initial)) (\<lambda>logger.
        andthen (log_call logger) (\<lambda>_.
        let globalIndexFactory = init_factory L;
            db_path = config_at config ''db_path''; wal_path = config_at config ''wal_path'' in
        andthen (stoi (config_at config ''node_id'')) (\<lambda>node_id.
        let endpoint = config_at config ''endpoint'' in
        andthen (stoi (config_at config ''port'')) (\<lambda>port.
        andthen (VectorDatabase_new L db_path wal_path globalIndexFactory fs) (\<lambda>v0.
        andthen (reloadDatabase L v0) (\<lambda>vector_database.
        let raftStuff = RaftStuff_Init N C G node_id endpoint port vector_database;
            http_server_address = config_at config ''http_server_address'' in
        andthen (stoi (config_at config ''http_server_port'')) (\<lambda>http_server_port.
          Inr (Serving (HttpServer_new http_server_address http_server_port vector_database raftStuff)))))))))))"

section \<open>The running server\<close>

text \<open>
  What happens to the server while it runs: a request, a commit, a log entry appended or written
  by NuRaft, a change of NuRaft's own state.
\<close>

definition with_log_store :: "'e inmem_log_store \<Rightarrow> ('e, 'c, 't, 'r) RaftStuff \<Rightarrow> ('e, 'c, 't, 'r) RaftStuff" where
  "with_log_store s x = x\<lparr>smgr := (smgr x)\<lparr>cur_log_store := s\<rparr>\<rparr>"

inductive server_step ::
  "('u, 'e) nuraft \<Rightarrow> ('u, 'r, 'x) raft_server \<Rightarrow> ('b, 'd, 'f, 'h) libs
   \<Rightarrow> ('b, 'd, 'f, 'h, 'e, 'c, 't, 'r) HttpServer \<Rightarrow> ('b, 'd, 'f, 'h, 'e, 'c, 't, 'r) HttpServer \<Rightarrow> bool"
  for N G L where
  request_served:
    "serve N G L m path req srv = Inr (res, srv') \<Longrightarrow> server_step N G L srv srv'"
| entry_committed:
    "sm_commit N L idx data (state_machine (raft_stuff srv), vector_database srv) = Inr (ret, sm, v) \<Longrightarrow>
     server_step N G L srv (srv\<lparr>vector_database := v, raft_stuff := (raft_stuff srv)\<lparr>state_machine := sm\<rparr>\<rparr>)"
| entry_appended:
    "log_append N now e (cur_log_store (smgr (raft_stuff srv)), vector_database srv) = Inr (idx, s, v) \<Longrightarrow>
     server_step N G L srv (srv\<lparr>vector_database := v, raft_stuff := with_log_store s (raft_stuff srv)\<rparr>)"
| entry_overwritten:
    "log_write_at N now idx e (cur_log_store (smgr (raft_stuff srv)), vector_database srv) = Inr (s, v) \<Longrightarrow>
     server_step N G L srv (srv\<lparr>vector_database := v, raft_stuff := with_log_store s (raft_stuff srv)\<rparr>)"
| raft_moved:
    "server_step N G L srv (srv\<lparr>raft_stuff := (raft_stuff srv)\<lparr>raft_instance := r\<rparr>\<rparr>)"

definition server_typed :: "('b, 'd, 'f, 'h, 'e, 'c, 't, 'r) HttpServer \<Rightarrow> bool" where
  "server_typed srv \<longleftrightarrow> db_typed (vector_database srv)"

section \<open>The handlers stay typed\<close>

lemma server_typed_update [simp]:
  "server_typed (srv\<lparr>raft_stuff := x\<rparr>) = server_typed srv"
  "server_typed (srv\<lparr>vector_database := v\<rparr>) = db_typed v"
  by (simp_all add: server_typed_def)

lemma db_typed_factory [simp]: "db_typed (v\<lparr>index_factory := f\<rparr>) = indexes_typed f"
  by (simp add: db_typed_def)

lemma safe_valid: "safe (\<lambda>_. True) (isRequestValid d t)"
  unfolding isRequestValid_def and_then_check_def index_type_is_string_def
  by (cases t) (auto intro!: safe_any safe_intros)

lemma safe_valid_results: "safe (\<lambda>_. True) (valid_results ls ds)"
  by (induction ls ds rule: valid_results.induct) (auto intro!: safe_any split: list.split)

lemmas safe_request = safe_any [OF safe_valid] safe_any [OF safe_json(3)] safe_any [OF safe_json(11)]
  safe_any [OF safe_json(9)] safe_any [OF safe_json(7)] safe_any [OF safe_json(5)] safe_any [OF safe_index_type]

lemma safe_searchHandler:
  assumes "server_typed srv"
  shows "safe (\<lambda>(r, s). server_typed s) (searchHandler L req res srv)"
proof -
  have "db_typed (vector_database srv)" using assms by (simp add: server_typed_def)
  note s = safe_andthen [OF safe_search [OF this]]
  show ?thesis
    unfolding searchHandler_def Let_def http_index_type
    using assms by (auto intro!: safe_request s safe_any [OF safe_valid_results])
qed

lemma safe_insertHandler:
  assumes "server_typed srv"
  shows "safe (\<lambda>(r, s). server_typed s) (insertHandler L req res srv)"
proof -
  have x: "indexes_typed (index_factory (vector_database srv))" using assms by (simp add: server_typed_def db_typed_def)
  show ?thesis
    unfolding insertHandler_def Let_def http_index_type
    using assms typed_set_index [OF x] x
    by (auto intro!: safe_request safe_any [OF safe_as_flat [OF x]] safe_any [OF safe_as_hnsw [OF x]]
        safe_any [OF safe_wrappers(1)] safe_any [OF safe_wrappers(4)] split: IndexType.split)
qed

lemma safe_appendEntries: "safe (\<lambda>_. True) (appendEntries N G e x)"
  unfolding appendEntries_def by (auto simp: Let_def split: option.split prod.split intro!: safe_any)

lemma safe_upsertHandler: "server_typed srv \<Longrightarrow> safe (\<lambda>(r, s). server_typed s) (upsertHandler N G L req res srv)"
  unfolding upsertHandler_def Let_def http_index_type
  by (auto intro!: safe_request safe_any [OF safe_appendEntries])

lemma safe_queryHandler: "safe (\<lambda>_. True) (queryHandler L req res srv)"
  unfolding queryHandler_def Let_def by (auto intro!: safe_request safe_any safe_json(2))

lemma safe_addFollowerHandler:
  "server_typed srv \<Longrightarrow> safe (\<lambda>(r, s). server_typed s) (addFollowerHandler G L req res srv)"
  unfolding addFollowerHandler_def Let_def addSrv_def isLeader_def
  by (auto intro!: safe_request split: option.split prod.split)

lemma safe_guarded:
  "safe P r \<Longrightarrow> P (res, srv) \<Longrightarrow> (\<And>r1 r2 s. P (r1, s) \<Longrightarrow> P (r2, s)) \<Longrightarrow> safe P (guarded r srv)"
  by (auto simp: guarded_def safe_def split: sum.splits failure.splits)

lemma safe_run_handler:
  assumes t: "server_typed srv"
  shows "safe (\<lambda>(r, s). server_typed s) (run_handler N G L h req srv)"
proof -
  let ?P = "\<lambda>(r :: response, s). server_typed s"
  have g: "safe ?P (guarded r s)" if "safe ?P r" "server_typed s" for r s
    using safe_guarded [of ?P r _ s] that by auto
  have s: "safe ?P (guarded (andthen (fst (snapshotHandler L req response_new srv))
       (\<lambda>res. Inr (res, snd (snapshotHandler L req response_new srv)))) (snd (snapshotHandler L req response_new srv)))"
  proof -
    have v: "db_typed (vector_database srv)" using t by (simp add: server_typed_def)
    have "server_typed (snd (snapshotHandler L req response_new srv))"
      using safe_snapshot(2) [OF v, of L] by (auto simp: snapshotHandler_def split: prod.split)
    moreover have "safe (\<lambda>_. True) (fst (snapshotHandler L req response_new srv))"
      using safe_snapshot(1) [OF v, of L] by (auto simp: snapshotHandler_def split: prod.split intro!: safe_any)
    ultimately show ?thesis by (intro g safe_any) auto
  qed
  note hs = safe_searchHandler [OF t] safe_insertHandler [OF t] safe_upsertHandler [OF t]
    safe_addFollowerHandler [OF t] safe_any [OF safe_queryHandler]
  show ?thesis
    using t s unfolding split_def
    by (cases h)
       (auto simp: run_handler_def setLeaderHandler_def split_def Let_def intro!: g [unfolded split_def] hs [unfolded split_def])
qed

lemma safe_serve: "server_typed srv \<Longrightarrow> safe (\<lambda>(r, s). server_typed s) (serve N G L m path req srv)"
  by (auto simp: serve_def safe_run_handler split: option.split)

lemma safe_commit:
  assumes "db_typed v"
  shows "safe (\<lambda>(r, s, v'). db_typed v') (sm_commit N L idx data (sm, v))"
proof -
  have "safe (\<lambda>_. True) (app_content N data)"
    by (auto simp: app_content_def buffer_string_def split: option.split)
  then show ?thesis
    unfolding sm_commit_def Let_def
    by (auto intro!: safe_any [of "app_content N data"] safe_request safe_andthen [OF safe_upsert [OF assms]]
        safe_any [of "throwing _"])
qed

lemma writeWAL_factory [simp]: "index_factory (writeWALLogWithID i d v) = index_factory v"
  by (simp add: writeWALLogWithID_def split: prod.split)

lemma server_step_typed: "server_step N G L srv srv' \<Longrightarrow> server_typed srv \<Longrightarrow> server_typed srv'"
proof (induction rule: server_step.induct)
  case (request_served m path req srv res srv')
  then show ?case using safe_serve [of srv N G L m path req] by simp
next
  case (entry_committed idx data srv ret sm v)
  then show ?case
    using safe_commit [of "vector_database srv" N L idx data "state_machine (raft_stuff srv)"]
    by (simp add: server_typed_def)
qed (auto simp: server_typed_def db_typed_def log_append_def log_write_at_def Let_def res_simps split: if_splits)


section \<open>Properties\<close>

definition config_text :: "(string \<times> string) list \<Rightarrow> string" where
  "config_text kvs = concat (map (\<lambda>(k, v). k @ CHR ''='' # v @ [CHR 0x0A]) kvs)"

definition config_ok :: "string \<times> string \<Rightarrow> bool" where
  "config_ok kv \<longleftrightarrow> CHR ''='' \<notin> set (fst kv) \<and> CHR 0x0A \<notin> set (fst kv) \<and> CHR 0x0A \<notin> set (snd kv)"

lemma config_line_entry: "config_ok (k, v) \<Longrightarrow> config_line (k @ CHR ''='' # v) c = om_insert k v c"
  by (simp add: config_line_def config_ok_def istringstream_def string_simps)

lemma read_config_fold:
  "list_all config_ok kvs \<Longrightarrow>
     read_config_loop line (istringstream (config_text kvs)) c = fold (\<lambda>(k, v). om_insert k v) kvs c"
proof (induction kvs arbitrary: line c)
  case Nil
  then show ?case by (subst read_config_loop.simps) (simp add: config_text_def istringstream_def getline_def)
next
  case (Cons kv kvs)
  obtain k v where kv: "kv = (k, v)" by (cases kv)
  have t: "config_text (kv # kvs) = (k @ CHR ''='' # v) @ CHR 0x0A # config_text kvs"
    by (simp add: config_text_def kv)
  have ok: "config_ok (k, v)" "CHR 0x0A \<notin> set (k @ CHR ''='' # v)"
    using Cons.prems by (auto simp: kv config_ok_def)
  have "getline CHR 0x0A line (istringstream (config_text (kv # kvs))) =
      (k @ CHR ''='' # v, istringstream (config_text kvs), True)"
    unfolding t istringstream_def using getline_delim [OF ok(2)] by simp
  then show ?case
    using Cons.IH [of "k @ CHR ''='' # v" "om_insert k v c"] Cons.prems
    by (subst read_config_loop.simps) (simp add: kv config_line_entry [OF ok(1)])
qed

text \<open>
  A configuration file of lines \<^verbatim>\<open>key=value\<close> reads back as the map of its lines, the last
  line of a key winning; a value may contain the equals sign.
\<close>

theorem config_reads_back:
  assumes "fs_read fs path = Some (config_text kvs)" "list_all config_ok kvs"
  shows "\<exists>config. readConfigFile logger fs path = Inr config \<and> om_ok config \<and>
    (\<forall>k. config_at config k = (case map_of (rev kvs) k of None \<Rightarrow> [] | Some v \<Rightarrow> v))"
proof -
  have "readConfigFile logger fs path = Inr (fold (\<lambda>(k, v). om_insert k v) kvs [])"
    using assms by (simp add: readConfigFile_def read_config_fold)
  moreover have "om_ok (fold (\<lambda>(k, v). om_insert k v) kvs ([] :: (string, string) omap))" by (rule om.ok_puts) simp
  moreover have "map_of (fold (\<lambda>(k, v). om_insert k v) kvs []) k = map_of (rev kvs) k" for k :: string
    using om.find_puts [of "[]" kvs k] by (simp split: option.split)
  ultimately show ?thesis by (simp add: config_at_def)
qed

definition sample_config :: "(string \<times> string) list" where
  "sample_config = [(''db_path'', ''d''), (''wal_path'', ''w''), (''node_id'', ''1''), (''endpoint'', ''a=b''),
     (''port'', ''80''), (''http_server_port'', ''81''), (''db_path'', ''e'')]"

definition sample_config_files :: filesys where
  "sample_config_files = fs_write ''c'' (config_text sample_config) sample_files"

lemma sample_config_ok: "list_all config_ok sample_config" "fs_read sample_config_files ''c'' = Some (config_text sample_config)"
  by (simp_all add: sample_config_def config_ok_def sample_config_files_def)

theorem config_reads_back_witness:
  "\<exists>config. readConfigFile None sample_config_files ''c'' = Inr config \<and> config_at config ''db_path'' = ''e'' \<and>
     config_at config ''endpoint'' = ''a=b'' \<and> config_at config ''host'' = []"
  using config_reads_back [OF sample_config_ok(2,1), of None]
  by (auto simp: sample_config_def)

text \<open>
  Started with a configuration file that cannot be opened, the process ends in a null pointer:
  the error is logged before the logger exists. The exception with the file's name is not thrown.
\<close>

theorem missing_config_crashes:
  assumes "length argv = 2" "fs_read fs (argv ! 1) = None"
  shows "vdb_main N C G L argv fs = Inl (Abort (Null_dereference ''GlobalLogger'')) \<and>
    readConfigFile (init_global_logger GlobalLogger_initial) fs (argv ! 1) =
      Inl (Throw (Runtime_error (''Failed to open config file: '' @ argv ! 1)))"
  using assms
  by (simp add: vdb_main_def readConfigFile_def log_call_def GlobalLogger_initial_def init_global_logger_def)

theorem missing_config_crashes_witness:
  "vdb_main string_raft sample_codec list_raft_server sample_libs [''vdb'', ''c''] sample_files =
     Inl (Abort (Null_dereference ''GlobalLogger''))"
  using missing_config_crashes [of "[''vdb'', ''c'']" sample_files string_raft sample_codec list_raft_server sample_libs]
  by (simp add: sample_files_def fs_read_def)

lemma init_factory_typed: "indexes_typed (init_factory L)"
  using full_factory_typed [of L] by (simp add: init_factory_def full_factory_def)

lemma main_serves_reloaded:
  assumes "vdb_main N C G L argv fs = Inr (Serving srv)"
  shows "\<exists>config v0. readConfigFile None fs (argv ! 1) = Inr config \<and>
    VectorDatabase_new L (config_at config ''db_path'') (config_at config ''wal_path'') (init_factory L) fs = Inr v0 \<and>
    reloadDatabase L v0 = Inr (vector_database srv)"
  using assms
  by (auto simp: vdb_main_def GlobalLogger_initial_def Let_def res_simps HttpServer_new_def split: if_splits)

text \<open>
  C2. Whatever requests, commits, log writes and changes of NuRaft's state follow the start of a
  node, the server follows no null pointer and casts no index to a class it is not of, neither in a
  request nor in a commit. The directory may hold a snapshot; the only thing asked of it is that
  CRoaring can read the bitmaps in the text of its filter index (\<open>snapshot_readable\<close>). A directory
  without a snapshot has none to read (\<open>no_snapshot_readable\<close>). A bitmap that cannot be read is
  loaded as the null pointer, and the next search for its value follows it.
\<close>

theorem server_runs_typed:
  assumes "vdb_main N C G L argv fs = Inr (Serving srv0)" "readConfigFile None fs (argv ! 1) = Inr config"
    and "VectorDatabase_new L (config_at config ''db_path'') (config_at config ''wal_path'') (init_factory L) fs = Inr v0"
    and "snapshot_readable L v0" "(server_step N G L)\<^sup>*\<^sup>* srv0 srv"
  shows "server_typed srv \<and> safe (\<lambda>(r, s). server_typed s) (serve N G L m path req srv) \<and>
    safe (\<lambda>(r, s, v). db_typed v) (sm_commit N L idx data (sm, vector_database srv))"
proof -
  have v0: "db_typed v0"
    using assms(3) init_factory_typed [of L] by (auto simp: VectorDatabase_new_def res_simps db_typed_def)
  have "reloadDatabase L v0 = Inr (vector_database srv0)"
    using main_serves_reloaded [OF assms(1)] assms(2,3) by auto
  then have "server_typed srv0" using safe_reload [OF v0 assms(4)] by (simp add: server_typed_def)
  with assms(5) have "server_typed srv" by (induction rule: rtranclp_induct) (auto intro: server_step_typed)
  then show ?thesis
    using safe_serve [of srv N G L m path req] safe_commit [of "vector_database srv" N L idx data sm]
    by (simp add: server_typed_def)
qed


lemma sample_config_at:
  "\<exists>config. readConfigFile None sample_config_files ''c'' = Inr config \<and> config_at config ''db_path'' = ''e'' \<and>
     config_at config ''wal_path'' = ''w'' \<and> config_at config ''node_id'' = ''1'' \<and> config_at config ''port'' = ''80'' \<and>
     config_at config ''http_server_port'' = ''81''"
proof -
  have t: "readConfigFile None sample_config_files ''c'' = Inr (fold (\<lambda>(k, v). om_insert k v) sample_config [])"
    using sample_config_ok by (simp add: readConfigFile_def read_config_fold)
  have "map_of (fold (\<lambda>(k, v). om_insert k v) sample_config []) k = map_of (rev sample_config) k" for k
    using om.find_puts [of "[]" sample_config k] by (simp split: option.split)
  then show ?thesis unfolding t config_at_def by (simp add: sample_config_def)
qed

lemma sample_numbers: "stoi ''1'' = Inr 1" "stoi ''80'' = Inr 80" "stoi ''81'' = Inr 81"
  by (simp_all add: stoi_def sto_signed_def strto_def isspace_def is_digit_def digits_value_def digit_val_def Let_def)

lemma sample_start:
  "\<exists>config v0 v. readConfigFile None sample_config_files ''c'' = Inr config \<and>
     VectorDatabase_new sample_libs (config_at config ''db_path'') (config_at config ''wal_path'') (init_factory sample_libs)
       sample_config_files = Inr v0 \<and> snapshot_readable sample_libs v0 \<and>
     scalar_storage v = [] \<and> index_factory v = init_factory sample_libs \<and>
     vdb_main string_raft sample_codec list_raft_server sample_libs [''vdb'', ''c''] sample_config_files =
       Inr (Serving (HttpServer_new (config_at config ''http_server_address'') 81 v
         (RaftStuff_Init string_raft sample_codec list_raft_server 1 (config_at config ''endpoint'') 80 v)))"
proof -
  obtain config where c: "readConfigFile None sample_config_files ''c'' = Inr config" "config_at config ''db_path'' = ''e''"
     "config_at config ''wal_path'' = ''w''" "config_at config ''node_id'' = ''1''" "config_at config ''port'' = ''80''"
     "config_at config ''http_server_port'' = ''81''"
    using sample_config_at by blast
  let ?fs = "fs_write ''w'' [] sample_config_files"
  let ?p = "Persistence_new\<lparr>wal_path := ''w'', wal_pos := 0, wal_good := True\<rparr>"
  let ?start = "\<lparr>scalar_storage = [], persistence = ?p, index_factory = init_factory sample_libs, files = ?fs\<rparr>"
  have fs: "fs_read sample_config_files ''w'' = None" "fs_writable sample_config_files ''w''"
    "fs_read ?fs snapshot_id_file = None"
    by (simp_all add: sample_config_files_def sample_files_def fs_read_def fs_write_def snapshot_id_file_def)
  have v0: "VectorDatabase_new sample_libs ''e'' ''w'' (init_factory sample_libs) sample_config_files = Inr ?start"
    using fs by (simp add: VectorDatabase_new_def ScalarStorage_open_def list_rocks_def Persistence_init_def
        loadLastSnapshotID_def Let_def)
  have ns: "no_snapshot sample_libs ?start"
    by (simp add: no_snapshot_def sample_config_files_def sample_files_def fs_read_def fs_write_def index_file_path_def
        list_rocks_def)
  have ty: "db_typed ?start" using init_factory_typed [of sample_libs] by (simp add: db_typed_def)
  have at: "at_log (files ?start) (persistence ?start) []"
    by (simp add: at_log_def wal_data_def)
  have "factory_ok (index_factory ?start)" using init_factory_typed [of sample_libs] by (simp add: indexes_typed_def)
  then obtain v where v: "reloadDatabase sample_libs ?start = Inr v" "scalar_storage v = []"
      "index_factory v = init_factory sample_libs"
    using reloadDatabase_eq [OF ns] reload_from_log [OF at, of sample_libs] by auto
  have "vdb_main string_raft sample_codec list_raft_server sample_libs [''vdb'', ''c''] sample_config_files =
       Inr (Serving (HttpServer_new (config_at config ''http_server_address'') 81 v
         (RaftStuff_Init string_raft sample_codec list_raft_server 1 (config_at config ''endpoint'') 80 v)))"
    using c(1) v0 v(1) by (simp add: vdb_main_def GlobalLogger_initial_def c sample_numbers Let_def set_log_level_def
        init_global_logger_def log_call_def)
  with c v0 v no_snapshot_readable [OF ty ns] show ?thesis by auto
qed

text \<open>A first commit succeeds on the indexes \<^verbatim>\<open>main\<close> makes.\<close>

lemma sample_first_commit:
  assumes "scalar_storage v = []" "index_factory v = init_factory sample_libs"
  shows "\<exists>ret sm' v'. sm_commit string_raft sample_libs 13 (se_buf (app_entry 1 ''{Aid1C'')) (sm, v) = Inr (ret, sm', v') \<and>
    vdb_query sample_libs 1 v' = sample_doc 1 2"
proof -
  have x: "getIndex FILTER (init_factory sample_libs) = Some (Filter_index FilterIndex_new)"
    "getIndex FLAT (init_factory sample_libs) = Some (Flat_index (FaissIndex_new (fa_new_idmap_flat list_faiss 1 True)))"
    by (simp_all add: init_factory_def IndexFactory_init_def Let_def)
  have "vdb_query sample_libs uid v = JNull" for uid
    by (simp add: vdb_query_def assms(1) get_scalar_def list_rocks_def)
  then have "well_indexed sample_libs 1 {''a''} v"
    using x by (simp add: well_indexed_def assms(2) storable_def fi_ok_new flat_ok_new)
  from upsert_total [OF sample_libs_ok this, of "sample_doc 1 2" FLAT 1]
  obtain v' where v': "upsert sample_libs 1 (sample_doc 1 2) FLAT v = Inr v'" by auto
  have c: "app_content string_raft (se_buf (app_entry 1 ''{Aid1C'')) = Inr ''{Aid1C''"
    by (rule app_content_entry) simp
  have p: "rj_parse table_json ''{Aid1C'' = sample_doc 1 2" by (simp add: table_json_def sample_table_def)
  obtain ret where ret: "bs_put_u64 string_raft (nb_alloc string_raft 8) 13 = Inr ret"
    by (simp add: string_raft_def put_bytes_def byte_string_def)
  have i: "j_at (sample_doc 1 2) REQUEST_ID = Inr (JInt 1)" by (simp add: sample_doc_def constants_defs)
  have "sm_commit string_raft sample_libs 13 (se_buf (app_entry 1 ''{Aid1C'')) (sm, v) =
      Inr (ret, sm\<lparr>last_committed_idx := 13\<rparr>, v')"
    by (simp add: sm_commit_def c p i sample_doc_request v' ret)
  moreover have "vdb_query sample_libs 1 v' = sample_doc 1 2"
    using vdb_query_upsert [OF sample_libs_ok _ v', of 1] by (simp add: rj_roundtrip_def table_json_def sample_table_def)
  ultimately show ?thesis by blast
qed

text \<open>The node starts, commits a document and answers a query for it.\<close>

theorem server_runs_typed_witness:
  "\<exists>srv0 srv1 srv2. vdb_main string_raft sample_codec list_raft_server sample_libs [''vdb'', ''c''] sample_config_files =
      Inr (Serving srv0) \<and>
    server_step string_raft list_raft_server sample_libs srv0 srv1 \<and>
    vdb_query sample_libs 1 (vector_database srv1) = sample_doc 1 2 \<and>
    (\<exists>res. serve string_raft list_raft_server sample_libs POST ''/query'' \<lparr>req_body = ''{Q'', req_params = []\<rparr> srv1 =
       Inr (res, srv2) \<and> status res = 200) \<and> server_typed srv2"
proof -
  obtain config start v where s: "readConfigFile None sample_config_files ''c'' = Inr config"
     "VectorDatabase_new sample_libs (config_at config ''db_path'') (config_at config ''wal_path'') (init_factory sample_libs)
       sample_config_files = Inr start" "snapshot_readable sample_libs start"
     "scalar_storage v = []" "index_factory v = init_factory sample_libs"
     "vdb_main string_raft sample_codec list_raft_server sample_libs [''vdb'', ''c''] sample_config_files =
       Inr (Serving (HttpServer_new (config_at config ''http_server_address'') 81 v
         (RaftStuff_Init string_raft sample_codec list_raft_server 1 (config_at config ''endpoint'') 80 v)))"
    (is "_ = Inr (Serving ?srv0)")
    using sample_start by blast
  obtain ret sm' v' where c: "sm_commit string_raft sample_libs 13 (se_buf (app_entry 1 ''{Aid1C''))
      (state_machine (raft_stuff ?srv0), vector_database ?srv0) = Inr (ret, sm', v')"
    "vdb_query sample_libs 1 v' = sample_doc 1 2"
    using sample_first_commit [OF s(4,5), of "state_machine (raft_stuff ?srv0)"]
    by (simp add: HttpServer_new_def) blast
  let ?srv1 = "?srv0\<lparr>vector_database := v', raft_stuff := (raft_stuff ?srv0)\<lparr>state_machine := sm'\<rparr>\<rparr>"
  have one: "server_step string_raft list_raft_server sample_libs ?srv0 ?srv1" using c(1) by (rule entry_committed)
  have p: "rj_parse table_json ''{Q'' = JObject [(''id'', JInt 1)]" by (simp add: table_json_def sample_table_def)
  have q: "\<exists>res. serve string_raft list_raft_server sample_libs POST ''/query'' \<lparr>req_body = ''{Q'', req_params = []\<rparr> ?srv1 =
      Inr (res, ?srv1) \<and> status res = 200"
    using c(2) by (simp add: serve_def routes_def run_handler_def queryHandler_def p constants_defs Let_def sample_doc_def
        guarded_def finish_status_def http_simps response_new_def)
  then have two: "server_step string_raft list_raft_server sample_libs ?srv1 ?srv1" by (blast intro: request_served)
  have run: "(server_step string_raft list_raft_server sample_libs)\<^sup>*\<^sup>* ?srv0 ?srv1"
    using one two by (meson rtranclp.rtrancl_into_rtrancl rtranclp.rtrancl_refl)
  have "server_typed ?srv1" using server_runs_typed [OF s(6) _ s(2,3) run] s(1) by simp
  then show ?thesis using s(6) one q c(2) by (intro exI [of _ ?srv0] exI [of _ ?srv1]) simp
qed

end
