(* ===== verification/Log_Elem.thy ===== *)
theory Log_Elem
  imports Vdb_Strings
begin

text \<open>
  raft_logger.cpp, \<^verbatim>\<open>SimpleLogger::LogElem\<close>: one slot of the logger's ring, a buffer guarded by
  an atomic status word. The two operations are given twice: as functions, for a caller that
  is alone, and as a step relation in which any number of threads interleave between their
  atomic accesses, down to the single bytes of the copies. The invariant of the relation shows
  that the compare-and-exchange is enough of a lock: no line is torn, lost or written twice.
\<close>

section \<open>The slot\<close>

definition MSG_SIZE :: nat where
  "MSG_SIZE = 4096"

datatype Status = CLEAN | WRITING | DIRTY | FLUSHING

record LogElem =
  le_len :: nat
  le_ctx :: string
  le_status :: Status

definition LogElem_new :: LogElem where
  "LogElem_new = \<lparr>le_len = 0, le_ctx = replicate MSG_SIZE (CHR 0x00), le_status = CLEAN\<rparr>"

definition LogElem_needToFlush :: "LogElem \<Rightarrow> bool" where
  "LogElem_needToFlush e \<longleftrightarrow> le_status e = DIRTY"

definition LogElem_available :: "LogElem \<Rightarrow> bool" where
  "LogElem_available e \<longleftrightarrow> le_status e = CLEAN \<or> le_status e = DIRTY"

text \<open>\<open>copy_bytes n src dst\<close> is \<^verbatim>\<open>memcpy(dst, src, n)\<close>.\<close>

definition copy_bytes :: "nat \<Rightarrow> string \<Rightarrow> string \<Rightarrow> string" where
  "copy_bytes n src dst = take n src @ drop n dst"

text \<open>Both operations give the slot and the value returned; \<open>flush\<close> also what it wrote.\<close>

definition LogElem_write :: "nat \<Rightarrow> string \<Rightarrow> LogElem \<Rightarrow> LogElem \<times> int" where
  "LogElem_write n msg e =
     (if le_status e \<noteq> CLEAN then (e, -1)
      else let m = (if n > MSG_SIZE then MSG_SIZE else n) in
        (\<lparr>le_len = m, le_ctx = copy_bytes m msg (le_ctx e), le_status = DIRTY\<rparr>, 0))"

definition LogElem_flush :: "LogElem \<Rightarrow> LogElem \<times> string \<times> int" where
  "LogElem_flush e =
     (if le_status e \<noteq> DIRTY then (e, [], -1)
      else (e\<lparr>le_status := CLEAN\<rparr>, take (le_len e) (le_ctx e), 0))"

definition elem_text :: "LogElem \<Rightarrow> string" where
  "elem_text e = (if le_status e = DIRTY then take (le_len e) (le_ctx e) else [])"

lemma elem_text_new [simp]: "elem_text LogElem_new = []"
  by (simp add: elem_text_def LogElem_new_def)

lemma LogElem_write_text:
  assumes "le_status e = CLEAN" "n \<le> length msg" "n \<le> MSG_SIZE"
  shows "elem_text (fst (LogElem_write n msg e)) = take n msg"
    and "le_status (fst (LogElem_write n msg e)) = DIRTY"
  using assms by (auto simp: LogElem_write_def elem_text_def copy_bytes_def Let_def)

lemma LogElem_flush_text:
  "fst (snd (LogElem_flush e)) = elem_text e"
  "elem_text (fst (LogElem_flush e)) = []"
  by (auto simp: LogElem_flush_def elem_text_def)

lemma LogElem_flush_status:
  "le_status (fst (LogElem_flush e)) = (if le_status e = DIRTY then CLEAN else le_status e)"
  by (simp add: LogElem_flush_def)

section \<open>Interleaved threads\<close>

text \<open>
  Where a thread stands in \<^verbatim>\<open>write\<close> or \<^verbatim>\<open>flush\<close>: it has won the exchange and not yet set the
  length (\<open>Won\<close>), has copied \<open>i\<close> bytes (\<open>Copying\<close>), has written \<open>i\<close> bytes of the slot to the
  file (\<open>Emitting\<close>). A thread that loses the exchange returns at once and changes nothing.
  \<open>es_accepted\<close> records the lines whose \<^verbatim>\<open>write\<close> completed; the code has no such variable.
\<close>

datatype elem_pc = Outside | Won string | Copying string nat | Emitting nat

record elem_sys =
  es_elem :: LogElem
  es_file :: string
  es_pc :: "nat \<Rightarrow> elem_pc"
  es_accepted :: "string list"

definition elem_init :: elem_sys where
  "elem_init = \<lparr>es_elem = LogElem_new, es_file = [], es_pc = (\<lambda>_. Outside), es_accepted = []\<rparr>"

inductive elem_step :: "elem_sys \<Rightarrow> elem_sys \<Rightarrow> bool" where
  write_exchange: "es_pc s t = Outside \<Longrightarrow> le_status (es_elem s) = CLEAN \<Longrightarrow> length m \<le> MSG_SIZE \<Longrightarrow>
     elem_step s (s\<lparr>es_elem := (es_elem s)\<lparr>le_status := WRITING\<rparr>, es_pc := (es_pc s)(t := Won m)\<rparr>)"
| write_len: "es_pc s t = Won m \<Longrightarrow>
     elem_step s (s\<lparr>es_elem := (es_elem s)\<lparr>le_len := length m\<rparr>, es_pc := (es_pc s)(t := Copying m 0)\<rparr>)"
| write_byte: "es_pc s t = Copying m i \<Longrightarrow> i < length m \<Longrightarrow>
     elem_step s (s\<lparr>es_elem := (es_elem s)\<lparr>le_ctx := (le_ctx (es_elem s))[i := m ! i]\<rparr>,
                    es_pc := (es_pc s)(t := Copying m (Suc i))\<rparr>)"
| write_store: "es_pc s t = Copying m i \<Longrightarrow> i = length m \<Longrightarrow>
     elem_step s (s\<lparr>es_elem := (es_elem s)\<lparr>le_status := DIRTY\<rparr>, es_pc := (es_pc s)(t := Outside),
                    es_accepted := es_accepted s @ [m]\<rparr>)"
| flush_exchange: "es_pc s t = Outside \<Longrightarrow> le_status (es_elem s) = DIRTY \<Longrightarrow>
     elem_step s (s\<lparr>es_elem := (es_elem s)\<lparr>le_status := FLUSHING\<rparr>, es_pc := (es_pc s)(t := Emitting 0)\<rparr>)"
| flush_byte: "es_pc s t = Emitting i \<Longrightarrow> i < le_len (es_elem s) \<Longrightarrow>
     elem_step s (s\<lparr>es_file := es_file s @ [le_ctx (es_elem s) ! i],
                    es_pc := (es_pc s)(t := Emitting (Suc i))\<rparr>)"
| flush_store: "es_pc s t = Emitting i \<Longrightarrow> i = le_len (es_elem s) \<Longrightarrow>
     elem_step s (s\<lparr>es_elem := (es_elem s)\<lparr>le_status := CLEAN\<rparr>, es_pc := (es_pc s)(t := Outside)\<rparr>)"

inductive elem_reachable :: "elem_sys \<Rightarrow> bool" where
  elem_start: "elem_reachable elem_init"
| elem_next: "elem_reachable s \<Longrightarrow> elem_step s s' \<Longrightarrow> elem_reachable s'"

inductive_cases elem_stepE: "elem_step s s'"

text \<open>
  The invariant, by the status: who may be inside, and how the file, the buffer and the
  accepted lines agree.
\<close>

definition alone :: "elem_sys \<Rightarrow> nat \<Rightarrow> bool" where
  "alone s t \<longleftrightarrow> (\<forall>u. u \<noteq> t \<longrightarrow> es_pc s u = Outside)"

definition nobody :: "elem_sys \<Rightarrow> bool" where
  "nobody s \<longleftrightarrow> (\<forall>u. es_pc s u = Outside)"

definition writer_inv :: "elem_sys \<Rightarrow> nat \<Rightarrow> bool" where
  "writer_inv s t \<longleftrightarrow>
     (case es_pc s t of
        Won m \<Rightarrow> length m \<le> MSG_SIZE
      | Copying m i \<Rightarrow> length m \<le> MSG_SIZE \<and> le_len (es_elem s) = length m \<and> i \<le> length m \<and>
          take i (le_ctx (es_elem s)) = take i m
      | _ \<Rightarrow> False)"

definition flusher_inv :: "elem_sys \<Rightarrow> nat \<Rightarrow> bool" where
  "flusher_inv s t \<longleftrightarrow>
     (\<exists>i. es_pc s t = Emitting i \<and> i \<le> le_len (es_elem s) \<and>
        es_accepted s \<noteq> [] \<and> last (es_accepted s) = take (le_len (es_elem s)) (le_ctx (es_elem s)) \<and>
        es_file s = concat (butlast (es_accepted s)) @ take i (le_ctx (es_elem s)))"

definition elem_inv :: "elem_sys \<Rightarrow> bool" where
  "elem_inv s \<longleftrightarrow>
     length (le_ctx (es_elem s)) = MSG_SIZE \<and> le_len (es_elem s) \<le> MSG_SIZE \<and>
     (case le_status (es_elem s) of
        CLEAN \<Rightarrow> nobody s \<and> es_file s = concat (es_accepted s)
      | WRITING \<Rightarrow> (\<exists>t. alone s t \<and> writer_inv s t) \<and> es_file s = concat (es_accepted s)
      | DIRTY \<Rightarrow> nobody s \<and> es_accepted s \<noteq> [] \<and>
          last (es_accepted s) = take (le_len (es_elem s)) (le_ctx (es_elem s)) \<and>
          es_file s = concat (butlast (es_accepted s))
      | FLUSHING \<Rightarrow> (\<exists>t. alone s t \<and> flusher_inv s t))"

lemma elem_inv_init: "elem_inv elem_init"
  by (simp add: elem_inv_def elem_init_def LogElem_new_def nobody_def)

text \<open>A thread that is inside fixes the status.\<close>

lemma writing_thread:
  assumes "elem_inv s" "es_pc s t = Won m \<or> es_pc s t = Copying m i"
  shows "le_status (es_elem s) = WRITING" "alone s t" "writer_inv s t"
proof -
  have not: "\<not> nobody s" using assms(2) unfolding nobody_def by (metis elem_pc.distinct(1,3,5))
  have only: "u = t" if "alone s u" for u using that assms(2) by (auto simp: alone_def)
  have "\<not> flusher_inv s t" using assms(2) by (auto simp: flusher_inv_def)
  then show "le_status (es_elem s) = WRITING" "alone s t" "writer_inv s t"
    using assms(1) not only by (auto simp: elem_inv_def split: Status.splits)
qed

lemma flushing_thread:
  assumes "elem_inv s" "es_pc s t = Emitting i"
  shows "le_status (es_elem s) = FLUSHING" "alone s t" "flusher_inv s t"
proof -
  have not: "\<not> nobody s" using assms(2) unfolding nobody_def by (metis elem_pc.distinct(1,3,5))
  have only: "u = t" if "alone s u" for u using that assms(2) by (auto simp: alone_def)
  have "\<not> writer_inv s t" using assms(2) by (auto simp: writer_inv_def)
  then show "le_status (es_elem s) = FLUSHING" "alone s t" "flusher_inv s t"
    using assms(1) not only by (auto simp: elem_inv_def split: Status.splits)
qed

lemma elem_inv_step:
  assumes "elem_step s s'" "elem_inv s"
  shows "elem_inv s'"
  using assms
proof (cases rule: elem_step.cases)
  case (write_exchange t m)
  then have "nobody s" using assms(2) by (auto simp: elem_inv_def)
  then have "alone s' t" "writer_inv s' t"
    using write_exchange by (auto simp: nobody_def alone_def writer_inv_def)
  then show ?thesis using write_exchange assms(2) by (auto simp: elem_inv_def)
next
  case (write_len t m)
  note w = writing_thread [OF assms(2), of t m undefined]
  have "alone s' t" "writer_inv s' t" "length m \<le> MSG_SIZE"
    using w write_len by (auto simp: alone_def writer_inv_def)
  then show ?thesis using write_len assms(2) w(1) by (auto simp: elem_inv_def)
next
  case (write_byte t m i)
  note w = writing_thread [OF assms(2), of t m i]
  have "length (le_ctx (es_elem s)) = MSG_SIZE" using assms(2) by (simp add: elem_inv_def)
  then have "alone s' t" "writer_inv s' t"
    using w write_byte by (auto simp: alone_def writer_inv_def take_Suc_conv_app_nth)
  then show ?thesis using write_byte assms(2) w(1) by (auto simp: elem_inv_def)
next
  case (write_store t m i)
  note w = writing_thread [OF assms(2), of t m i]
  have "nobody s'" using w write_store by (auto simp: alone_def nobody_def)
  then show ?thesis using write_store assms(2) w by (auto simp: elem_inv_def writer_inv_def)
next
  case (flush_exchange t)
  then have "nobody s" using assms(2) by (auto simp: elem_inv_def)
  then have "alone s' t" "flusher_inv s' t"
    using flush_exchange assms(2) by (auto simp: nobody_def alone_def flusher_inv_def elem_inv_def)
  then show ?thesis using flush_exchange assms(2) by (auto simp: elem_inv_def)
next
  case (flush_byte t i)
  note f = flushing_thread [OF assms(2), of t i]
  have "i < length (le_ctx (es_elem s))" using assms(2) flush_byte by (auto simp: elem_inv_def)
  then have "alone s' t" "flusher_inv s' t"
    using f flush_byte by (auto simp: alone_def flusher_inv_def take_Suc_conv_app_nth)
  then show ?thesis using flush_byte assms(2) f(1) by (auto simp: elem_inv_def)
next
  case (flush_store t i)
  note f = flushing_thread [OF assms(2), of t i]
  have "nobody s'" using f flush_store by (auto simp: alone_def nobody_def)
  moreover have "es_file s = concat (es_accepted s)"
  proof -
    have "es_accepted s = butlast (es_accepted s) @ [last (es_accepted s)]"
      using f flush_store append_butlast_last_id [of "es_accepted s"] by (simp add: flusher_inv_def)
    then have "concat (es_accepted s) = concat (butlast (es_accepted s)) @ last (es_accepted s)"
      by (metis concat.simps concat_append append_Nil2)
    then show ?thesis using f flush_store by (auto simp: flusher_inv_def)
  qed
  ultimately show ?thesis using flush_store assms(2) f(1) by (auto simp: elem_inv_def)
qed

lemma elem_inv_reachable: "elem_reachable s \<Longrightarrow> elem_inv s"
  by (induction rule: elem_reachable.induct) (auto intro: elem_inv_init elem_inv_step)

section \<open>The functions are runs of the relation\<close>

text \<open>A thread left alone performs exactly \<open>LogElem_write\<close>, and then \<open>LogElem_flush\<close>.\<close>

lemma write_bytes_run:
  assumes "es_pc s t = Copying m i" "i + n = length m" "length m \<le> length (le_ctx (es_elem s))"
    and "take i (le_ctx (es_elem s)) = take i m"
  shows "elem_step\<^sup>*\<^sup>* s (s\<lparr>es_elem := (es_elem s)\<lparr>le_ctx := m @ drop (length m) (le_ctx (es_elem s))\<rparr>,
                           es_pc := (es_pc s)(t := Copying m (length m))\<rparr>)"
  using assms
proof (induction n arbitrary: s i)
  case 0
  then have "s = s\<lparr>es_elem := (es_elem s)\<lparr>le_ctx := m @ drop (length m) (le_ctx (es_elem s))\<rparr>,
                   es_pc := (es_pc s)(t := Copying m (length m))\<rparr>"
    by (simp add: fun_upd_idem) (metis append_take_drop_id LogElem.surjective LogElem.update_convs(2)
        elem_sys.surjective elem_sys.update_convs(1))
  then show ?case by (metis rtranclp.rtrancl_refl)
next
  case (Suc n)
  let ?s = "s\<lparr>es_elem := (es_elem s)\<lparr>le_ctx := (le_ctx (es_elem s))[i := m ! i]\<rparr>,
              es_pc := (es_pc s)(t := Copying m (Suc i))\<rparr>"
  have i: "i < length m" "i < length (le_ctx (es_elem s))" using Suc.prems by auto
  have one: "elem_step s ?s" using Suc.prems(1) i(1) by (rule elem_step.write_byte)
  have "elem_step\<^sup>*\<^sup>* ?s (?s\<lparr>es_elem := (es_elem ?s)\<lparr>le_ctx := m @ drop (length m) (le_ctx (es_elem ?s))\<rparr>,
                           es_pc := (es_pc ?s)(t := Copying m (length m))\<rparr>)"
    using Suc.prems i by (intro Suc.IH) (auto simp: take_Suc_conv_app_nth)
  then have "elem_step\<^sup>*\<^sup>* ?s (s\<lparr>es_elem := (es_elem s)\<lparr>le_ctx := m @ drop (length m) (le_ctx (es_elem s))\<rparr>,
                           es_pc := (es_pc s)(t := Copying m (length m))\<rparr>)"
    using i(1) by simp
  with one show ?case by (rule converse_rtranclp_into_rtranclp)
qed

lemma flush_bytes_run:
  assumes "es_pc s t = Emitting i" "i + n = le_len (es_elem s)" "le_len (es_elem s) \<le> length (le_ctx (es_elem s))"
  shows "elem_step\<^sup>*\<^sup>* s (s\<lparr>es_file := es_file s @ drop i (take (le_len (es_elem s)) (le_ctx (es_elem s))),
                           es_pc := (es_pc s)(t := Emitting (le_len (es_elem s)))\<rparr>)"
  using assms
proof (induction n arbitrary: s i)
  case 0
  then have "s = s\<lparr>es_file := es_file s @ drop i (take (le_len (es_elem s)) (le_ctx (es_elem s))),
                           es_pc := (es_pc s)(t := Emitting (le_len (es_elem s)))\<rparr>"
    by (simp add: fun_upd_idem)
  then show ?case by (metis rtranclp.rtrancl_refl)
next
  case (Suc n)
  let ?s = "s\<lparr>es_file := es_file s @ [le_ctx (es_elem s) ! i], es_pc := (es_pc s)(t := Emitting (Suc i))\<rparr>"
  have i: "i < le_len (es_elem s)" using Suc.prems by simp
  have one: "elem_step s ?s" using Suc.prems(1) i by (rule elem_step.flush_byte)
  have run: "elem_step\<^sup>*\<^sup>* ?s (?s\<lparr>es_file := es_file ?s @ drop (Suc i) (take (le_len (es_elem ?s)) (le_ctx (es_elem ?s))),
                           es_pc := (es_pc ?s)(t := Emitting (le_len (es_elem ?s)))\<rparr>)"
    using Suc.prems by (intro Suc.IH) auto
  have "[le_ctx (es_elem s) ! i] @ drop (Suc i) (take (le_len (es_elem s)) (le_ctx (es_elem s)))
      = drop i (take (le_len (es_elem s)) (le_ctx (es_elem s)))"
    using i Suc.prems(3) by (simp add: Cons_nth_drop_Suc [symmetric])
  with run have "elem_step\<^sup>*\<^sup>* ?s (s\<lparr>es_file := es_file s @ drop i (take (le_len (es_elem s)) (le_ctx (es_elem s))),
                           es_pc := (es_pc s)(t := Emitting (le_len (es_elem s)))\<rparr>)"
    by simp
  with one show ?case by (rule converse_rtranclp_into_rtranclp)
qed

lemma write_run_alone:
  assumes "nobody s" "le_status (es_elem s) = CLEAN" "length m \<le> MSG_SIZE" "length (le_ctx (es_elem s)) = MSG_SIZE"
  shows "elem_step\<^sup>*\<^sup>* s (s\<lparr>es_elem := fst (LogElem_write (length m) m (es_elem s)), es_accepted := es_accepted s @ [m]\<rparr>)"
proof -
  let ?t = "0::nat"
  let ?s1 = "s\<lparr>es_elem := (es_elem s)\<lparr>le_status := WRITING\<rparr>, es_pc := (es_pc s)(?t := Won m)\<rparr>"
  let ?s2 = "s\<lparr>es_elem := (es_elem s)\<lparr>le_status := WRITING, le_len := length m\<rparr>, es_pc := (es_pc s)(?t := Copying m 0)\<rparr>"
  let ?s3 = "?s2\<lparr>es_elem := (es_elem ?s2)\<lparr>le_ctx := m @ drop (length m) (le_ctx (es_elem ?s2))\<rparr>,
                es_pc := (es_pc ?s2)(?t := Copying m (length m))\<rparr>"
  let ?s4 = "?s3\<lparr>es_elem := (es_elem ?s3)\<lparr>le_status := DIRTY\<rparr>, es_pc := (es_pc ?s3)(?t := Outside),
                es_accepted := es_accepted ?s3 @ [m]\<rparr>"
  have pc: "es_pc s = (\<lambda>_. Outside)" using assms(1) by (auto simp: nobody_def)
  have "elem_step s ?s1" using pc assms by (intro elem_step.write_exchange) auto
  moreover have "elem_step ?s1 ?s2" using elem_step.write_len [of ?s1 ?t m] by simp
  moreover have "elem_step\<^sup>*\<^sup>* ?s2 ?s3" using assms by (intro write_bytes_run [of _ _ _ 0 "length m"]) auto
  moreover have "elem_step ?s3 ?s4" by (rule elem_step.write_store) auto
  moreover have "?s4 = s\<lparr>es_elem := fst (LogElem_write (length m) m (es_elem s)), es_accepted := es_accepted s @ [m]\<rparr>"
    using assms pc
    by (intro elem_sys.equality LogElem.equality) (auto simp: LogElem_write_def copy_bytes_def Let_def fun_upd_idem)
  ultimately show ?thesis by (metis (no_types, lifting) converse_rtranclp_into_rtranclp rtranclp.rtrancl_into_rtrancl)
qed

lemma flush_run_alone:
  assumes "nobody s" "le_status (es_elem s) = DIRTY" "le_len (es_elem s) \<le> length (le_ctx (es_elem s))"
  shows "elem_step\<^sup>*\<^sup>* s (s\<lparr>es_elem := fst (LogElem_flush (es_elem s)),
                             es_file := es_file s @ fst (snd (LogElem_flush (es_elem s)))\<rparr>)"
proof -
  let ?t = "0::nat"
  let ?s1 = "s\<lparr>es_elem := (es_elem s)\<lparr>le_status := FLUSHING\<rparr>, es_pc := (es_pc s)(?t := Emitting 0)\<rparr>"
  let ?s2 = "?s1\<lparr>es_file := es_file ?s1 @ drop 0 (take (le_len (es_elem ?s1)) (le_ctx (es_elem ?s1))),
                 es_pc := (es_pc ?s1)(?t := Emitting (le_len (es_elem ?s1)))\<rparr>"
  let ?s3 = "?s2\<lparr>es_elem := (es_elem ?s2)\<lparr>le_status := CLEAN\<rparr>, es_pc := (es_pc ?s2)(?t := Outside)\<rparr>"
  have pc: "es_pc s = (\<lambda>_. Outside)" using assms(1) by (auto simp: nobody_def)
  have "elem_step s ?s1" using pc assms by (intro elem_step.flush_exchange) auto
  moreover have "elem_step\<^sup>*\<^sup>* ?s1 ?s2" using assms by (intro flush_bytes_run [of _ _ 0 "le_len (es_elem s)"]) auto
  moreover have "elem_step ?s2 ?s3" by (rule elem_step.flush_store) auto
  moreover have "?s3 = s\<lparr>es_elem := fst (LogElem_flush (es_elem s)),
                             es_file := es_file s @ fst (snd (LogElem_flush (es_elem s)))\<rparr>"
    using assms pc
    by (intro elem_sys.equality LogElem.equality) (auto simp: LogElem_flush_def fun_upd_idem)
  ultimately show ?thesis by (metis (no_types, lifting) converse_rtranclp_into_rtranclp rtranclp.rtrancl_into_rtrancl)
qed

section \<open>Properties\<close>

lemma slot_facts:
  assumes "elem_reachable s"
  shows "es_pc s t = Outside \<or> es_pc s u = Outside \<or> t = u"
    and "\<exists>rest. concat (es_accepted s) = es_file s @ rest"
    and "le_status (es_elem s) \<in> {DIRTY, FLUSHING} \<or> es_file s = concat (es_accepted s)"
    and "le_status (es_elem s) \<noteq> DIRTY \<or> es_file s @ elem_text (es_elem s) = concat (es_accepted s)"
proof -
  note inv = elem_inv_reachable [OF assms]
  have split: "concat xs = concat (butlast xs) @ last xs" if "xs \<noteq> []" for xs :: "string list"
    using that by (metis append_Nil2 append_butlast_last_id concat.simps concat_append)
  show "es_pc s t = Outside \<or> es_pc s u = Outside \<or> t = u"
    using inv unfolding elem_inv_def nobody_def alone_def
    by (cases "le_status (es_elem s)") (simp_all, (metis | blast)+)
  show "le_status (es_elem s) \<in> {DIRTY, FLUSHING} \<or> es_file s = concat (es_accepted s)"
    using inv by (cases "le_status (es_elem s)") (auto simp: elem_inv_def)
  show "le_status (es_elem s) \<noteq> DIRTY \<or> es_file s @ elem_text (es_elem s) = concat (es_accepted s)"
    using inv split by (auto simp: elem_inv_def elem_text_def)
  show "\<exists>rest. concat (es_accepted s) = es_file s @ rest"
  proof (cases "le_status (es_elem s)")
    case FLUSHING
    then obtain v i where f: "i \<le> le_len (es_elem s)" "es_accepted s \<noteq> []"
        "last (es_accepted s) = take (le_len (es_elem s)) (le_ctx (es_elem s))"
        "es_file s = concat (butlast (es_accepted s)) @ take i (le_ctx (es_elem s))"
      using inv by (auto simp: elem_inv_def flusher_inv_def)
    have "take (le_len (es_elem s)) (le_ctx (es_elem s))
        = take i (le_ctx (es_elem s)) @ drop i (take (le_len (es_elem s)) (le_ctx (es_elem s)))"
      using f(1) by (metis append_take_drop_id min.absorb1 take_take)
    then show ?thesis using f split by (metis append.assoc)
  next
    case DIRTY
    then show ?thesis using inv split by (auto simp: elem_inv_def)
  qed (use inv in \<open>auto simp: elem_inv_def\<close>)
qed

text \<open>
  C25. Whatever threads interleave on a slot, at most one is inside \<^verbatim>\<open>write\<close> or \<^verbatim>\<open>flush\<close>, and the
  file is a prefix of the accepted lines, complete but for the line the slot still holds: no
  line is torn, lost, duplicated or reordered.
\<close>

theorem slot_loses_nothing:
  assumes "elem_reachable s"
  shows "(es_pc s t = Outside \<or> es_pc s u = Outside \<or> t = u) \<and>
    (\<exists>rest. concat (es_accepted s) = es_file s @ rest) \<and>
    (le_status (es_elem s) \<in> {DIRTY, FLUSHING} \<or> es_file s = concat (es_accepted s)) \<and>
    (le_status (es_elem s) \<noteq> DIRTY \<or> es_file s @ elem_text (es_elem s) = concat (es_accepted s))"
  using slot_facts [OF assms] by blast

lemma reachable_run: "elem_step\<^sup>*\<^sup>* s s' \<Longrightarrow> elem_reachable s \<Longrightarrow> elem_reachable s'"
  by (induction rule: rtranclp_induct) (auto intro: elem_next)

text \<open>A line accepted, and a flush of it that has written one byte.\<close>

definition sample_slot :: elem_sys where
  "sample_slot = \<lparr>es_elem = (fst (LogElem_write 2 ''AB'' LogElem_new))\<lparr>le_status := FLUSHING\<rparr>,
     es_file = ''A'', es_pc = (\<lambda>_. Outside)(1 := Emitting 1), es_accepted = [''AB'']\<rparr>"

lemma sample_slot_reachable: "elem_reachable sample_slot"
proof -
  let ?s1 = "elem_init\<lparr>es_elem := fst (LogElem_write (length ''AB'') ''AB'' (es_elem elem_init)),
                       es_accepted := es_accepted elem_init @ [''AB'']\<rparr>"
  let ?s2 = "?s1\<lparr>es_elem := (es_elem ?s1)\<lparr>le_status := FLUSHING\<rparr>, es_pc := (es_pc ?s1)(1 := Emitting 0)\<rparr>"
  let ?s3 = "?s2\<lparr>es_file := es_file ?s2 @ [le_ctx (es_elem ?s2) ! 0], es_pc := (es_pc ?s2)(1 := Emitting (Suc 0))\<rparr>"
  have r1: "elem_reachable ?s1"
    by (rule reachable_run [OF write_run_alone elem_start])
       (simp_all add: nobody_def elem_init_def LogElem_new_def MSG_SIZE_def)
  have "elem_step ?s1 ?s2"
    by (rule elem_step.flush_exchange)
       (simp_all add: elem_init_def LogElem_new_def LogElem_write_def MSG_SIZE_def)
  moreover have "elem_step ?s2 ?s3"
    by (rule elem_step.flush_byte)
       (simp_all add: elem_init_def LogElem_new_def LogElem_write_def MSG_SIZE_def)
  moreover have "?s3 = sample_slot"
    by (simp add: sample_slot_def elem_init_def LogElem_new_def LogElem_write_def MSG_SIZE_def copy_bytes_def)
  ultimately show ?thesis using r1 by (auto intro: elem_next)
qed

theorem slot_loses_nothing_witness:
  "es_pc sample_slot 1 = Emitting 1 \<and> es_pc sample_slot 0 = Outside \<and>
   (\<exists>rest. concat (es_accepted sample_slot) = es_file sample_slot @ rest)"
  using slot_loses_nothing [OF sample_slot_reachable, of 1 0]
  by (simp add: sample_slot_def)

end
