(* ===== verification/Log_Format.thy ===== *)
theory Log_Format
  imports Log_Elem
begin

text \<open>
  raft_logger.cpp: how a log line is put together. The wall clock as the fields of
  \<^verbatim>\<open>TimeInfo\<close>, the time zone offset, the conversions of \<^verbatim>\<open>printf\<close> the logger uses, and the two
  macros \<^verbatim>\<open>_snprintf\<close> and \<^verbatim>\<open>_vsnprintf\<close>, which append to a fixed buffer while keeping track of
  the room left. Shown here: the macros never write outside the buffer, which text survives, and
  from which length on the tail of a line is cut off.
\<close>

section \<open>Clock values\<close>

record tm =
  tm_year :: int
  tm_mon :: int
  tm_mday :: int
  tm_hour :: int
  tm_min :: int
  tm_sec :: int

record TimeInfo =
  ti_year :: int
  ti_month :: int
  ti_day :: int
  ti_hour :: int
  ti_min :: int
  ti_sec :: int
  ti_msec :: nat
  ti_usec :: nat

text \<open>
  The two constructors. \<open>now\<close> is the time since the epoch in nanoseconds, \<open>localtime\<close> and
  \<open>gmtime\<close> are the functions of the C library, which depend on the zone of the host.
\<close>

definition TimeInfo_of_tm :: "tm \<Rightarrow> TimeInfo" where
  "TimeInfo_of_tm src =
     \<lparr>ti_year = tm_year src + 1900, ti_month = tm_mon src + 1, ti_day = tm_mday src,
      ti_hour = tm_hour src, ti_min = tm_min src, ti_sec = tm_sec src, ti_msec = 0, ti_usec = 0\<rparr>"

definition TimeInfo_of_now :: "(nat \<Rightarrow> tm) \<Rightarrow> nat \<Rightarrow> TimeInfo" where
  "TimeInfo_of_now localtime now =
     (let raw_time = now div 10 ^ 9; lt = localtime raw_time; us_epoch = now div 1000 in
      \<lparr>ti_year = tm_year lt + 1900, ti_month = tm_mon lt + 1, ti_day = tm_mday lt,
       ti_hour = tm_hour lt, ti_min = tm_min lt, ti_sec = tm_sec lt,
       ti_msec = (us_epoch div 1000) mod 1000, ti_usec = us_epoch mod 1000\<rparr>)"

definition getTzGap :: "(nat \<Rightarrow> tm) \<Rightarrow> (nat \<Rightarrow> tm) \<Rightarrow> nat \<Rightarrow> int" where
  "getTzGap localtime gmtime now =
     (let raw_time = now div 10 ^ 9;
          lt = TimeInfo_of_tm (localtime raw_time);
          gmt = TimeInfo_of_tm (gmtime raw_time)
      in (ti_day lt * 60 * 24 + ti_hour lt * 60 + ti_min lt) -
         (ti_day gmt * 60 * 24 + ti_hour gmt * 60 + ti_min gmt))"

section \<open>Conversions of \<^verbatim>\<open>printf\<close>\<close>

definition pad_left :: "char \<Rightarrow> nat \<Rightarrow> string \<Rightarrow> string" where
  "pad_left c w s = replicate (w - length s) c @ s"

definition hex_digit :: "nat \<Rightarrow> char" where
  "hex_digit d = ''0123456789abcdef'' ! d"

fun to_hex :: "nat \<Rightarrow> string" where
  "to_hex n = (if n < 16 then [hex_digit n] else to_hex (n div 16) @ [hex_digit (n mod 16)])"

declare to_hex.simps [simp del]

text \<open>\<^verbatim>\<open>%0<w>d\<close> and \<^verbatim>\<open>%*u\<close>.\<close>

definition fmt_0d :: "nat \<Rightarrow> int \<Rightarrow> string" where
  "fmt_0d w i =
     (if i < 0 then CHR ''-'' # pad_left (CHR ''0'') (w - 1) (to_string (nat (- i)))
      else pad_left (CHR ''0'') w (to_string (nat i)))"

definition fmt_star_u :: "nat \<Rightarrow> nat \<Rightarrow> string" where
  "fmt_star_u w n = pad_left (CHR '' '') w (to_string n)"

definition lv_names :: "string list" where
  "lv_names = [''===='', ''FATL'', ''ERRO'', ''WARN'', ''INFO'', ''DEBG'', ''TRAC'']"

definition tz_sign :: "int \<Rightarrow> char" where
  "tz_sign gap = (if gap \<ge> 0 then CHR ''+'' else CHR ''-'')"

text \<open>The time stamp, the thread id and the level at the head of a line.\<close>

definition log_header :: "TimeInfo \<Rightarrow> int \<Rightarrow> nat \<Rightarrow> nat \<Rightarrow> string \<Rightarrow> string" where
  "log_header lt tzGap tid_digits tid_hash level_name =
     (let tz_gap_abs = (if tzGap < 0 then tzGap * -1 else tzGap) in
      fmt_0d 4 (ti_year lt) @ ''-'' @ fmt_0d 2 (ti_month lt) @ ''-'' @ fmt_0d 2 (ti_day lt) @ ''T'' @
      fmt_0d 2 (ti_hour lt) @ '':'' @ fmt_0d 2 (ti_min lt) @ '':'' @ fmt_0d 2 (ti_sec lt) @ ''.'' @
      fmt_0d 3 (int (ti_msec lt)) @ ''_'' @ fmt_0d 3 (int (ti_usec lt)) @ [tz_sign tzGap] @
      fmt_0d 2 (tz_gap_abs div 60) @ '':'' @ fmt_0d 2 (tz_gap_abs mod 60) @ '' '' @
      ''['' @ fmt_star_u tid_digits tid_hash @ ''] '' @
      ''['' @ level_name @ ''] '')"

text \<open>
  The file name without its directories: the loop remembers the last slash, and position 0
  stands for "none".
\<close>

fun last_slash :: "nat \<Rightarrow> nat \<Rightarrow> string \<Rightarrow> nat" where
  "last_slash ii found [] = found"
| "last_slash ii found (c # cs) =
     last_slash (Suc ii) (if c = CHR ''/'' \<or> c = CHR 0x5C then ii else found) cs"

definition source_name :: "string \<Rightarrow> string" where
  "source_name path =
     (let l = last_slash 0 0 path in drop (if l \<noteq> 0 then l + 1 else 0) path)"

text \<open>The end of a line: where the call stands, when the caller gave it.\<close>

definition log_footer :: "string option \<Rightarrow> string option \<Rightarrow> nat \<Rightarrow> string" where
  "log_footer source_file func_name line_number =
     (case (source_file, func_name) of
        (Some f, Some g) \<Rightarrow> [CHR 0x09] @ ''['' @ source_name f @ '':'' @ to_string line_number @ '', '' @
                            g @ ''()]'' @ [CHR 0x0A]
      | _ \<Rightarrow> [CHR 0x0A])"

section \<open>The colours of the console\<close>

definition esc :: "string \<Rightarrow> string" where
  "esc code = CHR 0x1B # CHR ''['' # code @ ''m''"

definition CLM_END :: string where "CLM_END = esc ''0''"
definition CLM_D_GRAY :: string where "CLM_D_GRAY = esc ''1;30''"
definition CLM_GREEN :: string where "CLM_GREEN = esc ''32''"
definition CLM_B_RED :: string where "CLM_B_RED = esc ''1;31''"
definition CLM_BROWN :: string where "CLM_BROWN = esc ''33''"
definition CLM_B_BROWN :: string where "CLM_B_BROWN = esc ''1;33''"
definition CLM_B_BLUE :: string where "CLM_B_BLUE = esc ''1;34''"
definition CLM_B_MAGENTA :: string where "CLM_B_MAGENTA = esc ''1;35''"
definition CLM_CYAN :: string where "CLM_CYAN = esc ''36''"
definition CLM_WHITE_FG_RED_BG :: string where "CLM_WHITE_FG_RED_BG = esc ''37;41''"

definition coloured :: "string \<Rightarrow> string \<Rightarrow> string" where
  "coloured c s = c @ s @ CLM_END"

definition colored_lv_names :: "string list" where
  "colored_lv_names =
     [coloured CLM_B_BROWN ''===='', coloured CLM_WHITE_FG_RED_BG ''FATL'', coloured CLM_B_RED ''ERRO'',
      coloured CLM_B_MAGENTA ''WARN'', ''INFO'', coloured CLM_D_GRAY ''DEBG'', coloured CLM_D_GRAY ''TRAC'']"

definition console_header :: "TimeInfo \<Rightarrow> nat \<Rightarrow> nat \<Rightarrow> string \<Rightarrow> string" where
  "console_header lt tid_digits tid_hash level_name =
     '' ['' @ coloured CLM_BROWN (fmt_0d 2 (ti_hour lt)) @ '':'' @ coloured CLM_BROWN (fmt_0d 2 (ti_min lt)) @ '':'' @
     coloured CLM_BROWN (fmt_0d 2 (ti_sec lt)) @ ''.'' @ coloured CLM_BROWN (fmt_0d 3 (int (ti_msec lt))) @ '' '' @
     coloured CLM_BROWN (fmt_0d 3 (int (ti_usec lt))) @ ''] [tid '' @ coloured CLM_B_BLUE (fmt_star_u tid_digits tid_hash) @
     ''] '' @ ''['' @ level_name @ ''] ''"

definition console_footer :: "string option \<Rightarrow> string option \<Rightarrow> nat \<Rightarrow> string" where
  "console_footer source_file func_name line_number =
     (case (source_file, func_name) of
        (Some f, Some g) \<Rightarrow> ''['' @ coloured CLM_GREEN (source_name f) @ '':'' @
                            coloured CLM_B_RED (to_string line_number) @ '', '' @ coloured CLM_CYAN (g @ ''()'') @
                            '']'' @ [CHR 0x0A]
      | _ \<Rightarrow> [CHR 0x0A])"

section \<open>The bounded buffer\<close>

text \<open>
  \<open>store\<close> writes bytes into an array, failing outside of it. \<open>snprintf_at\<close> is
  \<^verbatim>\<open>snprintf(msg + pos, n, ...)\<close> for a text already formatted: at most \<open>n - 1\<close> characters and a
  NUL, nothing when \<open>n\<close> is 0; the length returned is that of the whole text.
\<close>

definition store :: "nat \<Rightarrow> string \<Rightarrow> string \<Rightarrow> string res" where
  "store pos s buf =
     (if pos + length s \<le> length buf then Inr (take pos buf @ s @ drop (pos + length s) buf)
      else Inl (Abort (Out_of_bounds ''msg'')))"

definition snprintf_at :: "nat \<Rightarrow> nat \<Rightarrow> string \<Rightarrow> string \<Rightarrow> string res" where
  "snprintf_at pos n text buf =
     (if n = 0 then Inr buf else store pos (take (n - 1) text @ [CHR 0x00]) buf)"

record out_buf =
  ob_msg :: string
  ob_avail_len :: nat
  ob_cur_len :: nat

definition out_new :: "string \<Rightarrow> out_buf" where
  "out_new msg = \<lparr>ob_msg = msg, ob_avail_len = MSG_SIZE, ob_cur_len = 0\<rparr>"

definition snprintf_macro :: "out_buf \<Rightarrow> string \<Rightarrow> out_buf res" where
  "snprintf_macro b text =
     (let avail_len = (if ob_avail_len b > ob_cur_len b then ob_avail_len b - ob_cur_len b else 0);
          msg_len = length text
      in andthen (snprintf_at (ob_cur_len b) avail_len text (ob_msg b)) (\<lambda>msg.
           Inr \<lparr>ob_msg = msg, ob_avail_len = avail_len,
                ob_cur_len = ob_cur_len b + (if avail_len > msg_len then msg_len else avail_len)\<rparr>))"

definition render :: "string \<Rightarrow> string list \<Rightarrow> out_buf res" where
  "render msg texts = foldM snprintf_macro (out_new msg) texts"

text \<open>The order of the appends for the file and for the console.\<close>

definition file_texts :: "string \<Rightarrow> string \<Rightarrow> string \<Rightarrow> string list" where
  "file_texts header text footer = [header, text, footer]"

definition console_texts :: "int \<Rightarrow> string \<Rightarrow> string \<Rightarrow> string \<Rightarrow> string list" where
  "console_texts level header footer text =
     [header, footer] @ (if level = 0 then [CLM_B_BROWN] else if level = 1 then [CLM_B_RED] else []) @
     [text, CLM_END]"

subsection \<open>No write outside the buffer\<close>

definition out_ok :: "out_buf \<Rightarrow> bool" where
  "out_ok b \<longleftrightarrow> length (ob_msg b) = MSG_SIZE \<and> ob_avail_len b \<le> MSG_SIZE \<and> ob_cur_len b \<le> MSG_SIZE"

lemma out_ok_new: "length msg = MSG_SIZE \<Longrightarrow> out_ok (out_new msg)"
  by (simp add: out_ok_def out_new_def)

lemma store_ok: "pos + length s \<le> length buf \<Longrightarrow> \<exists>buf'. store pos s buf = Inr buf' \<and> length buf' = length buf"
  by (simp add: store_def)

lemma snprintf_at_ok:
  assumes "pos + n \<le> length buf"
  shows "\<exists>buf'. snprintf_at pos n text buf = Inr buf' \<and> length buf' = length buf"
  using assms by (auto simp: snprintf_at_def store_def)

text \<open>The same for a buffer of any length.\<close>

definition out_within :: "nat \<Rightarrow> out_buf \<Rightarrow> bool" where
  "out_within n b \<longleftrightarrow> length (ob_msg b) = n \<and> ob_avail_len b \<le> n \<and> ob_cur_len b \<le> n"

lemma out_ok_within: "out_ok b \<longleftrightarrow> out_within MSG_SIZE b"
  by (simp add: out_ok_def out_within_def)

lemma snprintf_macro_within:
  assumes "out_within n b"
  shows "\<exists>b'. snprintf_macro b text = Inr b' \<and> out_within n b'"
proof -
  let ?a = "if ob_avail_len b > ob_cur_len b then ob_avail_len b - ob_cur_len b else 0"
  have "ob_cur_len b + ?a \<le> length (ob_msg b)" using assms by (auto simp: out_within_def)
  then obtain buf' where "snprintf_at (ob_cur_len b) ?a text (ob_msg b) = Inr buf'" "length buf' = length (ob_msg b)"
    using snprintf_at_ok by blast
  with assms show ?thesis by (auto simp: snprintf_macro_def out_within_def Let_def)
qed

lemma snprintf_macro_ok: "out_ok b \<Longrightarrow> \<exists>b'. snprintf_macro b text = Inr b' \<and> out_ok b'"
  using snprintf_macro_within by (simp add: out_ok_within)

lemma foldM_snprintf_within: "out_within n b \<Longrightarrow> \<exists>b'. foldM snprintf_macro b texts = Inr b' \<and> out_within n b'"
proof (induction texts arbitrary: b)
  case (Cons x xs)
  then obtain b1 where "snprintf_macro b x = Inr b1" "out_within n b1" using snprintf_macro_within by blast
  with Cons.IH [of b1] show ?case by simp
qed simp

lemma foldM_snprintf_ok: "out_ok b \<Longrightarrow> \<exists>b'. foldM snprintf_macro b texts = Inr b' \<and> out_ok b'"
  using foldM_snprintf_within by (simp add: out_ok_within)

lemma render_ok:
  assumes "length msg = MSG_SIZE"
  shows "\<exists>b. render msg texts = Inr b \<and> out_ok b"
  using foldM_snprintf_ok [OF out_ok_new [OF assms]] by (simp add: render_def)

subsection \<open>What survives\<close>

text \<open>
  \<open>fits a c texts\<close>: each text is shorter than the room the macro reckons with. The room is
  reduced at every append by all that was written before, not only by the last text.
\<close>

fun fits :: "nat \<Rightarrow> nat \<Rightarrow> string list \<Rightarrow> bool" where
  "fits a c [] \<longleftrightarrow> True"
| "fits a c (t # ts) \<longleftrightarrow> c + length t < a \<and> fits (a - c) (c + length t) ts"

lemma snprintf_macro_fits:
  assumes "out_within n b" "ob_cur_len b + length t < ob_avail_len b"
  obtains b' where "snprintf_macro b t = Inr b'" "out_within n b'"
    "take (ob_cur_len b') (ob_msg b') = take (ob_cur_len b) (ob_msg b) @ t"
    "ob_cur_len b' = ob_cur_len b + length t" "ob_avail_len b' = ob_avail_len b - ob_cur_len b"
proof -
  let ?a = "ob_avail_len b - ob_cur_len b"
  let ?m = "take (ob_cur_len b) (ob_msg b) @ (t @ [CHR 0x00]) @ drop (ob_cur_len b + length (t @ [CHR 0x00])) (ob_msg b)"
  let ?b = "\<lparr>ob_msg = ?m, ob_avail_len = ?a, ob_cur_len = ob_cur_len b + length t\<rparr>"
  have a: "ob_avail_len b > ob_cur_len b" "?a > length t" "?a \<noteq> 0" using assms(2) by auto
  have len: "ob_cur_len b + length (t @ [CHR 0x00]) \<le> length (ob_msg b)"
    using assms by (auto simp: out_within_def)
  then have s: "store (ob_cur_len b) (t @ [CHR 0x00]) (ob_msg b) = Inr ?m" unfolding store_def by simp
  have tk: "take (?a - 1) t = t" using a by simp
  have "snprintf_at (ob_cur_len b) ?a t (ob_msg b) = Inr ?m"
    unfolding snprintf_at_def tk using a(3) s by simp
  then have run: "snprintf_macro b t = Inr ?b"
    using a by (simp add: snprintf_macro_def Let_def)
  moreover have "out_within n ?b" using run snprintf_macro_within [OF assms(1), of t] by auto
  moreover have "take (ob_cur_len ?b) (ob_msg ?b) = take (ob_cur_len b) (ob_msg b) @ t" using len by simp
  ultimately show thesis by (intro that [of ?b]) simp_all
qed

lemma foldM_snprintf_fits:
  "out_within n b \<Longrightarrow> fits (ob_avail_len b) (ob_cur_len b) texts \<Longrightarrow>
     \<exists>b'. foldM snprintf_macro b texts = Inr b' \<and> out_within n b' \<and>
       take (ob_cur_len b') (ob_msg b') = take (ob_cur_len b) (ob_msg b) @ concat texts \<and>
       ob_cur_len b' = ob_cur_len b + length (concat texts)"
proof (induction texts arbitrary: b)
  case Nil
  then show ?case by simp
next
  case (Cons t ts)
  then obtain b1 where b1: "snprintf_macro b t = Inr b1" "out_within n b1"
      "take (ob_cur_len b1) (ob_msg b1) = take (ob_cur_len b) (ob_msg b) @ t"
      "ob_cur_len b1 = ob_cur_len b + length t" "ob_avail_len b1 = ob_avail_len b - ob_cur_len b"
    using snprintf_macro_fits [of n b t] by auto
  with Cons.IH [of b1] Cons.prems(2) show ?case by auto
qed

lemma render_fits:
  assumes "length msg = MSG_SIZE" "fits MSG_SIZE 0 texts"
  shows "\<exists>b. render msg texts = Inr b \<and> take (ob_cur_len b) (ob_msg b) = concat texts \<and>
             ob_cur_len b = length (concat texts)"
  using foldM_snprintf_fits [OF out_ok_new [OF assms(1), unfolded out_ok_within], of texts] assms(2)
  by (auto simp: render_def out_new_def)

lemma fits_line:
  "fits MSG_SIZE 0 (file_texts header text footer) \<longleftrightarrow>
     length header + length text < MSG_SIZE \<and> 2 * length header + length text + length footer < MSG_SIZE"
  by (auto simp: file_texts_def)

lemma foldM_one_more:
  "foldM f s (xs @ [x]) = andthen (foldM f s xs) (\<lambda>s'. f s' x)"
  by (simp add: foldM_append)

text \<open>
  The third append: the room is what the first left, less both texts, so the header counts
  twice. What does not fit is cut, and a NUL takes the place of the last byte.
\<close>

lemma render_cut:
  assumes "length msg = MSG_SIZE" "length header + length body < MSG_SIZE" "2 * length header + length body < MSG_SIZE"
    and "MSG_SIZE \<le> 2 * length header + length body + length footer"
  shows "\<exists>b. render msg (file_texts header body footer) = Inr b \<and>
     take (ob_cur_len b) (ob_msg b) =
       header @ body @ take (MSG_SIZE - (2 * length header + length body) - 1) footer @ [CHR 0x00] \<and>
     ob_cur_len b = MSG_SIZE - length header"
proof -
  let ?h = "length header" and ?t = "length body"
  obtain b1 where b1: "snprintf_macro (out_new msg) header = Inr b1" "out_within MSG_SIZE b1"
      "take (ob_cur_len b1) (ob_msg b1) = header" "ob_cur_len b1 = ?h" "ob_avail_len b1 = MSG_SIZE"
    using snprintf_macro_fits [OF out_ok_new [OF assms(1), unfolded out_ok_within], of header] assms(2)
    by (auto simp: out_new_def)
  obtain b2 where b2: "snprintf_macro b1 body = Inr b2" "out_within MSG_SIZE b2"
      "take (ob_cur_len b2) (ob_msg b2) = header @ body" "ob_cur_len b2 = ?h + ?t" "ob_avail_len b2 = MSG_SIZE - ?h"
    using snprintf_macro_fits [OF b1(2), of body] b1 assms(2,3) by auto
  let ?a = "MSG_SIZE - (2 * ?h + ?t)"
  let ?s = "take (?a - 1) footer @ [CHR 0x00]"
  have a: "?a \<noteq> 0" "?a \<le> length footer" "(MSG_SIZE - ?h > ?h + ?t)" "MSG_SIZE - ?h - (?h + ?t) = ?a"
    using assms(3,4) by auto
  have ls: "length ?s = ?a" using a(1,2) by simp
  have lm: "length (ob_msg b2) = MSG_SIZE" using b2(2) by (simp add: out_within_def)
  have le: "?h + ?t + ?a \<le> length (ob_msg b2)" using lm assms(3) by simp
  let ?m = "take (?h + ?t) (ob_msg b2) @ ?s @ drop (?h + ?t + ?a) (ob_msg b2)"
  have "snprintf_at (?h + ?t) ?a footer (ob_msg b2) = Inr ?m"
  proof -
    have "store (?h + ?t) ?s (ob_msg b2) = Inr ?m" unfolding store_def ls using le by simp
    then show ?thesis using a(1) by (simp add: snprintf_at_def)
  qed
  then have b3: "snprintf_macro b2 footer = Inr \<lparr>ob_msg = ?m, ob_avail_len = ?a, ob_cur_len = ?h + ?t + ?a\<rparr>"
    using a b2(4,5) by (simp add: snprintf_macro_def Let_def)
  have "render msg (file_texts header body footer) = Inr \<lparr>ob_msg = ?m, ob_avail_len = ?a, ob_cur_len = ?h + ?t + ?a\<rparr>"
    using b1(1) b2(1) b3 by (simp add: render_def file_texts_def)
  moreover have "take (?h + ?t + ?a) ?m = header @ body @ ?s"
    using b2(3,4) ls lm le by (simp add: append_assoc)
  ultimately show ?thesis using assms(3) by simp
qed

section \<open>Properties\<close>

text \<open>
  Whatever the lengths of the texts appended, the macros never write outside the buffer,
  and the length handed to the ring is never more than the buffer.
\<close>

theorem appends_stay_in_buffer:
  assumes "length msg = MSG_SIZE"
  shows "\<exists>b. render msg texts = Inr b \<and> ob_cur_len b \<le> MSG_SIZE \<and> length (ob_msg b) = MSG_SIZE"
  using render_ok [OF assms, of texts] by (auto simp: out_ok_def)

theorem appends_stay_in_buffer_witness:
  "\<exists>b. render (replicate 4096 (CHR ''x'')) [''head'', replicate 5000 (CHR ''y''), ''tail''] = Inr b \<and>
       ob_cur_len b \<le> MSG_SIZE \<and> length (ob_msg b) = MSG_SIZE"
  by (rule appends_stay_in_buffer) (simp add: MSG_SIZE_def)

text \<open>
  C27. What a log line keeps of its header, its message and its footer: all three when the
  header counted twice, the message and the footer are shorter than the buffer; otherwise
  the footer is cut short and the line ends with a NUL in place of its newline.
\<close>

theorem line_content:
  assumes "length msg = MSG_SIZE" "2 * length header + length body < MSG_SIZE"
  shows "\<exists>b. render msg (file_texts header body footer) = Inr b \<and>
     take (ob_cur_len b) (ob_msg b) =
       (if 2 * length header + length body + length footer < MSG_SIZE then header @ body @ footer
        else header @ body @ take (MSG_SIZE - (2 * length header + length body) - 1) footer @ [CHR 0x00])"
proof -
  have ht: "length header + length body < MSG_SIZE" using assms(2) by simp
  show ?thesis
  proof (cases "2 * length header + length body + length footer < MSG_SIZE")
    case True
    then have "fits MSG_SIZE 0 (file_texts header body footer)" using ht by (simp add: fits_line)
    from render_fits [OF assms(1) this] True show ?thesis by (auto simp: file_texts_def)
  next
    case False
    with render_cut [OF assms(1) ht assms(2), of footer] show ?thesis by auto
  qed
qed

theorem line_content_witness:
  "\<exists>b. render (replicate 4096 (CHR ''x'')) (file_texts (replicate 50 (CHR ''h'')) (replicate 3991 (CHR ''t'')) ''[a:1]'') = Inr b \<and>
     take (ob_cur_len b) (ob_msg b) = replicate 50 (CHR ''h'') @ replicate 3991 (CHR ''t'') @ ''[a:1'' @ [CHR 0x00]"
  using line_content [of "replicate 4096 (CHR ''x'')" "replicate 50 (CHR ''h'')" "replicate 3991 (CHR ''t'')" "''[a:1]''"]
  by (simp add: MSG_SIZE_def)

text \<open>The file name of a path that names a directory.\<close>

lemma last_slash_keep: "\<forall>c \<in> set s. c \<noteq> CHR ''/'' \<and> c \<noteq> CHR 0x5C \<Longrightarrow> last_slash n k s = k"
  by (induction s arbitrary: n) auto

lemma last_slash_append:
  "last_slash n k (d @ CHR ''/'' # f) = last_slash (n + length d + 1) (n + length d) f"
  by (induction d arbitrary: n k) auto

lemma source_name_path:
  assumes "d \<noteq> []" "\<forall>c \<in> set f. c \<noteq> CHR ''/'' \<and> c \<noteq> CHR 0x5C"
  shows "source_name (d @ CHR ''/'' # f) = f"
  using assms by (simp add: source_name_def last_slash_append last_slash_keep)

lemma source_name_plain:
  "\<forall>c \<in> set f. c \<noteq> CHR ''/'' \<and> c \<noteq> CHR 0x5C \<Longrightarrow> source_name f = f"
  by (simp add: source_name_def last_slash_keep)

end
