(* ===== verification/Log_Files.thy ===== *)
theory Log_Files
  imports Vdb_Libs
begin

text \<open>
  raft_logger.cpp: the names of the log files. \<^verbatim>\<open>replaceString\<close>, the numbers in the names of a
  directory (\<^verbatim>\<open>findMinMaxRevNum\<close>) and the path of a numbered file. Shown here: the replacement
  loop ends and equals a left-to-right replacement, unless it looks for the empty string; the
  number a logger starts with lies above every archive in the directory; different numbers
  have different paths.
\<close>

section \<open>Searching strings\<close>

text \<open>
  \<open>find_at s pat from\<close> is \<^verbatim>\<open>s.find(pat, from)\<close> and \<open>rfind s pat\<close> is \<^verbatim>\<open>s.rfind(pat)\<close>; \<open>None\<close>
  is \<^verbatim>\<open>npos\<close>.
\<close>

fun find_in :: "string \<Rightarrow> nat \<Rightarrow> string \<Rightarrow> nat option" where
  "find_in pat n s =
     (if take (length pat) s = pat then Some n
      else case s of [] \<Rightarrow> None | c # cs \<Rightarrow> find_in pat (Suc n) cs)"

declare find_in.simps [simp del]

definition find_at :: "string \<Rightarrow> string \<Rightarrow> nat \<Rightarrow> nat option" where
  "find_at s pat from = (if from > length s then None else find_in pat from (drop from s))"

fun rfind_down :: "string \<Rightarrow> string \<Rightarrow> nat \<Rightarrow> nat option" where
  "rfind_down s pat 0 = (if take (length pat) s = pat then Some 0 else None)"
| "rfind_down s pat (Suc n) =
     (if take (length pat) (drop (Suc n) s) = pat then Some (Suc n) else rfind_down s pat n)"

definition rfind :: "string \<Rightarrow> string \<Rightarrow> nat option" where
  "rfind s pat = (if length pat > length s then None else rfind_down s pat (length s - length pat))"


lemma rfind_down_skip:
  assumes "length a \<le> n" "n < length (a @ c # b)" "c \<notin> set b"
  shows "rfind_down (a @ c # b) [c] n = Some (length a)"
  using assms
proof (induction n)
  case 0
  then show ?case by simp
next
  case (Suc n)
  show ?case
  proof (cases "Suc n = length a")
    case True
    show ?thesis by (simp only: rfind_down.simps) (simp add: True)
  next
    case False
    then have n: "length a \<le> n" "n - length a < length b" using Suc.prems by auto
    then have d: "drop (Suc n) (a @ c # b) = drop (n - length a) b"
      by (simp add: Suc_diff_le)
    have "take 1 (drop (n - length a) b) = [b ! (n - length a)]"
      using n(2) by (simp add: take_Suc_conv_app_nth)
    moreover have "b ! (n - length a) \<noteq> c" using n(2) Suc.prems(3) by (metis nth_mem)
    ultimately show ?thesis using Suc.IH Suc.prems n d by simp
  qed
qed

lemma rfind_char: "c \<notin> set b \<Longrightarrow> rfind (a @ c # b) [c] = Some (length a)"
  by (simp add: rfind_def rfind_down_skip)

section \<open>\<^verbatim>\<open>replaceString\<close>\<close>

text \<open>A loop that may not end: looking for the empty string finds it again where it stands.\<close>

partial_function (option) replace_loop ::
  "string \<Rightarrow> string \<Rightarrow> string \<Rightarrow> nat \<Rightarrow> nat option \<Rightarrow> string \<Rightarrow> string option" where
  "replace_loop src before after lst pos ret =
     (case pos of
        None \<Rightarrow> Some (if lst < length src then ret @ drop lst src else ret)
      | Some p \<Rightarrow>
          let lst' = p + length before
          in replace_loop src before after lst' (find_at src before lst')
               (ret @ take (p - lst) (drop lst src) @ after))"

definition replaceString :: "string \<Rightarrow> string \<Rightarrow> string \<Rightarrow> string option" where
  "replaceString src_str before after =
     replace_loop src_str before after 0 (find_at src_str before 0) []"

text \<open>The replacement as one would specify it.\<close>

fun replaced :: "string \<Rightarrow> string \<Rightarrow> string \<Rightarrow> string" where
  "replaced pat rep [] = []"
| "replaced pat rep (c # cs) =
     (if pat \<noteq> [] \<and> take (length pat) (c # cs) = pat
      then rep @ replaced pat rep (drop (length pat - 1) cs)
      else c # replaced pat rep cs)"

lemma find_in_None: "find_in pat n s = None \<Longrightarrow> replaced pat rep s = s"
proof (induction pat n s rule: find_in.induct)
  case (1 pat n s)
  then have no: "take (length pat) s \<noteq> pat" by (subst (asm) find_in.simps) (simp split: if_splits)
  show ?case
  proof (cases s)
    case (Cons c cs)
    then have "find_in pat (Suc n) cs = None"
      using 1(2) no by (subst (asm) find_in.simps) simp
    then show ?thesis using 1(1) [OF no Cons] no Cons by simp
  qed simp
qed

lemma find_in_Some:
  assumes "find_in pat n s = Some p" "pat \<noteq> []"
  shows "n \<le> p \<and> p + length pat \<le> n + length s \<and>
    replaced pat rep s = take (p - n) s @ rep @ replaced pat rep (drop (p - n + length pat) s)"
  using assms
proof (induction pat n s rule: find_in.induct)
  case (1 pat n s)
  show ?case
  proof (cases "take (length pat) s = pat")
    case True
    then have p: "p = n" using 1(2) by (simp add: find_in.simps)
    obtain c cs where s: "s = c # cs" using True 1(3) by (cases s) auto
    have "drop (length pat - 1) cs = drop (length pat) s" using s 1(3) by (cases pat) auto
    moreover have "length pat \<le> length s" using True by (metis length_take min.cobounded1 min.commute)
    ultimately show ?thesis using True p s 1(3) by simp
  next
    case False
    then obtain c cs where s: "s = c # cs" and f: "find_in pat (Suc n) cs = Some p"
      using 1(2) by (auto simp: find_in.simps [of pat n s] split: list.splits)
    have "Suc n \<le> p \<and> p + length pat \<le> Suc n + length cs \<and>
        replaced pat rep cs = take (p - Suc n) cs @ rep @ replaced pat rep (drop (p - Suc n + length pat) cs)"
      using 1(1) [OF False s f 1(3)] .
    moreover have "p - n = Suc (p - Suc n)" using calculation by (simp add: Suc_diff_Suc Suc_le_eq)
    ultimately show ?thesis using False s by simp
  qed
qed

lemma find_at_bound: "find_at src pat n = Some p \<Longrightarrow> pat \<noteq> [] \<Longrightarrow> n \<le> p \<and> p + length pat \<le> length src"
  using find_in_Some [of pat n "drop n src" p] by (auto simp: find_at_def split: if_splits)

lemma replace_loop_eq:
  assumes "before \<noteq> []" "pos = find_at src before lst" "lst \<le> length src"
  shows "replace_loop src before after lst pos ret = Some (ret @ replaced before after (drop lst src))"
  using assms
proof (induction "length src - lst" arbitrary: lst pos ret rule: less_induct)
  case less
  show ?case
  proof (cases pos)
    case None
    then have "find_in before lst (drop lst src) = None" using less.prems by (simp add: find_at_def)
    then have r: "replaced before after (drop lst src) = drop lst src" by (rule find_in_None)
    have "replace_loop src before after lst None ret = Some (if lst < length src then ret @ drop lst src else ret)"
      by (subst replace_loop.simps) simp
    then show ?thesis unfolding r using None by simp
  next
    case (Some p)
    then have f: "find_in before lst (drop lst src) = Some p" using less.prems by (simp add: find_at_def)
    note s = find_in_Some [OF f less.prems(1), of after]
    let ?l = "p + length before"
    have b: "?l \<le> length src" "length src - ?l < length src - lst"
      using s less.prems(1,3) by (auto simp: neq_Nil_conv)
    have "replace_loop src before after lst pos ret
        = replace_loop src before after ?l (find_at src before ?l) (ret @ take (p - lst) (drop lst src) @ after)"
      unfolding Some by (subst replace_loop.simps) (simp add: Let_def)
    also have "\<dots> = Some ((ret @ take (p - lst) (drop lst src) @ after) @ replaced before after (drop ?l src))"
      using less.hyps [OF b(2) less.prems(1) refl b(1)] .
    finally show ?thesis using s by (simp add: add.commute)
  qed
qed

lemma replaceString_eq: "before \<noteq> [] \<Longrightarrow> replaceString src before after = Some (replaced before after src)"
  using replace_loop_eq [of before "find_at src before 0" src 0 after "[]"] by (simp add: replaceString_def)

text \<open>A string without the pattern is left alone; the paths of the logger lose doubled slashes.\<close>

lemma replaced_length: "length rep \<le> length pat \<Longrightarrow> length (replaced pat rep s) \<le> length s"
proof (induction pat rep s rule: replaced.induct)
  case (2 pat rep c cs)
  show ?case
  proof (cases "pat \<noteq> [] \<and> take (length pat) (c # cs) = pat")
    case True
    then have l: "length pat \<le> Suc (length cs)" by (metis length_Cons length_take min.cobounded1 min.commute)
    have "length (replaced pat rep (drop (length pat - 1) cs)) \<le> length cs - (length pat - 1)"
      using 2(1) [OF True 2(3)] by simp
    then show ?thesis using True l 2(3) by (cases pat) auto
  next
    case False
    then show ?thesis using 2 by auto
  qed
qed simp

section \<open>Numbers in file names\<close>

text \<open>
  \<^verbatim>\<open>atoi\<close> as the C library of the host has it: the value of \<^verbatim>\<open>strtol\<close>, which stops at the
  limits of \<^verbatim>\<open>long\<close>, cut down to an \<^verbatim>\<open>int\<close>. Assigned to a \<^verbatim>\<open>size_t\<close>, a negative number wraps.
\<close>

definition atoi :: "string \<Rightarrow> int" where
  "atoi s =
     (case strto (c_str s) of
        None \<Rightarrow> 0
      | Some (neg, n, _) \<Rightarrow>
          let l = (if neg then max (- int n) (- (2 ^ 63)) else min (int n) (2 ^ 63 - 1))
          in sint (word_of_int l :: u32))"

text \<open>\<open>last_extension f\<close> is the text after the last dot.\<close>

definition last_extension :: "string \<Rightarrow> string option" where
  "last_extension f_name =
     (case rfind f_name ''.'' of
        None \<Rightarrow> None
      | Some last_dot \<Rightarrow> Some (take (length f_name - last_dot - 1) (drop (last_dot + 1) f_name)))"

record rev_scan =
  rs_initialized :: bool
  rs_min :: u64
  rs_max :: u64

definition note_revnum :: "u64 \<Rightarrow> bool \<Rightarrow> rev_scan \<Rightarrow> rev_scan" where
  "note_revnum revnum comp_file r =
     (let mx = max (rs_max r) (if comp_file then revnum + 1 else revnum);
          mn = (if rs_initialized r then rs_min r else revnum)
      in \<lparr>rs_initialized = True, rs_min = min mn revnum, rs_max = mx\<rparr>)"

definition findMinMaxRevNumInternal :: "rev_scan \<Rightarrow> string \<Rightarrow> rev_scan" where
  "findMinMaxRevNumInternal r f_name =
     (case last_extension f_name of
        None \<Rightarrow> r
      | Some ext \<Rightarrow>
          if ext = ''gz'' \<and> length f_name > 7
          then (case last_extension (take (length f_name - 7) f_name) of
                  None \<Rightarrow> r
                | Some ext' \<Rightarrow> note_revnum (word_of_int (atoi ext')) True r)
          else note_revnum (word_of_int (atoi ext)) False r)"

text \<open>
  \<open>readdir\<close> gives the names in a directory in the order the system lists them, \<open>None\<close> when the
  directory cannot be opened.
\<close>

definition split_path :: "string \<Rightarrow> string \<times> string" where
  "split_path filePath =
     (case rfind filePath ''/'' of
        None \<Rightarrow> (''./'', filePath)
      | Some last_pos \<Rightarrow> (take last_pos filePath,
                          take (length filePath - last_pos - 1) (drop (last_pos + 1) filePath)))"

definition findMinMaxRevNum :: "(string \<Rightarrow> string list option) \<Rightarrow> string \<Rightarrow> u64 \<times> u64" where
  "findMinMaxRevNum readdir filePath =
     (let (dir_path, file_name_only) = split_path filePath;
          names = (case readdir dir_path of None \<Rightarrow> [] | Some ns \<Rightarrow> ns);
          r = fold (\<lambda>f_name r. if rfind f_name file_name_only = None then r
                               else findMinMaxRevNumInternal r f_name)
                names \<lparr>rs_initialized = False, rs_min = 0, rs_max = 0\<rparr>
      in (rs_min r, rs_max r))"

definition getLogFilePath :: "string \<Rightarrow> u64 \<Rightarrow> string" where
  "getLogFilePath filePath file_num =
     (if file_num \<noteq> 0 then filePath @ ''.'' @ to_string (unat file_num) else filePath)"

lemma getLogFilePath_inject [simp]: "getLogFilePath p m = getLogFilePath p n \<longleftrightarrow> m = n"
  by (auto simp: getLogFilePath_def word_unat_eq_iff)

section \<open>The scan of a directory\<close>

lemma rfind_prefix_found: "rfind (a @ b) a \<noteq> None"
proof -
  have "rfind_down (a @ b) a n \<noteq> None" for n by (induction n) auto
  then show ?thesis by (simp add: rfind_def)
qed

lemma last_extension_dot: "CHR ''.'' \<notin> set e \<Longrightarrow> last_extension (a @ CHR ''.'' # e) = Some e"
  by (simp add: last_extension_def rfind_char)

lemma atoi_to_string:
  assumes "n < 2 ^ 31"
  shows "atoi (to_string n) = int n"
proof -
  have "sint (word_of_int (int n) :: u32) = int n"
    using assms unfolding sint_sbintrunc' by (simp add: signed_take_bit_int_eq_self_iff)
  moreover have "min (int n) (2 ^ 63 - 1) = int n" using assms by simp
  ultimately show ?thesis using strto_to_string [of "[]" n] by (simp add: atoi_def Let_def)
qed

definition scan_ok :: "rev_scan \<Rightarrow> bool" where
  "scan_ok r \<longleftrightarrow> (rs_initialized r \<or> rs_max r = 0)"

lemma scan_mono:
  "rs_max r \<le> rs_max (findMinMaxRevNumInternal r f)"
  "rs_initialized r \<Longrightarrow> rs_min (findMinMaxRevNumInternal r f) \<le> rs_min r \<and> rs_initialized (findMinMaxRevNumInternal r f)"
  by (auto simp: findMinMaxRevNumInternal_def note_revnum_def Let_def split: option.splits)

text \<open>The numbers an archive and a plain log file contribute.\<close>

lemma scan_archive:
  assumes "n < 2 ^ 31"
  shows "findMinMaxRevNumInternal r (f @ ''.'' @ to_string n @ ''.tar.gz'') = note_revnum (of_nat n) True r"
proof -
  let ?f = "f @ ''.'' @ to_string n @ ''.tar.gz''"
  have "?f = (f @ ''.'' @ to_string n @ ''.tar'') @ CHR ''.'' # ''gz''" by simp
  then have e: "last_extension ?f = Some ''gz''" by (simp only:) (rule last_extension_dot, simp)
  have t: "take (length ?f - 7) ?f = f @ CHR ''.'' # to_string n" by simp
  have e': "last_extension (f @ CHR ''.'' # to_string n) = Some (to_string n)"
    by (rule last_extension_dot) simp
  have "length ?f > 7" by simp
  with e t e' assms show ?thesis
    by (simp add: findMinMaxRevNumInternal_def atoi_to_string)
qed

lemma scan_plain:
  assumes "n < 2 ^ 31"
  shows "findMinMaxRevNumInternal r (f @ ''.'' @ to_string n) = note_revnum (of_nat n) False r"
proof -
  have "last_extension (f @ CHR ''.'' # to_string n) = Some (to_string n)"
    by (rule last_extension_dot) simp
  moreover have "to_string n \<noteq> ''gz''"
    using to_string_digits [of "CHR ''g''" n] unfolding is_digit_def by fastforce
  ultimately show ?thesis using assms by (simp add: findMinMaxRevNumInternal_def atoi_to_string)
qed

lemma note_revnum_max:
  "rs_max r \<le> rs_max (note_revnum v c r)"
  "c \<Longrightarrow> v + 1 \<le> rs_max (note_revnum v c r)"
  "\<not> c \<Longrightarrow> v \<le> rs_max (note_revnum v c r)"
  "rs_min (note_revnum v c r) \<le> v"
  by (auto simp: note_revnum_def Let_def)

lemma scan_fold_mono:
  "rs_max r \<le> rs_max (fold (\<lambda>f r. if P f then r else findMinMaxRevNumInternal r f) fs r)"
proof (induction fs arbitrary: r)
  case (Cons f fs)
  have "rs_max r \<le> rs_max (if P f then r else findMinMaxRevNumInternal r f)"
    using scan_mono(1) by simp
  also have "\<dots> \<le> rs_max (fold (\<lambda>f r. if P f then r else findMinMaxRevNumInternal r f) fs
                          (if P f then r else findMinMaxRevNumInternal r f))" by (rule Cons.IH)
  finally show ?case by simp
qed simp

lemma scan_fold_member:
  assumes "f \<in> set fs" "\<not> P f" "\<And>r. b \<le> rs_max (findMinMaxRevNumInternal r f)"
  shows "b \<le> rs_max (fold (\<lambda>f r. if P f then r else findMinMaxRevNumInternal r f) fs r)"
proof -
  obtain us vs where fs: "fs = us @ f # vs" using split_list [OF assms(1)] by blast
  let ?step = "\<lambda>f r. if P f then r else findMinMaxRevNumInternal r f"
  have "b \<le> rs_max (?step f (fold ?step us r))" using assms(2,3) by simp
  also have "\<dots> \<le> rs_max (fold ?step vs (?step f (fold ?step us r)))" by (rule scan_fold_mono)
  finally show ?thesis using fs by simp
qed

section \<open>Properties\<close>

text \<open>
  \<^verbatim>\<open>replaceString\<close> returns for every non-empty pattern, with the text the left-to-right
  replacement gives; with replacements no longer than the pattern the text does not grow.
\<close>

theorem replaceString_replaces:
  assumes "before \<noteq> []" "length after \<le> length before"
  shows "\<exists>s. replaceString src before after = Some s \<and> s = replaced before after src \<and> length s \<le> length src"
  using replaceString_eq [OF assms(1)] replaced_length [OF assms(2)] by simp

theorem replaceString_replaces_witness:
  "\<exists>s. replaceString ''a//b'' ''//'' ''/'' = Some s \<and> s = ''a/b'' \<and> length s \<le> 4"
  using replaceString_replaces [of "''//''" "''/''" "''a//b''"] by simp

text \<open>
  The number a logger starts with is above that of every archive in the directory of its
  file and not below that of any plain log file, so it never appends to a file that was
  already compressed.
\<close>

theorem start_number_above_archives:
  assumes "filePath = dir @ ''/'' @ base" "CHR ''/'' \<notin> set base" "readdir dir = Some names"
    and "n < 2 ^ 31" "base @ ''.'' @ to_string n @ ''.tar.gz'' \<in> set names"
    and "m < 2 ^ 31" "base @ ''.'' @ to_string m \<in> set names"
  shows "n < unat (snd (findMinMaxRevNum readdir filePath)) \<and> m \<le> unat (snd (findMinMaxRevNum readdir filePath))"
proof -
  have sp: "split_path filePath = (dir, base)"
    using assms(1,2) by (simp add: split_path_def rfind_char)
  let ?P = "\<lambda>f. rfind f base = None" and ?r0 = "\<lparr>rs_initialized = False, rs_min = 0, rs_max = 0 :: u64\<rparr>"
  let ?mx = "rs_max (fold (\<lambda>f r. if ?P f then r else findMinMaxRevNumInternal r f) names ?r0)"
  have mx: "snd (findMinMaxRevNum readdir filePath) = ?mx"
    by (simp add: findMinMaxRevNum_def sp assms(3) Let_def)
  have a: "of_nat n + 1 \<le> rs_max (findMinMaxRevNumInternal r (base @ ''.'' @ to_string n @ ''.tar.gz''))" for r
    unfolding scan_archive [OF assms(4)] by (simp add: note_revnum_max)
  have p: "of_nat m \<le> rs_max (findMinMaxRevNumInternal r (base @ ''.'' @ to_string m))" for r
    unfolding scan_plain [OF assms(6)] by (simp add: note_revnum_max)
  have "of_nat n + 1 \<le> ?mx"
    by (rule scan_fold_member [OF assms(5) _ a]) (rule rfind_prefix_found)
  then have "unat (of_nat n + 1 :: u64) \<le> unat ?mx" by (simp add: word_le_nat_alt)
  moreover have "unat (of_nat n + 1 :: u64) = n + 1"
  proof -
    have "of_nat n + 1 = (of_nat (n + 1) :: u64)" by simp
    then have "unat (of_nat n + 1 :: u64) = unat (of_nat (n + 1) :: u64)" by (rule arg_cong)
    also have "\<dots> = n + 1" using assms(4) by (simp del: of_nat_add of_nat_Suc add: unat_of_nat)
    finally show ?thesis .
  qed
  moreover have "of_nat m \<le> ?mx"
    by (rule scan_fold_member [OF assms(7) _ p]) (rule rfind_prefix_found)
  then have "unat (of_nat m :: u64) \<le> unat ?mx" by (simp add: word_le_nat_alt)
  moreover have "unat (of_nat m :: u64) = m" using assms(6) by (simp add: unat_of_nat take_bit_nat_eq_self)
  ultimately show ?thesis using mx by simp
qed

theorem start_number_above_archives_witness:
  "(6::nat) < unat (snd (findMinMaxRevNum (\<lambda>d. Some [''l.log.6.tar.gz'', ''l.log.7'']) ''./l.log'')) \<and>
   (7::nat) \<le> unat (snd (findMinMaxRevNum (\<lambda>d. Some [''l.log.6.tar.gz'', ''l.log.7'']) ''./l.log''))"
  by (rule start_number_above_archives [of "''./l.log''" "''.''" "''l.log''" "\<lambda>d. Some [''l.log.6.tar.gz'', ''l.log.7'']" "[''l.log.6.tar.gz'', ''l.log.7'']"])
     (simp_all add: to_string_digit digit_char_def)

end
