(* ===== verification/Raft_Logger.thy ===== *)
theory Raft_Logger
  imports Log_Format Log_Files
begin

text \<open>
  raft_logger.cpp, \<^verbatim>\<open>class SimpleLogger\<close>: a ring of slots that collects lines, written out to a
  file when the ring comes round to a slot still in use or when it is flushed; the file is
  rotated at a size limit, and old files are compressed and removed. The operations are
  given for one caller at a time: the flushing lock is then free, and the loops that wait for
  a slot to become available end at once, since every slot is CLEAN or DIRTY between two
  operations. Interleaved callers of one slot are the subject of Log_Elem. Shown here: ring and file
  together are a queue of lines, in order and without loss, also across rotations.
\<close>

section \<open>Output file streams\<close>

text \<open>
  A \<^verbatim>\<open>std::ofstream\<close> opened for appending: the file it is open on, whether no error bit is set,
  and the position \<^verbatim>\<open>tellp\<close> reports, which is 0 until the first write. Writes go to the file at
  once: the logger flushes the stream after each group of writes.
\<close>

record ofstream =
  os_path :: "string option"
  os_good :: bool
  os_pos :: nat

definition ofs_closed :: ofstream where
  "ofs_closed = \<lparr>os_path = None, os_good = True, os_pos = 0\<rparr>"

definition contents :: "filesys \<Rightarrow> string \<Rightarrow> string" where
  "contents fs path = (case fs_read fs path of None \<Rightarrow> [] | Some s \<Rightarrow> s)"

definition ofs_open :: "string \<Rightarrow> ofstream \<times> filesys \<Rightarrow> ofstream \<times> filesys" where
  "ofs_open path = (\<lambda>(st, fs).
     if os_path st \<noteq> None \<or> \<not> fs_writable fs path then (st\<lparr>os_good := False\<rparr>, fs)
     else (\<lparr>os_path = Some path, os_good = True, os_pos = 0\<rparr>, fs_write path (contents fs path) fs))"

definition ofs_write :: "string \<Rightarrow> ofstream \<times> filesys \<Rightarrow> ofstream \<times> filesys" where
  "ofs_write s = (\<lambda>(st, fs).
     if \<not> os_good st then (st, fs)
     else case os_path st of
       None \<Rightarrow> (st\<lparr>os_good := False\<rparr>, fs)
     | Some p \<Rightarrow> (st\<lparr>os_pos := (if s = [] then os_pos st else length (contents fs p @ s))\<rparr>,
                  fs_write p (contents fs p @ s) fs))"

definition ofs_close :: "ofstream \<Rightarrow> ofstream" where
  "ofs_close st = (if os_path st = None then st\<lparr>os_good := False\<rparr> else st\<lparr>os_path := None\<rparr>)"

definition ofs_tellp :: "ofstream \<Rightarrow> int" where
  "ofs_tellp st = (if os_good st then int (os_pos st) else -1)"

lemma contents_write [simp]: "contents (fs_write p s fs) q = (if q = p then s else contents fs q)"
  by (simp add: contents_def)

section \<open>The state\<close>

record RawStackInfo =
  si_tidHash :: u32
  si_kernelTid :: u64
  si_stackPtrs :: "u64 list"
  si_crashOrigin :: bool

text \<open>
  \<^verbatim>\<open>SimpleLoggerMgr\<close>: the registered loggers and a queued compression name a logger by its
  address. A closed crash dump file is \<open>None\<close>.
\<close>

record SimpleLoggerMgr =
  mg_loggers :: "nat list"
  mg_activeThreads :: "u64 list"
  mg_pendingCompElems :: "(u64 \<times> nat) list"
  mg_termination :: bool
  mg_handlers_installed :: bool
  mg_globalCriticalInfo :: string
  mg_crashOriginThread :: u64
  mg_crashDumpPath :: string
  mg_crashDumpFile :: "string option"
  mg_crashDumpOriginOnly :: bool
  mg_exitOnCrash :: bool
  mg_abortTimer :: u64
  mg_crashDumpThreadStacks :: "RawStackInfo list"

record SimpleLogger =
  sl_filePath :: string
  sl_minRevnum :: u64
  sl_curRevnum :: u64
  sl_maxLogFiles :: u64
  sl_fs :: ofstream
  sl_maxLogFileSize :: u64
  sl_numCompJobs :: u32
  sl_curLogLevel :: int
  sl_curDispLevel :: int
  sl_tzGap :: int
  sl_cursor :: nat
  sl_logs :: "LogElem list"

text \<open>
  What the logger shares with the rest of the process: the files, the manager (\<open>None\<close> before
  it is made and after it is destroyed), what was printed, and the shell commands run.
\<close>

record log_io =
  io_files :: filesys
  io_mgr :: "SimpleLoggerMgr option"
  io_console :: string
  io_cmds :: "string list"

text \<open>
  The host: the clock and its zone, the calling thread, the directories, the environment, the
  shell, what the uninitialised buffer of \<^verbatim>\<open>put\<close> holds, and the source position of the logger's own lines.
\<close>

record log_host =
  h_now :: nat
  h_localtime :: "nat \<Rightarrow> tm"
  h_gmtime :: "nat \<Rightarrow> tm"
  h_tid :: nat
  h_tid_digits :: nat
  h_readdir :: "string \<Rightarrow> string list option"
  h_getenv :: "string \<Rightarrow> string option"
  h_system :: "string \<Rightarrow> filesys \<Rightarrow> filesys"
  h_stack :: string
  h_file :: string
  h_line :: "string \<Rightarrow> nat"

definition SimpleLogger_new :: "log_host \<Rightarrow> string \<Rightarrow> nat \<Rightarrow> u64 \<Rightarrow> u32 \<Rightarrow> SimpleLogger option" where
  "SimpleLogger_new h file_path max_log_elems log_file_size_limit max_log_files =
     map_option (\<lambda>path.
       let (mn, mx) = findMinMaxRevNum (h_readdir h) path in
       \<lparr>sl_filePath = path, sl_minRevnum = mn, sl_curRevnum = mx, sl_maxLogFiles = ucast max_log_files,
        sl_fs = ofs_closed, sl_maxLogFileSize = log_file_size_limit, sl_numCompJobs = 0,
        sl_curLogLevel = 4, sl_curDispLevel = 4, sl_tzGap = getTzGap (h_localtime h) (h_gmtime h) (h_now h),
        sl_cursor = 0, sl_logs = replicate max_log_elems LogElem_new\<rparr>)
     (replaceString file_path ''//'' ''/'')"

definition setLogLevel :: "int \<Rightarrow> SimpleLogger \<Rightarrow> SimpleLogger" where
  "setLogLevel level lg =
     (if level > 6 then lg else if \<not> os_good (sl_fs lg) then lg else lg\<lparr>sl_curLogLevel := level\<rparr>)"

definition setDispLevel :: "int \<Rightarrow> SimpleLogger \<Rightarrow> SimpleLogger" where
  "setDispLevel level lg = (if level > 6 then lg else lg\<lparr>sl_curDispLevel := level\<rparr>)"

definition setMaxLogFiles :: "u64 \<Rightarrow> SimpleLogger \<Rightarrow> SimpleLogger" where
  "setMaxLogFiles n lg = (if n = 0 then lg else lg\<lparr>sl_maxLogFiles := n\<rparr>)"

definition traceAllowed :: "SimpleLogger \<Rightarrow> bool" where
  "traceAllowed lg \<longleftrightarrow> sl_curLogLevel lg \<ge> 6"

definition debugAllowed :: "SimpleLogger \<Rightarrow> bool" where
  "debugAllowed lg \<longleftrightarrow> sl_curLogLevel lg \<ge> 5"

section \<open>Flushing\<close>

definition flush_elem :: "nat \<Rightarrow> LogElem list \<times> ofstream \<times> filesys \<Rightarrow> LogElem list \<times> ofstream \<times> filesys" where
  "flush_elem i = (\<lambda>(logs, st, fs).
     let (e, out, rc) = LogElem_flush (logs ! i) in
     if rc = 0 then (logs[i := e], ofs_write out (st, fs)) else (logs, st, fs))"

definition addCompElem :: "u64 \<Rightarrow> nat \<Rightarrow> SimpleLoggerMgr \<Rightarrow> SimpleLoggerMgr" where
  "addCompElem num logger m = m\<lparr>mg_pendingCompElems := mg_pendingCompElems m @ [(num, logger)]\<rparr>"

text \<open>The second half of \<^verbatim>\<open>flush\<close>: a file over the limit is closed and the next one opened.\<close>

definition rotate_file :: "nat \<Rightarrow> SimpleLogger \<times> log_io \<Rightarrow> SimpleLogger \<times> log_io" where
  "rotate_file self = (\<lambda>(lg, io).
     if sl_maxLogFileSize lg \<noteq> 0 \<and> ofs_tellp (sl_fs lg) > sint (sl_maxLogFileSize lg)
     then
       let cur = sl_curRevnum lg + 1;
           (st, fs) = ofs_open (getLogFilePath (sl_filePath lg) cur) (ofs_close (sl_fs lg), io_files io);
           lg = lg\<lparr>sl_curRevnum := cur, sl_fs := st\<rparr>; io = io\<lparr>io_files := fs\<rparr>
       in (case io_mgr io of
             None \<Rightarrow> (lg, io)
           | Some m \<Rightarrow> (lg\<lparr>sl_numCompJobs := sl_numCompJobs lg + 1\<rparr>,
                        io\<lparr>io_mgr := Some (addCompElem (cur - 1) self m)\<rparr>))
     else (lg, io))"

text \<open>\<^verbatim>\<open>flush(start_pos)\<close>: the slots from \<open>start_pos\<close> on, round to the one before it.\<close>

definition ring_order :: "nat \<Rightarrow> nat \<Rightarrow> nat list" where
  "ring_order start_pos num = [start_pos..<num] @ [0..<start_pos]"

definition SimpleLogger_flush :: "nat \<Rightarrow> nat \<Rightarrow> SimpleLogger \<times> log_io \<Rightarrow> SimpleLogger \<times> log_io" where
  "SimpleLogger_flush self start_pos = (\<lambda>(lg, io).
     let (logs, st, fs) = fold flush_elem (ring_order start_pos (length (sl_logs lg)))
                            (sl_logs lg, sl_fs lg, io_files io)
     in rotate_file self (lg\<lparr>sl_logs := logs, sl_fs := st\<rparr>, io\<lparr>io_files := fs\<rparr>))"

definition flushAll :: "nat \<Rightarrow> SimpleLogger \<times> log_io \<Rightarrow> SimpleLogger \<times> log_io" where
  "flushAll self = (\<lambda>(lg, io). SimpleLogger_flush self (sl_cursor lg) (lg, io))"

section \<open>Writing a line\<close>

text \<open>The slot at the cursor takes the line; it is flushed first when it still holds one.\<close>

definition ring_put :: "nat \<Rightarrow> nat \<Rightarrow> string \<Rightarrow> SimpleLogger \<times> log_io \<Rightarrow> (SimpleLogger \<times> log_io) res" where
  "ring_put self n msg = (\<lambda>(lg, io).
     let num = length (sl_logs lg) in
     if num = 0 then Inl (Abort Division_by_zero)
     else if sl_cursor lg \<ge> num then Inl (Abort (Out_of_bounds ''logs''))
     else
       let cursor_exp = sl_cursor lg;
           lg = lg\<lparr>sl_cursor := (cursor_exp + 1) mod num\<rparr>;
           (lg, io) = (if LogElem_needToFlush (sl_logs lg ! cursor_exp)
                       then SimpleLogger_flush self cursor_exp (lg, io) else (lg, io))
       in Inr (lg\<lparr>sl_logs := (sl_logs lg)[cursor_exp := fst (LogElem_write n msg (sl_logs lg ! cursor_exp))]\<rparr>, io))"

definition console_put :: "log_host \<Rightarrow> int \<Rightarrow> string option \<Rightarrow> string option \<Rightarrow> nat \<Rightarrow> string \<Rightarrow> string
    \<Rightarrow> SimpleLogger \<times> log_io \<Rightarrow> (SimpleLogger \<times> log_io) res" where
  "console_put h level source_file func_name line_number body msg = (\<lambda>(lg, io).
     let header = console_header (TimeInfo_of_now (h_localtime h) (h_now h)) (h_tid_digits h) (h_tid h)
                    (colored_lv_names ! nat level);
         footer = console_footer source_file func_name line_number
     in andthen (render msg (console_texts level header footer body)) (\<lambda>b.
          Inr (lg, io\<lparr>io_console := io_console io @ c_str (ob_msg b) @ [CHR 0x0A]\<rparr>)))"

text \<open>
  \<open>body\<close> is the text \<^verbatim>\<open>vsnprintf\<close> makes of the caller's format and arguments. The tables of level
  names have seven entries.
\<close>

definition SimpleLogger_put :: "log_host \<Rightarrow> nat \<Rightarrow> int \<Rightarrow> string option \<Rightarrow> string option \<Rightarrow> nat \<Rightarrow> string
    \<Rightarrow> SimpleLogger \<times> log_io \<Rightarrow> (SimpleLogger \<times> log_io) res" where
  "SimpleLogger_put h self level source_file func_name line_number body = (\<lambda>(lg, io).
     if level > sl_curLogLevel lg then Inr (lg, io)
     else if \<not> os_good (sl_fs lg) then Inr (lg, io)
     else if level < 0 \<or> level \<ge> 7 then Inl (Abort (Out_of_bounds ''lv_names''))
     else
       let header = log_header (TimeInfo_of_now (h_localtime h) (h_now h)) (sl_tzGap lg) (h_tid_digits h) (h_tid h)
                      (lv_names ! nat level);
           footer = log_footer source_file func_name line_number
       in andthen (render (h_stack h) (file_texts header body footer)) (\<lambda>b.
          andthen (ring_put self (ob_cur_len b) (ob_msg b) (lg, io)) (\<lambda>(lg', io').
            if level > sl_curDispLevel lg' then Inr (lg', io')
            else console_put h level source_file func_name line_number body (ob_msg b) (lg', io'))))"

text \<open>The macro \<^verbatim>\<open>_log_(level, l, ...)\<close> around a call of \<^verbatim>\<open>put\<close> on a logger that exists.\<close>

definition log_macro :: "log_host \<Rightarrow> nat \<Rightarrow> int \<Rightarrow> string \<Rightarrow> string \<Rightarrow> SimpleLogger \<times> log_io \<Rightarrow> (SimpleLogger \<times> log_io) res" where
  "log_macro h self level func_name body = (\<lambda>(lg, io).
     if sl_curLogLevel lg \<ge> level
     then SimpleLogger_put h self level (Some (h_file h)) (Some func_name) (h_line h func_name) body (lg, io)
     else Inr (lg, io))"

section \<open>The manager as the logger sees it\<close>

text \<open>
  The constructor: the crash handlers are installed unless the environment turns them off. The
  two background threads it starts are modelled in Logger_Mgr.
\<close>

definition SimpleLoggerMgr_new :: "log_host \<Rightarrow> SimpleLoggerMgr" where
  "SimpleLoggerMgr_new h =
     (let env_segv_str = (case h_getenv h ''SIMPLELOGGER_HANDLE_SEGV'' of None \<Rightarrow> [] | Some s \<Rightarrow> s) in
      \<lparr>mg_loggers = [], mg_activeThreads = [], mg_pendingCompElems = [], mg_termination = False,
       mg_handlers_installed = (env_segv_str \<notin> {''OFF'', ''off'', ''FALSE'', ''false''}),
       mg_globalCriticalInfo = [], mg_crashOriginThread = 0, mg_crashDumpPath = [], mg_crashDumpFile = None,
       mg_crashDumpOriginOnly = True, mg_exitOnCrash = False, mg_abortTimer = 0, mg_crashDumpThreadStacks = []\<rparr>)"

definition mgr_init :: "log_host \<Rightarrow> log_io \<Rightarrow> log_io" where
  "mgr_init h io = (case io_mgr io of None \<Rightarrow> io\<lparr>io_mgr := Some (SimpleLoggerMgr_new h)\<rparr> | Some m \<Rightarrow> io)"

definition mgr_get :: "log_host \<Rightarrow> log_io \<Rightarrow> SimpleLoggerMgr \<times> log_io" where
  "mgr_get h io = (let io' = (case io_mgr io of None \<Rightarrow> mgr_init h io | Some m \<Rightarrow> io) in (the (io_mgr io'), io'))"

definition upd_mgr :: "(SimpleLoggerMgr \<Rightarrow> SimpleLoggerMgr) \<Rightarrow> log_io \<Rightarrow> log_io" where
  "upd_mgr f io = io\<lparr>io_mgr := map_option f (io_mgr io)\<rparr>"

definition addLogger :: "nat \<Rightarrow> SimpleLoggerMgr \<Rightarrow> SimpleLoggerMgr" where
  "addLogger logger m = m\<lparr>mg_loggers := List.insert logger (mg_loggers m)\<rparr>"

definition removeLogger :: "nat \<Rightarrow> SimpleLoggerMgr \<Rightarrow> SimpleLoggerMgr" where
  "removeLogger logger m = m\<lparr>mg_loggers := removeAll logger (mg_loggers m)\<rparr>"

section \<open>Starting, stopping, compressing\<close>

definition start_text :: "SimpleLogger \<Rightarrow> string" where
  "start_text lg = ''Start logger: '' @ c_str (sl_filePath lg) @ '' ('' @
     to_string (unat (sl_maxLogFileSize lg div 1024 div 1024)) @ '' MB per file, up to '' @
     to_string (unat (sl_maxLogFiles lg)) @ '' files)''"

definition SimpleLogger_start :: "log_host \<Rightarrow> nat \<Rightarrow> SimpleLogger \<times> log_io \<Rightarrow> ((SimpleLogger \<times> log_io) \<times> int) res" where
  "SimpleLogger_start h self = (\<lambda>(lg, io).
     if sl_filePath lg = [] then Inr ((lg, io), 0)
     else
       let (st, fs) = ofs_open (getLogFilePath (sl_filePath lg) (sl_curRevnum lg)) (sl_fs lg, io_files io);
           lg = lg\<lparr>sl_fs := st\<rparr>; io = io\<lparr>io_files := fs\<rparr>
       in if \<not> os_good st then Inr ((lg, io), -1)
          else
            let (m, io) = mgr_get h io; io = upd_mgr (addLogger self) io in
            andthen (log_macro h self 0 ''start'' (start_text lg) (lg, io)) (\<lambda>w.
              let critical_info = mg_globalCriticalInfo m in
              if critical_info \<noteq> []
              then andthen (log_macro h self 4 ''start'' (c_str critical_info) w) (\<lambda>w'. Inr (w', 0))
              else Inr (w, 0)))"

text \<open>
  \<open>stop\<close> ends by waiting for the compressor to finish the files of this logger: the last
  component tells whether there is something left to wait for.
\<close>

definition SimpleLogger_stop :: "log_host \<Rightarrow> nat \<Rightarrow> SimpleLogger \<times> log_io \<Rightarrow> ((SimpleLogger \<times> log_io) \<times> bool) res" where
  "SimpleLogger_stop h self = (\<lambda>(lg, io).
     if os_path (sl_fs lg) = None \<or> io_mgr io = None then Inr ((lg, io), False)
     else
       andthen (log_macro h self 0 ''stop'' (''Stop logger: '' @ c_str (sl_filePath lg))
                  (lg, upd_mgr (removeLogger self) io)) (\<lambda>w.
         let (lg, io) = flushAll self w; lg = lg\<lparr>sl_fs := ofs_close (sl_fs lg)\<rparr>
         in Inr ((lg, io), sl_numCompJobs lg > 0)))"

definition execCmd :: "log_host \<Rightarrow> string \<Rightarrow> log_io \<Rightarrow> log_io" where
  "execCmd h cmd_given io =
     (let cmd = cmd_given @ '' > /dev/null'' in
      io\<lparr>io_cmds := io_cmds io @ [cmd], io_files := h_system h cmd (io_files io)\<rparr>)"

text \<open>
  One round of the loop that removes old files, and the loop over the numbers from
  \<^verbatim>\<open>minRevnum\<close> to \<^verbatim>\<open>file_num - max_log_files\<close>. The upper end is below \<open>2 ^ 64 - 1\<close>, since
  \<^verbatim>\<open>max_log_files\<close> is not 0 there, so the counter does not wrap.
\<close>

definition remove_old :: "log_host \<Rightarrow> nat \<Rightarrow> SimpleLogger \<times> log_io \<Rightarrow> SimpleLogger \<times> log_io" where
  "remove_old h ii = (\<lambda>(lg, io).
     let filename = getLogFilePath (sl_filePath lg) (of_nat ii); filename_tar = filename @ ''.tar.gz''
     in (lg\<lparr>sl_minRevnum := of_nat ii + 1\<rparr>, execCmd h (''rm -f '' @ filename @ '' '' @ filename_tar) io))"

definition doCompression :: "log_host \<Rightarrow> u64 \<Rightarrow> SimpleLogger \<times> log_io \<Rightarrow> SimpleLogger \<times> log_io" where
  "doCompression h file_num = (\<lambda>(lg, io).
     let filename = getLogFilePath (sl_filePath lg) file_num;
         io = execCmd h (''tar zcvf '' @ filename @ ''.tar.gz '' @ filename) io;
         io = execCmd h (''rm -f '' @ filename) io;
         max_log_files = sl_maxLogFiles lg;
         (lg, io) = (if max_log_files \<noteq> 0 \<and> file_num \<ge> max_log_files
                     then fold (remove_old h) [unat (sl_minRevnum lg)..<Suc (unat (file_num - max_log_files))] (lg, io)
                     else (lg, io))
     in (lg\<lparr>sl_numCompJobs := sl_numCompJobs lg - 1\<rparr>, io))"

section \<open>The ring holds the lines in order\<close>

definition slots_idle :: "SimpleLogger \<Rightarrow> bool" where
  "slots_idle lg \<longleftrightarrow> list_all LogElem_available (sl_logs lg) \<and>
     list_all (\<lambda>e. length (le_ctx e) = MSG_SIZE \<and> le_len e \<le> MSG_SIZE) (sl_logs lg)"

text \<open>What the slots hold, oldest first, and all that is in the file or on its way to it.\<close>

definition texts_from :: "nat \<Rightarrow> LogElem list \<Rightarrow> string" where
  "texts_from c logs = concat (map (\<lambda>i. elem_text (logs ! i)) (ring_order c (length logs)))"

definition pending :: "SimpleLogger \<Rightarrow> string" where
  "pending lg = texts_from (sl_cursor lg) (sl_logs lg)"

lemma flush_elem_open:
  assumes "os_path st = Some p" "os_good st" "i < length logs"
  shows "\<exists>st' fs'. flush_elem i (logs, st, fs) = (logs[i := fst (LogElem_flush (logs ! i))], st', fs') \<and>
    os_path st' = Some p \<and> os_good st' \<and>
    contents fs' = (contents fs)(p := contents fs p @ elem_text (logs ! i)) \<and> fs_writable fs' = fs_writable fs"
proof (cases "le_status (logs ! i) = DIRTY")
  case True
  then show ?thesis using assms
    by (auto simp: flush_elem_def LogElem_flush_def elem_text_def ofs_write_def fun_eq_iff)
next
  case False
  then show ?thesis using assms
    by (auto simp: flush_elem_def LogElem_flush_def elem_text_def list_update_same_conv)
qed

text \<open>A flush over distinct positions appends their texts, in the order of the positions, and empties them.\<close>

lemma flush_fold:
  assumes "distinct is" "\<forall>i \<in> set is. i < length logs" "os_path st = Some p" "os_good st"
  shows "\<exists>logs' st' fs'. fold flush_elem is (logs, st, fs) = (logs', st', fs') \<and> length logs' = length logs \<and>
    os_path st' = Some p \<and> os_good st' \<and> fs_writable fs' = fs_writable fs \<and>
    contents fs' = (contents fs)(p := contents fs p @ concat (map (\<lambda>i. elem_text (logs ! i)) is)) \<and>
    (\<forall>j < length logs. logs' ! j = (if j \<in> set is then fst (LogElem_flush (logs ! j)) else logs ! j))"
  using assms
proof (induction "is" arbitrary: logs st fs)
  case Nil
  then show ?case by simp
next
  case (Cons i js)
  obtain st1 fs1 where one: "flush_elem i (logs, st, fs) = (logs[i := fst (LogElem_flush (logs ! i))], st1, fs1)"
      "os_path st1 = Some p" "os_good st1" "contents fs1 = (contents fs)(p := contents fs p @ elem_text (logs ! i))"
      "fs_writable fs1 = fs_writable fs"
    using flush_elem_open [OF Cons.prems(3,4), of i logs fs] Cons.prems(2) by auto
  let ?l = "logs[i := fst (LogElem_flush (logs ! i))]"
  have "elem_text (?l ! j) = elem_text (logs ! j)" if "j \<in> set js" for j
    using that Cons.prems(1) by (cases "j = i") auto
  then have same: "map (\<lambda>j. elem_text (?l ! j)) js = map (\<lambda>j. elem_text (logs ! j)) js"
    by (simp add: map_eq_conv)
  obtain logs' st' fs' where rest: "fold flush_elem js (?l, st1, fs1) = (logs', st', fs')" "length logs' = length ?l"
      "os_path st' = Some p" "os_good st'" "fs_writable fs' = fs_writable fs1"
      "contents fs' = (contents fs1)(p := contents fs1 p @ concat (map (\<lambda>j. elem_text (?l ! j)) js))"
      "\<forall>j < length ?l. logs' ! j = (if j \<in> set js then fst (LogElem_flush (?l ! j)) else ?l ! j)"
    using Cons.IH [of ?l st1 fs1, OF _ _ one(2,3)] Cons.prems(1,2) by (simp del: fun_upd_apply) blast
  have "\<forall>j < length logs. logs' ! j = (if j \<in> set (i # js) then fst (LogElem_flush (logs ! j)) else logs ! j)"
  proof (intro allI impI)
    fix j assume "j < length logs"
    then show "logs' ! j = (if j \<in> set (i # js) then fst (LogElem_flush (logs ! j)) else logs ! j)"
      using rest(7) Cons.prems(1) by (cases "j = i") auto
  qed
  with rest one same show ?case by auto
qed

text \<open>
  The contents of the files with the numbers from \<open>r0\<close> to the current one, in order, and
  the state in which the logger is open on the current file and no later file exists.
\<close>

definition file_text :: "nat \<Rightarrow> SimpleLogger \<Rightarrow> filesys \<Rightarrow> string" where
  "file_text r0 lg fs =
     concat (map (\<lambda>n. contents fs (getLogFilePath (sl_filePath lg) (of_nat n))) [r0..<Suc (unat (sl_curRevnum lg))])"

definition logger_ok :: "nat \<Rightarrow> SimpleLogger \<Rightarrow> filesys \<Rightarrow> bool" where
  "logger_ok r0 lg fs \<longleftrightarrow>
     slots_idle lg \<and> sl_cursor lg < length (sl_logs lg) \<and>
     os_path (sl_fs lg) = Some (getLogFilePath (sl_filePath lg) (sl_curRevnum lg)) \<and> os_good (sl_fs lg) \<and>
     r0 \<le> unat (sl_curRevnum lg) \<and> (\<forall>p. fs_writable fs p) \<and>
     (\<forall>n. unat (sl_curRevnum lg) < n \<longrightarrow> n < 2 ^ 64 \<longrightarrow>
        contents fs (getLogFilePath (sl_filePath lg) (of_nat n)) = [])"

lemma of_nat_unat_u64: "n < 2 ^ 64 \<Longrightarrow> unat (of_nat n :: u64) = n"
  by (simp add: unat_of_nat take_bit_nat_eq_self)

lemma of_nat_eq_u64: "n < 2 ^ 64 \<Longrightarrow> of_nat n = (w :: u64) \<longleftrightarrow> n = unat w"
  using of_nat_unat_u64 by (metis word_unat_eq_iff)

lemma unat_less_64: "unat (w :: u64) < 2 ^ 64"
  using unsigned_less [of w] by simp

lemma file_text_append:
  assumes "contents fs' = (contents fs)(getLogFilePath (sl_filePath lg) (sl_curRevnum lg) :=
              contents fs (getLogFilePath (sl_filePath lg) (sl_curRevnum lg)) @ s)"
    and "r0 \<le> unat (sl_curRevnum lg)"
  shows "file_text r0 lg fs' = file_text r0 lg fs @ s"
proof -
  let ?c = "unat (sl_curRevnum lg)"
  have "contents fs' (getLogFilePath (sl_filePath lg) (of_nat n)) = contents fs (getLogFilePath (sl_filePath lg) (of_nat n))"
    if "n \<in> set [r0..<?c]" for n
  proof -
    have "n < ?c" "n < 2 ^ 64" using that unat_less_64 [of "sl_curRevnum lg"] by auto
    then have "of_nat n \<noteq> sl_curRevnum lg" by (simp add: of_nat_eq_u64)
    then show ?thesis using assms(1) by simp
  qed
  then have earlier: "map (\<lambda>n. contents fs' (getLogFilePath (sl_filePath lg) (of_nat n))) [r0..<?c]
      = map (\<lambda>n. contents fs (getLogFilePath (sl_filePath lg) (of_nat n))) [r0..<?c]"
    by (simp only: map_eq_conv) blast
  have split: "file_text r0 lg fs'' = concat (map (\<lambda>n. contents fs'' (getLogFilePath (sl_filePath lg) (of_nat n))) [r0..<?c])
      @ contents fs'' (getLogFilePath (sl_filePath lg) (sl_curRevnum lg))" for fs''
    using assms(2) by (simp add: file_text_def)
  show ?thesis unfolding split earlier by (simp add: assms(1))
qed

lemma ring_order_set: "c < n \<Longrightarrow> set (ring_order c n) = {0..<n} \<and> distinct (ring_order c n)"
  by (auto simp: ring_order_def)

lemma slots_idle_nth:
  assumes "slots_idle lg" "i < length (sl_logs lg)"
  shows "le_status (sl_logs lg ! i) = CLEAN \<or> le_status (sl_logs lg ! i) = DIRTY"
    and "length (le_ctx (sl_logs lg ! i)) = MSG_SIZE" "le_len (sl_logs lg ! i) \<le> MSG_SIZE"
  using assms by (auto simp: slots_idle_def list_all_length LogElem_available_def)

text \<open>The part of a flush before the rotation.\<close>

lemma flush_slots:
  assumes "logger_ok r0 lg (io_files io)" "c < length (sl_logs lg)"
  obtains logs' st' fs' where
    "fold flush_elem (ring_order c (length (sl_logs lg))) (sl_logs lg, sl_fs lg, io_files io) = (logs', st', fs')"
    "length logs' = length (sl_logs lg)" "list_all (\<lambda>e. le_status e = CLEAN) logs'"
    "logger_ok r0 (lg\<lparr>sl_logs := logs', sl_fs := st'\<rparr>) fs'"
    "file_text r0 lg fs' = file_text r0 lg (io_files io) @ texts_from c (sl_logs lg)"
proof -
  let ?n = "length (sl_logs lg)" and ?p = "getLogFilePath (sl_filePath lg) (sl_curRevnum lg)"
  have o: "os_path (sl_fs lg) = Some ?p" "os_good (sl_fs lg)" "r0 \<le> unat (sl_curRevnum lg)" "slots_idle lg"
    using assms(1) by (auto simp: logger_ok_def)
  have r: "distinct (ring_order c ?n)" "set (ring_order c ?n) = {0..<?n}"
    using ring_order_set [OF assms(2)] by auto
  obtain logs' st' fs' where f:
    "fold flush_elem (ring_order c ?n) (sl_logs lg, sl_fs lg, io_files io) = (logs', st', fs')" "length logs' = ?n"
    "os_path st' = Some ?p" "os_good st'" "fs_writable fs' = fs_writable (io_files io)"
    "contents fs' = (contents (io_files io))(?p := contents (io_files io) ?p @
        concat (map (\<lambda>i. elem_text (sl_logs lg ! i)) (ring_order c ?n)))"
    "\<forall>j < ?n. logs' ! j = (if j \<in> set (ring_order c ?n) then fst (LogElem_flush (sl_logs lg ! j)) else sl_logs lg ! j)"
    using flush_fold [OF r(1) _ o(1,2), of "sl_logs lg" "io_files io"] r(2) by auto
  have nth: "logs' ! j = fst (LogElem_flush (sl_logs lg ! j))" if "j < ?n" for j
    using f(7) r(2) that by auto
  have clean: "list_all (\<lambda>e. le_status e = CLEAN) logs'"
    using nth f(2) slots_idle_nth(1) [OF o(4)] by (auto simp: list_all_length LogElem_flush_status)
  have ctx: "le_ctx (fst (LogElem_flush e)) = le_ctx e" "le_len (fst (LogElem_flush e)) = le_len e" for e
    by (simp_all add: LogElem_flush_def)
  have "slots_idle (lg\<lparr>sl_logs := logs', sl_fs := st'\<rparr>)"
    using clean nth f(2) slots_idle_nth(2,3) [OF o(4)] ctx
    by (auto simp: slots_idle_def list_all_length LogElem_available_def)
  moreover have "contents fs' (getLogFilePath (sl_filePath lg) (of_nat n)) = []"
    if "unat (sl_curRevnum lg) < n" "n < 2 ^ 64" for n
    using that f(6) assms(1) by (auto simp: logger_ok_def of_nat_eq_u64)
  ultimately have "logger_ok r0 (lg\<lparr>sl_logs := logs', sl_fs := st'\<rparr>) fs'"
    using assms(1) f(2-5) by (auto simp: logger_ok_def)
  moreover have "file_text r0 lg fs' = file_text r0 lg (io_files io) @ texts_from c (sl_logs lg)"
    using file_text_append [OF f(6) o(3)] by (simp add: texts_from_def)
  ultimately show thesis using f(1,2) clean that by blast
qed

text \<open>A rotation moves on to an empty file and changes nothing of the text.\<close>

definition same_ring :: "SimpleLogger \<Rightarrow> SimpleLogger \<Rightarrow> bool" where
  "same_ring lg lg' \<longleftrightarrow>
     sl_cursor lg' = sl_cursor lg \<and> sl_filePath lg' = sl_filePath lg \<and> length (sl_logs lg') = length (sl_logs lg) \<and>
     sl_curLogLevel lg' = sl_curLogLevel lg \<and> sl_curDispLevel lg' = sl_curDispLevel lg \<and> sl_tzGap lg' = sl_tzGap lg \<and>
     unat (sl_curRevnum lg) \<le> unat (sl_curRevnum lg') \<and> unat (sl_curRevnum lg') \<le> Suc (unat (sl_curRevnum lg))"

lemma unat_plus1: "unat (w :: u64) + 1 < 2 ^ 64 \<Longrightarrow> unat (w + 1) = unat w + 1"
proof -
  assume a: "unat w + 1 < 2 ^ 64"
  have "unat (of_nat (unat w + 1) :: u64) = unat w + 1" using a by (rule of_nat_unat_u64)
  then show ?thesis by (simp add: add.commute)
qed

lemma logger_ok_cong:
  assumes "logger_ok r0 lg fs" "sl_logs lg' = sl_logs lg" "sl_cursor lg' = sl_cursor lg" "sl_fs lg' = sl_fs lg"
    "sl_filePath lg' = sl_filePath lg" "sl_curRevnum lg' = sl_curRevnum lg"
  shows "logger_ok r0 lg' fs"
  using assms by (simp add: logger_ok_def slots_idle_def)

lemma rotate_ok:
  assumes "logger_ok r0 lg (io_files io)" "unat (sl_curRevnum lg) + 1 < 2 ^ 64"
  obtains lg' io' where "rotate_file self (lg, io) = (lg', io')" "logger_ok r0 lg' (io_files io')"
    "file_text r0 lg' (io_files io') = file_text r0 lg (io_files io)" "same_ring lg lg'" "sl_logs lg' = sl_logs lg"
    "io_console io' = io_console io"
proof (cases "sl_maxLogFileSize lg \<noteq> 0 \<and> ofs_tellp (sl_fs lg) > sint (sl_maxLogFileSize lg)")
  case False
  then have "rotate_file self (lg, io) = (lg, io)" unfolding rotate_file_def by auto
  then show thesis using assms(1) by (intro that) (auto simp: same_ring_def)
next
  case True
  let ?c = "sl_curRevnum lg + 1"
  let ?p = "getLogFilePath (sl_filePath lg) ?c"
  let ?fs = "fs_write ?p (contents (io_files io) ?p) (io_files io)"
  let ?st = "\<lparr>os_path = Some ?p, os_good = True, os_pos = 0\<rparr>"
  let ?lg = "lg\<lparr>sl_curRevnum := ?c, sl_fs := ?st\<rparr>" and ?io = "io\<lparr>io_files := ?fs\<rparr>"
  note c = unat_plus1 [OF assms(2)]
  have ok: "slots_idle lg" "sl_cursor lg < length (sl_logs lg)" "os_path (sl_fs lg) \<noteq> None" "r0 \<le> unat (sl_curRevnum lg)"
     "\<forall>p. fs_writable (io_files io) p"
     "\<forall>n. unat (sl_curRevnum lg) < n \<longrightarrow> n < 2 ^ 64 \<longrightarrow> contents (io_files io) (getLogFilePath (sl_filePath lg) (of_nat n)) = []"
    using assms(1) by (simp_all add: logger_ok_def)
  have same: "contents ?fs = contents (io_files io)" by (simp add: fun_eq_iff)
  have empty: "contents (io_files io) ?p = []"
    using ok(6) [rule_format, of "unat ?c"] c unat_less_64 [of ?c] by (simp add: add.commute)
  have open': "ofs_open ?p (ofs_close (sl_fs lg), io_files io) = (?st, ?fs)"
    using ok(3,5) by (simp add: ofs_open_def ofs_close_def)
  have okl: "logger_ok r0 ?lg ?fs"
    using ok c same by (simp add: logger_ok_def slots_idle_def)
  have "[r0..<Suc (unat ?c)] = [r0..<Suc (unat (sl_curRevnum lg))] @ [unat ?c]"
    using ok(4) c by simp
  then have ft: "file_text r0 ?lg ?fs = file_text r0 lg (io_files io)"
    using empty same by (simp add: file_text_def)
  show thesis
  proof (cases "io_mgr io")
    case None
    then have "rotate_file self (lg, io) = (?lg, ?io)"
      using True open' by (simp add: rotate_file_def Let_def)
    then show thesis using okl ft c by (intro that [of ?lg ?io]) (auto simp: same_ring_def)
  next
    case (Some m)
    let ?lg2 = "?lg\<lparr>sl_numCompJobs := sl_numCompJobs ?lg + 1\<rparr>"
    let ?io2 = "?io\<lparr>io_mgr := Some (addCompElem (?c - 1) self m)\<rparr>"
    have "rotate_file self (lg, io) = (?lg2, ?io2)"
      using True open' Some by (simp add: rotate_file_def Let_def)
    moreover have "logger_ok r0 ?lg2 (io_files ?io2)" using logger_ok_cong [OF okl, of ?lg2] by simp
    moreover have "file_text r0 ?lg2 (io_files ?io2) = file_text r0 lg (io_files io)"
      using ft by (simp add: file_text_def)
    ultimately show thesis using c by (intro that [of ?lg2 ?io2]) (auto simp: same_ring_def)
  qed
qed

lemma flush_ok:
  assumes "logger_ok r0 lg (io_files io)" "c < length (sl_logs lg)" "unat (sl_curRevnum lg) + 1 < 2 ^ 64"
  obtains lg' io' where "SimpleLogger_flush self c (lg, io) = (lg', io')" "logger_ok r0 lg' (io_files io')"
    "file_text r0 lg' (io_files io') = file_text r0 lg (io_files io) @ texts_from c (sl_logs lg)"
    "list_all (\<lambda>e. le_status e = CLEAN) (sl_logs lg')" "same_ring lg lg'" "io_console io' = io_console io"
proof -
  obtain logs' st' fs' where f:
    "fold flush_elem (ring_order c (length (sl_logs lg))) (sl_logs lg, sl_fs lg, io_files io) = (logs', st', fs')"
    "length logs' = length (sl_logs lg)" "list_all (\<lambda>e. le_status e = CLEAN) logs'"
    "logger_ok r0 (lg\<lparr>sl_logs := logs', sl_fs := st'\<rparr>) fs'"
    "file_text r0 lg fs' = file_text r0 lg (io_files io) @ texts_from c (sl_logs lg)"
    using flush_slots [OF assms(1,2)] .
  let ?lg = "lg\<lparr>sl_logs := logs', sl_fs := st'\<rparr>" and ?io = "io\<lparr>io_files := fs'\<rparr>"
  obtain lg' io' where r: "rotate_file self (?lg, ?io) = (lg', io')" "logger_ok r0 lg' (io_files io')"
    "file_text r0 lg' (io_files io') = file_text r0 ?lg (io_files ?io)" "same_ring ?lg lg'" "sl_logs lg' = sl_logs ?lg"
    "io_console io' = io_console ?io"
    using rotate_ok [of r0 ?lg ?io self] f(4) assms(3) by auto
  have "SimpleLogger_flush self c (lg, io) = (lg', io')"
    using f(1) r(1) by (simp add: SimpleLogger_flush_def)
  moreover have "file_text r0 ?lg fs' = file_text r0 lg fs'" by (simp add: file_text_def)
  moreover have "same_ring lg lg'" using r(4) f(2) by (simp add: same_ring_def)
  ultimately show thesis using r f(3,5) by (intro that [of lg' io']) simp_all
qed

lemma texts_clean: "list_all (\<lambda>e. le_status e = CLEAN) logs \<Longrightarrow> c < length logs \<Longrightarrow> texts_from c logs = []"
proof -
  assume a: "list_all (\<lambda>e. le_status e = CLEAN) logs" "c < length logs"
  have "elem_text (logs ! i) = []" if "i \<in> set (ring_order c (length logs))" for i
    using a that ring_order_set [OF a(2)] by (auto simp: list_all_length elem_text_def)
  then show ?thesis by (simp add: texts_from_def concat_eq_Nil_conv)
qed

lemma ring_order_next:
  assumes "c < n"
  shows "\<exists>rest. ring_order c n = c # rest \<and> ring_order ((c + 1) mod n) n = rest @ [c] \<and> c \<notin> set rest"
proof (cases "c + 1 < n")
  case True
  then show ?thesis
    using assms by (intro exI [of _ "[Suc c..<n] @ [0..<c]"]) (auto simp: ring_order_def upt_conv_Cons)
next
  case False
  then have "n = Suc c" using assms by simp
  then show ?thesis by (intro exI [of _ "[0..<c]"]) (auto simp: ring_order_def)
qed

text \<open>Filling a slot that holds nothing appends its text to what is pending.\<close>

lemma texts_from_put:
  assumes "c < length logs" "elem_text (logs ! c) = []"
  shows "texts_from ((c + 1) mod length logs) (logs[c := e]) = texts_from c logs @ elem_text e"
proof -
  obtain rest where r: "ring_order c (length logs) = c # rest"
      "ring_order ((c + 1) mod length logs) (length logs) = rest @ [c]" "c \<notin> set rest"
    using ring_order_next [OF assms(1)] by blast
  have "elem_text (logs[c := e] ! i) = elem_text (logs ! i)" if "i \<in> set rest" for i
    using that r(3) by (cases "i = c") auto
  then have same: "map (\<lambda>i. elem_text (logs[c := e] ! i)) rest = map (\<lambda>i. elem_text (logs ! i)) rest"
    by (simp only: map_eq_conv) blast
  show ?thesis
    unfolding texts_from_def length_list_update r list.map map_append concat_append concat.simps same assms(2)
    using assms(1) by simp
qed

lemma write_slot:
  assumes "le_status e = CLEAN" "n \<le> length msg" "n \<le> MSG_SIZE" "length (le_ctx e) = MSG_SIZE" "length msg = MSG_SIZE"
  shows "elem_text (fst (LogElem_write n msg e)) = take n msg"
    and "LogElem_available (fst (LogElem_write n msg e))"
    and "length (le_ctx (fst (LogElem_write n msg e))) = MSG_SIZE" "le_len (fst (LogElem_write n msg e)) \<le> MSG_SIZE"
  using assms by (auto simp: LogElem_write_def elem_text_def copy_bytes_def Let_def LogElem_available_def)

lemma slots_idle_update:
  assumes "slots_idle lg" "LogElem_available e" "length (le_ctx e) = MSG_SIZE" "le_len e \<le> MSG_SIZE"
  shows "slots_idle (lg\<lparr>sl_logs := (sl_logs lg)[c := e]\<rparr>)"
  using assms by (cases "c < length (sl_logs lg)") (auto simp: slots_idle_def list_all_length nth_list_update)

text \<open>The slot at the cursor is free once \<open>ring_put\<close> is past its flush.\<close>

lemma ring_put_ok:
  assumes ok: "logger_ok r0 lg (io_files io)" and num: "unat (sl_curRevnum lg) + 1 < 2 ^ 64"
    and msg: "n \<le> MSG_SIZE" "length msg = MSG_SIZE"
  obtains lg' io' where "ring_put self n msg (lg, io) = Inr (lg', io')" "logger_ok r0 lg' (io_files io')"
    "file_text r0 lg' (io_files io') @ pending lg' = file_text r0 lg (io_files io) @ pending lg @ take n msg"
    "same_ring (lg\<lparr>sl_cursor := sl_cursor lg'\<rparr>) lg'" "io_console io' = io_console io"
proof -
  let ?n = "length (sl_logs lg)" and ?c = "sl_cursor lg"
  let ?lg0 = "lg\<lparr>sl_cursor := (?c + 1) mod ?n\<rparr>"
  have c: "?c < ?n" using ok by (simp add: logger_ok_def)
  have ok0: "logger_ok r0 ?lg0 (io_files io)"
  proof -
    have "Suc ?c mod ?n < ?n" using c by (intro mod_less_divisor) auto
    then show ?thesis using ok by (simp add: logger_ok_def slots_idle_def)
  qed
  obtain lg1 io1 where r1: "(if LogElem_needToFlush (sl_logs lg ! ?c) then SimpleLogger_flush self ?c (?lg0, io) else (?lg0, io)) = (lg1, io1)"
      "logger_ok r0 lg1 (io_files io1)" "le_status (sl_logs lg1 ! ?c) = CLEAN" "same_ring ?lg0 lg1"
      "file_text r0 lg1 (io_files io1) @ texts_from ?c (sl_logs lg1) = file_text r0 lg (io_files io) @ pending lg"
      "io_console io1 = io_console io"
  proof (cases "LogElem_needToFlush (sl_logs lg ! ?c)")
    case True
    obtain lg1 io1 where f: "SimpleLogger_flush self ?c (?lg0, io) = (lg1, io1)" "logger_ok r0 lg1 (io_files io1)"
      "file_text r0 lg1 (io_files io1) = file_text r0 ?lg0 (io_files io) @ texts_from ?c (sl_logs ?lg0)"
      "list_all (\<lambda>e. le_status e = CLEAN) (sl_logs lg1)" "same_ring ?lg0 lg1" "io_console io1 = io_console io"
      using flush_ok [of r0 ?lg0 io ?c self] ok0 c num by auto
    have len: "?c < length (sl_logs lg1)" using f(5) c by (simp add: same_ring_def)
    have "file_text r0 ?lg0 (io_files io) = file_text r0 lg (io_files io)" by (simp add: file_text_def)
    then show thesis using True f len texts_clean [OF f(4) len]
      by (intro that [of lg1 io1]) (auto simp: pending_def list_all_length)
  next
    case False
    have "le_status (sl_logs lg ! ?c) = CLEAN"
      using False ok c slots_idle_nth(1) [of lg ?c] by (auto simp: LogElem_needToFlush_def logger_ok_def)
    then show thesis using False ok0
      by (intro that [of ?lg0 io]) (auto simp: pending_def file_text_def same_ring_def)
  qed
  have len1: "length (sl_logs lg1) = ?n" "?c < length (sl_logs lg1)" "sl_cursor lg1 = (?c + 1) mod ?n"
    using r1(4) c by (auto simp: same_ring_def)
  let ?e = "fst (LogElem_write n msg (sl_logs lg1 ! ?c))"
  let ?lg2 = "lg1\<lparr>sl_logs := (sl_logs lg1)[?c := ?e]\<rparr>"
  have idle1: "slots_idle lg1" using r1(2) by (simp add: logger_ok_def)
  have nm: "n \<le> length msg" using msg by simp
  note w = write_slot [OF r1(3) nm msg(1) slots_idle_nth(2) [OF idle1 len1(2)] msg(2)]
  have ok2: "logger_ok r0 ?lg2 (io_files io1)"
    using r1(2) slots_idle_update [OF idle1 w(2-4), of ?c] by (simp add: logger_ok_def)
  have "elem_text (sl_logs lg1 ! ?c) = []" using r1(3) by (simp add: elem_text_def)
  then have "pending ?lg2 = texts_from ?c (sl_logs lg1) @ take n msg"
    using texts_from_put [OF len1(2), of ?e] len1 w(1) by (simp add: pending_def)
  moreover have "file_text r0 ?lg2 (io_files io1) = file_text r0 lg1 (io_files io1)" by (simp add: file_text_def)
  moreover have "same_ring (lg\<lparr>sl_cursor := sl_cursor ?lg2\<rparr>) ?lg2"
    using r1(4) len1 by (simp add: same_ring_def)
  moreover have "ring_put self n msg (lg, io) = Inr (?lg2, io1)"
  proof -
    have ne: "(?n = 0) = False" "(?n \<le> ?c) = False" using c by auto
    have "(if LogElem_needToFlush (sl_logs ?lg0 ! ?c) then SimpleLogger_flush self ?c (?lg0, io) else (?lg0, io)) = (lg1, io1)"
      using r1(1) by simp
    then show ?thesis unfolding ring_put_def Let_def prod.case ne if_False by simp
  qed
  ultimately show thesis using ok2 r1(5,6) by (intro that [of ?lg2 io1]) simp_all
qed

section \<open>The logger as a queue of lines\<close>

text \<open>
  What a client of a log expects: accepted lines follow each other in the text of the log,
  and a flush stores all of it. \<open>ok k\<close>: the log is usable, with room for \<open>k\<close> more rotations.
\<close>

locale line_queue =
  fixes put :: "'l \<Rightarrow> 's \<Rightarrow> 's res"
    and flush :: "'s \<Rightarrow> 's"
    and ok :: "nat \<Rightarrow> 's \<Rightarrow> bool"
    and valid :: "'l \<Rightarrow> bool"
    and line :: "'l \<Rightarrow> string"
    and full_text :: "'s \<Rightarrow> string"
    and stored :: "'s \<Rightarrow> string"
  assumes put_line: "ok (Suc k) s \<Longrightarrow> valid l \<Longrightarrow>
      \<exists>s'. put l s = Inr s' \<and> ok k s' \<and> full_text s' = full_text s @ line l"
    and flush_stores: "ok (Suc k) s \<Longrightarrow> ok k (flush s) \<and> full_text (flush s) = full_text s \<and> stored (flush s) = full_text s"
begin

lemma puts:
  "ok (length ls + k) s \<Longrightarrow> list_all valid ls \<Longrightarrow>
     \<exists>s'. foldM (\<lambda>s l. put l s) s ls = Inr s' \<and> ok k s' \<and> full_text s' = full_text s @ concat (map line ls)"
proof (induction ls arbitrary: s)
  case (Cons l ls)
  obtain s1 where "put l s = Inr s1" "ok (length ls + k) s1" "full_text s1 = full_text s @ line l"
    using put_line [of "length ls + k" s l] Cons.prems by auto
  with Cons.IH [of s1] Cons.prems show ?case by auto
qed simp

lemma puts_then_flush:
  assumes "ok (length ls + 1) s" "list_all valid ls"
  shows "\<exists>s'. foldM (\<lambda>s l. put l s) s ls = Inr s' \<and> stored (flush s') = full_text s @ concat (map line ls) \<and>
              full_text (flush s') = stored (flush s')"
proof -
  obtain s' where s': "foldM (\<lambda>s l. put l s) s ls = Inr s'" "ok 1 s'" "full_text s' = full_text s @ concat (map line ls)"
    using puts [OF assms] by blast
  from s'(2) have "ok (Suc 0) s'" by simp
  from flush_stores [OF this] s' show ?thesis by auto
qed

end

text \<open>The state with room for \<open>k\<close> rotations, and the texts of ring and files.\<close>

definition log_ready :: "nat \<Rightarrow> nat \<Rightarrow> SimpleLogger \<times> log_io \<Rightarrow> bool" where
  "log_ready r0 k = (\<lambda>(lg, io). logger_ok r0 lg (io_files io) \<and> unat (sl_curRevnum lg) + k < 2 ^ 64)"

definition log_stored :: "nat \<Rightarrow> SimpleLogger \<times> log_io \<Rightarrow> string" where
  "log_stored r0 = (\<lambda>(lg, io). file_text r0 lg (io_files io))"

definition log_full :: "nat \<Rightarrow> SimpleLogger \<times> log_io \<Rightarrow> string" where
  "log_full r0 = (\<lambda>(lg, io). file_text r0 lg (io_files io) @ pending lg)"

definition line_valid :: "nat \<times> string \<Rightarrow> bool" where
  "line_valid l \<longleftrightarrow> fst l \<le> MSG_SIZE \<and> length (snd l) = MSG_SIZE"

definition line_of :: "nat \<times> string \<Rightarrow> string" where
  "line_of l = take (fst l) (snd l)"

definition ring_put_line :: "nat \<Rightarrow> nat \<times> string \<Rightarrow> SimpleLogger \<times> log_io \<Rightarrow> (SimpleLogger \<times> log_io) res" where
  "ring_put_line self l = ring_put self (fst l) (snd l)"

lemma ring_put_line_ok:
  assumes "log_ready r0 (Suc k) s" "line_valid l"
  shows "\<exists>s'. ring_put_line self l s = Inr s' \<and> log_ready r0 k s' \<and> log_full r0 s' = log_full r0 s @ line_of l"
proof -
  obtain lg io where s: "s = (lg, io)" by (cases s)
  have pre: "logger_ok r0 lg (io_files io)" "unat (sl_curRevnum lg) + Suc k < 2 ^ 64"
    using assms(1) s by (simp_all add: log_ready_def)
  then have one: "unat (sl_curRevnum lg) + 1 < 2 ^ 64" by simp
  have v: "fst l \<le> MSG_SIZE" "length (snd l) = MSG_SIZE" using assms(2) by (simp_all add: line_valid_def)
  obtain lg' io' where r: "ring_put self (fst l) (snd l) (lg, io) = Inr (lg', io')" "logger_ok r0 lg' (io_files io')"
    "file_text r0 lg' (io_files io') @ pending lg' = file_text r0 lg (io_files io) @ pending lg @ take (fst l) (snd l)"
    "same_ring (lg\<lparr>sl_cursor := sl_cursor lg'\<rparr>) lg'"
    using ring_put_ok [OF pre(1) one v] by blast
  have "unat (sl_curRevnum lg') \<le> Suc (unat (sl_curRevnum lg))" using r(4) by (simp add: same_ring_def)
  then have "unat (sl_curRevnum lg') + k < 2 ^ 64" using pre(2) by simp
  with r s show ?thesis by (auto simp: ring_put_line_def log_ready_def log_full_def line_of_def)
qed

lemma flushAll_ready:
  assumes "log_ready r0 (Suc k) s"
  shows "log_ready r0 k (flushAll self s) \<and> log_full r0 (flushAll self s) = log_full r0 s \<and>
         log_stored r0 (flushAll self s) = log_full r0 s"
proof -
  obtain lg io where s: "s = (lg, io)" by (cases s)
  have pre: "logger_ok r0 lg (io_files io)" "unat (sl_curRevnum lg) + Suc k < 2 ^ 64"
    using assms(1) s by (simp_all add: log_ready_def)
  then have one: "unat (sl_curRevnum lg) + 1 < 2 ^ 64" and c: "sl_cursor lg < length (sl_logs lg)"
    by (simp_all add: logger_ok_def)
  obtain lg' io' where f: "SimpleLogger_flush self (sl_cursor lg) (lg, io) = (lg', io')" "logger_ok r0 lg' (io_files io')"
    "file_text r0 lg' (io_files io') = file_text r0 lg (io_files io) @ texts_from (sl_cursor lg) (sl_logs lg)"
    "list_all (\<lambda>e. le_status e = CLEAN) (sl_logs lg')" "same_ring lg lg'"
    using flush_ok [OF pre(1) c one] by blast
  have "pending lg' = []"
    using texts_clean [OF f(4)] f(2) by (simp add: pending_def logger_ok_def)
  moreover have "unat (sl_curRevnum lg') \<le> Suc (unat (sl_curRevnum lg))" using f(5) by (simp add: same_ring_def)
  then have "unat (sl_curRevnum lg') + k < 2 ^ 64" using pre(2) by simp
  moreover have "flushAll self s = (lg', io')" using f(1) s by (simp add: flushAll_def)
  ultimately show ?thesis using f(2,3) s by (auto simp: log_ready_def log_full_def log_stored_def pending_def)
qed

interpretation ring: line_queue "ring_put_line self" "flushAll self" "log_ready r0" line_valid line_of "log_full r0" "log_stored r0"
  for self r0
  by unfold_locales (use ring_put_line_ok flushAll_ready in blast)+

section \<open>Properties\<close>

text \<open>A logger with two slots and a limit of three bytes a file, so that lines wrap and files rotate.\<close>

definition sample_host :: log_host where
  "sample_host = \<lparr>h_now = 0, h_localtime = (\<lambda>_. \<lparr>tm_year = 70, tm_mon = 0, tm_mday = 1, tm_hour = 0, tm_min = 0, tm_sec = 0\<rparr>),
     h_gmtime = (\<lambda>_. \<lparr>tm_year = 70, tm_mon = 0, tm_mday = 1, tm_hour = 0, tm_min = 0, tm_sec = 0\<rparr>),
     h_tid = 7, h_tid_digits = 2, h_readdir = (\<lambda>_. None), h_getenv = (\<lambda>_. None), h_system = (\<lambda>_ fs. fs),
     h_stack = replicate MSG_SIZE (CHR 0x00), h_file = ''raft_logger.cpp'', h_line = (\<lambda>_. 1)\<rparr>"

definition sample_logger :: SimpleLogger where
  "sample_logger =
     \<lparr>sl_filePath = ''l'', sl_minRevnum = 0, sl_curRevnum = 0, sl_maxLogFiles = 10,
      sl_fs = \<lparr>os_path = Some ''l'', os_good = True, os_pos = 0\<rparr>, sl_maxLogFileSize = 3, sl_numCompJobs = 0,
      sl_curLogLevel = 4, sl_curDispLevel = -1, sl_tzGap = 0, sl_cursor = 0, sl_logs = replicate 2 LogElem_new\<rparr>"

definition sample_log_io :: log_io where
  "sample_log_io = \<lparr>io_files = \<lparr>fs_files = [], fs_writable = (\<lambda>_. True)\<rparr>, io_mgr = None, io_console = [], io_cmds = []\<rparr>"

lemma sample_logger_ok: "logger_ok 0 sample_logger (io_files sample_log_io)"
  by (simp add: logger_ok_def sample_logger_def sample_log_io_def slots_idle_def LogElem_new_def
      LogElem_available_def MSG_SIZE_def getLogFilePath_def contents_def fs_read_def list_all_iff)

lemma sample_pending: "pending sample_logger = []"
  by (simp add: pending_def texts_from_def sample_logger_def ring_order_def upt_conv_Cons)

text \<open>
  C24. The ring and the files behave as one queue: after any sequence of lines, over however
  many wraps of the ring and rotations of the file, flushing leaves in the files, read in
  the order of their numbers, exactly what was there followed by the lines in the order
  they were put.
\<close>

theorem log_is_a_queue:
  assumes "logger_ok r0 lg (io_files io)" "list_all line_valid lines"
    and "unat (sl_curRevnum lg) + length lines + 1 < 2 ^ 64"
  shows "\<exists>s'. foldM (\<lambda>s l. ring_put_line self l s) (lg, io) lines = Inr s' \<and>
    log_stored r0 (flushAll self s') = file_text r0 lg (io_files io) @ pending lg @ concat (map line_of lines) \<and>
    log_full r0 (flushAll self s') = log_stored r0 (flushAll self s')"
proof -
  have "log_ready r0 (length lines + 1) (lg, io)" using assms(1,3) by (simp add: log_ready_def)
  from ring.puts_then_flush [OF this assms(2), of self] show ?thesis by (simp add: log_full_def)
qed

theorem log_is_a_queue_witness:
  "\<exists>s'. foldM (\<lambda>s l. ring_put_line 1 l s) (sample_logger, sample_log_io)
          (map (\<lambda>c. (2, c # CHR 0x0A # replicate 4094 (CHR 0x00))) ''ABCDE'') = Inr s' \<and>
    log_stored 0 (flushAll 1 s') = file_text 0 sample_logger (io_files sample_log_io) @ pending sample_logger @
      concat (map line_of (map (\<lambda>c. (2, c # CHR 0x0A # replicate 4094 (CHR 0x00))) ''ABCDE'')) \<and>
    log_full 0 (flushAll 1 s') = log_stored 0 (flushAll 1 s')"
  by (rule log_is_a_queue [OF sample_logger_ok])
     (simp_all add: line_valid_def MSG_SIZE_def sample_logger_def)

text \<open>
  A call of \<^verbatim>\<open>put\<close> at a level that is enabled succeeds, keeps the logger usable and appends
  to the text of the log its header, its message and its footer, cut as the buffer makes it;
  with the display level below, nothing is printed.
\<close>

theorem put_appends_line:
  assumes "logger_ok r0 lg (io_files io)" "unat (sl_curRevnum lg) + 1 < 2 ^ 64" "length (h_stack h) = MSG_SIZE"
    and "0 \<le> level" "level \<le> sl_curLogLevel lg" "sl_curLogLevel lg \<le> 6" "sl_curDispLevel lg < level"
    and "header = log_header (TimeInfo_of_now (h_localtime h) (h_now h)) (sl_tzGap lg) (h_tid_digits h) (h_tid h) (lv_names ! nat level)"
    and "footer = log_footer src fn ln" "2 * length header + length body + length footer < MSG_SIZE"
  shows "\<exists>lg' io'. SimpleLogger_put h self level src fn ln body (lg, io) = Inr (lg', io') \<and>
    logger_ok r0 lg' (io_files io') \<and> io_console io' = io_console io \<and>
    file_text r0 lg' (io_files io') @ pending lg' = file_text r0 lg (io_files io) @ pending lg @ header @ body @ footer"
proof -
  have "fits MSG_SIZE 0 (file_texts header body footer)" using assms(10) by (simp add: fits_line)
  from render_fits [OF assms(3) this] obtain b where fit: "render (h_stack h) (file_texts header body footer) = Inr b"
      "take (ob_cur_len b) (ob_msg b) = concat (file_texts header body footer)"
    by blast
  with render_ok [OF assms(3), of "file_texts header body footer"] have "out_ok b" by auto
  then have b: "render (h_stack h) (file_texts header body footer) = Inr b"
      "take (ob_cur_len b) (ob_msg b) = header @ body @ footer" "ob_cur_len b \<le> MSG_SIZE" "length (ob_msg b) = MSG_SIZE"
    using fit by (simp_all add: out_ok_def file_texts_def)
  obtain lg' io' where r: "ring_put self (ob_cur_len b) (ob_msg b) (lg, io) = Inr (lg', io')" "logger_ok r0 lg' (io_files io')"
    "file_text r0 lg' (io_files io') @ pending lg' = file_text r0 lg (io_files io) @ pending lg @ take (ob_cur_len b) (ob_msg b)"
    "same_ring (lg\<lparr>sl_cursor := sl_cursor lg'\<rparr>) lg'" "io_console io' = io_console io"
    using ring_put_ok [OF assms(1,2) b(3,4)] by blast
  have disp: "sl_curDispLevel lg' = sl_curDispLevel lg" using r(4) by (simp add: same_ring_def)
  have good: "os_good (sl_fs lg)" using assms(1) by (simp add: logger_ok_def)
  have "SimpleLogger_put h self level src fn ln body (lg, io) = Inr (lg', io')"
    using assms(4-7) good b(1) r(1) disp unfolding SimpleLogger_put_def assms(8,9) by simp
  with r b(2) show ?thesis by auto
qed

definition sample_header :: string where
  "sample_header = log_header (TimeInfo_of_now (h_localtime sample_host) (h_now sample_host)) (sl_tzGap sample_logger)
     (h_tid_digits sample_host) (h_tid sample_host) (lv_names ! nat 4)"

lemma sample_header_length: "length sample_header = 46"
  by (simp add: sample_header_def log_header_def TimeInfo_of_now_def sample_host_def sample_logger_def lv_names_def
      fmt_0d_def fmt_star_u_def pad_left_def to_string.simps digit_char_def Let_def tz_sign_def)

theorem put_appends_line_witness:
  "\<exists>lg' io'. SimpleLogger_put sample_host 1 4 (Some ''a/b.cpp'') (Some ''f'') 5 ''hello'' (sample_logger, sample_log_io) = Inr (lg', io') \<and>
    logger_ok 0 lg' (io_files io') \<and> io_console io' = io_console sample_log_io \<and>
    file_text 0 lg' (io_files io') @ pending lg' =
      file_text 0 sample_logger (io_files sample_log_io) @ pending sample_logger @ sample_header @ ''hello'' @
      log_footer (Some ''a/b.cpp'') (Some ''f'') 5"
  by (rule put_appends_line [OF sample_logger_ok _ _ _ _ _ _ sample_header_def refl])
     (simp_all add: sample_header_length, simp_all add: sample_logger_def sample_host_def MSG_SIZE_def log_footer_def
        source_name_def to_string.simps Let_def)

text \<open>A call of \<^verbatim>\<open>put\<close> at a valid level never fails; it appends some line or nothing.\<close>

lemma console_put_ok:
  assumes "length msg = MSG_SIZE"
  shows "\<exists>out. console_put h level src fn ln body msg (lg, io) = Inr (lg, io\<lparr>io_console := io_console io @ out\<rparr>)"
  using render_ok [OF assms, of "console_texts level (console_header (TimeInfo_of_now (h_localtime h) (h_now h))
      (h_tid_digits h) (h_tid h) (colored_lv_names ! nat level)) (console_footer src fn ln) body"]
  by (auto simp: console_put_def)

lemma put_ok:
  assumes "logger_ok r0 lg (io_files io)" "unat (sl_curRevnum lg) + 1 < 2 ^ 64" "length (h_stack h) = MSG_SIZE"
    and "0 \<le> level" "sl_curLogLevel lg \<le> 6"
  obtains lg' io' l where "SimpleLogger_put h self level src fn ln body (lg, io) = Inr (lg', io')"
    "logger_ok r0 lg' (io_files io')" "same_ring (lg\<lparr>sl_cursor := sl_cursor lg'\<rparr>) lg'"
    "file_text r0 lg' (io_files io') @ pending lg' = file_text r0 lg (io_files io) @ pending lg @ l"
proof (cases "level \<le> sl_curLogLevel lg")
  case False
  then show thesis using assms(1) by (intro that [of lg io "[]"]) (auto simp: SimpleLogger_put_def same_ring_def)
next
  case True
  define texts where "texts = file_texts (log_header (TimeInfo_of_now (h_localtime h) (h_now h)) (sl_tzGap lg)
      (h_tid_digits h) (h_tid h) (lv_names ! nat level)) body (log_footer src fn ln)"
  obtain b where b: "render (h_stack h) texts = Inr b" "ob_cur_len b \<le> MSG_SIZE" "length (ob_msg b) = MSG_SIZE"
    using render_ok [OF assms(3), of texts] by (auto simp: out_ok_def)
  obtain lg' io' where r: "ring_put self (ob_cur_len b) (ob_msg b) (lg, io) = Inr (lg', io')" "logger_ok r0 lg' (io_files io')"
    "file_text r0 lg' (io_files io') @ pending lg' = file_text r0 lg (io_files io) @ pending lg @ take (ob_cur_len b) (ob_msg b)"
    "same_ring (lg\<lparr>sl_cursor := sl_cursor lg'\<rparr>) lg'"
    using ring_put_ok [OF assms(1,2) b(2,3)] by blast
  have good: "os_good (sl_fs lg)" using assms(1) by (simp add: logger_ok_def)
  obtain out where c: "console_put h level src fn ln body (ob_msg b) (lg', io') = Inr (lg', io'\<lparr>io_console := io_console io' @ out\<rparr>)"
    using console_put_ok [OF b(3)] by blast
  have put: "SimpleLogger_put h self level src fn ln body (lg, io)
      = (if level > sl_curDispLevel lg' then Inr (lg', io') else console_put h level src fn ln body (ob_msg b) (lg', io'))"
    using True assms(4,5) good b(1) r(1) by (simp add: SimpleLogger_put_def texts_def)
  show thesis
  proof (cases "level > sl_curDispLevel lg'")
    case True
    then show thesis using put r by (intro that) simp_all
  next
    case False
    then show thesis using put r c
      by (intro that [of lg' "io'\<lparr>io_console := io_console io' @ out\<rparr>" "take (ob_cur_len b) (ob_msg b)"]) simp_all
  qed
qed

lemma log_macro_ok:
  assumes "logger_ok r0 lg (io_files io)" "unat (sl_curRevnum lg) + 1 < 2 ^ 64" "length (h_stack h) = MSG_SIZE"
    and "0 \<le> level" "sl_curLogLevel lg \<le> 6"
  obtains lg' io' l where "log_macro h self level fn body (lg, io) = Inr (lg', io')"
    "logger_ok r0 lg' (io_files io')" "same_ring (lg\<lparr>sl_cursor := sl_cursor lg'\<rparr>) lg'"
    "file_text r0 lg' (io_files io') @ pending lg' = file_text r0 lg (io_files io) @ pending lg @ l"
proof (cases "sl_curLogLevel lg \<ge> level")
  case True
  obtain lg' io' l where "SimpleLogger_put h self level (Some (h_file h)) (Some fn) (h_line h fn) body (lg, io) = Inr (lg', io')"
    "logger_ok r0 lg' (io_files io')" "same_ring (lg\<lparr>sl_cursor := sl_cursor lg'\<rparr>) lg'"
    "file_text r0 lg' (io_files io') @ pending lg' = file_text r0 lg (io_files io) @ pending lg @ l"
    using put_ok [OF assms] by blast
  with True show thesis by (intro that) (simp_all add: log_macro_def)
next
  case False
  then show thesis using assms(1) by (intro that [of lg io "[]"]) (auto simp: log_macro_def same_ring_def)
qed

text \<open>
  Stopping a running logger stores everything: afterwards the file stream is closed, the
  ring is empty and the files hold the earlier text, all that was pending and the closing
  line.
\<close>

theorem stop_stores_everything:
  assumes "logger_ok r0 lg (io_files io)" "unat (sl_curRevnum lg) + 2 < 2 ^ 64" "length (h_stack h) = MSG_SIZE"
    and "sl_curLogLevel lg \<le> 6" "io_mgr io = Some m"
  shows "\<exists>lg' io' wait l. SimpleLogger_stop h self (lg, io) = Inr ((lg', io'), wait) \<and>
    os_path (sl_fs lg') = None \<and> pending lg' = [] \<and>
    file_text r0 lg' (io_files io') = file_text r0 lg (io_files io) @ pending lg @ l"
proof -
  let ?io = "upd_mgr (removeLogger self) io"
  have pre: "logger_ok r0 lg (io_files ?io)" "unat (sl_curRevnum lg) + 1 < 2 ^ 64"
    using assms(1,2) by (simp_all add: upd_mgr_def)
  obtain lg1 io1 l where p: "log_macro h self 0 ''stop'' (''Stop logger: '' @ c_str (sl_filePath lg)) (lg, ?io) = Inr (lg1, io1)"
    "logger_ok r0 lg1 (io_files io1)" "same_ring (lg\<lparr>sl_cursor := sl_cursor lg1\<rparr>) lg1"
    "file_text r0 lg1 (io_files io1) @ pending lg1 = file_text r0 lg (io_files ?io) @ pending lg @ l"
    using log_macro_ok [OF pre assms(3) order_refl assms(4), of self "''stop''" "''Stop logger: '' @ c_str (sl_filePath lg)"]
    by blast
  have "unat (sl_curRevnum lg1) + 1 < 2 ^ 64" using p(3) assms(2) by (simp add: same_ring_def)
  moreover have "sl_cursor lg1 < length (sl_logs lg1)" using p(2) by (simp add: logger_ok_def)
  ultimately obtain lg2 io2 where f: "SimpleLogger_flush self (sl_cursor lg1) (lg1, io1) = (lg2, io2)" "logger_ok r0 lg2 (io_files io2)"
    "file_text r0 lg2 (io_files io2) = file_text r0 lg1 (io_files io1) @ texts_from (sl_cursor lg1) (sl_logs lg1)"
    "list_all (\<lambda>e. le_status e = CLEAN) (sl_logs lg2)"
    using flush_ok [OF p(2)] by blast
  let ?lg3 = "lg2\<lparr>sl_fs := ofs_close (sl_fs lg2)\<rparr>"
  have "os_path (sl_fs lg) = Some (getLogFilePath (sl_filePath lg) (sl_curRevnum lg))"
    using assms(1) by (simp add: logger_ok_def)
  then have "SimpleLogger_stop h self (lg, io) = Inr ((?lg3, io2), sl_numCompJobs ?lg3 > 0)"
    using p(1) f(1) assms(5) by (simp add: SimpleLogger_stop_def flushAll_def)
  moreover have "os_path (sl_fs ?lg3) = None" by (simp add: ofs_close_def)
  moreover have "pending ?lg3 = []"
    using texts_clean [OF f(4)] f(2) by (simp add: pending_def logger_ok_def)
  moreover have "file_text r0 ?lg3 (io_files io2) = file_text r0 lg (io_files io) @ pending lg @ l"
    using f(3) p(4) by (simp add: file_text_def pending_def upd_mgr_def)
  ultimately show ?thesis by blast
qed

theorem stop_stores_everything_witness:
  "\<exists>lg' io' wait l. SimpleLogger_stop sample_host 1
       (sample_logger, sample_log_io\<lparr>io_mgr := Some (SimpleLoggerMgr_new sample_host)\<rparr>) = Inr ((lg', io'), wait) \<and>
    os_path (sl_fs lg') = None \<and> pending lg' = [] \<and>
    file_text 0 lg' (io_files io') =
      file_text 0 sample_logger (io_files (sample_log_io\<lparr>io_mgr := Some (SimpleLoggerMgr_new sample_host)\<rparr>)) @ pending sample_logger @ l"
  by (rule stop_stores_everything [where m = "SimpleLoggerMgr_new sample_host"])
     (use sample_logger_ok in \<open>simp_all add: sample_logger_def sample_host_def\<close>)

section \<open>Compression\<close>

definition rm_cmd :: "string \<Rightarrow> nat \<Rightarrow> string" where
  "rm_cmd path ii = ''rm -f '' @ getLogFilePath path (of_nat ii) @ '' '' @ getLogFilePath path (of_nat ii) @ ''.tar.gz'' @ '' > /dev/null''"

lemma remove_old_one:
  "sl_filePath lg = path \<Longrightarrow>
     \<exists>io'. remove_old h b (lg, io) = (lg\<lparr>sl_minRevnum := of_nat b + 1\<rparr>, io') \<and> io_cmds io' = io_cmds io @ [rm_cmd path b]"
  by (simp add: remove_old_def execCmd_def rm_cmd_def Let_def)

lemma remove_old_fold:
  assumes "sl_filePath lg = path"
  shows "\<exists>lg' io'. fold (remove_old h) [a..<b] (lg, io) = (lg', io') \<and> sl_filePath lg' = path \<and>
     sl_numCompJobs lg' = sl_numCompJobs lg \<and>
     sl_minRevnum lg' = (if a < b then of_nat b else sl_minRevnum lg) \<and>
     io_cmds io' = io_cmds io @ map (rm_cmd path) [a..<b]"
proof (induction b)
  case 0
  then show ?case using assms by simp
next
  case (Suc b)
  then obtain lg1 io1 where s: "fold (remove_old h) [a..<b] (lg, io) = (lg1, io1)" "sl_filePath lg1 = path"
    "sl_numCompJobs lg1 = sl_numCompJobs lg" "sl_minRevnum lg1 = (if a < b then of_nat b else sl_minRevnum lg)"
    "io_cmds io1 = io_cmds io @ map (rm_cmd path) [a..<b]" by blast
  show ?case
  proof (cases "a \<le> b")
    case True
    obtain io2 where "remove_old h b (lg1, io1) = (lg1\<lparr>sl_minRevnum := of_nat b + 1\<rparr>, io2)"
        "io_cmds io2 = io_cmds io1 @ [rm_cmd path b]"
      using remove_old_one [OF s(2)] by blast
    with True s show ?thesis by (simp add: add.commute)
  next
    case False
    then show ?thesis using assms by simp
  qed
qed

text \<open>
  Compressing a file runs \<^verbatim>\<open>tar\<close> on it, removes it, and removes every file with a number
  from \<^verbatim>\<open>minRevnum\<close> up to the one that is \<^verbatim>\<open>maxLogFiles\<close> before it, each once and in order;
  \<^verbatim>\<open>minRevnum\<close> moves past them, so as many files as allowed stay.
\<close>

theorem compression_keeps_newest:
  assumes "unat (sl_minRevnum lg) \<le> unat (num - sl_maxLogFiles lg)" "sl_maxLogFiles lg \<noteq> 0" "sl_maxLogFiles lg \<le> num"
  shows "\<exists>lg' io'. doCompression h num (lg, io) = (lg', io') \<and>
    sl_minRevnum lg' = num - sl_maxLogFiles lg + 1 \<and> unat num - unat (sl_minRevnum lg') + 1 = unat (sl_maxLogFiles lg) \<and>
    sl_numCompJobs lg' = sl_numCompJobs lg - 1 \<and>
    io_cmds io' = io_cmds io @
      [''tar zcvf '' @ getLogFilePath (sl_filePath lg) num @ ''.tar.gz '' @ getLogFilePath (sl_filePath lg) num @ '' > /dev/null'',
       ''rm -f '' @ getLogFilePath (sl_filePath lg) num @ '' > /dev/null''] @
      map (rm_cmd (sl_filePath lg)) [unat (sl_minRevnum lg)..<Suc (unat (num - sl_maxLogFiles lg))]"
proof -
  let ?n = "unat (num - sl_maxLogFiles lg)" and ?p = "getLogFilePath (sl_filePath lg) num"
  let ?io = "execCmd h (''rm -f '' @ ?p) (execCmd h (''tar zcvf '' @ ?p @ ''.tar.gz '' @ ?p) io)"
  obtain lg' io' where f: "fold (remove_old h) [unat (sl_minRevnum lg)..<Suc ?n] (lg, ?io) = (lg', io')"
    "sl_numCompJobs lg' = sl_numCompJobs lg" "sl_minRevnum lg' = of_nat (Suc ?n)"
    "io_cmds io' = io_cmds ?io @ map (rm_cmd (sl_filePath lg)) [unat (sl_minRevnum lg)..<Suc ?n]"
    using remove_old_fold [OF refl, of h "unat (sl_minRevnum lg)" "Suc ?n" lg ?io] assms(1) by auto
  have run: "doCompression h num (lg, io) = (lg'\<lparr>sl_numCompJobs := sl_numCompJobs lg' - 1\<rparr>, io')"
    using f(1) assms(2,3) by (simp add: doCompression_def Let_def)
  have m: "sl_minRevnum lg' = num - sl_maxLogFiles lg + 1" using f(3) by simp
  have sub: "?n = unat num - unat (sl_maxLogFiles lg)" using assms(3) by (rule unat_sub)
  have pos: "0 < unat (sl_maxLogFiles lg)" "unat (sl_maxLogFiles lg) \<le> unat num"
    using assms(2,3) by (simp_all add: unat_gt_0 word_le_nat_alt)
  have "?n + 1 < 2 ^ 64" using sub pos unat_less_64 [of num] by simp
  then have "unat (sl_minRevnum lg') = ?n + 1" unfolding m by (rule unat_plus1)
  then have "unat num - unat (sl_minRevnum lg') + 1 = unat (sl_maxLogFiles lg)" using sub pos by simp
  moreover have "io_cmds ?io = io_cmds io @ [''tar zcvf '' @ ?p @ ''.tar.gz '' @ ?p @ '' > /dev/null'', ''rm -f '' @ ?p @ '' > /dev/null'']"
    by (simp add: execCmd_def Let_def)
  ultimately show ?thesis using run m f(2,4) by (intro exI [of _ "lg'\<lparr>sl_numCompJobs := sl_numCompJobs lg' - 1\<rparr>"] exI [of _ io']) simp
qed

theorem compression_keeps_newest_witness:
  "\<exists>lg' io'. doCompression sample_host 12 (sample_logger, sample_log_io) = (lg', io') \<and>
    sl_minRevnum lg' = 12 - sl_maxLogFiles sample_logger + 1 \<and>
    unat (12 :: u64) - unat (sl_minRevnum lg') + 1 = unat (sl_maxLogFiles sample_logger)"
  using compression_keeps_newest [of sample_logger 12 sample_host sample_log_io]
  by (simp add: sample_logger_def) metis

text \<open>Writing lines leaves the registered loggers alone.\<close>

definition registered :: "log_io \<Rightarrow> nat list option" where
  "registered io = map_option mg_loggers (io_mgr io)"

lemma registered_rotate: "registered (snd (rotate_file self (lg, io))) = registered io"
  by (auto simp: rotate_file_def registered_def addCompElem_def Let_def split: prod.splits option.splits)

lemma registered_flush: "registered (snd (SimpleLogger_flush self c (lg, io))) = registered io"
proof -
  obtain logs st fs where "fold flush_elem (ring_order c (length (sl_logs lg))) (sl_logs lg, sl_fs lg, io_files io) = (logs, st, fs)"
    by (metis prod_cases3)
  then show ?thesis
    using registered_rotate [of self "lg\<lparr>sl_logs := logs, sl_fs := st\<rparr>" "io\<lparr>io_files := fs\<rparr>"]
    by (simp add: SimpleLogger_flush_def registered_def)
qed

lemma registered_ring_put:
  assumes "ring_put self n msg (lg, io) = Inr (lg', io')"
  shows "registered io' = registered io"
proof (cases "LogElem_needToFlush (sl_logs lg ! sl_cursor lg)")
  case False
  then show ?thesis using assms by (auto simp: ring_put_def Let_def split: if_splits)
next
  case True
  let ?lg = "lg\<lparr>sl_cursor := (sl_cursor lg + 1) mod length (sl_logs lg)\<rparr>"
  have "io' = snd (SimpleLogger_flush self (sl_cursor lg) (?lg, io))"
    using assms True by (auto simp: ring_put_def Let_def split: if_splits prod.splits)
  then show ?thesis by (simp add: registered_flush)
qed

lemma registered_put:
  assumes "SimpleLogger_put h self level src fn ln body (lg, io) = Inr (lg', io')"
  shows "registered io' = registered io"
  using assms
  by (auto simp: SimpleLogger_put_def Let_def res_simps console_put_def registered_ring_put registered_def
      split: if_splits dest: registered_ring_put)

lemma registered_macro:
  assumes "log_macro h self level fn body (lg, io) = Inr (lg', io')"
  shows "registered io' = registered io"
  using assms registered_put by (auto simp: log_macro_def split: if_splits)

section \<open>Starting a logger\<close>

lemma new_logger_slots:
  assumes "SimpleLogger_new h file n limit files = Some lg" "n > 0"
  shows "slots_idle lg" "sl_cursor lg < length (sl_logs lg)" "pending lg = []" "sl_fs lg = ofs_closed" "sl_curLogLevel lg = 4"
proof -
  obtain path mn mx where lg: "lg = \<lparr>sl_filePath = path, sl_minRevnum = mn, sl_curRevnum = mx, sl_maxLogFiles = ucast files,
        sl_fs = ofs_closed, sl_maxLogFileSize = limit, sl_numCompJobs = 0,
        sl_curLogLevel = 4, sl_curDispLevel = 4, sl_tzGap = getTzGap (h_localtime h) (h_gmtime h) (h_now h),
        sl_cursor = 0, sl_logs = replicate n LogElem_new\<rparr>"
    using assms(1) unfolding SimpleLogger_new_def Let_def map_option_eq_Some
    by (metis (no_types, lifting) case_prod_conv surj_pair)
  show "slots_idle lg" by (simp add: lg slots_idle_def list_all_iff LogElem_new_def LogElem_available_def)
  show "sl_cursor lg < length (sl_logs lg)" using assms(2) by (simp add: lg)
  show "sl_fs lg = ofs_closed" "sl_curLogLevel lg = 4" by (simp_all add: lg)
  have "list_all (\<lambda>e. le_status e = CLEAN) (sl_logs lg)" by (simp add: lg list_all_iff LogElem_new_def)
  then show "pending lg = []"
    using texts_clean assms(2) by (simp add: pending_def lg)
qed

text \<open>
  A logger that was just constructed starts: the file of its number is open, the logger is
  registered with the manager, the invariant of the running logger holds, and what the file
  held before is kept in front of the new lines.
\<close>

theorem start_opens_log:
  assumes "SimpleLogger_new h file n limit files = Some lg" "n > 0" "sl_filePath lg \<noteq> []"
    and "fs_writable (io_files io) = (\<lambda>_. True)"
    and "unat (sl_curRevnum lg) + 3 < 2 ^ 64" "length (h_stack h) = MSG_SIZE"
    and "\<forall>k. unat (sl_curRevnum lg) < k \<longrightarrow> k < 2 ^ 64 \<longrightarrow>
           contents (io_files io) (getLogFilePath (sl_filePath lg) (of_nat k)) = []"
  shows "\<exists>lg' io' m l. SimpleLogger_start h self (lg, io) = Inr ((lg', io'), 0) \<and>
    logger_ok (unat (sl_curRevnum lg)) lg' (io_files io') \<and> io_mgr io' = Some m \<and> self \<in> set (mg_loggers m) \<and>
    file_text (unat (sl_curRevnum lg)) lg' (io_files io') @ pending lg' =
      contents (io_files io) (getLogFilePath (sl_filePath lg) (sl_curRevnum lg)) @ l"
proof -
  let ?r = "unat (sl_curRevnum lg)" and ?p = "getLogFilePath (sl_filePath lg) (sl_curRevnum lg)"
  let ?fs = "fs_write ?p (contents (io_files io) ?p) (io_files io)"
  let ?lg = "lg\<lparr>sl_fs := \<lparr>os_path = Some ?p, os_good = True, os_pos = 0\<rparr>\<rparr>"
  note new = new_logger_slots [OF assms(1,2)]
  have same: "contents ?fs = contents (io_files io)" by (simp add: fun_eq_iff)
  have op: "ofs_open ?p (sl_fs lg, io_files io) = (\<lparr>os_path = Some ?p, os_good = True, os_pos = 0\<rparr>, ?fs)"
    using new(4) assms(4) by (simp add: ofs_open_def ofs_closed_def)
  obtain m0 io0 where get: "mgr_get h (io\<lparr>io_files := ?fs\<rparr>) = (m0, io0)" "io_mgr io0 = Some m0" "io_files io0 = ?fs"
    by (cases "io_mgr io") (auto simp: mgr_get_def mgr_init_def Let_def)
  let ?io = "upd_mgr (addLogger self) io0"
  have files: "io_files ?io = ?fs" using get(3) by (simp add: upd_mgr_def)
  have ok: "logger_ok ?r ?lg (io_files ?io)"
    using new assms(4,7) same files by (simp add: logger_ok_def slots_idle_def)
  have reg: "registered ?io = Some (List.insert self (mg_loggers m0))"
    using get(2) by (simp add: registered_def upd_mgr_def addLogger_def)
  have ft: "file_text ?r ?lg ?fs = contents (io_files io) ?p" using same by (simp add: file_text_def)
  have pend: "pending ?lg = []" using new(3) by (simp add: pending_def)
  have lvl: "sl_curLogLevel ?lg \<le> 6" "unat (sl_curRevnum ?lg) + 1 < 2 ^ 64" using new(5) assms(5) by simp_all
  obtain lg1 io1 l1 where one: "log_macro h self 0 ''start'' (start_text ?lg) (?lg, ?io) = Inr (lg1, io1)"
    "logger_ok ?r lg1 (io_files io1)" "same_ring (?lg\<lparr>sl_cursor := sl_cursor lg1\<rparr>) lg1"
    "file_text ?r lg1 (io_files io1) @ pending lg1 = file_text ?r ?lg (io_files ?io) @ pending ?lg @ l1"
    using log_macro_ok [OF ok lvl(2) assms(6) order_refl lvl(1), of self "''start''" "start_text ?lg"] by blast
  have lvl1: "sl_curLogLevel lg1 \<le> 6" "unat (sl_curRevnum lg1) + 1 < 2 ^ 64"
    using one(3) lvl(1) assms(5) by (simp_all add: same_ring_def)
  have four: "0 \<le> (4 :: int)" by simp
  obtain lg2 io2 l2 where two: "log_macro h self 4 ''start'' (c_str (mg_globalCriticalInfo m0)) (lg1, io1) = Inr (lg2, io2)"
    "logger_ok ?r lg2 (io_files io2)"
    "file_text ?r lg2 (io_files io2) @ pending lg2 = file_text ?r lg1 (io_files io1) @ pending lg1 @ l2"
    using log_macro_ok [OF one(2) lvl1(2) assms(6) four lvl1(1), of self "''start''" "c_str (mg_globalCriticalInfo m0)"]
    by blast
  have regs: "registered io1 = Some (List.insert self (mg_loggers m0))" "registered io2 = Some (List.insert self (mg_loggers m0))"
    using registered_macro [OF one(1)] registered_macro [OF two(1)] reg by simp_all
  obtain m1 m2 where m: "io_mgr io1 = Some m1" "self \<in> set (mg_loggers m1)" "io_mgr io2 = Some m2" "self \<in> set (mg_loggers m2)"
    using regs by (auto simp: registered_def)
  have run: "SimpleLogger_start h self (lg, io) =
      (if mg_globalCriticalInfo m0 \<noteq> [] then Inr ((lg2, io2), 0) else Inr ((lg1, io1), 0))"
    using assms(3) op get(1) one(1) two(1) by (simp add: SimpleLogger_start_def Let_def)
  show ?thesis
  proof (cases "mg_globalCriticalInfo m0 = []")
    case True
    then show ?thesis using run one(2,4) m ft pend files by auto
  next
    case False
    have "file_text ?r lg2 (io_files io2) @ pending lg2 = contents (io_files io) ?p @ l1 @ l2"
      using two(3) one(4) ft pend files by simp
    then show ?thesis using False run two(2) m by auto
  qed
qed

text \<open>A logger constructed where there is no log file yet.\<close>

definition sample_new_logger :: SimpleLogger where
  "sample_new_logger =
     \<lparr>sl_filePath = ''x/l'', sl_minRevnum = 0, sl_curRevnum = 0, sl_maxLogFiles = 10, sl_fs = ofs_closed,
      sl_maxLogFileSize = 1024, sl_numCompJobs = 0, sl_curLogLevel = 4, sl_curDispLevel = 4, sl_tzGap = 0,
      sl_cursor = 0, sl_logs = replicate 2 LogElem_new\<rparr>"

lemma sample_new_logger: "SimpleLogger_new sample_host ''x//l'' 2 1024 10 = Some sample_new_logger"
  by (simp add: SimpleLogger_new_def replaceString_eq sample_new_logger_def findMinMaxRevNum_def
      sample_host_def getTzGap_def TimeInfo_of_tm_def Let_def split: prod.splits)

theorem start_opens_log_witness:
  "\<exists>lg' io' m l. SimpleLogger_start sample_host 1 (sample_new_logger, sample_log_io) = Inr ((lg', io'), 0) \<and>
    logger_ok (unat (sl_curRevnum sample_new_logger)) lg' (io_files io') \<and> io_mgr io' = Some m \<and> 1 \<in> set (mg_loggers m) \<and>
    file_text (unat (sl_curRevnum sample_new_logger)) lg' (io_files io') @ pending lg' =
      contents (io_files sample_log_io) (getLogFilePath (sl_filePath sample_new_logger) (sl_curRevnum sample_new_logger)) @ l"
  by (rule start_opens_log [OF sample_new_logger])
     (simp_all add: sample_new_logger_def sample_log_io_def sample_host_def contents_def fs_read_def)

end
