(* ===== verification/Stack_Trace.thy ===== *)
theory Stack_Trace
  imports Log_Format Log_Files
begin

text \<open>
  backtrace.h, as compiled on Linux (and on other systems than Linux and Apple): the text of a
  stack trace. What libc and the command \<^verbatim>\<open>addr2line\<close> answer is a parameter. Shown here: the text
  stays in the buffer, however long the names are, and is whole when it fits.
\<close>

section \<open>The host\<close>

text \<open>
  \<^verbatim>\<open>backtrace_symbols\<close> (\<open>None\<close>: the null pointer), the output of a command run by \<^verbatim>\<open>popen\<close>
  (\<open>None\<close>: it fails), \<^verbatim>\<open>abi::__cxa_demangle\<close>, and what the two uninitialised arrays for the words
  of the output contain.
\<close>

record trace_host =
  th_symbols :: "u64 list \<Rightarrow> string list option"
  th_popen :: "string \<Rightarrow> string option"
  th_demangle :: "string \<Rightarrow> string option"
  th_mangled_name :: string
  th_file_line :: string

section \<open>Reading\<close>

text \<open>\<^verbatim>\<open>%1023s\<close> of \<^verbatim>\<open>scanf\<close>.\<close>

definition scan_word :: "string \<Rightarrow> (string \<times> string) option" where
  "scan_word s =
     (let s = dropWhile isspace s; w = take 1023 (takeWhile (\<lambda>c. \<not> isspace c) s)
      in if s = [] then None else Some (w, drop (length w) s))"

definition scan_two_words :: "trace_host \<Rightarrow> string \<Rightarrow> string \<times> string" where
  "scan_two_words T s =
     (case scan_word s of
        None \<Rightarrow> (th_mangled_name T, th_file_line T)
      | Some (w, r) \<Rightarrow> (case scan_word r of None \<Rightarrow> (w, th_file_line T) | Some (w', _) \<Rightarrow> (w, w')))"

definition hex_value :: "char \<Rightarrow> nat option" where
  "hex_value c =
     (if is_digit c then Some (digit_val c)
      else if CHR ''a'' \<le> c \<and> c \<le> CHR ''f'' then Some (of_char c - of_char (CHR ''a'') + 10)
      else if CHR ''A'' \<le> c \<and> c \<le> CHR ''F'' then Some (of_char c - of_char (CHR ''A'') + 10)
      else None)"

text \<open>
  \<^verbatim>\<open>ss >> std::hex >> actual_addr\<close>: spaces, a sign, \<^verbatim>\<open>0x\<close>, digits; 0 without digits, the maximum when
  they are too many.
\<close>

definition read_hex :: "string \<Rightarrow> u64" where
  "read_hex s =
     (let s = dropWhile isspace s;
          neg = (s \<noteq> [] \<and> hd s = CHR ''-'');
          s = (if s \<noteq> [] \<and> (hd s = CHR ''-'' \<or> hd s = CHR ''+'') then tl s else s);
          s = (if take 2 s = ''0x'' \<or> take 2 s = ''0X'' then drop 2 s else s);
          ds = takeWhile (\<lambda>c. hex_value c \<noteq> None) s;
          v = foldl (\<lambda>v c. 16 * v + the (hex_value c)) 0 ds
      in if v \<ge> 2 ^ 64 then - 1 else if neg then - of_nat v else of_nat v)"

section \<open>One frame\<close>

definition fname_len :: "string \<Rightarrow> nat" where
  "fname_len m = length (takeWhile (\<lambda>c. c \<noteq> CHR ''('' \<and> c \<noteq> CHR '' '') m)"

text \<open>With address space randomisation the symbol has an offset, otherwise the address is used.\<close>

definition frame_addr :: "u64 \<Rightarrow> string \<Rightarrow> u64 \<times> string" where
  "frame_addr p m =
     (let r = drop (fname_len m) m in
      if take 2 r = ''(+''
      then let addr_str = take 255 (takeWhile (\<lambda>c. c \<noteq> CHR '')'') (drop 2 r)) in (read_hex addr_str, addr_str)
      else (p, take 255 (to_hex (unat p))))"

definition addr2line_cmd :: "string \<Rightarrow> string \<Rightarrow> string" where
  "addr2line_cmd m addr_str = take 1023 (''addr2line -f -e '' @ take (fname_len m) m @ '' '' @ addr_str)"

text \<open>
  The name between the parentheses, in front of the last plus sign. The length of the substring is
  a \<^verbatim>\<open>size_t\<close>: a plus sign in the file name alone gives the whole rest.
\<close>

definition raw_func_name :: "string \<Rightarrow> string" where
  "raw_func_name m =
     (let e = (case rfind m ''+'' of None \<Rightarrow> rfind m '')'' | Some e \<Rightarrow> Some e) in
      case (find_at m ''('' 0, e) of
        (Some s_pos, Some e_pos) \<Rightarrow>
          take (unat (of_nat e_pos - of_nat s_pos - 1 :: u64)) (drop (s_pos + 1) m)
      | _ \<Rightarrow> m)"

definition fmt_frame :: "nat \<Rightarrow> string" where
  "fmt_frame n = to_string n @ replicate (2 - length (to_string n)) (CHR '' '')"

definition frame_texts :: "trace_host \<Rightarrow> nat \<Rightarrow> u64 \<times> string \<Rightarrow> string list option" where
  "frame_texts T frame_num f =
     (let (p, m) = f; (actual_addr, addr_str) = frame_addr p m in
      case th_popen T (addr2line_cmd m addr_str) of
        None \<Rightarrow> None
      | Some out \<Rightarrow>
          let (mangled_name, file_line) = scan_two_words T out in
          Some [''#'' @ fmt_frame frame_num @ '' 0x'' @ pad_left (CHR ''0'') 16 (to_hex (unat actual_addr)) @ '' in '',
                (case th_demangle T mangled_name of
                   Some cc \<Rightarrow> cc @ '' at ''
                 | None \<Rightarrow> (if raw_func_name m = [] then mangled_name else raw_func_name m) @ ''() at ''),
                file_line @ [CHR 0x0A]])"

section \<open>All frames\<close>

text \<open>The room is set back to the whole buffer at each frame; the length goes on.\<close>

fun interpret_frames :: "trace_host \<Rightarrow> nat \<Rightarrow> (u64 \<times> string) list \<Rightarrow> nat \<Rightarrow> string \<Rightarrow> (nat \<times> string) res" where
  "interpret_frames T frame_num [] cur_len buf = Inr (cur_len, buf)"
| "interpret_frames T frame_num (f # fs) cur_len buf =
     (case frame_texts T frame_num f of
        None \<Rightarrow> interpret_frames T frame_num fs cur_len buf
      | Some texts \<Rightarrow>
          andthen (foldM snprintf_macro \<lparr>ob_msg = buf, ob_avail_len = length buf, ob_cur_len = cur_len\<rparr> texts) (\<lambda>b.
            interpret_frames T (frame_num + 1) fs (ob_cur_len b) (ob_msg b)))"

text \<open>The first frame is the function itself and is left out.\<close>

definition stack_interpret :: "trace_host \<Rightarrow> u64 list \<Rightarrow> string \<Rightarrow> (nat \<times> string) res" where
  "stack_interpret T stack_ptr buf =
     (if length stack_ptr \<le> 1 then Inr (0, buf)
      else andthen (deref ''stack_msg'' (th_symbols T stack_ptr)) (\<lambda>stack_msg.
        interpret_frames T 0 (drop 1 (zip stack_ptr stack_msg)) 0 buf))"

definition stack_backtrace :: "trace_host \<Rightarrow> u64 list \<Rightarrow> string \<Rightarrow> (nat \<times> string) res" where
  "stack_backtrace T stack buf = stack_interpret T (take 256 stack) buf"

text \<open>On a system other than Linux and Apple the symbols are printed as they are.\<close>

fun stack_interpret_other :: "string list \<Rightarrow> nat \<Rightarrow> string \<Rightarrow> (nat \<times> string) res" where
  "stack_interpret_other [] cur_len buf = Inr (cur_len, buf)"
| "stack_interpret_other (m # ms) cur_len buf =
     andthen (snprintf_macro \<lparr>ob_msg = buf, ob_avail_len = length buf, ob_cur_len = cur_len\<rparr> (m @ [CHR 0x0A])) (\<lambda>b.
       stack_interpret_other ms (ob_cur_len b) (ob_msg b))"

section \<open>The buffer\<close>

text \<open>The texts of the frames, and whether each fits with what \<open>snprintf_macro\<close> reckons as room.\<close>

fun trace_texts :: "trace_host \<Rightarrow> nat \<Rightarrow> (u64 \<times> string) list \<Rightarrow> string list list" where
  "trace_texts T n [] = []"
| "trace_texts T n (f # fs) =
     (case frame_texts T n f of None \<Rightarrow> trace_texts T n fs | Some ts \<Rightarrow> ts # trace_texts T (n + 1) fs)"

fun frames_fit :: "nat \<Rightarrow> nat \<Rightarrow> string list list \<Rightarrow> bool" where
  "frames_fit n c [] \<longleftrightarrow> True"
| "frames_fit n c (ts # tss) \<longleftrightarrow> fits n c ts \<and> frames_fit n (c + length (concat ts)) tss"

lemma interpret_frames_buffer:
  assumes "cur \<le> length buf"
  shows "\<exists>len buf'. interpret_frames T k fs cur buf = Inr (len, buf') \<and> len \<le> length buf \<and> length buf' = length buf \<and>
    (frames_fit (length buf) cur (trace_texts T k fs) \<longrightarrow>
       take len buf' = take cur buf @ concat (map concat (trace_texts T k fs)))"
  using assms
proof (induction T k fs cur buf rule: interpret_frames.induct)
  case (2 T k f fs cur buf)
  show ?case
  proof (cases "frame_texts T k f")
    case None
    then show ?thesis using 2 by simp
  next
    case (Some ts)
    let ?b = "\<lparr>ob_msg = buf, ob_avail_len = length buf, ob_cur_len = cur\<rparr>"
    have w: "out_within (length buf) ?b" using 2(3) by (simp add: out_within_def)
    obtain b where b: "foldM snprintf_macro ?b ts = Inr b" "out_within (length buf) b"
      using foldM_snprintf_within [OF w] by blast
    then have len: "length (ob_msg b) = length buf" "ob_cur_len b \<le> length buf" by (simp_all add: out_within_def)
    have whole: "take (ob_cur_len b) (ob_msg b) = take cur buf @ concat ts \<and> ob_cur_len b = cur + length (concat ts)"
      if "fits (length buf) cur ts"
      using foldM_snprintf_fits [OF w, of ts] that b(1) by auto
    obtain n buf' where i: "interpret_frames T (k + 1) fs (ob_cur_len b) (ob_msg b) = Inr (n, buf')" "n \<le> length buf"
        "length buf' = length buf"
        "frames_fit (length buf) (ob_cur_len b) (trace_texts T (k + 1) fs) \<Longrightarrow>
           take n buf' = take (ob_cur_len b) (ob_msg b) @ concat (map concat (trace_texts T (k + 1) fs))"
      using 2(2) [OF Some b(1)] len by auto
    then show ?thesis using whole by (auto simp: Some b(1))
  qed
qed simp

section \<open>Properties\<close>

text \<open>
  Whatever the names in a stack trace are, printing it writes only inside the buffer and
  returns a length within it; when every frame fits, the buffer starts with the texts of all
  frames but the first, in order.
\<close>

theorem stack_trace_in_buffer:
  assumes "th_symbols T ptrs = Some msgs"
  shows "\<exists>len buf'. stack_interpret T ptrs buf = Inr (len, buf') \<and> len \<le> length buf \<and> length buf' = length buf \<and>
    (1 < length ptrs \<and> frames_fit (length buf) 0 (trace_texts T 0 (drop 1 (zip ptrs msgs))) \<longrightarrow>
       take len buf' = concat (map concat (trace_texts T 0 (drop 1 (zip ptrs msgs)))))"
proof (cases "length ptrs \<le> 1")
  case False
  then show ?thesis
    using interpret_frames_buffer [of 0 buf T 0 "drop 1 (zip ptrs msgs)"] assms by (auto simp: stack_interpret_def)
qed (simp add: stack_interpret_def)

definition sample_trace_host :: trace_host where
  "sample_trace_host = \<lparr>th_symbols = (\<lambda>ps. Some [''self'', ''vdb(main) [0x40]'']),
     th_popen = (\<lambda>cmd. if cmd = ''addr2line -f -e vdb 40'' then Some ''main vdb.cpp:7'' else None),
     th_demangle = (\<lambda>n. None), th_mangled_name = [], th_file_line = []\<rparr>"

lemma sample_frame:
  "frame_texts sample_trace_host 0 (64, ''vdb(main) [0x40]'') =
     Some [''#0  0x0000000000000040 in '', ''main() at '', ''vdb.cpp:7'' @ [CHR 0x0A]]"
proof -
  have h: "to_hex 64 = ''40''" by (simp add: to_hex.simps hex_digit_def)
  have f: "fname_len ''vdb(main) [0x40]'' = 3" by (simp add: fname_len_def)
  have a: "frame_addr 64 ''vdb(main) [0x40]'' = (64, ''40'')" by (simp add: frame_addr_def f h)
  have c: "addr2line_cmd ''vdb(main) [0x40]'' ''40'' = ''addr2line -f -e vdb 40''" by (simp add: addr2line_cmd_def f)
  have w: "scan_two_words sample_trace_host ''main vdb.cpp:7'' = (''main'', ''vdb.cpp:7'')"
    by (simp add: scan_two_words_def scan_word_def isspace_def Let_def)
  have r: "raw_func_name ''vdb(main) [0x40]'' = ''main''"
  proof -
    have "find_at ''vdb(main) [0x40]'' ''('' 0 = Some 3" by (simp add: find_at_def find_in.simps)
    moreover have "rfind ''vdb(main) [0x40]'' ''+'' = None" "rfind ''vdb(main) [0x40]'' '')'' = Some 8"
      by (simp_all add: rfind_def eval_nat_numeral)
    ultimately show ?thesis by (simp add: raw_func_name_def)
  qed
  have p: "th_popen sample_trace_host ''addr2line -f -e vdb 40'' = Some ''main vdb.cpp:7''" "th_demangle sample_trace_host n = None" for n
    by (simp_all add: sample_trace_host_def)
  have n: "fmt_frame 0 = ''0 ''" by (simp add: fmt_frame_def to_string.simps digit_char_def eval_nat_numeral)
  have z: "pad_left (CHR ''0'') 16 ''40'' = ''0000000000000040''" by (simp add: pad_left_def eval_nat_numeral)
  show ?thesis
    by (simp add: frame_texts_def a c w r h p n z)
qed

theorem stack_trace_in_buffer_witness:
  "\<exists>len buf'. stack_interpret sample_trace_host [32, 64] (replicate 200 (CHR 0x00)) = Inr (len, buf') \<and> len \<le> 200 \<and>
     take len buf' = ''#0  0x0000000000000040 in main() at vdb.cpp:7'' @ [CHR 0x0A]"
proof -
  have m: "th_symbols sample_trace_host [32, 64] = Some [''self'', ''vdb(main) [0x40]'']" by (simp add: sample_trace_host_def)
  have t: "trace_texts sample_trace_host 0 (drop 1 (zip [32, 64] [''self'', ''vdb(main) [0x40]''])) =
    [[''#0  0x0000000000000040 in '', ''main() at '', ''vdb.cpp:7'' @ [CHR 0x0A]]]"
    by (simp add: sample_frame)
  show ?thesis using stack_trace_in_buffer [OF m, of "replicate 200 (CHR 0x00)"] unfolding t by auto
qed

end
