(* ===== verification/Logger_Mgr.thy ===== *)
theory Logger_Mgr
  imports Raft_Logger Stack_Trace
begin

text \<open>
  raft_logger.cpp, \<^verbatim>\<open>class SimpleLoggerMgr\<close>: the registry of loggers, the two background
  workers (periodic flush, compression queue) and what runs on a crash. One round of a worker is
  one function; signals and threads of the host appear as the order in which the functions
  are called. Shown here: the counter of compression jobs agrees with the queue, so a logger that
  stops waits for finitely many rounds; and a stack trace is logged in pieces that lose nothing.
\<close>

text \<open>The process as the manager sees it: the loggers on the heap by address (0 is the null pointer).\<close>

record log_world =
  lw_io :: log_io
  lw_heap :: "(nat, SimpleLogger) omap"

text \<open>
  Of the host, what the crash handlers ask for: the threads' stacks and names, and the answers
  \<^verbatim>\<open>_stack_interpret\<close> of backtrace.h needs to print a list of addresses.
\<close>

record crash_host =
  ch_host :: log_host
  ch_self :: u64
  ch_backtrace :: "u64 \<Rightarrow> u64 list"
  ch_tid_hash :: "u64 \<Rightarrow> nat"
  ch_gettid :: "u64 \<Rightarrow> u64"
  ch_trace :: trace_host
  ch_old_handler :: bool

definition the_mgr :: "log_world \<Rightarrow> SimpleLoggerMgr res" where
  "the_mgr w = deref ''SimpleLoggerMgr'' (io_mgr (lw_io w))"

definition set_mgr :: "(SimpleLoggerMgr \<Rightarrow> SimpleLoggerMgr) \<Rightarrow> log_world \<Rightarrow> log_world" where
  "set_mgr f w = w\<lparr>lw_io := upd_mgr f (lw_io w)\<rparr>"

text \<open>Run an operation of the logger at an address; an address without logger dangles.\<close>

definition at_logger :: "nat \<Rightarrow> (SimpleLogger \<times> log_io \<Rightarrow> (SimpleLogger \<times> log_io) res) \<Rightarrow> log_world \<Rightarrow> log_world res" where
  "at_logger a f w =
     (case map_of (lw_heap w) a of
        None \<Rightarrow> Inl (Abort (Out_of_bounds ''dangling SimpleLogger''))
      | Some lg \<Rightarrow> andthen (f (lg, lw_io w)) (\<lambda>(lg', io').
          Inr \<lparr>lw_io = io', lw_heap = om_insert a lg' (lw_heap w)\<rparr>))"

section \<open>The registry\<close>

definition getWithoutInit :: "log_world \<Rightarrow> SimpleLoggerMgr option" where
  "getWithoutInit w = io_mgr (lw_io w)"

definition flush_one :: "crash_host \<Rightarrow> int \<Rightarrow> string \<Rightarrow> log_world \<Rightarrow> nat \<Rightarrow> log_world res" where
  "flush_one ch level msg w a =
     (if a = 0 then Inr w
      else at_logger a (\<lambda>s.
        andthen (if msg \<noteq> [] then SimpleLogger_put (ch_host ch) a level (Some (h_file (ch_host ch))) (Some ''flushAllLoggers'')
                                   (h_line (ch_host ch) ''flushAllLoggers'') (c_str msg) s
                 else Inr s) (\<lambda>s'. Inr (flushAll a s'))) w)"

definition flushAllLoggers :: "crash_host \<Rightarrow> int \<Rightarrow> string \<Rightarrow> log_world \<Rightarrow> log_world res" where
  "flushAllLoggers ch level msg w =
     andthen (the_mgr w) (\<lambda>m. foldM (flush_one ch level msg) w (mg_loggers m))"

definition addThread :: "u64 \<Rightarrow> SimpleLoggerMgr \<Rightarrow> SimpleLoggerMgr" where
  "addThread tid m = m\<lparr>mg_activeThreads := List.insert tid (mg_activeThreads m)\<rparr>"

definition removeThread :: "u64 \<Rightarrow> SimpleLoggerMgr \<Rightarrow> SimpleLoggerMgr" where
  "removeThread tid m = m\<lparr>mg_activeThreads := removeAll tid (mg_activeThreads m)\<rparr>"

definition chkTermination :: "SimpleLoggerMgr \<Rightarrow> bool" where
  "chkTermination m = mg_termination m"

definition mgr_setCriticalInfo :: "string \<Rightarrow> SimpleLoggerMgr \<Rightarrow> SimpleLoggerMgr" where
  "mgr_setCriticalInfo info_str m = m\<lparr>mg_globalCriticalInfo := info_str\<rparr>"

definition mgr_setStackTraceOriginOnly :: "bool \<Rightarrow> SimpleLoggerMgr \<Rightarrow> SimpleLoggerMgr" where
  "mgr_setStackTraceOriginOnly origin_only m = m\<lparr>mg_crashDumpOriginOnly := origin_only\<rparr>"

definition mgr_setCrashDumpPath :: "string \<Rightarrow> bool \<Rightarrow> SimpleLoggerMgr \<Rightarrow> SimpleLoggerMgr" where
  "mgr_setCrashDumpPath path origin_only m =
     mgr_setStackTraceOriginOnly origin_only (m\<lparr>mg_crashDumpPath := path\<rparr>)"

definition setExitOnCrash :: "bool \<Rightarrow> SimpleLoggerMgr \<Rightarrow> SimpleLoggerMgr" where
  "setExitOnCrash exit_on_crash m = m\<lparr>mg_exitOnCrash := exit_on_crash\<rparr>"

definition mgr_destructor :: "SimpleLoggerMgr \<Rightarrow> SimpleLoggerMgr" where
  "mgr_destructor m = m\<lparr>mg_termination := True, mg_handlers_installed := False\<rparr>"

text \<open>\<^verbatim>\<open>destroy\<close>: once the destructor has joined the threads the manager is gone.\<close>

definition mgr_destroy :: "crash_host \<Rightarrow> log_world \<Rightarrow> log_world res" where
  "mgr_destroy ch w =
     (case getWithoutInit w of
        None \<Rightarrow> Inr w
      | Some _ \<Rightarrow> andthen (flushAllLoggers ch 0 [] w) (\<lambda>w'.
          Inr (w'\<lparr>lw_io := (lw_io (set_mgr mgr_destructor w'))\<lparr>io_mgr := None\<rparr>\<rparr>)))"

text \<open>The static members of \<^verbatim>\<open>SimpleLogger\<close> that pass on to the manager, which \<^verbatim>\<open>get\<close> makes if need be.\<close>

definition ensure_mgr :: "crash_host \<Rightarrow> log_world \<Rightarrow> log_world" where
  "ensure_mgr ch w = w\<lparr>lw_io := snd (mgr_get (ch_host ch) (lw_io w))\<rparr>"

definition setCriticalInfo :: "crash_host \<Rightarrow> string \<Rightarrow> log_world \<Rightarrow> log_world" where
  "setCriticalInfo ch info_str w = set_mgr (mgr_setCriticalInfo info_str) (ensure_mgr ch w)"

definition setCrashDumpPath :: "crash_host \<Rightarrow> string \<Rightarrow> bool \<Rightarrow> log_world \<Rightarrow> log_world" where
  "setCrashDumpPath ch path origin_only w = set_mgr (mgr_setCrashDumpPath path origin_only) (ensure_mgr ch w)"

definition setStackTraceOriginOnly :: "crash_host \<Rightarrow> bool \<Rightarrow> log_world \<Rightarrow> log_world" where
  "setStackTraceOriginOnly ch origin_only w = set_mgr (mgr_setStackTraceOriginOnly origin_only) (ensure_mgr ch w)"

definition logger_shutdown :: "crash_host \<Rightarrow> log_world \<Rightarrow> log_world res" where
  "logger_shutdown ch w = (case getWithoutInit w of None \<Rightarrow> Inr w | Some _ \<Rightarrow> mgr_destroy ch w)"

section \<open>The workers\<close>

text \<open>
  One round of the flusher after its sleep of 500 milliseconds. \<open>None\<close> in the result: the
  abort timer has run out and the process exits.
\<close>

definition flushWorker_round :: "crash_host \<Rightarrow> log_world \<Rightarrow> log_world option res" where
  "flushWorker_round ch w =
     andthen (flushAllLoggers ch 0 [] w) (\<lambda>w'.
     andthen (the_mgr w') (\<lambda>m.
       if mg_abortTimer m \<noteq> 0
       then if mg_abortTimer m > 500
            then Inr (Some (set_mgr (\<lambda>m. m\<lparr>mg_abortTimer := mg_abortTimer m - 500\<rparr>) w'))
            else Inr None
       else Inr (Some w')))"

text \<open>One round of the compressor: the head of the queue, if there is one.\<close>

definition compressWorker_round :: "crash_host \<Rightarrow> log_world \<Rightarrow> log_world res" where
  "compressWorker_round ch w =
     andthen (the_mgr w) (\<lambda>m.
       case mg_pendingCompElems m of
         [] \<Rightarrow> Inr w
       | (num, a) # rest \<Rightarrow>
           at_logger a (\<lambda>s. Inr (doCompression (ch_host ch) num s))
             (set_mgr (\<lambda>m. m\<lparr>mg_pendingCompElems := rest\<rparr>) w))"

section \<open>On a crash\<close>

text \<open>The dump file, when it is open.\<close>

definition dump_write :: "string \<Rightarrow> log_world \<Rightarrow> log_world" where
  "dump_write s w =
     (case io_mgr (lw_io w) of
        None \<Rightarrow> w
      | Some m \<Rightarrow> (case mg_crashDumpFile m of
          None \<Rightarrow> w
        | Some p \<Rightarrow> w\<lparr>lw_io := (lw_io w)\<lparr>io_files := fs_write p (contents (io_files (lw_io w)) p @ s) (io_files (lw_io w))\<rparr>\<rparr>))"

definition nl :: string where "nl = [CHR 0x0A]"

definition fmt_04x :: "nat \<Rightarrow> string" where
  "fmt_04x n = pad_left (CHR ''0'') 4 (to_hex n)"

definition critical_msg :: "string \<Rightarrow> string" where
  "critical_msg info = '' === Critical info (given by user): '' @ to_string (length info) @ '' bytes'' @ '' ==='' @
     (if info \<noteq> [] then nl @ info else [])"

definition flushCriticalInfo :: "crash_host \<Rightarrow> log_world \<Rightarrow> log_world res" where
  "flushCriticalInfo ch w =
     andthen (the_mgr w) (\<lambda>m.
       let msg = critical_msg (mg_globalCriticalInfo m) in
       andthen (flushAllLoggers ch 2 msg w) (\<lambda>w'. Inr (dump_write (msg @ nl @ nl) w')))"

text \<open>A long text in pieces of \<open>n\<close> characters.\<close>

function chunks :: "nat \<Rightarrow> string \<Rightarrow> string list" where
  "chunks n s = (if n = 0 \<or> s = [] then [] else take n s # chunks n (drop n s))"
  by pat_completeness auto
termination by (relation "measure (\<lambda>(n, s). length s)") auto

declare chunks.simps [simp del]

definition per_log_size :: nat where
  "per_log_size = MSG_SIZE - 1024"

definition stack_msg :: "nat \<Rightarrow> u64 \<Rightarrow> bool \<Rightarrow> string \<Rightarrow> string" where
  "stack_msg tid_hash kernel_tid crash_origin buffer =
     nl @ ''Thread '' @ fmt_04x tid_hash @
     (if kernel_tid \<noteq> 0 then '' ('' @ to_string (unat kernel_tid) @ '')'' else []) @
     (if crash_origin then '' (crashed here)'' else []) @ nl @ nl @ buffer"

definition flush_stack_text :: "crash_host \<Rightarrow> string \<Rightarrow> log_world \<Rightarrow> log_world res" where
  "flush_stack_text ch msg w =
     andthen (foldM (\<lambda>w c. flushAllLoggers ch 2 c w) w (chunks per_log_size msg)) (\<lambda>w'.
       Inr (dump_write (msg @ nl) w'))"

text \<open>
  The buffer is not initialised; what it holds is written over, so zeros stand for it.
\<close>

definition stackTraceBufferSize :: nat where
  "stackTraceBufferSize = 65536"

definition flushStackTraceBuffer :: "crash_host \<Rightarrow> log_world \<Rightarrow> RawStackInfo \<Rightarrow> log_world res" where
  "flushStackTraceBuffer ch w info =
     andthen (stack_interpret (ch_trace ch) (si_stackPtrs info) (replicate stackTraceBufferSize (CHR 0x00))) (\<lambda>(len, buffer).
       if len = 0 then Inr w
       else flush_stack_text ch (stack_msg (unat (si_tidHash info)) (si_kernelTid info) (si_crashOrigin info) (take len buffer)) w)"

definition raw_stack_text :: "RawStackInfo \<Rightarrow> string" where
  "raw_stack_text info =
     ''Thread '' @ fmt_04x (unat (si_tidHash info)) @ '' '' @ to_string (unat (si_kernelTid info)) @ nl @
     (if si_crashOrigin info then ''(crashed here)'' @ nl else []) @
     concat (map (\<lambda>p. (if p = 0 then ''0'' else ''0x'' @ to_hex (unat p)) @ nl) (si_stackPtrs info)) @ nl"

definition flushRawStack :: "log_world \<Rightarrow> RawStackInfo \<Rightarrow> log_world" where
  "flushRawStack w info = dump_write (raw_stack_text info) w"

text \<open>A thread appends its own stack, of at most 256 frames.\<close>

definition addRawStackInfo :: "crash_host \<Rightarrow> u64 \<Rightarrow> bool \<Rightarrow> SimpleLoggerMgr \<Rightarrow> SimpleLoggerMgr" where
  "addRawStackInfo ch tid crash_origin m =
     m\<lparr>mg_crashDumpThreadStacks := mg_crashDumpThreadStacks m @
        [\<lparr>si_tidHash = of_nat (ch_tid_hash ch tid mod 0x10000), si_kernelTid = ch_gettid ch tid,
          si_stackPtrs = take 256 (ch_backtrace ch tid), si_crashOrigin = crash_origin\<rparr>]\<rparr>"

text \<open>The handler of SIGUSR2 in a thread.\<close>

definition handleStackTrace :: "crash_host \<Rightarrow> u64 \<Rightarrow> SimpleLoggerMgr \<Rightarrow> SimpleLoggerMgr" where
  "handleStackTrace ch myself m =
     (if mg_crashOriginThread m = 0 then m
      else if mg_crashOriginThread m = myself then m
      else addRawStackInfo ch myself False m)"

definition logStackBackTraceOtherThreads :: "crash_host \<Rightarrow> log_world \<Rightarrow> log_world res" where
  "logStackBackTraceOtherThreads ch w =
     andthen (the_mgr w) (\<lambda>m.
       if \<not> mg_crashDumpOriginOnly m
       then
         if mg_crashOriginThread m \<noteq> 0 then Inr w
         else
           let w = set_mgr (\<lambda>m. m\<lparr>mg_crashOriginThread := ch_self ch\<rparr>) w;
               msg = ''captured '' @ to_string (length (mg_activeThreads m)) @ '' active threads''
           in andthen (flushAllLoggers ch 2 msg w) (\<lambda>w.
                let w = dump_write (msg @ nl @ nl) w;
                    w = fold (\<lambda>tid. set_mgr (handleStackTrace ch tid)) (filter (\<lambda>t. t \<noteq> ch_self ch) (mg_activeThreads m)) w
                in flushAllLoggers ch 2 ''got all stack traces, now flushing them'' w)
       else
         let msg = ''will not explore other threads (disabled by user)'' in
         andthen (flushAllLoggers ch 2 msg w) (\<lambda>w. Inr (dump_write (msg @ nl @ nl) w)))"

text \<open>The name of the dump file and the time stamp inside it.\<close>

definition dump_filename :: "TimeInfo \<Rightarrow> int \<Rightarrow> string" where
  "dump_filename lt tz_gap =
     (let tz_gap_abs = (if tz_gap < 0 then tz_gap * -1 else tz_gap) in
      take 127 (''dump_'' @ fmt_0d 4 (ti_year lt) @ fmt_0d 2 (ti_month lt) @ fmt_0d 2 (ti_day lt) @ ''_'' @
        fmt_0d 2 (ti_hour lt) @ fmt_0d 2 (ti_min lt) @ fmt_0d 2 (ti_sec lt) @ [tz_sign tz_gap] @
        fmt_0d 2 (tz_gap_abs div 60) @ fmt_0d 2 (tz_gap_abs mod 60) @ ''.txt''))"

definition dump_time :: "TimeInfo \<Rightarrow> int \<Rightarrow> string" where
  "dump_time lt tz_gap =
     (let tz_gap_abs = (if tz_gap < 0 then tz_gap * -1 else tz_gap) in
      take 63 (fmt_0d 4 (ti_year lt) @ ''-'' @ fmt_0d 2 (ti_month lt) @ ''-'' @ fmt_0d 2 (ti_day lt) @ ''T'' @
        fmt_0d 2 (ti_hour lt) @ '':'' @ fmt_0d 2 (ti_min lt) @ '':'' @ fmt_0d 2 (ti_sec lt) @ ''.'' @
        fmt_0d 3 (int (ti_msec lt)) @ fmt_0d 3 (int (ti_usec lt)) @ [tz_sign tz_gap] @
        fmt_0d 2 (tz_gap_abs div 60) @ '':'' @ fmt_0d 2 (tz_gap_abs mod 60)))"

definition open_dump :: "crash_host \<Rightarrow> log_world \<Rightarrow> log_world" where
  "open_dump ch w =
     (case io_mgr (lw_io w) of
        None \<Rightarrow> w
      | Some m \<Rightarrow>
          if mg_crashDumpPath m \<noteq> [] \<and> mg_crashDumpFile m = None
          then
            let h = ch_host ch;
                lt = TimeInfo_of_now (h_localtime h) (h_now h);
                tz_gap = getTzGap (h_localtime h) (h_gmtime h) (h_now h);
                path = mg_crashDumpPath m @ ''/'' @ dump_filename lt tz_gap;
                fs = io_files (lw_io w);
                w' = (if fs_writable fs path
                      then set_mgr (\<lambda>m. m\<lparr>mg_crashDumpFile := Some path\<rparr>)
                             (w\<lparr>lw_io := (lw_io w)\<lparr>io_files := fs_write path [] fs\<rparr>\<rparr>)
                      else w)
            in dump_write (''When: '' @ dump_time lt tz_gap @ nl @ nl) w'
          else w)"

definition logStackBacktrace :: "crash_host \<Rightarrow> u64 \<Rightarrow> log_world \<Rightarrow> log_world res" where
  "logStackBacktrace ch timeout_ms w =
     andthen (the_mgr w) (\<lambda>_.
       let w = open_dump ch (set_mgr (\<lambda>m. m\<lparr>mg_abortTimer := timeout_ms\<rparr>) w) in
       andthen (flushCriticalInfo ch w) (\<lambda>w.
       andthen (logStackBackTraceOtherThreads ch (set_mgr (addRawStackInfo ch (ch_self ch) True) w)) (\<lambda>w.
       andthen (the_mgr w) (\<lambda>m.
         let w = fold (\<lambda>info w. flushRawStack w info) (mg_crashDumpThreadStacks m) w in
         foldM (flushStackTraceBuffer ch) w (mg_crashDumpThreadStacks m)))))"

definition chkExitOnCrash :: "crash_host \<Rightarrow> SimpleLoggerMgr \<Rightarrow> bool" where
  "chkExitOnCrash ch m =
     (if mg_exitOnCrash m then True
      else (case h_getenv (ch_host ch) ''SIMPLELOGGER_EXIT_ON_CRASH'' of None \<Rightarrow> [] | Some s \<Rightarrow> s)
             \<in> {''ON'', ''on'', ''TRUE'', ''true''})"

text \<open>The first logger shows everything up to its level 4, the others nothing.\<close>

fun one_displayer :: "bool \<Rightarrow> nat list \<Rightarrow> log_world \<Rightarrow> log_world res" where
  "one_displayer marked [] w = Inr w"
| "one_displayer marked (a # as) w =
     (if a = 0 then one_displayer marked as w
      else if \<not> marked
      then andthen (at_logger a (\<lambda>(lg, io).
                      Inr (setDispLevel 4 (if sl_curLogLevel lg < 4 then setLogLevel 4 lg else lg), io)) w)
             (one_displayer True as)
      else andthen (at_logger a (\<lambda>(lg, io). Inr (setDispLevel (-1) lg, io)) w) (one_displayer marked as))"

definition enableOnlyOneDisplayer :: "log_world \<Rightarrow> log_world res" where
  "enableOnlyOneDisplayer w = andthen (the_mgr w) (\<lambda>m. one_displayer False (mg_loggers m) w)"

text \<open>\<^verbatim>\<open>SimpleLogger::logStackBacktrace\<close>, without a timeout.\<close>

definition logger_logStackBacktrace :: "crash_host \<Rightarrow> log_world \<Rightarrow> log_world res" where
  "logger_logStackBacktrace ch w =
     andthen (enableOnlyOneDisplayer (ensure_mgr ch w)) (logStackBacktrace ch 0)"

text \<open>How a crash handler ends.\<close>

datatype crash_end = Exit_minus_one | Old_handler_called | Handler_returned | Process_aborted

definition console_print :: "string \<Rightarrow> log_world \<Rightarrow> log_world" where
  "console_print s w = w\<lparr>lw_io := (lw_io w)\<lparr>io_console := io_console (lw_io w) @ s\<rparr>\<rparr>"

definition crash_report :: "crash_host \<Rightarrow> string \<Rightarrow> log_world \<Rightarrow> log_world res" where
  "crash_report ch name w =
     (let w = set_mgr (\<lambda>m. m\<lparr>mg_handlers_installed := False\<rparr>) (ensure_mgr ch w) in
      andthen (enableOnlyOneDisplayer w) (\<lambda>w.
      andthen (flushAllLoggers ch 1 name w) (logStackBacktrace ch 60000)))"

definition handleSegFault :: "crash_host \<Rightarrow> log_world \<Rightarrow> (log_world \<times> crash_end) res" where
  "handleSegFault ch w =
     andthen (crash_report ch ''Segmentation fault'' w) (\<lambda>w.
     andthen (the_mgr w) (\<lambda>m.
       let w = console_print (''[SEG FAULT] Flushed all logs safely.'' @ nl) w in
       if chkExitOnCrash ch m then Inr (console_print (''[SEG FAULT] Exit on crash.'' @ nl) w, Exit_minus_one)
       else Inr (w, if ch_old_handler ch then Old_handler_called else Handler_returned)))"

definition handleSegAbort :: "crash_host \<Rightarrow> log_world \<Rightarrow> (log_world \<times> crash_end) res" where
  "handleSegAbort ch w =
     andthen (crash_report ch ''Abort'' w) (\<lambda>w.
     andthen (the_mgr w) (\<lambda>m.
       let w = console_print (''[ABORT] Flushed all logs safely.'' @ nl) w in
       if chkExitOnCrash ch m then Inr (console_print (''[ABORT] Exit on crash.'' @ nl) w, Exit_minus_one)
       else Inr (w, Process_aborted)))"

section \<open>Threads\<close>

text \<open>
  \<^verbatim>\<open>ThreadWrapper\<close>: the digits of a thread id, the width all ids are printed with (which only
  grows), and the registration of the thread.
\<close>

fun num_digits :: "nat \<Rightarrow> nat" where
  "num_digits tid = (if tid = 0 then 0 else Suc (num_digits (tid div 10)))"

declare num_digits.simps [simp del]

definition ThreadWrapper_new :: "u64 \<Rightarrow> u32 \<Rightarrow> nat \<times> log_world \<Rightarrow> nat \<times> log_world" where
  "ThreadWrapper_new self tid = (\<lambda>(tid_digits, w).
     (if tid_digits < num_digits (unat tid) then num_digits (unat tid) else tid_digits, set_mgr (addThread self) w))"

definition ThreadWrapper_destroy :: "u64 \<Rightarrow> log_world \<Rightarrow> log_world" where
  "ThreadWrapper_destroy self w = set_mgr (removeThread self) w"

lemma num_digits_to_string: "n > 0 \<Longrightarrow> num_digits n = length (to_string n)"
proof (induction n rule: num_digits.induct)
  case (1 n)
  show ?case
  proof (cases "n < 10")
    case True
    then show ?thesis using 1 by (simp add: num_digits.simps [of n] num_digits.simps [of 0] to_string_digit)
  next
    case False
    then have "num_digits (n div 10) = length (to_string (n div 10))" using 1 by simp
    with False 1 show ?thesis by (simp add: num_digits.simps [of n] to_string.simps [of n])
  qed
qed

text \<open>A thread id fits the width in force after its thread registered.\<close>

lemma ThreadWrapper_width:
  assumes "tid \<noteq> 0"
  shows "length (fmt_star_u (fst (ThreadWrapper_new self tid (d, w))) (unat tid)) = fst (ThreadWrapper_new self tid (d, w))"
  using assms num_digits_to_string [of "unat tid"]
  by (auto simp: ThreadWrapper_new_def fmt_star_u_def pad_left_def unat_gt_0)

section \<open>The wrapper for NuRaft\<close>

text \<open>
  raft_logger_wrapper.h: the logger behind a pointer that is null after \<^verbatim>\<open>destroy\<close>. The
  constructor does not look at what \<^verbatim>\<open>start\<close> returns.
\<close>

record logger_wrapper =
  lww_my_log :: "nat option"

definition on_log :: "nat \<Rightarrow> (SimpleLogger \<Rightarrow> SimpleLogger) \<Rightarrow> log_world \<Rightarrow> log_world res" where
  "on_log a f = at_logger a (\<lambda>(lg, io). Inr (f lg, io))"

definition logger_wrapper_new :: "crash_host \<Rightarrow> nat \<Rightarrow> string \<Rightarrow> int \<Rightarrow> log_world \<Rightarrow> (logger_wrapper \<times> log_world) option res" where
  "logger_wrapper_new ch a log_file log_level w =
     (case SimpleLogger_new (ch_host ch) log_file 1024 (32 * 1024 * 1024) 10 of
        None \<Rightarrow> Inr None
      | Some lg \<Rightarrow>
          let w = w\<lparr>lw_heap := om_insert a lg (lw_heap w)\<rparr> in
          andthen (on_log a (setLogLevel log_level) w) (\<lambda>w.
          andthen (on_log a (setDispLevel (-1)) w) (\<lambda>w.
          andthen (at_logger a (\<lambda>s. andthen (SimpleLogger_start (ch_host ch) a s) (\<lambda>(s', rc). Inr s'))
                     (setCrashDumpPath ch ''./'' True w)) (\<lambda>w.
            Inr (Some (\<lparr>lww_my_log = Some a\<rparr>, w))))))"

definition wrapper_destroy :: "crash_host \<Rightarrow> logger_wrapper \<times> log_world \<Rightarrow> (logger_wrapper \<times> log_world) res" where
  "wrapper_destroy ch = (\<lambda>(lw, w).
     case lww_my_log lw of
       None \<Rightarrow> Inr (lw, w)
     | Some a \<Rightarrow>
         andthen (at_logger a (\<lambda>s. Inr (flushAll a s)) w) (\<lambda>w.
         andthen (at_logger a (\<lambda>s. andthen (SimpleLogger_stop (ch_host ch) a s) (\<lambda>(s', wait). Inr s')) w) (\<lambda>w.
           Inr (lw\<lparr>lww_my_log := None\<rparr>, w\<lparr>lw_heap := om_erase a (lw_heap w)\<rparr>))))"

definition put_details :: "crash_host \<Rightarrow> int \<Rightarrow> string \<Rightarrow> string \<Rightarrow> nat \<Rightarrow> string \<Rightarrow> logger_wrapper \<times> log_world
    \<Rightarrow> (logger_wrapper \<times> log_world) res" where
  "put_details ch level source_file func_name line_number msg = (\<lambda>(lw, w).
     case lww_my_log lw of
       None \<Rightarrow> Inr (lw, w)
     | Some a \<Rightarrow> andthen (at_logger a (SimpleLogger_put (ch_host ch) a level (Some source_file) (Some func_name) line_number (c_str msg)) w)
                  (\<lambda>w'. Inr (lw, w')))"

definition wrapper_set_level :: "int \<Rightarrow> logger_wrapper \<times> log_world \<Rightarrow> (logger_wrapper \<times> log_world) res" where
  "wrapper_set_level l = (\<lambda>(lw, w).
     case lww_my_log lw of
       None \<Rightarrow> Inr (lw, w)
     | Some a \<Rightarrow>
         let l = (if l < 0 then 1 else l); l = (if l > 6 then 6 else l)
         in andthen (on_log a (setLogLevel l) w) (\<lambda>w'. Inr (lw, w')))"

definition wrapper_get_level :: "logger_wrapper \<times> log_world \<Rightarrow> int res" where
  "wrapper_get_level = (\<lambda>(lw, w).
     case lww_my_log lw of
       None \<Rightarrow> Inr 0
     | Some a \<Rightarrow> (case map_of (lw_heap w) a of
          None \<Rightarrow> Inl (Abort (Out_of_bounds ''dangling SimpleLogger''))
        | Some lg \<Rightarrow> Inr (sl_curLogLevel lg)))"

section \<open>Stream and timed logging\<close>

text \<open>\<^verbatim>\<open>LoggerStream\<close>: text collected with \<^verbatim>\<open><<\<close> and put as one line.\<close>

record LoggerStream =
  ls_sStream :: string
  ls_level :: int
  ls_logger :: "nat option"
  ls_file :: string
  ls_func :: string
  ls_line :: nat

definition ls_append :: "string \<Rightarrow> LoggerStream \<Rightarrow> LoggerStream" where
  "ls_append data s = s\<lparr>ls_sStream := ls_sStream s @ data\<rparr>"

definition ls_setLogInfo :: "int \<Rightarrow> nat option \<Rightarrow> string \<Rightarrow> string \<Rightarrow> nat \<Rightarrow> LoggerStream \<Rightarrow> LoggerStream" where
  "ls_setLogInfo level logger file func line s =
     s\<lparr>ls_sStream := [], ls_level := level, ls_logger := logger, ls_file := file, ls_func := func, ls_line := line\<rparr>"

definition ls_put :: "crash_host \<Rightarrow> LoggerStream \<Rightarrow> log_world \<Rightarrow> log_world res" where
  "ls_put ch s w =
     (case ls_logger s of
        None \<Rightarrow> Inr w
      | Some a \<Rightarrow> at_logger a (SimpleLogger_put (ch_host ch) a (ls_level s) (Some (ls_file s)) (Some (ls_func s)) (ls_line s)
                     (c_str (ls_sStream s))) w)"

text \<open>
  \<^verbatim>\<open>_timed_log_body\<close>: the level of one event, \<open>lv2\<close> for the first one and whenever more than the
  interval has passed since the last \<open>lv2\<close>; the clock is read twice. Times are microseconds.
\<close>

record timed_log =
  tl_first_event_fired :: bool
  tl_last_timeout :: int

definition timed_log_body :: "int \<Rightarrow> int \<Rightarrow> int \<Rightarrow> int \<Rightarrow> int \<Rightarrow> timed_log \<Rightarrow> timed_log \<times> int" where
  "timed_log_body interval_ms lv1 lv2 cur cur2 t =
     (if cur - tl_last_timeout t > interval_ms * 1000 \<or> \<not> tl_first_event_fired t
      then if cur2 - tl_last_timeout t > interval_ms * 1000 \<or> \<not> tl_first_event_fired t
           then (\<lparr>tl_first_event_fired = True, tl_last_timeout = cur2\<rparr>, lv2)
           else (t, lv1)
      else (t, lv1))"

section \<open>Compression jobs\<close>

text \<open>
  The counter of a logger is the number of its entries in the queue, and the queue names only
  loggers that exist.
\<close>

definition pending_jobs :: "log_world \<Rightarrow> (u64 \<times> nat) list" where
  "pending_jobs w = (case io_mgr (lw_io w) of None \<Rightarrow> [] | Some m \<Rightarrow> mg_pendingCompElems m)"

definition jobs_ok :: "log_world \<Rightarrow> bool" where
  "jobs_ok w \<longleftrightarrow> io_mgr (lw_io w) \<noteq> None \<and>
     (\<forall>(num, a) \<in> set (pending_jobs w). map_of (lw_heap w) a \<noteq> None) \<and>
     (\<forall>a lg. map_of (lw_heap w) a = Some lg \<longrightarrow>
        sl_numCompJobs lg = of_nat (count_list (map snd (pending_jobs w)) a))"

lemma count_list_snoc [simp]: "count_list (xs @ ys) a = count_list xs a + count_list ys a"
  by (induction xs) auto

lemma count_list_const: "(\<forall>x \<in> set xs. x = b) \<Longrightarrow> count_list xs a = (if a = b then length xs else 0)"
  by (induction xs) auto

lemma rotate_jobs:
  assumes "rotate_file self (lg, io) = (lg', io')" "io_mgr io = Some m"
  obtains m' extra where "io_mgr io' = Some m'" "mg_pendingCompElems m' = mg_pendingCompElems m @ extra"
    "\<forall>x \<in> set (map snd extra). x = self" "sl_numCompJobs lg' = sl_numCompJobs lg + of_nat (length extra)"
proof (cases "sl_maxLogFileSize lg \<noteq> 0 \<and> ofs_tellp (sl_fs lg) > sint (sl_maxLogFileSize lg)")
  case False
  then have "rotate_file self (lg, io) = (lg, io)" unfolding rotate_file_def by auto
  then show thesis using assms by (intro that [of m "[]"]) auto
next
  case True
  let ?c = "sl_curRevnum lg + 1"
  have "io_mgr io' = Some (addCompElem (?c - 1) self m)" "sl_numCompJobs lg' = sl_numCompJobs lg + 1"
    using assms True by (auto simp: rotate_file_def Let_def split: prod.splits)
  then show thesis by (intro that [of "addCompElem (?c - 1) self m" "[(?c - 1, self)]"]) (auto simp: addCompElem_def)
qed

lemma flushAll_jobs:
  assumes "flushAll self (lg, io) = (lg', io')" "io_mgr io = Some m"
  obtains m' extra where "io_mgr io' = Some m'" "mg_pendingCompElems m' = mg_pendingCompElems m @ extra"
    "\<forall>x \<in> set (map snd extra). x = self" "sl_numCompJobs lg' = sl_numCompJobs lg + of_nat (length extra)"
proof -
  obtain logs st fs where f: "fold flush_elem (ring_order (sl_cursor lg) (length (sl_logs lg))) (sl_logs lg, sl_fs lg, io_files io) = (logs, st, fs)"
    by (metis prod_cases3)
  have "rotate_file self (lg\<lparr>sl_logs := logs, sl_fs := st\<rparr>, io\<lparr>io_files := fs\<rparr>) = (lg', io')"
    using assms(1) f by (simp add: flushAll_def SimpleLogger_flush_def)
  then show thesis using rotate_jobs [of self "lg\<lparr>sl_logs := logs, sl_fs := st\<rparr>" "io\<lparr>io_files := fs\<rparr>" lg' io' m] assms(2) that
    by auto
qed

lemma flush_keeps_jobs:
  assumes "jobs_ok w" "at_logger a (\<lambda>s. Inr (flushAll a s)) w = Inr w'"
  shows "jobs_ok w'"
proof -
  obtain lg where lg: "map_of (lw_heap w) a = Some lg"
    using assms(2) by (auto simp: at_logger_def split: option.splits)
  obtain lg' io' where fl: "flushAll a (lg, lw_io w) = (lg', io')" by fastforce
  obtain m where m: "io_mgr (lw_io w) = Some m" using assms(1) by (auto simp: jobs_ok_def)
  have w': "w' = \<lparr>lw_io = io', lw_heap = om_insert a lg' (lw_heap w)\<rparr>"
    using assms(2) lg fl by (simp add: at_logger_def)
  obtain m' extra where e: "io_mgr io' = Some m'" "mg_pendingCompElems m' = mg_pendingCompElems m @ extra"
    "\<forall>x \<in> set (map snd extra). x = a" "sl_numCompJobs lg' = sl_numCompJobs lg + of_nat (length extra)"
    using flushAll_jobs [OF fl m] by blast
  have cnt: "count_list (map snd extra) b = (if b = a then length extra else 0)" for b
    using count_list_const [OF e(3), of b] by simp
  show ?thesis
    using assms(1) lg m e cnt unfolding w' jobs_ok_def pending_jobs_def by (force split: if_splits)
qed

lemma doCompression_jobs:
  assumes "doCompression h num (lg, io) = (lg', io')"
  shows "sl_numCompJobs lg' = sl_numCompJobs lg - 1" "io_mgr io' = io_mgr io"
proof -
  have cmd: "io_mgr (execCmd h c i) = io_mgr i" for c i by (simp add: execCmd_def Let_def)
  have rm: "sl_numCompJobs (fst (fold (remove_old h) xs (l, i))) = sl_numCompJobs l \<and> io_mgr (snd (fold (remove_old h) xs (l, i))) = io_mgr i"
    for xs l i
    by (induction xs arbitrary: l i) (simp_all add: remove_old_def cmd Let_def)
  let ?xs = "[unat (sl_minRevnum lg)..<Suc (unat (num - sl_maxLogFiles lg))]"
  define io2 where "io2 = execCmd h (''rm -f '' @ getLogFilePath (sl_filePath lg) num) (execCmd h (''tar zcvf '' @
      getLogFilePath (sl_filePath lg) num @ ''.tar.gz '' @ getLogFilePath (sl_filePath lg) num) io)"
  obtain lg1 io1 where f: "fold (remove_old h) ?xs (lg, io2) = (lg1, io1)" by fastforce
  have one: "sl_numCompJobs lg1 = sl_numCompJobs lg" "io_mgr io1 = io_mgr io" "io_mgr io2 = io_mgr io"
    using rm [of ?xs lg io2] unfolding f by (simp_all add: io2_def cmd)
  have "(lg', io') = (if sl_maxLogFiles lg \<noteq> 0 \<and> sl_maxLogFiles lg \<le> num
      then (lg1\<lparr>sl_numCompJobs := sl_numCompJobs lg1 - 1\<rparr>, io1) else (lg\<lparr>sl_numCompJobs := sl_numCompJobs lg - 1\<rparr>, io2))"
    using assms [symmetric] f unfolding doCompression_def prod.case Let_def io2_def [symmetric] by simp
  then show "sl_numCompJobs lg' = sl_numCompJobs lg - 1" "io_mgr io' = io_mgr io"
    using one by (simp_all split: if_splits)
qed

lemma compress_round_jobs:
  assumes "jobs_ok w" "pending_jobs w = (num, a) # rest"
  obtains w' where "compressWorker_round ch w = Inr w'" "jobs_ok w'" "pending_jobs w' = rest"
proof -
  obtain m where m: "io_mgr (lw_io w) = Some m" "mg_pendingCompElems m = (num, a) # rest"
    using assms by (auto simp: jobs_ok_def pending_jobs_def)
  obtain lg where lg: "map_of (lw_heap w) a = Some lg"
    using assms by (auto simp: jobs_ok_def)
  let ?w = "set_mgr (\<lambda>m. m\<lparr>mg_pendingCompElems := rest\<rparr>) w"
  obtain lg' io' where d: "doCompression (ch_host ch) num (lg, lw_io ?w) = (lg', io')" by fastforce
  note j = doCompression_jobs [OF d]
  have heap: "lw_heap ?w = lw_heap w" by (simp add: set_mgr_def)
  have mgr: "io_mgr io' = Some (m\<lparr>mg_pendingCompElems := rest\<rparr>)"
    using j(2) m(1) by (simp add: set_mgr_def upd_mgr_def)
  let ?w' = "\<lparr>lw_io = io', lw_heap = om_insert a lg' (lw_heap w)\<rparr>"
  have run: "compressWorker_round ch w = Inr ?w'"
    using m lg d heap by (simp add: compressWorker_round_def the_mgr_def at_logger_def)
  have pend: "pending_jobs ?w' = rest" using mgr by (simp add: pending_jobs_def)
  have cnt: "sl_numCompJobs lg' = of_nat (count_list (map snd rest) a)"
    using j(1) assms lg by (simp add: jobs_ok_def)
  have "jobs_ok ?w'"
    unfolding jobs_ok_def pend
  proof (intro conjI allI impI ballI)
    show "io_mgr (lw_io ?w') \<noteq> None" using mgr by simp
    show "case x of (num, a') \<Rightarrow> map_of (lw_heap ?w') a' \<noteq> None" if "x \<in> set rest" for x
      using assms that by (auto simp: jobs_ok_def)
    show "sl_numCompJobs l = of_nat (count_list (map snd rest) b)" if "map_of (lw_heap ?w') b = Some l" for b l
      using that cnt assms by (auto simp: jobs_ok_def split: if_splits)
  qed
  with run pend show thesis by (intro that)
qed

fun compress_rounds :: "crash_host \<Rightarrow> nat \<Rightarrow> log_world \<Rightarrow> log_world res" where
  "compress_rounds ch 0 w = Inr w"
| "compress_rounds ch (Suc n) w = andthen (compressWorker_round ch w) (compress_rounds ch n)"

lemma compress_rounds_drain:
  "jobs_ok w \<Longrightarrow> length (pending_jobs w) = n \<Longrightarrow>
     \<exists>w'. compress_rounds ch n w = Inr w' \<and> jobs_ok w' \<and> pending_jobs w' = []"
proof (induction n arbitrary: w)
  case (Suc n)
  then obtain num a rest where p: "pending_jobs w = (num, a) # rest" by (cases "pending_jobs w") auto
  obtain w1 where "compressWorker_round ch w = Inr w1" "jobs_ok w1" "pending_jobs w1 = rest"
    using compress_round_jobs [OF Suc.prems(1) p] .
  with Suc.IH [of w1] Suc.prems p show ?case by simp
qed simp

section \<open>Properties\<close>

text \<open>A logger with two files to compress.\<close>

definition sample_crash_host :: crash_host where
  "sample_crash_host = \<lparr>ch_host = sample_host, ch_self = 1, ch_backtrace = (\<lambda>_. [4096]), ch_tid_hash = (\<lambda>_. 255),
     ch_gettid = (\<lambda>t. t), ch_trace = sample_trace_host, ch_old_handler = False\<rparr>"

definition sample_log_world :: log_world where
  "sample_log_world = \<lparr>lw_io = sample_log_io\<lparr>io_mgr := Some ((SimpleLoggerMgr_new sample_host)
       \<lparr>mg_loggers := [1], mg_pendingCompElems := [(0, 1), (1, 1)]\<rparr>)\<rparr>,
     lw_heap = [(1, sample_logger\<lparr>sl_numCompJobs := 2\<rparr>)]\<rparr>"

lemma sample_jobs: "jobs_ok sample_log_world" "length (pending_jobs sample_log_world) = 2"
  by (auto simp: jobs_ok_def pending_jobs_def sample_log_world_def split: if_splits)

text \<open>
  C26. The compressor drains its queue: as many rounds as there are entries leave it empty, and
  then no logger has a job left, so the wait at the end of \<^verbatim>\<open>stop\<close> ends.
\<close>

theorem compressor_drains_queue:
  assumes "jobs_ok w"
  shows "\<exists>w'. compress_rounds ch (length (pending_jobs w)) w = Inr w' \<and> pending_jobs w' = [] \<and>
    (map_of (lw_heap w') a = None \<or> (\<exists>lg. map_of (lw_heap w') a = Some lg \<and> sl_numCompJobs lg = 0))"
proof -
  obtain w' where w': "compress_rounds ch (length (pending_jobs w)) w = Inr w'" "jobs_ok w'" "pending_jobs w' = []"
    using compress_rounds_drain [OF assms refl] by blast
  have "map_of (lw_heap w') a = None \<or> (\<exists>lg. map_of (lw_heap w') a = Some lg \<and> sl_numCompJobs lg = 0)"
    using w'(2,3) by (cases "map_of (lw_heap w') a") (auto simp: jobs_ok_def)
  with w' show ?thesis by blast
qed

theorem compressor_drains_queue_witness:
  "\<exists>w'. compress_rounds sample_crash_host (length (pending_jobs sample_log_world)) sample_log_world = Inr w' \<and>
    pending_jobs w' = [] \<and>
    (map_of (lw_heap w') 1 = None \<or> (\<exists>lg. map_of (lw_heap w') 1 = Some lg \<and> sl_numCompJobs lg = 0))"
  by (rule compressor_drains_queue [OF sample_jobs(1)])

lemma chunks_concat: "n > 0 \<Longrightarrow> concat (chunks n s) = s"
proof (induction n s rule: chunks.induct)
  case (1 n s)
  then show ?case by (subst chunks.simps) (auto simp: append_take_drop_id)
qed

lemma chunks_bound: "c \<in> set (chunks n s) \<Longrightarrow> length c \<le> n"
proof (induction n s rule: chunks.induct)
  case (1 n s)
  then show ?case by (subst (asm) (2) chunks.simps) (auto split: if_splits)
qed

text \<open>
  A stack trace is put to the log in pieces that together are the whole text, and each piece
  leaves room for its header (which counts twice) and its footer, so nothing of a trace is cut.
\<close>

theorem stack_trace_is_whole:
  assumes "2 * length header + length footer < 1024"
  shows "concat (chunks per_log_size msg) = msg \<and>
         list_all (\<lambda>c. fits MSG_SIZE 0 (file_texts header c footer)) (chunks per_log_size msg)"
proof -
  have n: "per_log_size = 3072" by (simp add: per_log_size_def MSG_SIZE_def)
  have "fits MSG_SIZE 0 (file_texts header c footer)" if "c \<in> set (chunks per_log_size msg)" for c
    using chunks_bound [OF that] assms n unfolding fits_line by (simp add: MSG_SIZE_def)
  then show ?thesis using n by (simp add: chunks_concat list_all_iff)
qed

theorem stack_trace_is_whole_witness:
  "concat (chunks per_log_size (replicate 5000 (CHR ''x''))) = replicate 5000 (CHR ''x'') \<and>
   list_all (\<lambda>c. fits MSG_SIZE 0 (file_texts ''head'' c ''foot'')) (chunks per_log_size (replicate 5000 (CHR ''x'')))"
  by (rule stack_trace_is_whole) simp

end
