(* ===== verification/Vector_Similarity.thy ===== *)
theory Vector_Similarity
  imports Vdb_Strings "HOL-Library.Multiset"
begin

text \<open>
  in_mem_vector_similarity.h: three similarity measures and the search for the best \<open>k\<close>. The
  arithmetic of \<^verbatim>\<open>float\<close> is a parameter; the control around it is the code's. Shown here: what
  the search returns. Its queue has the largest similarity on top and drops its top when it
  grows beyond \<open>k\<close>, so what stays are the \<open>k\<close> vectors least similar to the target.
\<close>

section \<open>Arithmetic\<close>

text \<open>
  The operations of single-precision floats; \<open>fl_lt\<close> is the comparison \<^verbatim>\<open><\<close>, false when an
  argument is not a number.
\<close>

record 'r float_ops =
  fl_zero :: 'r
  fl_add :: "'r \<Rightarrow> 'r \<Rightarrow> 'r"
  fl_sub :: "'r \<Rightarrow> 'r \<Rightarrow> 'r"
  fl_mul :: "'r \<Rightarrow> 'r \<Rightarrow> 'r"
  fl_div :: "'r \<Rightarrow> 'r \<Rightarrow> 'r"
  fl_neg :: "'r \<Rightarrow> 'r"
  fl_sqrt :: "'r \<Rightarrow> 'r"
  fl_lt :: "'r \<Rightarrow> 'r \<Rightarrow> bool"

text \<open>The order of numbers: a strict weak order, in which equal numbers compare alike.\<close>

definition float_order_on :: "'r float_ops \<Rightarrow> 'r set \<Rightarrow> bool" where
  "float_order_on F A \<longleftrightarrow>
     (\<forall>a \<in> A. \<not> fl_lt F a a) \<and>
     (\<forall>a \<in> A. \<forall>b \<in> A. \<forall>c \<in> A. fl_lt F a b \<longrightarrow> fl_lt F b c \<longrightarrow> fl_lt F a c) \<and>
     (\<forall>a \<in> A. \<forall>b \<in> A. \<forall>c \<in> A. fl_lt F a b \<longrightarrow> fl_lt F a c \<or> fl_lt F c b)"

section \<open>Measures\<close>

datatype SimilarityMetric = COSINE | DOT_PRODUCT | EUCLIDEAN

text \<open>
  A loop over the components of the first vector; the second one is indexed without a check,
  so a shorter one is read out of bounds.
\<close>

fun component_loop :: "('s \<Rightarrow> 'r \<Rightarrow> 'r \<Rightarrow> 's) \<Rightarrow> 's \<Rightarrow> 'r list \<Rightarrow> 'r list \<Rightarrow> 's res" where
  "component_loop step s [] v2 = Inr s"
| "component_loop step s (a # v1) [] = Inl (Abort (Out_of_bounds ''v2''))"
| "component_loop step s (a # v1) (b # v2) = component_loop step (step s a b) v1 v2"

definition cosine_similarity :: "'r float_ops \<Rightarrow> 'r list \<Rightarrow> 'r list \<Rightarrow> 'r res" where
  "cosine_similarity F v1 v2 =
     andthen (component_loop
        (\<lambda>(dot, denom_a, denom_b) a b. (fl_add F dot (fl_mul F a b), fl_add F denom_a (fl_mul F a a), fl_add F denom_b (fl_mul F b b)))
        (fl_zero F, fl_zero F, fl_zero F) v1 v2)
     (\<lambda>(dot, denom_a, denom_b). Inr (fl_div F dot (fl_mul F (fl_sqrt F denom_a) (fl_sqrt F denom_b))))"

definition dot_product :: "'r float_ops \<Rightarrow> 'r list \<Rightarrow> 'r list \<Rightarrow> 'r res" where
  "dot_product F v1 v2 = component_loop (\<lambda>sum a b. fl_add F sum (fl_mul F a b)) (fl_zero F) v1 v2"

definition euclidean_distance :: "'r float_ops \<Rightarrow> 'r list \<Rightarrow> 'r list \<Rightarrow> 'r res" where
  "euclidean_distance F v1 v2 =
     andthen (component_loop (\<lambda>sum a b. fl_add F sum (fl_mul F (fl_sub F a b) (fl_sub F a b))) (fl_zero F) v1 v2)
       (\<lambda>sum. Inr (fl_sqrt F sum))"

definition compute_similarity :: "'r float_ops \<Rightarrow> 'r list \<Rightarrow> 'r list \<Rightarrow> SimilarityMetric \<Rightarrow> 'r res" where
  "compute_similarity F v1 v2 metric =
     (case metric of
        COSINE \<Rightarrow> cosine_similarity F v1 v2
      | DOT_PRODUCT \<Rightarrow> dot_product F v1 v2
      | EUCLIDEAN \<Rightarrow> andthen (euclidean_distance F v1 v2) (\<lambda>d. Inr (fl_neg F d)))"

lemma component_loop_total:
  "length v1 \<le> length v2 \<Longrightarrow> \<exists>s'. component_loop step s v1 v2 = Inr s'"
  by (induction step s v1 v2 rule: component_loop.induct) auto

lemma component_loop_short:
  "length v2 < length v1 \<Longrightarrow> component_loop step s v1 v2 = Inl (Abort (Out_of_bounds ''v2''))"
  by (induction step s v1 v2 rule: component_loop.induct) auto

lemma andthen_total: "\<exists>x. m = Inr x \<Longrightarrow> (\<And>x. \<exists>y. f x = Inr y) \<Longrightarrow> \<exists>y. andthen m f = Inr y"
  by auto

lemma compute_similarity_total:
  assumes "length v1 \<le> length v2"
  shows "\<exists>r. compute_similarity F v1 v2 metric = Inr r"
proof (cases metric)
  case COSINE
  show ?thesis unfolding compute_similarity_def cosine_similarity_def COSINE SimilarityMetric.case
    by (intro andthen_total component_loop_total [OF assms]) (simp split: prod.splits)
next
  case DOT_PRODUCT
  show ?thesis unfolding compute_similarity_def dot_product_def DOT_PRODUCT SimilarityMetric.case
    by (intro component_loop_total [OF assms])
next
  case EUCLIDEAN
  show ?thesis unfolding compute_similarity_def euclidean_distance_def EUCLIDEAN SimilarityMetric.case
    by (intro andthen_total component_loop_total [OF assms]) simp_all
qed

section \<open>The queue\<close>

text \<open>
  \<^verbatim>\<open>std::priority_queue<std::pair<float, int>>\<close>: pairs compare by the float and then by the int,
  and the largest is on top. The queue is the list of its elements in the order \<^verbatim>\<open>top\<close> and
  \<^verbatim>\<open>pop\<close> yield them.
\<close>

definition pair_lt :: "'r float_ops \<Rightarrow> 'r \<times> int \<Rightarrow> 'r \<times> int \<Rightarrow> bool" where
  "pair_lt F p q \<longleftrightarrow> fl_lt F (fst p) (fst q) \<or> (\<not> fl_lt F (fst q) (fst p) \<and> snd p < snd q)"

fun pq_push :: "('a \<Rightarrow> 'a \<Rightarrow> bool) \<Rightarrow> 'a \<Rightarrow> 'a list \<Rightarrow> 'a list" where
  "pq_push lt x [] = [x]"
| "pq_push lt x (y # ys) = (if lt x y then y # pq_push lt x ys else x # y # ys)"

text \<open>
  One round of the loop: \<^verbatim>\<open>pq.size() > k\<close> compares a \<^verbatim>\<open>size_t\<close> with an \<^verbatim>\<open>int\<close>, which is
  converted, so a negative \<open>k\<close> is larger than any size.
\<close>

definition top_k_round :: "'r float_ops \<Rightarrow> int \<Rightarrow> ('r \<times> int) list \<Rightarrow> 'r \<times> int \<Rightarrow> ('r \<times> int) list" where
  "top_k_round F k pq x =
     (let pq = pq_push (pair_lt F) x pq in
      if k \<ge> 0 \<and> int (length pq) > k then tl pq else pq)"

fun similarities :: "'r float_ops \<Rightarrow> 'r list \<Rightarrow> 'r list list \<Rightarrow> SimilarityMetric \<Rightarrow> int \<Rightarrow> ('r \<times> int) list res" where
  "similarities F target [] metric i = Inr []"
| "similarities F target (v # vs) metric i =
     andthen (compute_similarity F target v metric) (\<lambda>s.
     andthen (similarities F target vs metric (i + 1)) (\<lambda>rest. Inr ((s, i) # rest)))"

fun top_k_loop :: "'r float_ops \<Rightarrow> 'r list \<Rightarrow> 'r list list \<Rightarrow> int \<Rightarrow> SimilarityMetric \<Rightarrow> int \<Rightarrow> ('r \<times> int) list \<Rightarrow> ('r \<times> int) list res" where
  "top_k_loop F target [] k metric i pq = Inr pq"
| "top_k_loop F target (v # vs) k metric i pq =
     andthen (compute_similarity F target v metric) (\<lambda>similarity.
       top_k_loop F target vs k metric (i + 1) (top_k_round F k pq (similarity, i)))"

text \<open>The queue is emptied from its top into \<^verbatim>\<open>top_k\<close>, which is then reversed.\<close>

definition find_top_k_similar_vectors ::
  "'r float_ops \<Rightarrow> 'r list \<Rightarrow> 'r list list \<Rightarrow> int \<Rightarrow> SimilarityMetric \<Rightarrow> ('r \<times> int) list res" where
  "find_top_k_similar_vectors F target_vector vectors k metric =
     andthen (top_k_loop F target_vector vectors k metric 0 []) (\<lambda>pq. Inr (rev pq))"

lemma top_k_loop_fold:
  "similarities F target vs metric i = Inr xs \<Longrightarrow>
     top_k_loop F target vs k metric i pq = Inr (foldl (top_k_round F k) pq xs)"
  by (induction F target vs k metric i pq arbitrary: xs rule: top_k_loop.induct) (auto simp: res_simps)

lemma similarities_total:
  assumes "\<forall>v \<in> set vs. length target \<le> length v"
  shows "\<exists>xs. similarities F target vs metric i = Inr xs \<and> map snd xs = map (\<lambda>j. i + int j) [0..<length vs]"
  using assms
proof (induction vs arbitrary: i)
  case (Cons v vs)
  obtain s where s: "compute_similarity F target v metric = Inr s"
    using compute_similarity_total Cons.prems by fastforce
  obtain xs where xs: "similarities F target vs metric (i + 1) = Inr xs"
      "map snd xs = map (\<lambda>j. (i + 1) + int j) [0..<length vs]"
    using Cons.IH [of "i + 1"] Cons.prems by auto
  have "map (\<lambda>j. i + int j) [0..<length (v # vs)] = i # map (\<lambda>j. (i + 1) + int j) [0..<length vs]"
    by (simp add: upt_conv_Cons map_Suc_upt [symmetric] del: upt_Suc)
  then show ?case using s xs by simp
qed simp

section \<open>What the search returns\<close>

text \<open>
  A queue over an order that is strict and total on the elements that occur. \<open>occurs p X\<close>
  says that the comparison \<open>lt p\<close> is such an order on \<open>X\<close>.
\<close>

locale total_queue =
  fixes lt :: "'p \<Rightarrow> 'a \<Rightarrow> 'a \<Rightarrow> bool"
    and occurs :: "'p \<Rightarrow> 'a set \<Rightarrow> bool"
  assumes irrefl: "occurs p X \<Longrightarrow> a \<in> X \<Longrightarrow> \<not> lt p a a"
    and trans: "occurs p X \<Longrightarrow> a \<in> X \<Longrightarrow> b \<in> X \<Longrightarrow> c \<in> X \<Longrightarrow> lt p a b \<Longrightarrow> lt p b c \<Longrightarrow> lt p a c"
    and total: "occurs p X \<Longrightarrow> a \<in> X \<Longrightarrow> b \<in> X \<Longrightarrow> a \<noteq> b \<Longrightarrow> lt p a b \<or> lt p b a"
begin

definition descending :: "'p \<Rightarrow> 'a list \<Rightarrow> bool" where
  "descending p = sorted_wrt (\<lambda>a b. lt p b a)"

lemma set_push [simp]: "set (pq_push (lt p) x ys) = insert x (set ys)"
  by (induction "lt p" x ys rule: pq_push.induct) auto

lemma mset_push: "mset (pq_push (lt p) x ys) = add_mset x (mset ys)"
  by (induction "lt p" x ys rule: pq_push.induct) auto

lemma length_push [simp]: "length (pq_push (lt p) x ys) = Suc (length ys)"
  by (induction "lt p" x ys rule: pq_push.induct) auto

lemma push_descending:
  assumes "occurs p X" "insert x (set ys) \<subseteq> X" "x \<notin> set ys" "descending p ys"
  shows "descending p (pq_push (lt p) x ys)"
  using assms(2-)
proof (induction ys)
  case (Cons y ys)
  show ?case
  proof (cases "lt p x y")
    case True
    then show ?thesis using Cons by (auto simp: descending_def)
  next
    case False
    then have "lt p y x" using total [OF assms(1), of x y] Cons.prems by auto
    then have "\<forall>z \<in> set (y # ys). lt p z x"
      using Cons.prems trans [OF assms(1), of _ y x] by (auto simp: descending_def)
    then show ?thesis using False Cons.prems by (simp add: descending_def)
  qed
qed (simp add: descending_def)

text \<open>Pushing on the tail of a queue and dropping the top is pushing on the whole and dropping one more.\<close>

lemma push_drop:
  assumes "occurs p X" "insert x (set ys) \<subseteq> X" "x \<notin> set ys" "descending p ys" "d \<le> length ys"
  shows "tl (pq_push (lt p) x (drop d ys)) = drop (Suc d) (pq_push (lt p) x ys)"
  using assms(2-)
proof (induction ys arbitrary: d)
  case (Cons y ys)
  show ?case
  proof (cases d)
    case 0
    then show ?thesis by (simp add: drop_Suc)
  next
    case (Suc d')
    show ?thesis
    proof (cases "lt p x y")
      case True
      then show ?thesis using Suc Cons by (simp add: descending_def)
    next
      case False
      then have yx: "lt p y x" using total [OF assms(1), of x y] Cons.prems by auto
      have "\<not> lt p x z" if "z \<in> set (drop d' ys)" for z
      proof
        assume xz: "lt p x z"
        have z: "z \<in> set ys" using that by (rule in_set_dropD)
        then have "lt p z y" using Cons.prems by (simp add: descending_def)
        then have "lt p z x" using trans [OF assms(1), of z y x] yx z Cons.prems by auto
        then show False using trans [OF assms(1), of x z x] irrefl [OF assms(1), of x] xz z Cons.prems by auto
      qed
      then have "pq_push (lt p) x (drop d' ys) = x # drop d' ys" by (cases "drop d' ys") auto
      then show ?thesis using False Suc by simp
    qed
  qed
qed simp

definition pushes :: "'p \<Rightarrow> 'a list \<Rightarrow> 'a list" where
  "pushes p xs = foldl (\<lambda>q x. pq_push (lt p) x q) [] xs"

lemma pushes_snoc: "pushes p (xs @ [x]) = pq_push (lt p) x (pushes p xs)"
  by (simp add: pushes_def)

lemma mset_pushes: "mset (pushes p xs) = mset xs"
  by (induction xs rule: rev_induct) (simp_all add: pushes_snoc mset_push, simp add: pushes_def)

lemma length_pushes: "length (pushes p xs) = length xs"
  using mset_pushes by (metis size_mset)

lemma set_pushes: "set (pushes p xs) = set xs"
  using mset_pushes by (metis set_mset_mset)

lemma pushes_descending:
  "occurs p (set xs) \<Longrightarrow> distinct xs \<Longrightarrow> set ys \<subseteq> set xs \<Longrightarrow> distinct ys \<Longrightarrow> descending p (pushes p ys)"
proof (induction ys rule: rev_induct)
  case (snoc y ys)
  then show ?case by (simp add: pushes_snoc) (intro push_descending, auto simp: set_pushes)
qed (simp add: pushes_def descending_def)

text \<open>Keeping the queue at \<open>k\<close> elements by dropping its top leaves the last \<open>k\<close> of the full queue.\<close>

lemma bounded_pushes:
  assumes "occurs p (set xs)" "distinct xs" "set ys \<subseteq> set xs" "distinct ys"
  shows "foldl (\<lambda>q x. let q = pq_push (lt p) x q in if length q > k then tl q else q) [] ys
       = drop (length ys - k) (pushes p ys)"
  using assms(3-)
proof (induction ys rule: rev_induct)
  case (snoc y ys)
  let ?S = "pushes p ys"
  have desc: "descending p ?S" using pushes_descending [OF assms(1,2)] snoc.prems by simp
  have len: "length ?S = length ys" by (rule length_pushes)
  have sub: "insert y (set ?S) \<subseteq> set xs" "y \<notin> set ?S" using snoc.prems by (simp_all add: set_pushes)
  show ?case
  proof (cases "length ys < k")
    case True
    then show ?thesis using snoc len by (simp add: pushes_snoc Let_def)
  next
    case False
    have "tl (pq_push (lt p) y (drop (length ys - k) ?S)) = drop (Suc (length ys - k)) (pq_push (lt p) y ?S)"
      using push_drop [OF assms(1) sub desc] len by simp
    then show ?thesis using snoc len False by (simp add: pushes_snoc Let_def Suc_diff_le)
  qed
qed (simp add: pushes_def)

end

definition pairs_comparable :: "'r float_ops \<Rightarrow> ('r \<times> int) set \<Rightarrow> bool" where
  "pairs_comparable F X \<longleftrightarrow> float_order_on F (fst ` X) \<and> inj_on snd X"

lemma pair_lt_trans:
  assumes "float_order_on F A" "fst p \<in> A" "fst q \<in> A" "fst r \<in> A" "pair_lt F p q" "pair_lt F q r"
  shows "pair_lt F p r"
proof -
  have t: "fl_lt F x y \<Longrightarrow> fl_lt F y z \<Longrightarrow> fl_lt F x z"
    and w: "fl_lt F x y \<Longrightarrow> fl_lt F x z \<or> fl_lt F z y" if "x \<in> A" "y \<in> A" "z \<in> A" for x y z
    using assms(1) that unfolding float_order_on_def by blast+
  note t = t [OF assms(2-4)]
  have w1: "fl_lt F (fst p) (fst q) \<Longrightarrow> fl_lt F (fst p) (fst r) \<or> fl_lt F (fst r) (fst q)" using w assms(2-4) by blast
  have w2: "fl_lt F (fst q) (fst r) \<Longrightarrow> fl_lt F (fst q) (fst p) \<or> fl_lt F (fst p) (fst r)" using w assms(2-4) by blast
  have w3: "fl_lt F (fst r) (fst p) \<Longrightarrow> fl_lt F (fst r) (fst q) \<or> fl_lt F (fst q) (fst p)" using w assms(2-4) by blast
  show ?thesis
    using assms(5,6) t w1 w2 w3 unfolding pair_lt_def by (elim disjE conjE) auto
qed

interpretation sim: total_queue pair_lt pairs_comparable
proof unfold_locales
  show "\<not> pair_lt F a a" if "pairs_comparable F X" "a \<in> X" for F X and a :: "'a \<times> int"
    using that by (auto simp: pair_lt_def pairs_comparable_def float_order_on_def)
  show "pair_lt F a c" if "pairs_comparable F X" "a \<in> X" "b \<in> X" "c \<in> X" "pair_lt F a b" "pair_lt F b c"
    for F X and a b c :: "'a \<times> int"
    using that pair_lt_trans [of F "fst ` X" a b c] by (auto simp: pairs_comparable_def)
  show "pair_lt F a b \<or> pair_lt F b a" if "pairs_comparable F X" "a \<in> X" "b \<in> X" "a \<noteq> b" for F X and a b :: "'a \<times> int"
  proof -
    have "snd a \<noteq> snd b" using that by (auto simp: pairs_comparable_def inj_on_def)
    then show ?thesis by (auto simp: pair_lt_def)
  qed
qed

section \<open>Properties\<close>

lemma similarities_snd:
  "similarities F target vs metric i = Inr xs \<Longrightarrow> map snd xs = map (\<lambda>j. i + int j) [0..<length vs]"
proof (induction F target vs metric i arbitrary: xs rule: similarities.induct)
  case (2 F target v vs metric i)
  obtain s rest where r: "compute_similarity F target v metric = Inr s"
      "similarities F target vs metric (i + 1) = Inr rest" "xs = (s, i) # rest"
    using 2(2) by (auto simp: res_simps)
  have "map snd rest = map (\<lambda>j. i + 1 + int j) [0..<length vs]" using 2(1) r by blast
  then show ?case using r(3) by (simp add: upt_conv_Cons map_Suc_upt [symmetric] del: upt_Suc)
qed simp

lemma similarities_distinct:
  assumes "similarities F target vs metric i = Inr xs"
  shows "distinct xs" "inj_on snd (set xs)"
proof -
  have "distinct (map snd xs)" unfolding similarities_snd [OF assms] by (simp add: distinct_map inj_on_def)
  then show "distinct xs" "inj_on snd (set xs)" by (simp_all add: distinct_map)
qed

lemma top_k_round_bounded:
  "0 \<le> k \<Longrightarrow> top_k_round F k = (\<lambda>q x. let q = pq_push (pair_lt F) x q in if length q > nat k then tl q else q)"
  by (auto simp: top_k_round_def Let_def fun_eq_iff)

text \<open>
  C29. The search for the \<open>k\<close> most similar vectors returns the \<open>k\<close> pairs of similarity and
  index that come first in ascending order: the least similar ones, the least similar first.
  Only when \<open>k\<close> is at least the number of vectors is the most similar one among them.
\<close>

theorem top_k_keeps_least_similar:
  assumes "similarities F target vectors metric 0 = Inr xs" "float_order_on F (fst ` set xs)" "0 \<le> k"
  shows "\<exists>asc. mset asc = mset xs \<and> sorted_wrt (pair_lt F) asc \<and>
     find_top_k_similar_vectors F target vectors k metric = Inr (take (nat k) asc)"
proof -
  note d = similarities_distinct [OF assms(1)]
  have occ: "pairs_comparable F (set xs)" using assms(2) d(2) by (simp add: pairs_comparable_def)
  let ?S = "sim.pushes F xs"
  have "foldl (top_k_round F k) [] xs = drop (length xs - nat k) ?S"
    unfolding top_k_round_bounded [OF assms(3)] by (rule sim.bounded_pushes [OF occ d(1) order_refl d(1)])
  then have run: "find_top_k_similar_vectors F target vectors k metric = Inr (rev (drop (length xs - nat k) ?S))"
    using top_k_loop_fold [OF assms(1), of k "[]"] by (simp add: find_top_k_similar_vectors_def)
  have "rev (drop (length xs - nat k) ?S) = take (length xs - (length xs - nat k)) (rev ?S)"
    by (simp add: rev_drop sim.length_pushes)
  also have "\<dots> = take (nat k) (rev ?S)"
    by (cases "nat k \<le> length xs") (simp_all add: sim.length_pushes)
  finally have "rev (drop (length xs - nat k) ?S) = take (nat k) (rev ?S)" .
  moreover have "sorted_wrt (pair_lt F) (rev ?S)"
    using sim.pushes_descending [OF occ d(1) order_refl d(1)] by (simp add: sim.descending_def sorted_wrt_rev)
  moreover have "mset (rev ?S) = mset xs" by (simp add: sim.mset_pushes)
  ultimately show ?thesis using run by (intro exI [of _ "rev ?S"]) simp
qed

text \<open>Integers in place of floats.\<close>

definition int_floats :: "int float_ops" where
  "int_floats = \<lparr>fl_zero = 0, fl_add = (+), fl_sub = (-), fl_mul = (*), fl_div = (div), fl_neg = uminus, fl_sqrt = (\<lambda>x. x), fl_lt = (<)\<rparr>"

lemma int_floats_order: "float_order_on int_floats A"
  by (auto simp: float_order_on_def int_floats_def)

theorem top_k_keeps_least_similar_witness:
  "\<exists>asc. mset asc = mset [(3, 0), (1, 1), (2, 2)] \<and> sorted_wrt (pair_lt int_floats) asc \<and>
     find_top_k_similar_vectors int_floats [1] [[3], [1], [2]] 1 DOT_PRODUCT = Inr (take (nat 1) asc) \<and>
     find_top_k_similar_vectors int_floats [1] [[3], [1], [2]] 1 DOT_PRODUCT = Inr [(1, 1)]"
proof -
  have s: "similarities int_floats [1] [[3], [1], [2]] DOT_PRODUCT 0 = Inr [(3, 0), (1, 1), (2, 2)]"
    by (simp add: compute_similarity_def dot_product_def int_floats_def)
  have "find_top_k_similar_vectors int_floats [1] [[3], [1], [2]] 1 DOT_PRODUCT = Inr [(1, 1)]"
    by (simp add: find_top_k_similar_vectors_def compute_similarity_def dot_product_def top_k_round_def pair_lt_def
        int_floats_def Let_def)
  with top_k_keeps_least_similar [OF s int_floats_order, of 1] show ?thesis by auto
qed

end
