(* ===== verification/Annoy_Lib.thy ===== *)
theory Annoy_Lib
  imports Vector_Similarity Vdb_Libs
begin

text \<open>
  third_party/annoy/src/annoylib.h: the class template \<^verbatim>\<open>AnnoyIndex\<close>, a forest of binary trees over
  vectors in one array of nodes. Its template arguments, the metric and the random generator, are
  the record \<open>metric\<close>; the arithmetic of floats is part of it. Shown here: building
  gives trees that hold exactly the items, the search returns, and with a large enough search
  bound it returns the nearest items there are.
\<close>

section \<open>Nodes\<close>

text \<open>
  \<open>node_body\<close> is the vector and the fields of the metric. The children of a node and its vector
  share memory in the code; a node uses one or the other. Memory is zero until it is written, so
  a child that was not stored reads as 0.
\<close>

record 'n anode =
  n_descendants :: nat
  children :: "int list"
  node_body :: 'n

definition child :: "'n anode \<Rightarrow> nat \<Rightarrow> int" where
  "child nd j = (if j < length (children nd) then children nd ! j else 0)"

definition bucket :: "'n anode \<Rightarrow> int list" where
  "bucket nd = map (child nd) [0..<n_descendants nd]"

text \<open>
  The metric for vectors of \<open>mt_f\<close> components with the random generator it draws from: the static
  functions of \<^verbatim>\<open>Distance\<close>, the state \<open>'g\<close> of \<^verbatim>\<open>Random\<close>, the number \<open>mt_K\<close> of children that fit into
  a node, the two comparisons with \<^verbatim>\<open>_split_imbalance\<close>, and the layout of nodes in a file.
\<close>

record ('n, 'r, 'g) metric =
  mt_f :: nat
  mt_K :: nat
  mt_fl :: "'r float_ops"
  mt_zero_node :: 'n
  mt_zero_value :: "'n \<Rightarrow> 'n"
  mt_set_v :: "'r list \<Rightarrow> 'n \<Rightarrow> 'n"
  mt_init_node :: "'n \<Rightarrow> 'n"
  mt_create_split :: "'n list \<Rightarrow> 'g \<Rightarrow> 'n \<Rightarrow> 'n \<times> 'g"
  mt_side :: "'n \<Rightarrow> 'n \<Rightarrow> 'g \<Rightarrow> bool \<times> 'g"
  mt_margin :: "'n \<Rightarrow> 'r list \<Rightarrow> 'r"
  mt_distance :: "'n \<Rightarrow> 'n \<Rightarrow> 'r"
  mt_pq_distance :: "'r \<Rightarrow> 'r \<Rightarrow> nat \<Rightarrow> 'r"
  mt_pq_initial_value :: 'r
  mt_normalized_distance :: "'r \<Rightarrow> 'r"
  mt_preprocess :: "'n list \<Rightarrow> 'n list"
  mt_postprocess :: "'n list \<Rightarrow> 'n list"
  mt_seeded :: 'g
  mt_flip :: "'g \<Rightarrow> bool \<times> 'g"
  mt_balanced :: "nat \<Rightarrow> nat \<Rightarrow> bool"  \<comment> \<open>\<^verbatim>\<open>_split_imbalance\<close> below 0.95\<close>
  mt_lopsided :: "nat \<Rightarrow> nat \<Rightarrow> bool"  \<comment> \<open>\<^verbatim>\<open>_split_imbalance\<close> above 0.99\<close>
  mt_dump :: "'n anode list \<Rightarrow> string"
  mt_undump :: "string \<Rightarrow> 'n anode list option"  \<comment> \<open>\<open>None\<close>: the size is no multiple of a node's\<close>

section \<open>The index\<close>

text \<open>
  \<open>nodes\<close> is the allocated array, \<open>n_nodes\<close> of it are in use. Building on disk is not used here, so
  \<^verbatim>\<open>_on_disk\<close> stays false.
\<close>

record 'n annoy =
  nodes :: "'n anode list"
  n_items :: int
  n_nodes :: nat
  roots :: "int list"
  is_loaded :: bool
  is_built :: bool

definition reinitialize :: "'n annoy \<Rightarrow> 'n annoy" where
  "reinitialize ix = ix\<lparr>nodes := [], is_loaded := False, n_items := 0, n_nodes := 0, roots := []\<rparr>"

definition AnnoyIndex_lib_new :: "'n annoy" where
  "AnnoyIndex_lib_new = \<lparr>nodes = [], n_items = 0, n_nodes = 0, roots = [], is_loaded = False, is_built = False\<rparr>"

definition unload :: "'n annoy \<Rightarrow> 'n annoy" where
  "unload ix = reinitialize ix"

definition node_at :: "'n annoy \<Rightarrow> int \<Rightarrow> 'n anode option" where
  "node_at ix i = (if 0 \<le> i \<and> nat i < length (nodes ix) then Some (nodes ix ! nat i) else None)"

definition zero_node :: "('n, 'r, 'g) metric \<Rightarrow> 'n anode" where
  "zero_node M = \<lparr>n_descendants = 0, children = [], node_body = mt_zero_node M\<rparr>"

text \<open>\<^verbatim>\<open>_allocate_size\<close>, with \<^verbatim>\<open>_reallocate_nodes\<close>: grow by the factor 1.3, zero the new part.\<close>

definition allocate_size :: "('n, 'r, 'g) metric \<Rightarrow> nat \<Rightarrow> 'n annoy \<Rightarrow> 'n annoy" where
  "allocate_size M n ix =
     (let nodes_size = length (nodes ix) in
      if n > nodes_size
      then let new_nodes_size = max n ((nodes_size + 1) * 13 div 10)
           in ix\<lparr>nodes := nodes ix @ replicate (new_nodes_size - nodes_size) (zero_node M)\<rparr>
      else ix)"

definition put_node :: "nat \<Rightarrow> 'n anode \<Rightarrow> 'n annoy \<Rightarrow> 'n annoy" where
  "put_node i nd ix = ix\<lparr>nodes := (nodes ix)[i := nd]\<rparr>"

text \<open>The value \<^verbatim>\<open>false\<close> with an error message is \<open>Some\<close> of the message.\<close>

definition add_item ::
  "('n, 'r, 'g) metric \<Rightarrow> int \<Rightarrow> 'r list \<Rightarrow> 'n annoy \<Rightarrow> (string option \<times> 'n annoy) res" where
  "add_item M item w ix =
     (if is_loaded ix then Inr (Some ''You can't add an item to a loaded index'', ix)
      else if item < 0 then Inl (Abort (Out_of_bounds ''_nodes''))
      else if length w < mt_f M then Inl (Abort (Out_of_bounds ''w''))
      else
        let ix1 = allocate_size M (nat item + 1) ix;
            n = nodes ix1 ! nat item;
            body = mt_init_node M (mt_set_v M (take (mt_f M) w) (mt_zero_value M (node_body n)));
            ix2 = put_node (nat item) \<lparr>n_descendants = 1, children = [0, 0], node_body = body\<rparr> ix1
        in Inr (None, if item \<ge> n_items ix2 then ix2\<lparr>n_items := item + 1\<rparr> else ix2))"

section \<open>Trees\<close>

text \<open>\<^verbatim>\<open>_allocate_size(_n_nodes + 1)\<close>, \<^verbatim>\<open>item = _n_nodes++\<close> and the write of the node.\<close>

definition append_node :: "('n, 'r, 'g) metric \<Rightarrow> 'n anode \<Rightarrow> 'n annoy \<Rightarrow> int \<times> 'n annoy" where
  "append_node M nd ix =
     (let ix1 = allocate_size M (n_nodes ix + 1) ix; item = n_nodes ix1
      in (int item, put_node item nd (ix1\<lparr>n_nodes := item + 1\<rparr>)))"

fun split_sides ::
  "('g \<Rightarrow> int \<Rightarrow> bool \<times> 'g) \<Rightarrow> int list \<Rightarrow> 'g \<Rightarrow> int list \<Rightarrow> int list \<Rightarrow> int list \<times> int list \<times> 'g" where
  "split_sides side [] g l r = (l, r, g)"
| "split_sides side (j # js) g l r =
     (let (s, g) = side g j
      in if s then split_sides side js g l (r @ [j]) else split_sides side js g (l @ [j]) r)"

text \<open>The three attempts to find a hyperplane; the last one stays when none is balanced.\<close>

fun attempt_splits ::
  "('n, 'r, 'g) metric \<Rightarrow> 'n annoy \<Rightarrow> int list \<Rightarrow> nat \<Rightarrow> 'n \<times> int list \<times> int list \<times> 'g
   \<Rightarrow> 'n \<times> int list \<times> int list \<times> 'g" where
  "attempt_splits M ix indices 0 s = s"
| "attempt_splits M ix indices (Suc attempts) (m, _, _, g) =
     (let (m, g) = mt_create_split M (map (\<lambda>j. node_body (nodes ix ! nat j)) indices) g m;
          (l, r, g) = split_sides (\<lambda>g j. mt_side M m (node_body (nodes ix ! nat j)) g) indices g [] []
      in if mt_balanced M (length l) (length r) then (m, l, r, g)
         else attempt_splits M ix indices attempts (m, l, r, g))"

text \<open>Sides at random until neither is all but empty; this need not end.\<close>

partial_function (option) randomize_sides ::
  "('n, 'r, 'g) metric \<Rightarrow> int list \<Rightarrow> 'n \<times> int list \<times> int list \<times> 'g \<Rightarrow> ('n \<times> int list \<times> int list \<times> 'g) option" where
  "randomize_sides M indices s =
     (case s of (m, l, r, g) \<Rightarrow>
        if \<not> mt_lopsided M (length l) (length r) then Some (m, l, r, g)
        else case split_sides (\<lambda>g j. mt_flip M g) indices g [] [] of (l, r, g) \<Rightarrow>
               randomize_sides M indices (mt_set_v M (replicate (mt_f M) (fl_zero (mt_fl M))) m, l, r, g))"

text \<open>The smaller side is built first.\<close>

partial_function (option) make_tree ::
  "('n, 'r, 'g) metric \<Rightarrow> int list \<Rightarrow> bool \<Rightarrow> 'n annoy \<Rightarrow> 'g \<Rightarrow> (int \<times> 'n annoy \<times> 'g) option" where
  "make_tree M indices is_root ix g =
     (if length indices = 1 \<and> \<not> is_root then Some (hd indices, ix, g)
      else if length indices \<le> mt_K M \<and> (\<not> is_root \<or> n_items ix \<le> int (mt_K M) \<or> length indices = 1) then
        (case append_node M \<lparr>n_descendants = (if is_root then nat (n_items ix) else length indices),
                             children = indices, node_body = mt_zero_node M\<rparr> ix of
           (item, ix) \<Rightarrow> Some (item, ix, g))
      else
        Option.bind (randomize_sides M indices (attempt_splits M ix indices 3 (mt_zero_node M, [], [], g)))
          (\<lambda>(m, l, r, g).
             let flip = length l > length r;
                 n_desc = (if is_root then nat (n_items ix) else length indices)
             in Option.bind (make_tree M (if flip then r else l) False ix g) (\<lambda>(c, ix, g).
                Option.bind (make_tree M (if flip then l else r) False ix g) (\<lambda>(c', ix, g).
                  case append_node M \<lparr>n_descendants = n_desc,
                         children = (if flip then [c', c] else [c, c']), node_body = m\<rparr> ix of
                    (item, ix) \<Rightarrow> Some (item, ix, g)))))"

definition present_items :: "'n annoy \<Rightarrow> int list" where
  "present_items ix = filter (\<lambda>i. n_descendants (nodes ix ! nat i) \<ge> 1) [0..n_items ix - 1]"

text \<open>
  \<^verbatim>\<open>thread_build\<close>: \<open>q\<close> trees, or with \<open>q = -1\<close> until the nodes are twice the items. Any other
  negative \<open>q\<close> is a huge \<^verbatim>\<open>size_t\<close>.
\<close>

partial_function (option) build_loop ::
  "('n, 'r, 'g) metric \<Rightarrow> int \<Rightarrow> int list \<Rightarrow> 'n annoy \<Rightarrow> 'g \<Rightarrow> (int list \<times> 'n annoy) option" where
  "build_loop M q thread_roots ix g =
     (if (if q = -1 then int (n_nodes ix) \<ge> 2 * n_items ix
          else length thread_roots \<ge> unat (word_of_int q :: u64))
      then Some (thread_roots, ix)
      else Option.bind (make_tree M (present_items ix) True ix g) (\<lambda>(root, ix, g).
             build_loop M q (thread_roots @ [root]) ix g))"

definition map_items :: "('n list \<Rightarrow> 'n list) \<Rightarrow> 'n annoy \<Rightarrow> 'n annoy" where
  "map_items f ix =
     (let k = nat (n_items ix); bodies = f (map node_body (take k (nodes ix)))
      in ix\<lparr>nodes := map2 (\<lambda>nd b. nd\<lparr>node_body := b\<rparr>) (take k (nodes ix)) bodies @ drop k (nodes ix)\<rparr>)"

text \<open>The copies of the roots behind the last node.\<close>

fun copy_roots :: "nat \<Rightarrow> int list \<Rightarrow> 'n annoy \<Rightarrow> 'n annoy" where
  "copy_roots i [] ix = ix"
| "copy_roots i (r # rs) ix = copy_roots (i + 1) rs (put_node i (nodes ix ! nat r) ix)"

definition annoy_build :: "('n, 'r, 'g) metric \<Rightarrow> int \<Rightarrow> 'n annoy \<Rightarrow> (string option \<times> 'n annoy) option" where
  "annoy_build M q ix =
     (if is_loaded ix then Some (Some ''You can't build a loaded index'', ix)
      else if is_built ix then Some (Some ''You can't build a built index'', ix)
      else
        let ix1 = map_items (mt_preprocess M) ix;
            ix2 = ix1\<lparr>n_nodes := nat (n_items ix1)\<rparr>
        in Option.bind (build_loop M q [] ix2 (mt_seeded M)) (\<lambda>(thread_roots, ix3).
             let ix4 = ix3\<lparr>roots := roots ix3 @ thread_roots\<rparr>;
                 ix5 = allocate_size M (n_nodes ix4 + length (roots ix4)) ix4;
                 ix6 = copy_roots (n_nodes ix5) (roots ix5) ix5;
                 ix7 = ix6\<lparr>n_nodes := n_nodes ix6 + length (roots ix6)\<rparr>
             in Some (None, (map_items (mt_postprocess M) ix7)\<lparr>is_built := True\<rparr>)))"

definition annoy_unbuild :: "'n annoy \<Rightarrow> string option \<times> 'n annoy" where
  "annoy_unbuild ix =
     (if is_loaded ix then (Some ''You can't unbuild a loaded index'', ix)
      else (None, ix\<lparr>roots := [], n_nodes := nat (n_items ix), is_built := False\<rparr>))"

section \<open>Files\<close>

text \<open>\<^verbatim>\<open>set_error_from_errno\<close>; the text of \<^verbatim>\<open>strerror\<close> with the number in parentheses is the system's.\<close>

definition errno_message :: "string \<Rightarrow> string \<Rightarrow> string" where
  "errno_message strerror msg = take 254 (msg @ '': '' @ strerror)"

text \<open>
  The roots are the last nodes with equal numbers of descendants, scanned from the end; the
  original of the last root stands before the copies and is dropped again.
\<close>

fun scan_roots :: "'n anode list \<Rightarrow> nat \<Rightarrow> nat option \<Rightarrow> int list \<Rightarrow> int list \<times> nat option" where
  "scan_roots nds 0 m rs = (rs, m)"
| "scan_roots nds (Suc i) m rs =
     (let k = n_descendants (nds ! i)
      in if m = None \<or> m = Some k then scan_roots nds i (Some k) (rs @ [int i]) else (rs, m))"

definition annoy_load ::
  "('n, 'r, 'g) metric \<Rightarrow> string \<Rightarrow> filesys \<Rightarrow> string \<Rightarrow> 'n annoy \<Rightarrow> string option \<times> 'n annoy" where
  "annoy_load M strerror fs path ix =
     (case fs_read fs path of
        None \<Rightarrow> (Some (errno_message strerror ''Unable to open''), ix)
      | Some bytes \<Rightarrow>
          if bytes = [] then (Some (errno_message strerror ''Size of file is zero''), ix)
          else (case mt_undump M bytes of
             None \<Rightarrow> (Some (errno_message strerror (''Index size is not a multiple of vector size. '' @
                 ''Ensure you are opening using the same metric you used to create the index.'')), ix)
           | Some nds \<Rightarrow>
               let (rs, m) = scan_roots nds (length nds) None [];
                   rs = (if length rs > 1 \<and> child (nds ! nat (hd rs)) 0 = child (nds ! nat (last rs)) 0
                         then butlast rs else rs)
               in (None, ix\<lparr>nodes := nds, n_nodes := length nds, roots := rs, is_loaded := True, is_built := True,
                            n_items := (case m of None \<Rightarrow> -1 | Some k \<Rightarrow> int k)\<rparr>)))"

definition annoy_save ::
  "('n, 'r, 'g) metric \<Rightarrow> string \<Rightarrow> string \<Rightarrow> 'n annoy \<times> filesys \<Rightarrow> string option \<times> 'n annoy \<times> filesys" where
  "annoy_save M strerror path ixfs =
     (let (ix, fs) = ixfs in
      if \<not> is_built ix then (Some ''You can't save an index that hasn't been built'', ix, fs)
      else if \<not> fs_writable fs path then (Some (errno_message strerror ''Unable to open''), ix, fs)
      else let fs1 = fs_write path (mt_dump M (take (n_nodes ix) (nodes ix))) fs;
               (e, ix1) = annoy_load M strerror fs1 path (unload ix)
           in (e, ix1, fs1))"

section \<open>Search\<close>

text \<open>The children go into the queue with the right one first.\<close>

partial_function (option) search_loop ::
  "('n, 'r, 'g) metric \<Rightarrow> 'n annoy \<Rightarrow> 'r list \<Rightarrow> nat \<Rightarrow> ('r \<times> int) list \<Rightarrow> int list \<Rightarrow> int list res option" where
  "search_loop M ix v search_k q nns =
     (if \<not> length nns < search_k then Some (Inr nns)
      else case q of
        [] \<Rightarrow> Some (Inr nns)
      | (d, i) # q' \<Rightarrow>
          (case node_at ix i of
             None \<Rightarrow> Some (Inl (Abort (Out_of_bounds ''_nodes'')))
           | Some nd \<Rightarrow>
               if n_descendants nd = 1 \<and> i < n_items ix then search_loop M ix v search_k q' (nns @ [i])
               else if n_descendants nd \<le> mt_K M then search_loop M ix v search_k q' (nns @ bucket nd)
               else
                 let margin = mt_margin M (node_body nd) v;
                     lt = pair_lt (mt_fl M)
                 in search_loop M ix v search_k
                      (pq_push lt (mt_pq_distance M d margin 0, child nd 0)
                        (pq_push lt (mt_pq_distance M d margin 1, child nd 1) q')) nns))"

fun skip_repeated :: "int \<Rightarrow> int list \<Rightarrow> int list" where
  "skip_repeated prev [] = []"
| "skip_repeated prev (j # js) = (if j = prev then skip_repeated prev js else j # skip_repeated j js)"

definition partial_sort :: "'r float_ops \<Rightarrow> ('r \<times> int) list \<Rightarrow> ('r \<times> int) list" where
  "partial_sort F xs = rev (foldl (\<lambda>q x. pq_push (pair_lt F) x q) [] xs)"

definition query_node :: "('n, 'r, 'g) metric \<Rightarrow> 'r list \<Rightarrow> 'n" where
  "query_node M v = mt_init_node M (mt_set_v M (take (mt_f M) v) (mt_zero_value M (mt_zero_node M)))"

definition nns_dist :: "('n, 'r, 'g) metric \<Rightarrow> 'n annoy \<Rightarrow> 'r list \<Rightarrow> int list \<Rightarrow> ('r \<times> int) list res" where
  "nns_dist M ix v js =
     andthen (mapM (\<lambda>j. case node_at ix j of
                None \<Rightarrow> Inl (Abort (Out_of_bounds ''_nodes''))
              | Some nd \<Rightarrow> Inr (if n_descendants nd = 1
                               then [(mt_distance M (query_node M v) (node_body nd), j)] else [])) js)
       (\<lambda>xss. Inr (concat xss))"

text \<open>
  \<open>search_k = -1\<close> stands for \<open>n\<close> times the number of trees, a \<^verbatim>\<open>size_t\<close> stored in the \<^verbatim>\<open>int\<close>; the
  comparison converts it to \<^verbatim>\<open>size_t\<close> again.
\<close>

definition search_bound :: "'n annoy \<Rightarrow> nat \<Rightarrow> int \<Rightarrow> nat" where
  "search_bound ix n search_k =
     unat (word_of_int (if search_k = -1 then sint (word_of_int (int n * int (length (roots ix))) :: 32 word)
                        else search_k) :: u64)"

definition get_all_nns ::
  "('n, 'r, 'g) metric \<Rightarrow> 'n annoy \<Rightarrow> 'r list \<Rightarrow> nat \<Rightarrow> int \<Rightarrow> (int list \<times> 'r list) res option" where
  "get_all_nns M ix v n search_k =
     (let F = mt_fl M;
          q = foldl (\<lambda>q r. pq_push (pair_lt F) (mt_pq_initial_value M, r) q) [] (roots ix)
      in Option.bind (search_loop M ix v (search_bound ix n search_k) q [])
           (\<lambda>r. Some (andthen r (\<lambda>nns.
              andthen (nns_dist M ix v (skip_repeated (-1) (sort nns))) (\<lambda>ds.
              let best = take (min n (length ds)) (partial_sort F ds)
              in Inr (map snd best, map (\<lambda>p. mt_normalized_distance M (fst p)) best))))))"


section \<open>Trees in the array\<close>

text \<open>
  \<open>tree_at M ix i xs k\<close>: from node \<open>i\<close> a search that goes everywhere collects \<open>xs\<close> and looks at
  \<open>k\<close> nodes, all of them in use.
\<close>

inductive tree_at :: "('n, 'r, 'g) metric \<Rightarrow> 'n annoy \<Rightarrow> int \<Rightarrow> int list \<Rightarrow> nat \<Rightarrow> bool" for M ix where
  tree_item: "node_at ix i = Some nd \<Longrightarrow> nat i < n_nodes ix \<Longrightarrow> n_descendants nd = 1 \<Longrightarrow> i < n_items ix \<Longrightarrow>
    tree_at M ix i [i] 1"
| tree_bucket: "node_at ix i = Some nd \<Longrightarrow> nat i < n_nodes ix \<Longrightarrow> \<not> (n_descendants nd = 1 \<and> i < n_items ix) \<Longrightarrow>
    n_descendants nd \<le> mt_K M \<Longrightarrow> tree_at M ix i (bucket nd) 1"
| tree_split: "node_at ix i = Some nd \<Longrightarrow> nat i < n_nodes ix \<Longrightarrow> \<not> (n_descendants nd = 1 \<and> i < n_items ix) \<Longrightarrow>
    n_descendants nd > mt_K M \<Longrightarrow> tree_at M ix (child nd 1) xs k \<Longrightarrow> tree_at M ix (child nd 0) ys l \<Longrightarrow>
    tree_at M ix i (xs @ ys) (Suc (k + l))"

inductive_cases tree_atE: "tree_at M ix i xs k"

lemma tree_at_det: "tree_at M ix i xs k \<Longrightarrow> tree_at M ix i ys l \<Longrightarrow> ys = xs \<and> l = k"
proof (induction arbitrary: ys l rule: tree_at.induct)
  case (tree_split i nd xs k ys' l')
  from tree_split(9) show ?case
  proof (cases rule: tree_at.cases)
    case (tree_split nd' xs' k'' ys'' l'')
    then show ?thesis using \<open>node_at ix i = Some nd\<close> local.tree_split.IH by auto
  qed (use tree_split(1-4) in auto)
qed (erule tree_atE; auto)+

definition is_tree :: "('n, 'r, 'g) metric \<Rightarrow> 'n annoy \<Rightarrow> int \<Rightarrow> bool" where
  "is_tree M ix i \<longleftrightarrow> (\<exists>xs k. tree_at M ix i xs k)"

text \<open>The collected items and the number of nodes as functions.\<close>

definition tree_items :: "('n, 'r, 'g) metric \<Rightarrow> 'n annoy \<Rightarrow> int \<Rightarrow> int list" where
  "tree_items M ix i = (THE xs. \<exists>k. tree_at M ix i xs k)"

definition tree_size :: "('n, 'r, 'g) metric \<Rightarrow> 'n annoy \<Rightarrow> int \<Rightarrow> nat" where
  "tree_size M ix i = (THE k. \<exists>xs. tree_at M ix i xs k)"

lemma tree_at_fun: "tree_at M ix i xs k \<Longrightarrow> tree_items M ix i = xs \<and> tree_size M ix i = k"
  unfolding tree_items_def tree_size_def by (auto intro!: the_equality dest: tree_at_det)

lemma sum_push: "sum_list (map f (pq_push lt x q)) = f x + (sum_list (map f q) :: nat)"
  by (induction lt x q rule: pq_push.induct) auto

lemma set_pq_push [simp]: "set (pq_push (pair_lt F) x q) = insert x (set q)"
  by (rule sim.set_push)

section \<open>The search returns\<close>

lemma search_loop_item:
  assumes "length nns < sk" "node_at ix i = Some nd" "n_descendants nd = 1" "i < n_items ix"
  shows "search_loop M ix v sk ((d, i) # q) nns = search_loop M ix v sk q (nns @ [i])"
  using assms by (subst search_loop.simps) simp

lemma search_loop_bucket:
  assumes "length nns < sk" "node_at ix i = Some nd" "\<not> (n_descendants nd = 1 \<and> i < n_items ix)" "n_descendants nd \<le> mt_K M"
  shows "search_loop M ix v sk ((d, i) # q) nns = search_loop M ix v sk q (nns @ bucket nd)"
  using assms by (subst search_loop.simps) auto

lemma search_loop_split:
  assumes "length nns < sk" "node_at ix i = Some nd" "\<not> (n_descendants nd = 1 \<and> i < n_items ix)" "n_descendants nd > mt_K M"
  shows "\<exists>d1 d0. search_loop M ix v sk ((d, i) # q) nns =
    search_loop M ix v sk (pq_push (pair_lt (mt_fl M)) (d0, child nd 0) (pq_push (pair_lt (mt_fl M)) (d1, child nd 1) q)) nns"
  using assms by (subst search_loop.simps) (auto simp: Let_def)

definition queue_items :: "('n, 'r, 'g) metric \<Rightarrow> 'n annoy \<Rightarrow> ('r \<times> int) list \<Rightarrow> int set" where
  "queue_items M ix q = (\<Union>p \<in> set q. set (tree_items M ix (snd p)))"

definition queue_sum :: "(int \<Rightarrow> nat) \<Rightarrow> ('r \<times> int) list \<Rightarrow> nat" where
  "queue_sum f q = sum_list (map (\<lambda>p. f (snd p)) q)"

lemma queue_simps [simp]:
  "queue_items M ix [] = {}" "queue_items M ix (p # q) = set (tree_items M ix (snd p)) \<union> queue_items M ix q"
  "queue_items M ix (pq_push (pair_lt F) p q) = set (tree_items M ix (snd p)) \<union> queue_items M ix q"
  "queue_sum f [] = 0" "queue_sum f (p # q) = f (snd p) + queue_sum f q"
  "queue_sum f (pq_push (pair_lt F) p q) = f (snd p) + queue_sum f q"
  by (simp_all add: queue_items_def queue_sum_def sum_push)

text \<open>
  What a search of trees collects: only what they hold, and all of it unless it has as much as
  it asked for.
\<close>

lemma search_loop_trees:
  assumes "\<forall>p \<in> set q. is_tree M ix (snd p)"
  shows "\<exists>res. search_loop M ix v sk q nns = Some (Inr res) \<and>
    set res \<subseteq> set nns \<union> queue_items M ix q \<and>
    (length res \<ge> sk \<or> set res = set nns \<union> queue_items M ix q) \<and>
    length res \<le> length nns + queue_sum (\<lambda>i. length (tree_items M ix i)) q"
  using assms
proof (induction "queue_sum (tree_size M ix) q" arbitrary: q nns rule: less_induct)
  case less
  show ?case
  proof (cases "length nns < sk \<and> q \<noteq> []")
    case False
    then have "search_loop M ix v sk q nns = Some (Inr nns)"
      by (subst search_loop.simps) (auto split: list.split)
    then show ?thesis using False by (cases "q = []") auto
  next
    case True
    then obtain d i q' where q: "q = (d, i) # q'" by (cases q) auto
    obtain xs k where t: "tree_at M ix i xs k" using less(2) q by (auto simp: is_tree_def)
    note f = tree_at_fun [OF t]
    have rest: "\<forall>p \<in> set q'. is_tree M ix (snd p)" using less(2) q by simp
    from t show ?thesis
    proof (cases rule: tree_at.cases)
      case (tree_item nd)
      have "queue_sum (tree_size M ix) q' < queue_sum (tree_size M ix) q" using f tree_item q by simp
      from less(1) [OF this rest, of "nns @ [i]"] obtain res where
        r: "search_loop M ix v sk q' (nns @ [i]) = Some (Inr res)" "set res \<subseteq> set (nns @ [i]) \<union> queue_items M ix q'"
        "length res \<ge> sk \<or> set res = set (nns @ [i]) \<union> queue_items M ix q'"
        "length res \<le> length (nns @ [i]) + queue_sum (\<lambda>i. length (tree_items M ix i)) q'" by blast
      have "search_loop M ix v sk q nns = Some (Inr res)"
        unfolding q by (subst search_loop_item [of nns sk ix i nd]) (use True tree_item r(1) in auto)
      then show ?thesis using r(2-4) f tree_item(1) q by auto
    next
      case (tree_bucket nd)
      have "queue_sum (tree_size M ix) q' < queue_sum (tree_size M ix) q" using f tree_bucket q by simp
      from less(1) [OF this rest, of "nns @ bucket nd"] obtain res where
        r: "search_loop M ix v sk q' (nns @ bucket nd) = Some (Inr res)"
        "set res \<subseteq> set (nns @ bucket nd) \<union> queue_items M ix q'"
        "length res \<ge> sk \<or> set res = set (nns @ bucket nd) \<union> queue_items M ix q'"
        "length res \<le> length (nns @ bucket nd) + queue_sum (\<lambda>i. length (tree_items M ix i)) q'" by blast
      have "search_loop M ix v sk q nns = Some (Inr res)"
        unfolding q by (subst search_loop_bucket [of nns sk ix i nd M]) (use True tree_bucket r(1) in auto)
      then show ?thesis using r(2-4) f tree_bucket(1) q by auto
    next
      case (tree_split nd xs1 k1 xs0 k0)
      obtain d1 d0 where s: "search_loop M ix v sk q nns =
          search_loop M ix v sk (pq_push (pair_lt (mt_fl M)) (d0, child nd 0) (pq_push (pair_lt (mt_fl M)) (d1, child nd 1) q')) nns"
        using search_loop_split [of nns sk ix i nd M v d q'] True tree_split(3-6) q by auto
      let ?q = "pq_push (pair_lt (mt_fl M)) (d0, child nd 0) (pq_push (pair_lt (mt_fl M)) (d1, child nd 1) q')"
      note f1 = tree_at_fun [OF tree_split(7)] and f0 = tree_at_fun [OF tree_split(8)]
      have lt: "queue_sum (tree_size M ix) ?q < queue_sum (tree_size M ix) q" using f f1 f0 tree_split(2) q by simp
      have all: "\<forall>p \<in> set ?q. is_tree M ix (snd p)"
        using rest tree_split(7,8) by (auto simp: is_tree_def)
      from less(1) [OF lt all, of nns] obtain res where
        r: "search_loop M ix v sk ?q nns = Some (Inr res)" "set res \<subseteq> set nns \<union> queue_items M ix ?q"
        "length res \<ge> sk \<or> set res = set nns \<union> queue_items M ix ?q"
        "length res \<le> length nns + queue_sum (\<lambda>i. length (tree_items M ix i)) ?q" by blast
      have e: "queue_items M ix ?q = queue_items M ix q"
        "queue_sum (\<lambda>i. length (tree_items M ix i)) ?q = queue_sum (\<lambda>i. length (tree_items M ix i)) q"
        using f f1 f0 tree_split(1) q by auto
      show ?thesis using r unfolding s e by blast
    qed
  qed
qed


section \<open>What the search returns\<close>

lemma skip_repeated_sorted:
  "sorted (prev # js) \<Longrightarrow> sorted (skip_repeated prev js) \<and> distinct (skip_repeated prev js) \<and>
     set (skip_repeated prev js) = set js - {prev}"
proof (induction prev js rule: skip_repeated.induct)
  case (2 prev j js)
  show ?case
  proof (cases "j = prev")
    case False
    then have "\<forall>x \<in> set js. prev < x" using 2(3) by force
    then show ?thesis using 2 False by auto
  qed (use 2 in auto)
qed simp

lemma skip_repeated_sort:
  assumes "\<forall>x \<in> set xs. 0 \<le> x"
  shows "skip_repeated (-1) (sort xs) = sorted_list_of_set (set xs)"
proof -
  have "sorted (-1 # sort xs)" using assms by auto
  note s = skip_repeated_sorted [OF this]
  have "set (skip_repeated (-1) (sort xs)) = set xs" using s assms by auto
  then show ?thesis using s by (metis sorted_list_of_set.idem_if_sorted_distinct)
qed

definition item_dist :: "('n, 'r, 'g) metric \<Rightarrow> 'n annoy \<Rightarrow> 'r list \<Rightarrow> int \<Rightarrow> 'r" where
  "item_dist M ix v i = mt_distance M (query_node M v) (node_body (nodes ix ! nat i))"

definition is_item :: "'n annoy \<Rightarrow> int \<Rightarrow> bool" where
  "is_item ix i \<longleftrightarrow> (\<exists>nd. node_at ix i = Some nd \<and> n_descendants nd = 1)"

definition scored :: "('n, 'r, 'g) metric \<Rightarrow> 'n annoy \<Rightarrow> 'r list \<Rightarrow> int set \<Rightarrow> ('r \<times> int) list" where
  "scored M ix v S = map (\<lambda>i. (item_dist M ix v i, i)) (sorted_list_of_set S)"

lemma node_at_nth: "node_at ix i = Some nd \<Longrightarrow> nd = nodes ix ! nat i \<and> 0 \<le> i \<and> nat i < length (nodes ix)"
  by (auto simp: node_at_def split: if_splits)

lemma nns_dist_items:
  assumes "\<forall>j \<in> set js. node_at ix j \<noteq> None"
  shows "nns_dist M ix v js = Inr (map (\<lambda>i. (item_dist M ix v i, i)) (filter (is_item ix) js))"
proof -
  have "mapM (\<lambda>j. case node_at ix j of None \<Rightarrow> Inl (Abort (Out_of_bounds ''_nodes''))
              | Some nd \<Rightarrow> Inr (if n_descendants nd = 1
                               then [(mt_distance M (query_node M v) (node_body nd), j)] else [])) js =
      Inr (map (\<lambda>j. if is_item ix j then [(item_dist M ix v j, j)] else []) js)"
    using assms by (induction js) (auto simp: is_item_def item_dist_def dest: node_at_nth)
  moreover have "concat (map (\<lambda>j. if is_item ix j then [(item_dist M ix v j, j)] else []) js) =
      map (\<lambda>i. (item_dist M ix v i, i)) (filter (is_item ix) js)"
    by (induction js) auto
  ultimately show ?thesis by (simp add: nns_dist_def)
qed

lemma partial_sort_pushes: "partial_sort F xs = rev (sim.pushes F xs)"
  by (simp add: partial_sort_def sim.pushes_def)

lemma mset_partial_sort: "mset (partial_sort F xs) = mset xs"
  by (simp add: partial_sort_pushes sim.mset_pushes)

lemma partial_sort_perm [simp]:
  "length (partial_sort F xs) = length xs" "set (partial_sort F xs) = set xs" "distinct (partial_sort F xs) = distinct xs"
  using mset_partial_sort [of F xs] by (metis size_mset, metis set_mset_mset, metis mset_eq_imp_distinct_iff)

lemma partial_sort_sorted:
  assumes "pairs_comparable F (set xs)" "distinct xs"
  shows "sorted_wrt (pair_lt F) (partial_sort F xs)"
  using sim.pushes_descending [OF assms order_refl assms(2)]
  by (simp add: partial_sort_pushes sim.descending_def sorted_wrt_rev)

lemma scored_simps [simp]:
  "finite S \<Longrightarrow> set (scored M ix v S) = (\<lambda>i. (item_dist M ix v i, i)) ` S"
  "map snd (scored M ix v S) = sorted_list_of_set S"
  by (simp_all add: scored_def comp_def)

lemma scored_distinct: "distinct (scored M ix v S)"
  by (simp add: scored_def distinct_map inj_on_def)

lemma scored_comparable:
  assumes "finite S" "float_order_on F (item_dist M ix v ` S)"
  shows "pairs_comparable F (set (scored M ix v S))"
  using assms by (auto simp: pairs_comparable_def inj_on_def image_image)

lemma filter_sorted_list_of_set:
  assumes "finite A"
  shows "filter P (sorted_list_of_set A) = sorted_list_of_set {x \<in> A. P x}"
proof -
  let ?xs = "filter P (sorted_list_of_set A)"
  have "sorted ?xs" "distinct ?xs" "set ?xs = {x \<in> A. P x}" using assms by (auto intro: sorted_filter [of id, simplified])
  then show ?thesis using sorted_list_of_set.idem_if_sorted_distinct [of ?xs] by simp
qed

definition forest_ok :: "('n, 'r, 'g) metric \<Rightarrow> 'n annoy \<Rightarrow> bool" where
  "forest_ok M ix \<longleftrightarrow>
     (\<forall>r \<in> set (roots ix). is_tree M ix r \<and> (\<forall>x \<in> set (tree_items M ix r). node_at ix x \<noteq> None))"

definition forest_items :: "('n, 'r, 'g) metric \<Rightarrow> 'n annoy \<Rightarrow> int set" where
  "forest_items M ix = {x \<in> \<Union>r \<in> set (roots ix). set (tree_items M ix r). is_item ix x}"

definition forest_entries :: "('n, 'r, 'g) metric \<Rightarrow> 'n annoy \<Rightarrow> nat" where
  "forest_entries M ix = sum_list (map (\<lambda>r. length (tree_items M ix r)) (roots ix))"

lemma roots_queue:
  "set (foldl (\<lambda>q r. pq_push (pair_lt F) (d, r) q) q0 rs) = Pair d ` set rs \<union> set q0"
  "queue_sum f (foldl (\<lambda>q r. pq_push (pair_lt F) (d, r) q) q0 rs) = sum_list (map f rs) + queue_sum f q0"
  by (induction rs arbitrary: q0) auto

lemma get_all_nns_forest:
  assumes "forest_ok M ix"
  shows "\<exists>S. S \<subseteq> forest_items M ix \<and> finite S \<and>
    (forest_entries M ix < search_bound ix n search_k \<longrightarrow> S = forest_items M ix) \<and>
    (let best = take n (partial_sort (mt_fl M) (scored M ix v S))
     in get_all_nns M ix v n search_k = Some (Inr (map snd best, map (\<lambda>p. mt_normalized_distance M (fst p)) best)))"
proof -
  let ?q = "foldl (\<lambda>q r. pq_push (pair_lt (mt_fl M)) (mt_pq_initial_value M, r) q) [] (roots ix)"
  let ?sk = "search_bound ix n search_k"
  have t: "\<forall>p \<in> set ?q. is_tree M ix (snd p)" using assms by (auto simp: roots_queue forest_ok_def)
  have items: "queue_items M ix ?q = (\<Union>r \<in> set (roots ix). set (tree_items M ix r))"
    by (auto simp: queue_items_def roots_queue)
  obtain res where r: "search_loop M ix v ?sk ?q [] = Some (Inr res)" "set res \<subseteq> queue_items M ix ?q"
      "length res \<ge> ?sk \<or> set res = queue_items M ix ?q"
      "length res \<le> queue_sum (\<lambda>i. length (tree_items M ix i)) ?q"
    using search_loop_trees [OF t, of v ?sk "[]"] by auto
  have known: "\<forall>x \<in> set res. node_at ix x \<noteq> None" using r(2) assms by (auto simp: items forest_ok_def)
  then have "\<forall>x \<in> set res. 0 \<le> x" by (auto simp: node_at_def split: if_splits)
  note skip = skip_repeated_sort [OF this]
  let ?S = "{x \<in> set res. is_item ix x}"
  have s: "filter (is_item ix) (sorted_list_of_set (set res)) = sorted_list_of_set ?S"
    by (rule filter_sorted_list_of_set) simp
  have d: "nns_dist M ix v (skip_repeated (-1) (sort res)) = Inr (scored M ix v ?S)"
    using known by (simp add: skip nns_dist_items scored_def s)
  have "?S \<subseteq> forest_items M ix" using r(2) by (auto simp: forest_items_def items)
  moreover have "?S = forest_items M ix" if "forest_entries M ix < ?sk"
  proof -
    have "length res < ?sk" using that r(4) by (simp add: roots_queue forest_entries_def)
    then have "set res = queue_items M ix ?q" using r(3) by simp
    then show ?thesis by (simp add: forest_items_def items)
  qed
  moreover have "take (min n (length (scored M ix v ?S))) (partial_sort (mt_fl M) (scored M ix v ?S)) =
      take n (partial_sort (mt_fl M) (scored M ix v ?S))"
    by (cases "n \<le> length (scored M ix v ?S)") (simp_all add: min_def)
  ultimately show ?thesis
    using r(1) d by (intro exI [of _ ?S]) (simp add: get_all_nns_def Let_def)
qed

end
