(* ===== verification/Annoy_Metrics.thy ===== *)
theory Annoy_Metrics
  imports Annoy_Lib
begin

text \<open>
  third_party/annoy/src/kissrandom.h and the two metrics of annoylib.h the wrapper uses, Euclidean
  and DotProduct, as records for Annoy_Lib. The vector kernels are the plain loops, which is what
  a build without AVX flags compiles. Where the code computes a subexpression in \<^verbatim>\<open>double\<close> (the
  constants \<^verbatim>\<open>2.0\<close> of DotProduct and its \<^verbatim>\<open>pow\<close>), the operation of the arithmetic stands for the rounded one.
\<close>

unbundle bit_operations_syntax

section \<open>Random numbers\<close>

record 'g rng =
  rng_seeded :: 'g
  rng_flip :: "'g \<Rightarrow> bool \<times> 'g"
  rng_index :: "'g \<Rightarrow> nat \<Rightarrow> nat \<times> 'g"

record Kiss64Random =
  kiss_x :: u64
  kiss_y :: u64
  kiss_z :: u64
  kiss_c :: u64

definition Kiss64Random_new :: "u64 \<Rightarrow> Kiss64Random" where
  "Kiss64Random_new seed =
     \<lparr>kiss_x = seed, kiss_y = 362436362436362436, kiss_z = 1066149217761810, kiss_c = 123456123456123456\<rparr>"

definition kiss :: "Kiss64Random \<Rightarrow> u64 \<times> Kiss64Random" where
  "kiss s =
     (let z = 6906969069 * kiss_z s + 1234567;
          y = kiss_y s XOR push_bit 13 (kiss_y s);
          y = y XOR drop_bit 17 y;
          y = y XOR push_bit 43 y;
          t = push_bit 58 (kiss_x s) + kiss_c s;
          c = drop_bit 6 (kiss_x s);
          x = kiss_x s + t;
          c = c + (if x < t then 1 else 0)
      in (x + y + z, \<lparr>kiss_x = x, kiss_y = y, kiss_z = z, kiss_c = c\<rparr>))"

definition kiss_flip :: "Kiss64Random \<Rightarrow> bool \<times> Kiss64Random" where
  "kiss_flip s = (let (r, s) = kiss s in (r AND 1 = 1, s))"

definition kiss_index :: "Kiss64Random \<Rightarrow> nat \<Rightarrow> nat \<times> Kiss64Random" where
  "kiss_index s n = (let (r, s) = kiss s in (unat (r mod of_nat n), s))"

definition kiss64 :: "Kiss64Random rng" where
  "kiss64 = \<lparr>rng_seeded = Kiss64Random_new 1234567890987654321, rng_flip = kiss_flip, rng_index = kiss_index\<rparr>"

section \<open>Arithmetic\<close>

text \<open>
  What the metrics use besides \<open>float_ops\<close>: conversion from \<^verbatim>\<open>int\<close>, the test \<^verbatim>\<open>!= 0\<close>, infinity,
  \<^verbatim>\<open>pow(x, 2)\<close>, and for \<^verbatim>\<open>_split_imbalance\<close> the rounded quotient \<^verbatim>\<open>ls / (ls + rs + 1e-9)\<close> of the two
  sizes, one, and the comparisons with the constants 0.95 and 0.99.
\<close>

record 'r annoy_arith =
  aa_fl :: "'r float_ops"
  aa_of_int :: "int \<Rightarrow> 'r"
  aa_nonzero :: "'r \<Rightarrow> bool"
  aa_infinity :: 'r
  aa_square :: "'r \<Rightarrow> 'r"
  aa_one :: 'r
  aa_split_share :: "nat \<Rightarrow> nat \<Rightarrow> 'r"
  aa_below_095 :: "'r \<Rightarrow> bool"
  aa_above_099 :: "'r \<Rightarrow> bool"

definition fl_max :: "'r float_ops \<Rightarrow> 'r \<Rightarrow> 'r \<Rightarrow> 'r" where
  "fl_max F a b = (if fl_lt F a b then b else a)"

definition fl_min :: "'r float_ops \<Rightarrow> 'r \<Rightarrow> 'r \<Rightarrow> 'r" where
  "fl_min F a b = (if fl_lt F b a then b else a)"

definition split_imbalance :: "'r annoy_arith \<Rightarrow> nat \<Rightarrow> nat \<Rightarrow> 'r" where
  "split_imbalance A left right =
     (let f = aa_split_share A left right in fl_max (aa_fl A) f (fl_sub (aa_fl A) (aa_one A) f))"

definition annoy_dot :: "'r float_ops \<Rightarrow> 'r list \<Rightarrow> 'r list \<Rightarrow> 'r" where
  "annoy_dot F x y = foldl (\<lambda>s (a, b). fl_add F s (fl_mul F a b)) (fl_zero F) (zip x y)"

definition annoy_euclidean_distance :: "'r float_ops \<Rightarrow> 'r list \<Rightarrow> 'r list \<Rightarrow> 'r" where
  "annoy_euclidean_distance F x y =
     foldl (\<lambda>d (a, b). let tmp = fl_sub F a b in fl_add F d (fl_mul F tmp tmp)) (fl_zero F) (zip x y)"

section \<open>Two means\<close>

record ('n, 'r) means_ops =
  mo_copy_node :: "'n \<Rightarrow> 'n \<Rightarrow> 'n"  \<comment> \<open>destination, source\<close>
  mo_normalize :: "'n \<Rightarrow> 'n"
  mo_init_node :: "'n \<Rightarrow> 'n"
  mo_distance :: "'n \<Rightarrow> 'n \<Rightarrow> 'r"
  mo_get_norm :: "'n \<Rightarrow> 'r"
  mo_update_mean :: "'n \<Rightarrow> 'n \<Rightarrow> 'r \<Rightarrow> int \<Rightarrow> 'n"

definition iteration_steps :: nat where
  "iteration_steps = 200"

fun two_means_loop ::
  "'r annoy_arith \<Rightarrow> 'g rng \<Rightarrow> ('n, 'r) means_ops \<Rightarrow> 'n list \<Rightarrow> bool \<Rightarrow> nat
   \<Rightarrow> 'n \<times> 'n \<times> int \<times> int \<times> 'g \<Rightarrow> 'n \<times> 'n \<times> int \<times> int \<times> 'g" where
  "two_means_loop A R D nds cosine 0 s = s"
| "two_means_loop A R D nds cosine (Suc l) (p, q, ic, jc, g) =
     (let F = aa_fl A;
          (k, g) = rng_index R g (length nds);
          nk = nds ! k;
          di = fl_mul F (aa_of_int A ic) (mo_distance D p nk);
          dj = fl_mul F (aa_of_int A jc) (mo_distance D q nk);
          norm = (if cosine then mo_get_norm D nk else aa_of_int A 1)
      in two_means_loop A R D nds cosine l
           (if \<not> fl_lt F (fl_zero F) norm then (p, q, ic, jc, g)
            else if fl_lt F di dj then (mo_init_node D (mo_update_mean D p nk norm ic), q, ic + 1, jc, g)
            else if fl_lt F dj di then (p, mo_init_node D (mo_update_mean D q nk norm jc), ic, jc + 1, g)
            else (p, q, ic, jc, g)))"

definition two_means ::
  "'r annoy_arith \<Rightarrow> 'g rng \<Rightarrow> ('n, 'r) means_ops \<Rightarrow> 'n list \<Rightarrow> bool \<Rightarrow> 'g \<Rightarrow> 'n \<Rightarrow> 'n \<Rightarrow> 'n \<times> 'n \<times> 'g" where
  "two_means A R D nds cosine g p q =
     (let count = length nds;
          (i, g) = rng_index R g count;
          (j, g) = rng_index R g (count - 1);
          j = j + (if j \<ge> i then 1 else 0);
          p = mo_copy_node D p (nds ! i);
          q = mo_copy_node D q (nds ! j);
          p = (if cosine then mo_normalize D p else p);
          q = (if cosine then mo_normalize D q else q);
          (p, q, ic, jc, g) = two_means_loop A R D nds cosine iteration_steps (mo_init_node D p, mo_init_node D q, 1, 1, g)
      in (p, q, g))"

definition mean_update :: "'r annoy_arith \<Rightarrow> 'r \<Rightarrow> int \<Rightarrow> 'r \<Rightarrow> 'r \<Rightarrow> 'r" where
  "mean_update A norm c m x =
     (let F = aa_fl A in fl_div F (fl_add F (fl_mul F m (aa_of_int A c)) (fl_div F x norm)) (aa_of_int A (c + 1)))"

section \<open>Euclidean\<close>

record 'r e_node =
  en_a :: 'r
  en_v :: "'r list"

definition e_normalize :: "'r float_ops \<Rightarrow> 'r e_node \<Rightarrow> 'r e_node" where
  "e_normalize F n =
     (let norm = fl_sqrt F (annoy_dot F (en_v n) (en_v n))
      in if fl_lt F (fl_zero F) norm then n\<lparr>en_v := map (\<lambda>x. fl_div F x norm) (en_v n)\<rparr> else n)"

definition e_means :: "'r annoy_arith \<Rightarrow> ('r e_node, 'r) means_ops" where
  "e_means A =
     (let F = aa_fl A in
      \<lparr>mo_copy_node = (\<lambda>d s. d\<lparr>en_v := en_v s\<rparr>), mo_normalize = e_normalize F, mo_init_node = (\<lambda>n. n),
       mo_distance = (\<lambda>x y. annoy_euclidean_distance F (en_v x) (en_v y)),
       mo_get_norm = (\<lambda>n. fl_sqrt F (annoy_dot F (en_v n) (en_v n))),
       mo_update_mean = (\<lambda>m n norm c. m\<lparr>en_v := map2 (mean_update A norm c) (en_v m) (en_v n)\<rparr>)\<rparr>)"

definition e_create_split :: "'r annoy_arith \<Rightarrow> 'g rng \<Rightarrow> 'r e_node list \<Rightarrow> 'g \<Rightarrow> 'r e_node \<Rightarrow> 'r e_node \<times> 'g" where
  "e_create_split A R nds g n =
     (let F = aa_fl A;
          (p, q, g) = two_means A R (e_means A) nds False g n n;
          n = e_normalize F (n\<lparr>en_v := map2 (fl_sub F) (en_v p) (en_v q)\<rparr>);
          a = foldl (\<lambda>s (v, x, y). fl_add F s (fl_div F (fl_mul F (fl_neg F v) (fl_add F x y)) (aa_of_int A 2)))
                (fl_zero F) (zip (en_v n) (zip (en_v p) (en_v q)))
      in (n\<lparr>en_a := a\<rparr>, g))"

definition e_margin :: "'r float_ops \<Rightarrow> 'r e_node \<Rightarrow> 'r list \<Rightarrow> 'r" where
  "e_margin F n y = fl_add F (en_a n) (annoy_dot F (en_v n) y)"

text \<open>A point on the plane goes to a random side.\<close>

definition side_of :: "'r annoy_arith \<Rightarrow> 'g rng \<Rightarrow> 'r \<Rightarrow> 'g \<Rightarrow> bool \<times> 'g" where
  "side_of A R d g = (if aa_nonzero A d then (fl_lt (aa_fl A) (fl_zero (aa_fl A)) d, g) else rng_flip R g)"

definition minkowski_pq_distance :: "'r float_ops \<Rightarrow> 'r \<Rightarrow> 'r \<Rightarrow> nat \<Rightarrow> 'r" where
  "minkowski_pq_distance F distance margin child_nr =
     fl_min F distance (if child_nr = 0 then fl_neg F margin else margin)"

text \<open>
  The size of a node of 64-bit ids and single-precision vectors is \<open>32 + 4 f\<close>, the children start
  at byte 16. The layout of the file is a parameter.
\<close>

definition Euclidean ::
  "'r annoy_arith \<Rightarrow> 'g rng \<Rightarrow> ('r e_node anode list \<Rightarrow> string) \<Rightarrow> (string \<Rightarrow> 'r e_node anode list option) \<Rightarrow> nat
   \<Rightarrow> ('r e_node, 'r, 'g) metric" where
  "Euclidean A R dump undump f =
     (let F = aa_fl A; z = \<lparr>en_a = fl_zero F, en_v = replicate f (fl_zero F)\<rparr> in
      \<lparr>mt_f = f, mt_K = (16 + 4 * f) div 8, mt_fl = F, mt_zero_node = z,
       mt_zero_value = (\<lambda>n. n), mt_set_v = (\<lambda>v n. n\<lparr>en_v := v\<rparr>), mt_init_node = (\<lambda>n. n),
       mt_create_split = e_create_split A R,
       mt_side = (\<lambda>n y. side_of A R (e_margin F n (en_v y))),
       mt_margin = e_margin F,
       mt_distance = (\<lambda>x y. annoy_euclidean_distance F (en_v x) (en_v y)),
       mt_pq_distance = minkowski_pq_distance F, mt_pq_initial_value = aa_infinity A,
       mt_normalized_distance = (\<lambda>d. fl_sqrt F (fl_max F d (fl_zero F))),
       mt_preprocess = (\<lambda>ns. ns), mt_postprocess = (\<lambda>ns. ns),
       mt_seeded = rng_seeded R, mt_flip = rng_flip R,
       mt_balanced = (\<lambda>l r. aa_below_095 A (split_imbalance A l r)),
       mt_lopsided = (\<lambda>l r. aa_above_099 A (split_imbalance A l r)), mt_dump = dump, mt_undump = undump\<rparr>)"

section \<open>DotProduct\<close>

record 'r d_node =
  dn_dot_factor :: 'r
  dn_norm :: 'r
  dn_built :: bool
  dn_v :: "'r list"

definition d_dot :: "'r float_ops \<Rightarrow> 'r d_node \<Rightarrow> 'r d_node \<Rightarrow> 'r" where
  "d_dot F x y = fl_add F (annoy_dot F (dn_v x) (dn_v y)) (fl_mul F (dn_dot_factor x) (dn_dot_factor y))"

definition d_distance :: "'r annoy_arith \<Rightarrow> 'r d_node \<Rightarrow> 'r d_node \<Rightarrow> 'r" where
  "d_distance A x y =
     (let F = aa_fl A in
      if dn_built x \<or> dn_built y then fl_neg F (annoy_dot F (dn_v x) (dn_v y))
      else
        let pp = (if aa_nonzero A (dn_norm x) then dn_norm x else d_dot F x x);
            qq = (if aa_nonzero A (dn_norm y) then dn_norm y else d_dot F y y);
            pq = d_dot F x y;
            ppqq = fl_mul F pp qq
        in if fl_lt F (fl_zero F) ppqq
           then fl_sub F (aa_of_int A 2) (fl_div F (fl_mul F (aa_of_int A 2) pq) (fl_sqrt F ppqq))
           else aa_of_int A 2)"

definition d_init_node :: "'r float_ops \<Rightarrow> 'r d_node \<Rightarrow> 'r d_node" where
  "d_init_node F n = n\<lparr>dn_built := False, dn_norm := d_dot F n n\<rparr>"

definition d_normalize :: "'r annoy_arith \<Rightarrow> 'r d_node \<Rightarrow> 'r d_node" where
  "d_normalize A n =
     (let F = aa_fl A;
          norm = fl_sqrt F (fl_add F (annoy_dot F (dn_v n) (dn_v n)) (aa_square A (dn_dot_factor n)))
      in if fl_lt F (fl_zero F) norm
         then n\<lparr>dn_v := map (\<lambda>x. fl_div F x norm) (dn_v n), dn_dot_factor := fl_div F (dn_dot_factor n) norm\<rparr> else n)"

definition d_means :: "'r annoy_arith \<Rightarrow> ('r d_node, 'r) means_ops" where
  "d_means A =
     (let F = aa_fl A in
      \<lparr>mo_copy_node = (\<lambda>d s. d\<lparr>dn_v := dn_v s, dn_dot_factor := dn_dot_factor s\<rparr>), mo_normalize = d_normalize A,
       mo_init_node = d_init_node F, mo_distance = d_distance A,
       mo_get_norm = (\<lambda>n. fl_sqrt F (d_dot F n n)),
       mo_update_mean = (\<lambda>m n norm c. m\<lparr>dn_v := map2 (mean_update A norm c) (dn_v m) (dn_v n),
          dn_dot_factor := mean_update A norm c (dn_dot_factor m) (dn_dot_factor n)\<rparr>)\<rparr>)"

definition d_create_split :: "'r annoy_arith \<Rightarrow> 'g rng \<Rightarrow> 'r d_node list \<Rightarrow> 'g \<Rightarrow> 'r d_node \<Rightarrow> 'r d_node \<times> 'g" where
  "d_create_split A R nds g n =
     (let F = aa_fl A; z = n\<lparr>dn_dot_factor := fl_zero F\<rparr>;
          (p, q, g) = two_means A R (d_means A) nds True g z z
      in (d_normalize A (n\<lparr>dn_v := map2 (fl_sub F) (dn_v p) (dn_v q),
                           dn_dot_factor := fl_sub F (dn_dot_factor p) (dn_dot_factor q)\<rparr>), g))"

text \<open>The vectors get one more component that gives all of them the largest norm.\<close>

definition d_preprocess :: "'r annoy_arith \<Rightarrow> 'r d_node list \<Rightarrow> 'r d_node list" where
  "d_preprocess A nds =
     (let F = aa_fl A;
          norm_of = (\<lambda>n. let d = annoy_dot F (dn_v n) (dn_v n) in if fl_lt F d (fl_zero F) then fl_zero F else fl_sqrt F d);
          nds1 = map (\<lambda>n. n\<lparr>dn_dot_factor := norm_of n, dn_built := False\<rparr>) nds;
          max_norm = foldl (\<lambda>m n. if fl_lt F m (dn_dot_factor n) then dn_dot_factor n else m) (fl_zero F) nds1
      in map (\<lambda>n. let squared_norm_diff = fl_sub F (aa_square A max_norm) (aa_square A (dn_dot_factor n));
                      dot_factor = (if fl_lt F squared_norm_diff (fl_zero F) then fl_zero F else fl_sqrt F squared_norm_diff)
                  in n\<lparr>dn_norm := aa_square A max_norm, dn_dot_factor := dot_factor\<rparr>) nds1)"

definition d_postprocess :: "'r d_node list \<Rightarrow> 'r d_node list" where
  "d_postprocess nds = map (\<lambda>n. n\<lparr>dn_built := True\<rparr>) nds"

definition DotProduct ::
  "'r annoy_arith \<Rightarrow> 'g rng \<Rightarrow> ('r d_node anode list \<Rightarrow> string) \<Rightarrow> (string \<Rightarrow> 'r d_node anode list option) \<Rightarrow> nat
   \<Rightarrow> ('r d_node, 'r, 'g) metric" where
  "DotProduct A R dump undump f =
     (let F = aa_fl A;
          z = \<lparr>dn_dot_factor = fl_zero F, dn_norm = fl_zero F, dn_built = False, dn_v = replicate f (fl_zero F)\<rparr> in
      \<lparr>mt_f = f, mt_K = (28 + 4 * f) div 8, mt_fl = F, mt_zero_node = z,
       mt_zero_value = (\<lambda>n. n\<lparr>dn_dot_factor := fl_zero F\<rparr>), mt_set_v = (\<lambda>v n. n\<lparr>dn_v := v\<rparr>), mt_init_node = d_init_node F,
       mt_create_split = d_create_split A R,
       mt_side = (\<lambda>n y. side_of A R (d_dot F n y)),
       mt_margin = (\<lambda>n y. annoy_dot F (dn_v n) y),
       mt_distance = d_distance A,
       mt_pq_distance = minkowski_pq_distance F, mt_pq_initial_value = aa_infinity A,
       mt_normalized_distance = fl_neg F,
       mt_preprocess = d_preprocess A, mt_postprocess = d_postprocess,
       mt_seeded = rng_seeded R, mt_flip = rng_flip R,
       mt_balanced = (\<lambda>l r. aa_below_095 A (split_imbalance A l r)),
       mt_lopsided = (\<lambda>l r. aa_above_099 A (split_imbalance A l r)), mt_dump = dump, mt_undump = undump\<rparr>)"

lemma metric_simps [simp]:
  "mt_f (Euclidean A R u w f) = f" "mt_f (DotProduct A R u' w' f) = f"
  "mt_fl (Euclidean A R u w f) = aa_fl A" "mt_fl (DotProduct A R u' w' f) = aa_fl A"
  "mt_flip (Euclidean A R u w f) = rng_flip R" "mt_flip (DotProduct A R u' w' f) = rng_flip R"
  "mt_lopsided (Euclidean A R u w f) = (\<lambda>l r. aa_above_099 A (split_imbalance A l r))"
  "mt_lopsided (DotProduct A R u' w' f) = (\<lambda>l r. aa_above_099 A (split_imbalance A l r))"
  "mt_K (Euclidean A R u w f) = (16 + 4 * f) div 8" "mt_K (DotProduct A R u' w' f) = (28 + 4 * f) div 8"
  by (simp_all add: Euclidean_def DotProduct_def Let_def)

lemma metric_lengths:
  "length (mt_preprocess (Euclidean A R u w f) xs) = length xs" "length (mt_postprocess (Euclidean A R u w f) xs) = length xs"
  "length (mt_preprocess (DotProduct A R u' w' f) ys) = length ys" "length (mt_postprocess (DotProduct A R u' w' f) ys) = length ys"
  by (simp_all add: Euclidean_def DotProduct_def d_preprocess_def d_postprocess_def Let_def)

end
