(* ===== verification/Annoy_Forest.thy ===== *)
theory Annoy_Forest
  imports Annoy_Metrics
begin

text \<open>
  Building an Annoy index: every tree that \<open>make_tree\<close> makes holds exactly the items it was given,
  and appending nodes leaves the trees made before as they are. Together with the search this
  gives the property of the whole: a built index, searched with a large enough bound, returns the
  nearest items there are. The assumption about the random generator is that it does not draw the
  same side forever (\<open>draws_end\<close>).
\<close>

section \<open>Assumptions on the metric and the generator\<close>

definition draw :: "('n, 'r, 'g) metric \<Rightarrow> int list \<Rightarrow> 'g \<Rightarrow> int list \<times> int list \<times> 'g" where
  "draw M indices g = split_sides (\<lambda>g j. mt_flip M g) indices g [] []"

fun draws :: "('n, 'r, 'g) metric \<Rightarrow> int list \<Rightarrow> nat \<Rightarrow> 'g \<Rightarrow> int list \<times> int list \<times> 'g" where
  "draws M indices 0 g = draw M indices g"
| "draws M indices (Suc k) g = (case draw M indices g of (l, r, g) \<Rightarrow> draws M indices k g)"

definition acceptable :: "('n, 'r, 'g) metric \<Rightarrow> int list \<times> int list \<times> 'g \<Rightarrow> bool" where
  "acceptable M s = (case s of (l, r, g) \<Rightarrow> \<not> mt_lopsided M (length l) (length r))"

definition draws_end :: "('n, 'r, 'g) metric \<Rightarrow> bool" where
  "draws_end M \<longleftrightarrow> (\<forall>indices g. 2 \<le> length indices \<longrightarrow> (\<exists>k. acceptable M (draws M indices k g)))"

text \<open>
  An empty side is lopsided, a node has room for its two children, and processing the items gives
  as many back.
\<close>

definition metric_ok :: "('n, 'r, 'g) metric \<Rightarrow> bool" where
  "metric_ok M \<longleftrightarrow> draws_end M \<and> 2 \<le> mt_K M \<and>
     (\<forall>a b. \<not> mt_lopsided M a b \<longrightarrow> 0 < a \<and> 0 < b) \<and>
     (\<forall>xs. length (mt_preprocess M xs) = length xs \<and> length (mt_postprocess M xs) = length xs)"

lemma metric_okD:
  assumes "metric_ok M"
  shows "draws_end M" "2 \<le> mt_K M" "\<not> mt_lopsided M a b \<Longrightarrow> 0 < a \<and> 0 < b"
    and "length (mt_preprocess M xs) = length xs" "length (mt_postprocess M xs) = length xs"
  using assms by (auto simp: metric_ok_def)

section \<open>Splitting\<close>

lemma split_sides_mset:
  "split_sides side js g l r = (l', r', g') \<Longrightarrow> mset l' + mset r' = mset l + mset r + mset js"
proof (induction side js g l r rule: split_sides.induct)
  case (2 side j js g l r)
  obtain s g1 where s: "side g j = (s, g1)" by (cases "side g j")
  show ?case using 2 s by (cases s) auto
qed simp

lemma draw_mset: "draw M indices g = (l, r, g') \<Longrightarrow> mset l + mset r = mset indices"
  unfolding draw_def by (drule split_sides_mset) simp

lemma attempt_splits_mset:
  assumes "attempt_splits M ix indices (Suc a) s = (m', l', r', g')"
  shows "mset l' + mset r' = mset indices"
  using assms
proof (induction a arbitrary: s)
  case 0
  obtain m l r g where s: "s = (m, l, r, g)" by (cases s)
  obtain m1 g1 where c: "mt_create_split M (map (\<lambda>j. node_body (nodes ix ! nat j)) indices) g m = (m1, g1)"
    by fastforce
  obtain l1 r1 g2 where p: "split_sides (\<lambda>g j. mt_side M m1 (node_body (nodes ix ! nat j)) g) indices g1 [] [] = (l1, r1, g2)"
    by (metis prod_cases3)
  show ?case using 0 split_sides_mset [OF p] by (simp add: s c p split: if_splits)
next
  case (Suc a)
  obtain m l r g where s: "s = (m, l, r, g)" by (cases s)
  obtain m1 g1 where c: "mt_create_split M (map (\<lambda>j. node_body (nodes ix ! nat j)) indices) g m = (m1, g1)"
    by fastforce
  obtain l1 r1 g2 where p: "split_sides (\<lambda>g j. mt_side M m1 (node_body (nodes ix ! nat j)) g) indices g1 [] [] = (l1, r1, g2)"
    by (metis prod_cases3)
  show ?case
  proof (cases "mt_balanced M (length l1) (length r1)")
    case True
    then show ?thesis using Suc.prems split_sides_mset [OF p] by (simp add: s c p)
  next
    case False
    have "attempt_splits M ix indices (Suc (Suc a)) s = attempt_splits M ix indices (Suc a) (m1, l1, r1, g2)"
      unfolding s by (subst attempt_splits.simps(2)) (simp add: c p False del: attempt_splits.simps(2))
    then show ?thesis using Suc.IH [of "(m1, l1, r1, g2)"] Suc.prems by (simp only:)
  qed
qed

lemma randomize_sides_done:
  "\<not> mt_lopsided M (length l) (length r) \<Longrightarrow> randomize_sides M indices (m, l, r, g) = Some (m, l, r, g)"
  by (subst randomize_sides.simps) simp

lemma randomize_sides_next:
  "mt_lopsided M (length l) (length r) \<Longrightarrow> draw M indices g = (l1, r1, g1) \<Longrightarrow>
     \<exists>m1. randomize_sides M indices (m, l, r, g) = randomize_sides M indices (m1, l1, r1, g1)"
  by (subst randomize_sides.simps) (auto simp: draw_def)

lemma randomize_sides_drawn:
  assumes "acceptable M (draws M indices k g)" "draw M indices g = (l, r, g1)"
  shows "\<exists>m' l' r' g'. randomize_sides M indices (m, l, r, g1) = Some (m', l', r', g') \<and>
    \<not> mt_lopsided M (length l') (length r') \<and> mset l' + mset r' = mset indices"
  using assms
proof (induction k arbitrary: g l r g1 m)
  case 0
  then show ?case using draw_mset [OF 0(2)] by (simp add: acceptable_def randomize_sides_done)
next
  case (Suc k)
  show ?case
  proof (cases "mt_lopsided M (length l) (length r)")
    case True
    obtain l2 r2 g2 where d: "draw M indices g1 = (l2, r2, g2)" by (cases "draw M indices g1")
    obtain m1 where "randomize_sides M indices (m, l, r, g1) = randomize_sides M indices (m1, l2, r2, g2)"
      using randomize_sides_next [OF True d] by blast
    then show ?thesis using Suc.IH [OF _ d, of m1] Suc.prems by simp
  next
    case False
    then show ?thesis using draw_mset [OF Suc.prems(2)] by (simp add: randomize_sides_done)
  qed
qed

lemma randomize_sides_total:
  assumes "draws_end M" "2 \<le> length indices" "mset l + mset r = mset indices"
  shows "\<exists>m' l' r' g'. randomize_sides M indices (m, l, r, g) = Some (m', l', r', g') \<and>
    \<not> mt_lopsided M (length l') (length r') \<and> mset l' + mset r' = mset indices"
proof (cases "mt_lopsided M (length l) (length r)")
  case True
  obtain l1 r1 g1 where d: "draw M indices g = (l1, r1, g1)" by (cases "draw M indices g")
  obtain k where "acceptable M (draws M indices k g)" using assms(1,2) by (auto simp: draws_end_def)
  from randomize_sides_drawn [OF this d] randomize_sides_next [OF True d, of m] show ?thesis by metis
next
  case False
  then show ?thesis using assms(3) by (simp add: randomize_sides_done)
qed

section \<open>Growing arrays\<close>

definition grows :: "'n annoy \<Rightarrow> 'n annoy \<Rightarrow> bool" where
  "grows ix ix' \<longleftrightarrow> n_items ix' = n_items ix \<and> roots ix' = roots ix \<and> n_nodes ix \<le> n_nodes ix' \<and>
     n_nodes ix' \<le> length (nodes ix') \<and> is_loaded ix' = is_loaded ix \<and> is_built ix' = is_built ix \<and>
     (\<forall>i < n_nodes ix. nodes ix' ! i = nodes ix ! i)"

lemma grows_trans: "grows a b \<Longrightarrow> grows b c \<Longrightarrow> grows a c"
  by (auto simp: grows_def)

lemma grows_refl: "n_nodes ix \<le> length (nodes ix) \<Longrightarrow> grows ix ix"
  by (simp add: grows_def)

lemma allocate_size_simps [simp]:
  "n_items (allocate_size M n ix) = n_items ix" "roots (allocate_size M n ix) = roots ix"
  "n_nodes (allocate_size M n ix) = n_nodes ix" "is_loaded (allocate_size M n ix) = is_loaded ix"
  "is_built (allocate_size M n ix) = is_built ix"
  "i < length (nodes ix) \<Longrightarrow> nodes (allocate_size M n ix) ! i = nodes ix ! i"
  by (simp_all add: allocate_size_def Let_def nth_append)

lemma allocate_size_length: "n \<le> length (nodes (allocate_size M n ix))" "length (nodes ix) \<le> length (nodes (allocate_size M n ix))"
  by (simp_all add: allocate_size_def Let_def le_max_iff_disj)

lemma append_node_grows:
  assumes "append_node M nd ix = (item, ix')" "n_nodes ix \<le> length (nodes ix)"
  shows "item = int (n_nodes ix) \<and> grows ix ix' \<and> n_nodes ix' = Suc (n_nodes ix) \<and> node_at ix' item = Some nd"
proof -
  have "n_nodes ix < length (nodes (allocate_size M (n_nodes ix + 1) ix))"
    using allocate_size_length(1) [of "n_nodes ix + 1" M ix] by simp
  then show ?thesis
    using assms by (auto simp: append_node_def Let_def put_node_def grows_def node_at_def)
qed

lemma tree_at_grows:
  assumes "tree_at M ix i xs k" "n_items ix' = n_items ix" "n_nodes ix \<le> n_nodes ix'"
    and "\<And>i nd. node_at ix i = Some nd \<Longrightarrow> nat i < n_nodes ix \<Longrightarrow>
      \<exists>nd'. node_at ix' i = Some nd' \<and> n_descendants nd' = n_descendants nd \<and> children nd' = children nd"
  shows "tree_at M ix' i xs k"
  using assms(1)
proof (induction rule: tree_at.induct)
  case (tree_item i nd)
  then show ?case using assms(2-4) by (metis tree_at.tree_item order_less_le_trans)
next
  case (tree_bucket i nd)
  obtain nd' where n: "node_at ix' i = Some nd'" "n_descendants nd' = n_descendants nd" "children nd' = children nd"
    using assms(4) [OF tree_bucket(1,2)] by blast
  have "bucket nd' = bucket nd" using n by (simp add: bucket_def child_def cong: map_cong)
  then show ?case using tree_at.tree_bucket [OF n(1), of M] tree_bucket n(2) assms(2,3) by simp
next
  case (tree_split i nd xs k ys l)
  obtain nd' where n: "node_at ix' i = Some nd'" "n_descendants nd' = n_descendants nd" "children nd' = children nd"
    using assms(4) [OF tree_split(1,2)] by blast
  have "child nd' = child nd" using n by (simp add: child_def fun_eq_iff)
  then show ?case using tree_at.tree_split [OF n(1), of M xs k ys l] tree_split n(2) assms(2,3) by simp
qed

lemma grows_node_at: "grows ix ix' \<Longrightarrow> node_at ix i = Some nd \<Longrightarrow> nat i < n_nodes ix \<Longrightarrow> node_at ix' i = Some nd"
  by (auto simp: grows_def node_at_def split: if_splits)

lemma grows_tree: "grows ix ix' \<Longrightarrow> tree_at M ix i xs k \<Longrightarrow> tree_at M ix' i xs k"
  by (rule tree_at_grows [where ix = ix]) (auto simp: grows_def dest: grows_node_at intro: grows_node_at [unfolded grows_def])


section \<open>Making a tree\<close>

text \<open>The items are the first nodes: each one is an item or was never written.\<close>

definition items_ok :: "'n annoy \<Rightarrow> bool" where
  "items_ok ix \<longleftrightarrow> 0 \<le> n_items ix \<and> n_items ix \<le> int (n_nodes ix) \<and> n_nodes ix \<le> length (nodes ix) \<and>
     (\<forall>i < nat (n_items ix). n_descendants (nodes ix ! i) \<le> 1)"

definition are_items :: "'n annoy \<Rightarrow> int list \<Rightarrow> bool" where
  "are_items ix js \<longleftrightarrow> (\<forall>j \<in> set js. 0 \<le> j \<and> j < n_items ix \<and> n_descendants (nodes ix ! nat j) = 1)"

lemma grows_items_ok: "items_ok ix \<Longrightarrow> grows ix ix' \<Longrightarrow> items_ok ix'"
  by (auto simp: items_ok_def grows_def)

lemma grows_are_items: "items_ok ix \<Longrightarrow> grows ix ix' \<Longrightarrow> are_items ix js \<Longrightarrow> are_items ix' js"
  by (auto simp: items_ok_def grows_def are_items_def nat_less_iff)

lemma are_items_mset: "mset xs + mset ys = mset js \<Longrightarrow> are_items ix js \<Longrightarrow> are_items ix xs \<and> are_items ix ys"
proof -
  assume "mset xs + mset ys = mset js"
  then have "set js = set xs \<union> set ys" by (metis set_mset_mset set_mset_union)
  then show "are_items ix js \<Longrightarrow> are_items ix xs \<and> are_items ix ys" by (auto simp: are_items_def)
qed

lemma tree_at_item:
  assumes "items_ok ix" "are_items ix [j]"
  shows "tree_at M ix j [j] 1"
  using assms by (intro tree_item [where nd = "nodes ix ! nat j"]) (auto simp: items_ok_def are_items_def node_at_def)

lemma bucket_children: "n_descendants nd = length (children nd) \<Longrightarrow> bucket nd = children nd"
  by (auto simp: bucket_def child_def intro: nth_equalityI)

lemma make_tree_leaf:
  "length indices \<noteq> 1 \<or> is_root \<Longrightarrow>
   length indices \<le> mt_K M \<and> (\<not> is_root \<or> n_items ix \<le> int (mt_K M) \<or> length indices = 1) \<Longrightarrow>
   append_node M \<lparr>n_descendants = (if is_root then nat (n_items ix) else length indices),
     children = indices, node_body = mt_zero_node M\<rparr> ix = (item, ix') \<Longrightarrow>
   make_tree M indices is_root ix g = Some (item, ix', g)"
  by (subst make_tree.simps) auto

lemma make_tree_split:
  assumes "length indices \<noteq> 1 \<or> is_root"
    and "\<not> (length indices \<le> mt_K M \<and> (\<not> is_root \<or> n_items ix \<le> int (mt_K M) \<or> length indices = 1))"
    and "randomize_sides M indices (attempt_splits M ix indices 3 (mt_zero_node M, [], [], g)) = Some (m, l, r, g0)"
    and "make_tree M (if length l > length r then r else l) False ix g0 = Some (c, ix1, g1)"
    and "make_tree M (if length l > length r then l else r) False ix1 g1 = Some (c', ix2, g2)"
    and "append_node M \<lparr>n_descendants = (if is_root then nat (n_items ix) else length indices),
      children = (if length l > length r then [c', c] else [c, c']), node_body = m\<rparr> ix2 = (item, ix3)"
  shows "make_tree M indices is_root ix g = Some (item, ix3, g2)"
  using assms by (subst make_tree.simps) (auto simp: Let_def)

definition makes_tree ::
  "('n, 'r, 'g) metric \<Rightarrow> int list \<Rightarrow> bool \<Rightarrow> 'n annoy \<Rightarrow> 'g \<Rightarrow> (int list \<Rightarrow> bool) \<Rightarrow> bool" where
  "makes_tree M indices is_root ix g Q \<longleftrightarrow>
     (\<exists>i ix' g' xs k. make_tree M indices is_root ix g = Some (i, ix', g') \<and> grows ix ix' \<and>
        tree_at M ix' i xs k \<and> Q xs)"

text \<open>The sides of a split, each smaller than the whole.\<close>

lemma split_found:
  assumes "metric_ok M" "2 \<le> length indices"
  obtains m l r g' where
    "randomize_sides M indices (attempt_splits M ix indices 3 (mt_zero_node M, [], [], g)) = Some (m, l, r, g')"
    "mset l + mset r = mset indices" "0 < length l" "0 < length r" "length l + length r = length indices"
proof -
  obtain m0 l0 r0 g0 where a: "attempt_splits M ix indices (Suc 2) (mt_zero_node M, [], [], g) = (m0, l0, r0, g0)"
    by (metis prod_cases4)
  from randomize_sides_total [OF metric_okD(1) [OF assms(1)] assms(2) attempt_splits_mset [OF a], of m0 g0]
  obtain m l r g' where r: "randomize_sides M indices (m0, l0, r0, g0) = Some (m, l, r, g')"
    "\<not> mt_lopsided M (length l) (length r)" "mset l + mset r = mset indices" by blast
  have "length l + length r = length indices" using r(3) by (metis size_mset size_union)
  then show ?thesis
    using that [of m l r g'] r a metric_okD(3) [OF assms(1) r(2)] by (simp add: eval_nat_numeral)
qed

lemma split_node_tree:
  assumes "grows ix ix1" "tree_at M ix1 c xs k" "grows ix1 ix2" "tree_at M ix2 c' ys k'" "items_ok ix"
    and "append_node M \<lparr>n_descendants = n, children = (if flip then [c', c] else [c, c']), node_body = m\<rparr> ix2 = (item, ix3)"
    and "n > mt_K M" "2 \<le> mt_K M"
  shows "grows ix ix3 \<and> (\<exists>zs k. tree_at M ix3 item zs k \<and> mset zs = mset xs + mset ys)"
proof -
  have ok: "items_ok ix2" using grows_items_ok grows_trans assms(1,3,5) by blast
  then have n: "n_nodes ix2 \<le> length (nodes ix2)" by (simp add: items_ok_def)
  from append_node_grows [OF assms(6) n] have a: "item = int (n_nodes ix2)" "grows ix2 ix3" "n_nodes ix3 = Suc (n_nodes ix2)"
    "node_at ix3 item = Some \<lparr>n_descendants = n, children = (if flip then [c', c] else [c, c']), node_body = m\<rparr>" by blast+
  have t: "tree_at M ix3 c xs k" "tree_at M ix3 c' ys k'"
    using assms(2,3,4) a(2) by (blast intro: grows_tree grows_trans)+
  have "\<exists>zs k. tree_at M ix3 item zs k \<and> mset zs = mset xs + mset ys"
  proof (cases flip)
    case True
    have "tree_at M ix3 item (xs @ ys) (Suc (k + k'))"
      by (rule tree_split [OF a(4)]) (use a True t assms(7,8) in \<open>auto simp: child_def\<close>)
    then show ?thesis by auto
  next
    case False
    have "tree_at M ix3 item (ys @ xs) (Suc (k' + k))"
      by (rule tree_split [OF a(4)]) (use a False t assms(7,8) in \<open>auto simp: child_def\<close>)
    then show ?thesis by (auto simp: add.commute)
  qed
  then show ?thesis using grows_trans assms(1,3) a(2) by blast
qed

lemma make_subtree:
  assumes M: "metric_ok M"
  shows "items_ok ix \<Longrightarrow> are_items ix indices \<Longrightarrow> indices \<noteq> [] \<Longrightarrow>
    makes_tree M indices False ix g (\<lambda>xs. mset xs = mset indices)"
proof (induction "length indices" arbitrary: indices ix g rule: less_induct)
  case less
  consider "length indices = 1" | "2 \<le> length indices" "length indices \<le> mt_K M" | "mt_K M < length indices"
    using less.prems(3) metric_okD(2) [OF M] by (cases indices; cases "tl indices"; fastforce)
  then show ?case
  proof cases
    case 1
    then obtain j where j: "indices = [j]" by (cases indices) auto
    have "make_tree M indices False ix g = Some (j, ix, g)" by (subst make_tree.simps) (simp add: j)
    moreover have "tree_at M ix j [j] 1" using tree_at_item less.prems j by blast
    moreover have "grows ix ix" using less.prems(1) by (simp add: grows_refl items_ok_def)
    ultimately show ?thesis unfolding makes_tree_def using j by (metis)
  next
    case 2
    let ?nd = "\<lparr>n_descendants = length indices, children = indices, node_body = mt_zero_node M\<rparr>"
    obtain item ix' where a: "append_node M ?nd ix = (item, ix')" by fastforce
    have "n_nodes ix \<le> length (nodes ix)" using less.prems(1) by (simp add: items_ok_def)
    note g = append_node_grows [OF a this]
    have "tree_at M ix' item (bucket ?nd) 1"
      by (rule tree_bucket [where nd = ?nd]) (use g 2 less.prems(1) in \<open>auto simp: items_ok_def grows_def\<close>)
    moreover have "bucket ?nd = indices" by (simp add: bucket_children)
    moreover have "make_tree M indices False ix g = Some (item, ix', g)" by (rule make_tree_leaf) (use 2 a in auto)
    ultimately show ?thesis unfolding makes_tree_def using g by metis
  next
    case 3
    then have len: "2 \<le> length indices" using metric_okD(2) [OF M] by simp
    from split_found [OF M len, of ix g] obtain m l r g0 where
      s: "randomize_sides M indices (attempt_splits M ix indices 3 (mt_zero_node M, [], [], g)) = Some (m, l, r, g0)"
      "mset l + mset r = mset indices" "0 < length l" "0 < length r" "length l + length r = length indices" by blast
    let ?flip = "length l > length r"
    let ?a = "if ?flip then r else l" and ?b = "if ?flip then l else r"
    have lens: "length l < length indices" "length r < length indices" using s(3-5) by linarith+
    have ab: "length ?a < length indices" "?a \<noteq> []" "length ?b < length indices" "?b \<noteq> []" "are_items ix ?a" "are_items ix ?b"
      "mset ?a + mset ?b = mset indices"
      using s lens are_items_mset [OF s(2) less.prems(2)] by (auto simp: add.commute)
    obtain c ix1 g1 xs k where t1: "make_tree M ?a False ix g0 = Some (c, ix1, g1)" "grows ix ix1"
        "tree_at M ix1 c xs k" "mset xs = mset ?a"
      using less.hyps [OF ab(1) less.prems(1) ab(5,2), of g0] unfolding makes_tree_def by blast
    have ix1: "items_ok ix1" "are_items ix1 ?b"
      using grows_items_ok grows_are_items less.prems(1) t1(2) ab(6) by blast+
    obtain c' ix2 g2 ys k' where t2: "make_tree M ?b False ix1 g1 = Some (c', ix2, g2)" "grows ix1 ix2"
        "tree_at M ix2 c' ys k'" "mset ys = mset ?b"
      using less.hyps [OF ab(3) ix1 ab(4), of g1] unfolding makes_tree_def by blast
    let ?nd = "\<lparr>n_descendants = length indices, children = (if ?flip then [c', c] else [c, c']), node_body = m\<rparr>"
    obtain item ix3 where a: "append_node M ?nd ix2 = (item, ix3)" by fastforce
    have mt: "make_tree M indices False ix g = Some (item, ix3, g2)"
      by (rule make_tree_split [OF _ _ s(1) t1(1) t2(1)]) (use 3 len a in auto)
    from split_node_tree [OF t1(2,3) t2(2,3) less.prems(1) a 3 metric_okD(2) [OF M]]
    show ?thesis unfolding makes_tree_def using mt t1(4) t2(4) ab(7) by metis
  qed
qed


section \<open>The roots\<close>

text \<open>Before a build the last item is one that was added.\<close>

definition collecting :: "'n annoy \<Rightarrow> bool" where
  "collecting ix \<longleftrightarrow> items_ok ix \<and> (0 < n_items ix \<longrightarrow> present_items ix \<noteq> [])"

lemma present_items_facts:
  assumes "items_ok ix"
  shows "are_items ix (present_items ix)" "length (present_items ix) \<le> nat (n_items ix)" "sorted (present_items ix)"
    and "distinct (present_items ix)"
proof -
  show "are_items ix (present_items ix)"
    unfolding are_items_def
  proof
    fix j
    assume "j \<in> set (present_items ix)"
    then have j: "0 \<le> j" "j < n_items ix" "1 \<le> n_descendants (nodes ix ! nat j)" by (auto simp: present_items_def)
    then have "n_descendants (nodes ix ! nat j) \<le> 1" using assms by (simp add: items_ok_def nat_less_iff)
    then show "0 \<le> j \<and> j < n_items ix \<and> n_descendants (nodes ix ! nat j) = 1" using j by simp
  qed
  show "length (present_items ix) \<le> nat (n_items ix)"
    unfolding present_items_def by (rule order_trans [OF length_filter_le]) simp
  show "sorted (present_items ix)" "distinct (present_items ix)"
    by (simp_all add: present_items_def sorted_wrt_filter)
qed

lemma grows_present: "items_ok ix \<Longrightarrow> grows ix ix' \<Longrightarrow> present_items ix' = present_items ix"
  by (auto simp: present_items_def items_ok_def grows_def nat_less_iff intro!: filter_cong)

lemma grows_collecting: "collecting ix \<Longrightarrow> grows ix ix' \<Longrightarrow> collecting ix'"
  using grows_items_ok [of ix ix'] grows_present [of ix ix'] by (auto simp: collecting_def grows_def)

definition root_holds :: "'n annoy \<Rightarrow> int list \<Rightarrow> bool" where
  "root_holds ix xs \<longleftrightarrow> set (present_items ix) \<subseteq> set xs \<and> length xs \<le> nat (n_items ix) \<and>
     (\<forall>x \<in> set xs. x \<in> set (present_items ix) \<or> x = 0 \<and> 0 < n_items ix)"

lemma bucket_padded:
  assumes "length js \<le> k"
  shows "bucket \<lparr>n_descendants = k, children = js, node_body = b\<rparr> = js @ replicate (k - length js) 0"
  using assms by (auto simp: bucket_def child_def intro!: nth_equalityI simp: nth_append)

lemma node_zero_tree:
  assumes "items_ok ix" "0 < n_items ix"
  shows "\<exists>xs k. tree_at M ix 0 xs k \<and> set xs \<subseteq> {0} \<and> length xs \<le> 1"
proof -
  let ?nd = "nodes ix ! 0"
  have n: "node_at ix 0 = Some ?nd" "nat 0 < n_nodes ix" "n_descendants ?nd \<le> 1"
    using assms by (auto simp: items_ok_def node_at_def)
  show ?thesis
  proof (cases "n_descendants ?nd = 1")
    case True
    then show ?thesis using tree_item [OF n(1,2) True assms(2), of M] by fastforce
  next
    case False
    then have "n_descendants ?nd = 0" using n(3) by simp
    then show ?thesis using tree_bucket [OF n(1,2), of M] by (fastforce simp: bucket_def)
  qed
qed

lemma make_root:
  assumes M: "metric_ok M" and ix: "collecting ix"
  shows "makes_tree M (present_items ix) True ix g (root_holds ix)"
proof -
  let ?P = "present_items ix"
  have ok: "items_ok ix" "n_nodes ix \<le> length (nodes ix)" using ix by (simp_all add: collecting_def items_ok_def)
  note P = present_items_facts [OF ok(1)]
  note K = metric_okD(2) [OF M]
  show ?thesis
  proof (cases "length ?P \<le> mt_K M \<and> (n_items ix \<le> int (mt_K M) \<or> length ?P = 1)")
    case True
    let ?nd = "\<lparr>n_descendants = nat (n_items ix), children = ?P, node_body = mt_zero_node M\<rparr>"
    obtain item ix' where a: "append_node M ?nd ix = (item, ix')" by fastforce
    note g = append_node_grows [OF a ok(2)]
    have mt: "make_tree M ?P True ix g = Some (item, ix', g)" by (rule make_tree_leaf) (use True a in auto)
    have old: "\<not> item < n_items ix'" "nat item < n_nodes ix'" using g ok(1) by (auto simp: items_ok_def grows_def)
    show ?thesis
    proof (cases "n_items ix \<le> int (mt_K M)")
      case small: True
      have "tree_at M ix' item (bucket ?nd) 1"
        by (rule tree_bucket [where nd = ?nd]) (use g old small in auto)
      moreover have "root_holds ix (bucket ?nd)"
        using P(2) by (auto simp: bucket_padded root_holds_def)
      ultimately show ?thesis unfolding makes_tree_def using mt g by blast
    next
      case False
      then obtain p where p: "?P = [p]" using True by (auto simp: length_Suc_conv)
      have pos: "0 < n_items ix" using False by simp
      have ok': "items_ok ix'" "n_items ix' = n_items ix" using grows_items_ok [OF ok(1)] g by (auto simp: grows_def)
      obtain ys k where z: "tree_at M ix' 0 ys k" "set ys \<subseteq> {0}" "length ys \<le> 1"
        using node_zero_tree [OF ok'(1), of M] pos ok'(2) by auto
      have "are_items ix' [p]" using grows_are_items [OF ok(1)] g P(1) p by auto
      note t = tree_at_item [OF ok'(1) this, of M]
      have "tree_at M ix' item (ys @ [p]) (Suc (k + 1))"
        by (rule tree_split [where nd = ?nd]) (use g old False p z t in \<open>auto simp: child_def\<close>)
      moreover have "root_holds ix (ys @ [p])"
        using z p pos False K by (auto simp: root_holds_def)
      ultimately show ?thesis unfolding makes_tree_def using mt g by blast
    qed
  next
    case False
    have "?P \<noteq> []" using False ix by (cases "n_items ix \<le> 0") (auto simp: collecting_def items_ok_def)
    then have "length ?P \<noteq> 0" by simp
    moreover have "length ?P \<noteq> 1"
    proof
      assume one: "length ?P = 1"
      then have "length ?P \<le> mt_K M" using K by linarith
      with False one show False by blast
    qed
    ultimately have len: "2 \<le> length ?P" by linarith
    have big: "nat (n_items ix) > mt_K M"
    proof (cases "length ?P \<le> mt_K M")
      case True
      with False have "\<not> n_items ix \<le> int (mt_K M)" by blast
      then show ?thesis by simp
    qed (use P(2) in simp)
    from split_found [OF M len, of ix g] obtain m l r g0 where
      s: "randomize_sides M ?P (attempt_splits M ix ?P 3 (mt_zero_node M, [], [], g)) = Some (m, l, r, g0)"
      "mset l + mset r = mset ?P" "0 < length l" "0 < length r" "length l + length r = length ?P" by blast
    let ?flip = "length l > length r"
    let ?a = "if ?flip then r else l" and ?b = "if ?flip then l else r"
    have ab: "?a \<noteq> []" "?b \<noteq> []" "are_items ix ?a" "are_items ix ?b" "mset ?a + mset ?b = mset ?P"
      using s are_items_mset [OF s(2) P(1)] by (auto simp: add.commute)
    obtain c ix1 g1 xs k where t1: "make_tree M ?a False ix g0 = Some (c, ix1, g1)" "grows ix ix1"
        "tree_at M ix1 c xs k" "mset xs = mset ?a"
      using make_subtree [OF M ok(1) ab(3,1), of g0] unfolding makes_tree_def by blast
    have ix1: "items_ok ix1" "are_items ix1 ?b"
      using grows_items_ok grows_are_items ok(1) t1(2) ab(4) by blast+
    obtain c' ix2 g2 ys k' where t2: "make_tree M ?b False ix1 g1 = Some (c', ix2, g2)" "grows ix1 ix2"
        "tree_at M ix2 c' ys k'" "mset ys = mset ?b"
      using make_subtree [OF M ix1 ab(2), of g1] unfolding makes_tree_def by blast
    let ?nd = "\<lparr>n_descendants = nat (n_items ix), children = (if ?flip then [c', c] else [c, c']), node_body = m\<rparr>"
    have n2: "n_items ix2 = n_items ix" using t1(2) t2(2) by (simp add: grows_def)
    obtain item ix3 where a: "append_node M ?nd ix2 = (item, ix3)" by fastforce
    have mt: "make_tree M ?P True ix g = Some (item, ix3, g2)"
      by (rule make_tree_split [OF _ _ s(1) t1(1) t2(1)]) (use False a in auto)
    obtain zs k'' where z: "grows ix ix3" "tree_at M ix3 item zs k''" "mset zs = mset xs + mset ys"
      using split_node_tree [OF t1(2,3) t2(2,3) ok(1) a big K] by blast
    have "mset zs = mset ?P" using z(3) t1(4) t2(4) ab(5) by simp
    then have "set zs = set ?P" "length zs = length ?P" by (metis set_mset_mset, metis size_mset)
    then have "root_holds ix zs" using P(2) by (simp add: root_holds_def)
    then show ?thesis unfolding makes_tree_def using mt z by blast
  qed
qed

lemma build_loop_done: "length rs = unat (word_of_int q :: u64) \<Longrightarrow> q \<noteq> -1 \<Longrightarrow> build_loop M q rs ix g = Some (rs, ix)"
  by (subst build_loop.simps) simp

lemma build_loop_next:
  "length rs < unat (word_of_int q :: u64) \<Longrightarrow> q \<noteq> -1 \<Longrightarrow> make_tree M (present_items ix) True ix g = Some (i, ix', g') \<Longrightarrow>
   build_loop M q rs ix g = build_loop M q (rs @ [i]) ix' g'"
  by (subst build_loop.simps) simp

lemma build_loop_trees:
  assumes M: "metric_ok M" and q: "0 \<le> q" "q < 2 ^ 31"
  shows "collecting ix \<Longrightarrow> length rs + d = nat q \<Longrightarrow>
    \<exists>new ix'. build_loop M q rs ix g = Some (rs @ new, ix') \<and> grows ix ix' \<and> length new = d \<and>
      (\<forall>r \<in> set new. \<exists>xs k. tree_at M ix' r xs k \<and> root_holds ix xs)"
proof (induction d arbitrary: rs ix g)
  case 0
  have "unat (word_of_int q :: u64) = nat q" using q by (simp add: unat_eq_nat_uint uint_word_of_int)
  then have "build_loop M q rs ix g = Some (rs, ix)" using 0(2) q by (intro build_loop_done) auto
  moreover have "grows ix ix" using 0(1) by (simp add: grows_refl collecting_def items_ok_def)
  ultimately show ?case by (intro exI [of _ "[]"] exI [of _ ix]) simp
next
  case (Suc d)
  have u: "unat (word_of_int q :: u64) = nat q" using q by (simp add: unat_eq_nat_uint uint_word_of_int)
  obtain i ix1 g1 xs k where t: "make_tree M (present_items ix) True ix g = Some (i, ix1, g1)" "grows ix ix1"
      "tree_at M ix1 i xs k" "root_holds ix xs"
    using make_root [OF M Suc(2), of g] unfolding makes_tree_def by blast
  have same: "root_holds ix1 = root_holds ix"
    using t(2) Suc(2) by (auto simp: root_holds_def grows_present collecting_def grows_def fun_eq_iff)
  obtain new ix' where r: "build_loop M q (rs @ [i]) ix1 g1 = Some ((rs @ [i]) @ new, ix')" "grows ix1 ix'" "length new = d"
      "\<forall>r \<in> set new. \<exists>xs k. tree_at M ix' r xs k \<and> root_holds ix1 xs"
    using Suc.IH [OF grows_collecting [OF Suc(2) t(2)], of "rs @ [i]" g1] Suc(3) by auto
  have "build_loop M q rs ix g = Some (rs @ i # new, ix')"
    using build_loop_next [OF _ _ t(1), of rs q] r(1) Suc(3) q u by simp
  moreover have "tree_at M ix' i xs k" by (rule grows_tree [OF r(2) t(3)])
  ultimately show ?case
    using r t(2,4) grows_trans [OF t(2) r(2)] same by (intro exI [of _ "i # new"] exI [of _ ix']) auto
qed


section \<open>The whole build\<close>

lemma copy_roots_simps [simp]:
  "n_items (copy_roots i rs ix) = n_items ix" "roots (copy_roots i rs ix) = roots ix" "n_nodes (copy_roots i rs ix) = n_nodes ix"
  "length (nodes (copy_roots i rs ix)) = length (nodes ix)" "is_loaded (copy_roots i rs ix) = is_loaded ix"
  "j < i \<Longrightarrow> nodes (copy_roots i rs ix) ! j = nodes ix ! j"
  by (induction i rs ix rule: copy_roots.induct) (simp_all add: put_node_def)

lemma map_items_simps [simp]:
  "n_items (map_items f ix) = n_items ix" "roots (map_items f ix) = roots ix" "n_nodes (map_items f ix) = n_nodes ix"
  "is_loaded (map_items f ix) = is_loaded ix" "is_built (map_items f ix) = is_built ix"
  by (simp_all add: map_items_def Let_def)

lemma map_items_nodes:
  assumes "\<And>xs. length (f xs) = length xs" "nat (n_items ix) \<le> length (nodes ix)"
  shows "length (nodes (map_items f ix)) = length (nodes ix)"
    and "i < length (nodes ix) \<Longrightarrow> n_descendants (nodes (map_items f ix) ! i) = n_descendants (nodes ix ! i)"
    and "i < length (nodes ix) \<Longrightarrow> children (nodes (map_items f ix) ! i) = children (nodes ix ! i)"
    and "map node_body (take (nat (n_items ix)) (nodes (map_items f ix))) = f (map node_body (take (nat (n_items ix)) (nodes ix)))"
  using assms by (auto simp: map_items_def Let_def nth_append min_def intro: nth_equalityI)

lemma present_items_cong:
  assumes "n_items ix' = n_items ix"
    and "\<And>i. i < nat (n_items ix) \<Longrightarrow> n_descendants (nodes ix' ! i) = n_descendants (nodes ix ! i)"
  shows "present_items ix' = present_items ix"
  unfolding present_items_def assms(1) by (intro filter_cong) (use assms(2) in \<open>auto simp: nat_less_iff\<close>)

text \<open>An index that is being filled.\<close>

definition filling :: "'n annoy \<Rightarrow> bool" where
  "filling ix \<longleftrightarrow> 0 \<le> n_items ix \<and> nat (n_items ix) \<le> length (nodes ix) \<and> roots ix = [] \<and> \<not> is_loaded ix \<and> \<not> is_built ix \<and>
     (\<forall>i < length (nodes ix). n_descendants (nodes ix ! i) \<le> (if i < nat (n_items ix) then 1 else 0)) \<and>
     (0 < n_items ix \<longrightarrow> n_descendants (nodes ix ! nat (n_items ix - 1)) = 1)"

lemma filling_present: "filling ix \<Longrightarrow> 0 < n_items ix \<Longrightarrow> present_items ix \<noteq> []"
proof -
  assume "filling ix" "0 < n_items ix"
  then have "n_items ix - 1 \<in> set (present_items ix)" by (simp add: filling_def present_items_def)
  then show ?thesis by auto
qed

definition build_rest :: "('n, 'r, 'g) metric \<Rightarrow> 'n annoy \<Rightarrow> 'n annoy" where
  "build_rest M ix =
     (let ix5 = allocate_size M (n_nodes ix + length (roots ix)) ix;
          ix6 = copy_roots (n_nodes ix5) (roots ix5) ix5;
          ix7 = ix6\<lparr>n_nodes := n_nodes ix6 + length (roots ix6)\<rparr>
      in (map_items (mt_postprocess M) ix7)\<lparr>is_built := True\<rparr>)"

lemma annoy_build_steps:
  assumes "\<not> is_loaded ix" "\<not> is_built ix"
    and "build_loop M q [] ((map_items (mt_preprocess M) ix)\<lparr>n_nodes := nat (n_items ix)\<rparr>) (mt_seeded M) = Some (rs, ix3)"
  shows "annoy_build M q ix = Some (None, build_rest M (ix3\<lparr>roots := roots ix3 @ rs\<rparr>))"
  using assms by (simp add: annoy_build_def build_rest_def Let_def)

text \<open>What the loop that makes the trees leaves, for the index \<open>ix\<close> before the build.\<close>

definition trees_made :: "('n, 'r, 'g) metric \<Rightarrow> 'n annoy \<Rightarrow> int list \<Rightarrow> 'n annoy \<Rightarrow> bool" where
  "trees_made M ix rs ix3 \<longleftrightarrow> items_ok ix3 \<and> n_items ix3 = n_items ix \<and> roots ix3 = [] \<and> \<not> is_loaded ix3 \<and>
     present_items ix3 = present_items ix \<and>
     (\<forall>r \<in> set rs. \<exists>xs k. tree_at M ix3 r xs k \<and> root_holds ix xs) \<and>
     map node_body (take (nat (n_items ix)) (nodes ix3)) =
       mt_preprocess M (map node_body (take (nat (n_items ix)) (nodes ix)))"

lemma build_makes_trees:
  assumes M: "metric_ok M" and ix: "filling ix" and q: "1 \<le> q" "q < 2 ^ 31"
  shows "\<exists>rs ix3. build_loop M q [] ((map_items (mt_preprocess M) ix)\<lparr>n_nodes := nat (n_items ix)\<rparr>) (mt_seeded M) = Some (rs, ix3) \<and>
    length rs = nat q \<and> trees_made M ix rs ix3"
proof -
  let ?k = "nat (n_items ix)"
  let ?ix1 = "map_items (mt_preprocess M) ix"
  let ?ix2 = "?ix1\<lparr>n_nodes := ?k\<rparr>"
  have k: "?k \<le> length (nodes ix)" using ix by (simp add: filling_def)
  note m1 = map_items_nodes [of "mt_preprocess M" ix, OF metric_okD(4) [OF M] k]
  have small: "n_descendants (nodes ix ! i) \<le> 1" if "i < ?k" for i
  proof -
    have "i < length (nodes ix)" using that k by linarith
    then have "n_descendants (nodes ix ! i) \<le> (if i < ?k then 1 else 0)" using ix unfolding filling_def by blast
    then show ?thesis using that by simp
  qed
  have ok2: "items_ok ?ix2" using ix m1 k small by (simp add: items_ok_def filling_def)
  have pres2: "present_items ?ix2 = present_items ix"
    by (rule present_items_cong) (use m1 k in auto)
  have col2: "collecting ?ix2" using ok2 pres2 filling_present [OF ix] by (simp add: collecting_def)
  obtain rs ix3 where l: "build_loop M q [] ?ix2 (mt_seeded M) = Some (rs, ix3)" "grows ?ix2 ix3" "length rs = nat q"
      "\<forall>r \<in> set rs. \<exists>xs k. tree_at M ix3 r xs k \<and> root_holds ?ix2 xs"
    using build_loop_trees [OF M _ q(2) col2, of "[]" "nat q" "mt_seeded M"] q(1) by auto
  have hold: "root_holds ?ix2 = root_holds ix" by (simp add: root_holds_def fun_eq_iff pres2)
  have ok3: "items_ok ix3" "present_items ix3 = present_items ix" "n_items ix3 = n_items ix" "roots ix3 = []" "\<not> is_loaded ix3"
    "\<forall>i < ?k. nodes ix3 ! i = nodes ?ix1 ! i" "?k \<le> length (nodes ix3)"
    using grows_items_ok [OF ok2 l(2)] grows_present [OF ok2 l(2)] pres2 l(2) ix by (auto simp: grows_def filling_def)
  have "map node_body (take ?k (nodes ix3)) = map node_body (take ?k (nodes ?ix1))"
    using ok3(6,7) m1(1) k by (intro nth_equalityI) auto
  then have "trees_made M ix rs ix3" using ok3 l(4) m1(4) unfolding hold by (simp add: trees_made_def)
  then show ?thesis using l(1,3) by blast
qed

definition rest7 :: "('n, 'r, 'g) metric \<Rightarrow> 'n annoy \<Rightarrow> 'n annoy" where
  "rest7 M ix =
     (let ix5 = allocate_size M (n_nodes ix + length (roots ix)) ix
      in (copy_roots (n_nodes ix5) (roots ix5) ix5)\<lparr>n_nodes := n_nodes ix5 + length (roots ix5)\<rparr>)"

lemma build_rest_eq: "build_rest M ix = (map_items (mt_postprocess M) (rest7 M ix))\<lparr>is_built := True\<rparr>"
  by (simp add: build_rest_def rest7_def Let_def)

lemma rest7_nodes:
  assumes "n_nodes ix \<le> length (nodes ix)"
  shows "n_items (rest7 M ix) = n_items ix" "roots (rest7 M ix) = roots ix" "is_loaded (rest7 M ix) = is_loaded ix"
    and "n_nodes ix \<le> n_nodes (rest7 M ix)" "length (nodes ix) \<le> length (nodes (rest7 M ix))"
    and "i < n_nodes ix \<Longrightarrow> nodes (rest7 M ix) ! i = nodes ix ! i"
  using assms allocate_size_length(2) [of ix M "n_nodes ix + length (roots ix)"] by (simp_all add: rest7_def Let_def)

text \<open>The copies of the roots and the postprocessing leave the shape of the nodes.\<close>

lemma build_rest_shape:
  assumes M: "metric_ok M" and ok: "items_ok ix"
  shows "node_at ix i = Some nd \<Longrightarrow> nat i < n_nodes ix \<Longrightarrow>
      \<exists>nd'. node_at (build_rest M ix) i = Some nd' \<and> n_descendants nd' = n_descendants nd \<and> children nd' = children nd"
    and "tree_at M ix i xs k \<Longrightarrow> tree_at M (build_rest M ix) i xs k"
    and "map node_body (take (nat (n_items ix)) (nodes (build_rest M ix))) =
      mt_postprocess M (map node_body (take (nat (n_items ix)) (nodes ix)))"
    and "0 \<le> x \<Longrightarrow> x < n_items ix \<Longrightarrow> is_item (build_rest M ix) x \<longleftrightarrow> n_descendants (nodes ix ! nat x) = 1"
proof -
  have n: "n_nodes ix \<le> length (nodes ix)" "nat (n_items ix) \<le> n_nodes ix" using ok by (auto simp: items_ok_def)
  note r = rest7_nodes [where M = M, OF n(1)]
  have k7: "nat (n_items (rest7 M ix)) \<le> length (nodes (rest7 M ix))" using r(1,5) n by simp
  note m = map_items_nodes [of "mt_postprocess M", OF metric_okD(5) [OF M] k7]
  show shape: "\<exists>nd'. node_at (build_rest M ix) i = Some nd' \<and> n_descendants nd' = n_descendants nd \<and> children nd' = children nd"
    if "node_at ix i = Some nd" "nat i < n_nodes ix" for i nd
    using that m(1) m(2,3) [of "nat i"] r(5) r(6) [of "nat i"] by (auto simp: node_at_def build_rest_eq split: if_splits)
  show "tree_at M ix i xs k \<Longrightarrow> tree_at M (build_rest M ix) i xs k" for i xs k
    by (erule tree_at_grows [OF _ _ _ shape]) (use r(1,4) in \<open>auto simp: build_rest_eq\<close>)
  have "map node_body (take (nat (n_items ix)) (nodes (rest7 M ix))) = map node_body (take (nat (n_items ix)) (nodes ix))"
    using r(5,6) n by (intro nth_equalityI) auto
  then show "map node_body (take (nat (n_items ix)) (nodes (build_rest M ix))) =
      mt_postprocess M (map node_body (take (nat (n_items ix)) (nodes ix)))"
    using m(4) r(1) by (simp add: build_rest_eq)
  show "is_item (build_rest M ix) x \<longleftrightarrow> n_descendants (nodes ix ! nat x) = 1" if "0 \<le> x" "x < n_items ix" for x
  proof -
    have "node_at ix x = Some (nodes ix ! nat x)" "nat x < n_nodes ix" using that n by (auto simp: node_at_def)
    from shape [OF this] show ?thesis by (auto simp: is_item_def)
  qed
qed

lemma rest_is_forest:
  assumes M: "metric_ok M" and t: "trees_made M ix rs ix3" and ix: "rs \<noteq> []"
  defines "ix' \<equiv> build_rest M (ix3\<lparr>roots := rs\<rparr>)"
  shows "forest_ok M ix'" "forest_items M ix' = set (present_items ix)"
    and "forest_entries M ix' \<le> length rs * nat (n_items ix)"
proof -
  let ?ix4 = "ix3\<lparr>roots := rs\<rparr>"
  have ok: "items_ok ?ix4" "items_ok ix3" "n_items ix3 = n_items ix" "present_items ix3 = present_items ix"
    using t by (simp_all add: trees_made_def items_ok_def)
  have n: "n_nodes ix3 \<le> length (nodes ix3)" "nat (n_items ix) \<le> n_nodes ix3" using ok(2,3) by (auto simp: items_ok_def)
  note sh = build_rest_shape [OF M ok(1), folded ix'_def]
  have roots': "roots ix' = rs" using rest7_nodes(1-5) [where M = M and ix = ?ix4] n(1) by (simp add: ix'_def build_rest_eq)
  have same: "tree_at M ?ix4 i xs k" if "tree_at M ix3 i xs k" for i xs k
    by (rule tree_at_grows [OF that]) (auto simp: node_at_def split: if_splits)
  have trees: "is_tree M ix' r \<and> root_holds ix (tree_items M ix' r)" if "r \<in> set rs" for r
    using t that sh(2) [OF same] unfolding trees_made_def by (metis is_tree_def tree_at_fun)
  have range: "0 \<le> x" "x < n_items ix" if "x \<in> set (present_items ix) \<or> x = 0 \<and> 0 < n_items ix" for x
    using that by (auto simp: present_items_def)
  have items: "is_item ix' x \<longleftrightarrow> x \<in> set (present_items ix)" if "0 \<le> x" "x < n_items ix" for x
  proof -
    have "n_descendants (nodes ix3 ! nat x) \<le> 1" using ok(2,3) that by (simp add: items_ok_def nat_less_iff)
    then have "n_descendants (nodes ix3 ! nat x) = 1 \<longleftrightarrow> x \<in> set (present_items ix3)"
      using that ok(3) by (auto simp: present_items_def)
    then show ?thesis using sh(4) [of x] that ok(3,4) by simp
  qed
  have known: "node_at ix' x \<noteq> None" if "0 \<le> x" "x < n_items ix" for x
  proof -
    have "node_at ?ix4 x = Some (nodes ix3 ! nat x)" "nat x < n_nodes ?ix4" using that n by (auto simp: node_at_def)
    from sh(1) [OF this] show ?thesis by auto
  qed
  show "forest_ok M ix'" using trees known range by (auto simp: forest_ok_def roots' root_holds_def)
  obtain r where r: "r \<in> set rs" using ix by (cases rs) auto
  show "forest_items M ix' = set (present_items ix)"
  proof (intro set_eqI iffI)
    fix x
    assume "x \<in> forest_items M ix'"
    then obtain r' where "r' \<in> set rs" "x \<in> set (tree_items M ix' r')" "is_item ix' x"
      by (auto simp: forest_items_def roots')
    then show "x \<in> set (present_items ix)" using trees [of r'] items [of x] range [of x] by (auto simp: root_holds_def)
  next
    fix x
    assume x: "x \<in> set (present_items ix)"
    then have "x \<in> set (tree_items M ix' r)" "is_item ix' x"
      using trees [OF r] items [of x] range [of x] by (auto simp: root_holds_def)
    then show "x \<in> forest_items M ix'" using r by (auto simp: forest_items_def roots')
  qed
  have "sum_list (map (\<lambda>r. length (tree_items M ix' r)) rs) \<le> sum_list (map (\<lambda>r. nat (n_items ix)) rs)"
    using trees by (intro sum_list_mono) (simp add: root_holds_def)
  then show "forest_entries M ix' \<le> length rs * nat (n_items ix)"
    by (simp add: forest_entries_def roots' sum_list_triv)
qed

lemma build_forest:
  assumes M: "metric_ok M" and ix: "filling ix" and q: "1 \<le> q" "q < 2 ^ 31"
  shows "\<exists>ix'. annoy_build M q ix = Some (None, ix') \<and> is_built ix' \<and> \<not> is_loaded ix' \<and> forest_ok M ix' \<and>
    forest_items M ix' = set (present_items ix) \<and> forest_entries M ix' \<le> nat q * nat (n_items ix) \<and>
    length (roots ix') = nat q \<and> n_items ix' = n_items ix \<and>
    map node_body (take (nat (n_items ix)) (nodes ix')) =
      mt_postprocess M (mt_preprocess M (map node_body (take (nat (n_items ix)) (nodes ix))))"
proof -
  obtain rs ix3 where b: "build_loop M q [] ((map_items (mt_preprocess M) ix)\<lparr>n_nodes := nat (n_items ix)\<rparr>) (mt_seeded M) = Some (rs, ix3)"
    "length rs = nat q" "trees_made M ix rs ix3"
    using build_makes_trees [OF assms] by blast
  let ?ix4 = "ix3\<lparr>roots := rs\<rparr>"
  have ok: "items_ok ?ix4" "n_items ix3 = n_items ix" "roots ix3 = []" "\<not> is_loaded ix3" "n_nodes ?ix4 \<le> length (nodes ?ix4)"
    using b(3) by (simp_all add: trees_made_def items_ok_def)
  have "rs \<noteq> []" using b(2) q(1) by auto
  note f = rest_is_forest [OF M b(3) this]
  have "annoy_build M q ix = Some (None, build_rest M (ix3\<lparr>roots := roots ix3 @ rs\<rparr>))"
    by (rule annoy_build_steps [OF _ _ b(1)]) (use ix in \<open>simp_all add: filling_def\<close>)
  moreover have "is_built (build_rest M ?ix4)" "\<not> is_loaded (build_rest M ?ix4)" "length (roots (build_rest M ?ix4)) = nat q"
    "n_items (build_rest M ?ix4) = n_items ix"
    using rest7_nodes(1-5) [where M = M, OF ok(5)] ok(2,4) b(2) by (simp_all add: build_rest_eq)
  moreover have "map node_body (take (nat (n_items ix)) (nodes (build_rest M ?ix4))) =
      mt_postprocess M (mt_preprocess M (map node_body (take (nat (n_items ix)) (nodes ix))))"
    using build_rest_shape(3) [OF M ok(1)] ok(2) b(3) by (simp add: trees_made_def)
  ultimately show ?thesis using f b(2) ok(3) by auto
qed


section \<open>Filling an index\<close>

lemma filling_new: "filling AnnoyIndex_lib_new"
  by (simp add: filling_def AnnoyIndex_lib_new_def)

lemma allocate_size_nth:
  "i < length (nodes (allocate_size M n ix)) \<Longrightarrow>
   nodes (allocate_size M n ix) ! i = (if i < length (nodes ix) then nodes ix ! i else zero_node M)"
  by (auto simp: allocate_size_def Let_def nth_append)

lemma add_item_filling:
  assumes "filling ix" "add_item M item w ix = Inr (e, ix')"
  shows "filling ix' \<and> e = None \<and> 0 \<le> item \<and> set (present_items ix') = insert item (set (present_items ix))"
proof -
  let ?ix1 = "allocate_size M (nat item + 1) ix"
  define nd where "nd = \<lparr>n_descendants = 1, children = [0, 0],
    node_body = mt_init_node M (mt_set_v M (take (mt_f M) w) (mt_zero_value M (node_body (nodes ?ix1 ! nat item))))\<rparr>"
  have pos: "0 \<le> item" and e: "e = None"
    and ix': "ix' = (let ix2 = put_node (nat item) nd ?ix1 in if item \<ge> n_items ix2 then ix2\<lparr>n_items := item + 1\<rparr> else ix2)"
    using assms by (auto simp: add_item_def filling_def Let_def nd_def split: if_splits)
  have len: "nat item < length (nodes ?ix1)" "length (nodes ix) \<le> length (nodes ?ix1)"
    using allocate_size_length(1) [of "nat item + 1" M ix] allocate_size_length(2) [of ix M "nat item + 1"] by auto
  have fields: "n_items ix' = max (n_items ix) (item + 1)" "nodes ix' = (nodes ?ix1)[nat item := nd]"
    "roots ix' = roots ix" "is_loaded ix' = is_loaded ix" "is_built ix' = is_built ix"
    by (simp_all add: ix' put_node_def Let_def max_def)
  have desc: "n_descendants (nodes ix' ! i) =
      (if i = nat item then 1 else if i < length (nodes ix) then n_descendants (nodes ix ! i) else 0)"
    if "i < length (nodes ix')" for i
    using that by (auto simp: fields(2) nth_list_update nd_def allocate_size_nth zero_node_def)
  have old: "n_descendants (nodes ix ! i) \<le> (if i < nat (n_items ix) then 1 else 0)" if "i < length (nodes ix)" for i
    using assms(1) that by (simp add: filling_def)
  have lenix': "length (nodes ix') = length (nodes ?ix1)" by (simp add: fields(2))
  have items: "0 \<le> n_items ix" "nat (n_items ix) \<le> length (nodes ix)" "0 < n_items ix \<longrightarrow> n_descendants (nodes ix ! nat (n_items ix - 1)) = 1"
    "roots ix = []" "\<not> is_loaded ix" "\<not> is_built ix"
    using assms(1) by (simp_all add: filling_def)
  have "filling ix'"
    unfolding filling_def
  proof (intro conjI allI impI)
    show "0 \<le> n_items ix'" "nat (n_items ix') \<le> length (nodes ix')" "roots ix' = []" "\<not> is_loaded ix'" "\<not> is_built ix'"
      using items len pos lenix' by (auto simp: fields)
    show "n_descendants (nodes ix' ! i) \<le> (if i < nat (n_items ix') then 1 else 0)" if "i < length (nodes ix')" for i
      using desc [OF that] old [of i] pos items(1) by (auto simp: fields(1) split: if_splits)
    show "n_descendants (nodes ix' ! nat (n_items ix' - 1)) = 1" if "0 < n_items ix'"
      using desc [of "nat (n_items ix' - 1)"] items len lenix' pos by (auto simp: fields(1) max_def split: if_splits)
  qed
  moreover have "x \<in> set (present_items ix') \<longleftrightarrow> x = item \<or> x \<in> set (present_items ix)" for x
  proof (cases "0 \<le> x \<and> x < n_items ix'")
    case True
    then have x: "nat x < length (nodes ix')" using calculation by (auto simp: filling_def)
    show ?thesis
      using desc [OF x] old [of "nat x"] True pos items(2) by (auto simp: present_items_def fields(1) nat_eq_iff split: if_splits)
  next
    case False
    then show ?thesis using pos by (auto simp: present_items_def fields(1))
  qed
  ultimately show ?thesis using e pos by auto
qed

section \<open>Build and search\<close>

lemma build_then_search:
  assumes "metric_ok M" "filling ix" "1 \<le> q" "q < 2 ^ 31" "q * n_items ix < search_k" "search_k < 2 ^ 31"
    and "\<And>ix'. annoy_build M q ix = Some (None, ix') \<Longrightarrow> float_order_on (mt_fl M) (item_dist M ix' v ` set (present_items ix))"
  shows "\<exists>ix' asc. annoy_build M q ix = Some (None, ix') \<and>
    map node_body (take (nat (n_items ix)) (nodes ix')) =
      mt_postprocess M (mt_preprocess M (map node_body (take (nat (n_items ix)) (nodes ix)))) \<and>
    mset asc = mset (map (\<lambda>i. (item_dist M ix' v i, i)) (present_items ix)) \<and> sorted_wrt (pair_lt (mt_fl M)) asc \<and>
    get_all_nns M ix' v n search_k =
      Some (Inr (map snd (take n asc), map (\<lambda>p. mt_normalized_distance M (fst p)) (take n asc)))"
proof -
  obtain ix' where b: "annoy_build M q ix = Some (None, ix')" "forest_ok M ix'" "forest_items M ix' = set (present_items ix)"
      "forest_entries M ix' \<le> nat q * nat (n_items ix)"
      "map node_body (take (nat (n_items ix)) (nodes ix')) =
        mt_postprocess M (mt_preprocess M (map node_body (take (nat (n_items ix)) (nodes ix))))"
    using build_forest [OF assms(1-4)] by blast
  have nonneg: "0 \<le> n_items ix" using assms(2) by (simp add: filling_def)
  then have pos: "0 \<le> q * n_items ix" using assms(3) by simp
  have "search_bound ix' n search_k = nat search_k"
    using assms(5,6) pos by (simp add: search_bound_def unat_eq_nat_uint uint_word_of_int)
  moreover have "nat q * nat (n_items ix) < nat search_k"
  proof -
    have "nat (q * n_items ix) < nat search_k" using assms(5) pos by linarith
    then show ?thesis using assms(3) by (simp add: nat_mult_distrib)
  qed
  ultimately have big: "forest_entries M ix' < search_bound ix' n search_k" using b(4) by linarith
  let ?P = "set (present_items ix)"
  let ?asc = "partial_sort (mt_fl M) (scored M ix' v ?P)"
  from get_all_nns_forest [OF b(2), of n search_k v] big b(3)
  have "get_all_nns M ix' v n search_k =
      Some (Inr (map snd (take n ?asc), map (\<lambda>p. mt_normalized_distance M (fst p)) (take n ?asc)))"
    by (auto simp: Let_def)
  moreover have "sorted_wrt (pair_lt (mt_fl M)) ?asc"
    by (intro partial_sort_sorted scored_comparable scored_distinct assms(7) b(1)) simp
  moreover have "mset ?asc = mset (map (\<lambda>i. (item_dist M ix' v i, i)) (present_items ix))"
  proof -
    have "sorted (present_items ix)" "distinct (present_items ix)"
      by (simp_all add: present_items_def sorted_wrt_filter)
    then have "sorted_list_of_set ?P = present_items ix" by (rule sorted_list_of_set.idem_if_sorted_distinct)
    then show ?thesis by (simp add: mset_partial_sort scored_def)
  qed
  ultimately show ?thesis using b(1,5) by blast
qed

section \<open>Properties\<close>

text \<open>
  C30. Build and search of an Annoy index: if the random generator does not draw one side forever,
  a build of \<open>q\<close> trees returns, and a search with a bound above \<open>q\<close> times the items then returns
  the \<open>n\<close> nearest of all added items in ascending order of their distance to the query (all of
  them when there are fewer), each once, with that distance.
\<close>

theorem annoy_search_exact:
  assumes "metric_ok M" "filling ix" "1 \<le> q" "q < 2 ^ 31" "q * n_items ix < search_k" "search_k < 2 ^ 31"
    and "\<And>ix'. annoy_build M q ix = Some (None, ix') \<Longrightarrow> float_order_on (mt_fl M) (item_dist M ix' v ` set (present_items ix))"
  shows "\<exists>ix' asc. annoy_build M q ix = Some (None, ix') \<and>
    map node_body (take (nat (n_items ix)) (nodes ix')) =
      mt_postprocess M (mt_preprocess M (map node_body (take (nat (n_items ix)) (nodes ix)))) \<and>
    mset asc = mset (map (\<lambda>i. (item_dist M ix' v i, i)) (present_items ix)) \<and> sorted_wrt (pair_lt (mt_fl M)) asc \<and>
    get_all_nns M ix' v n search_k =
      Some (Inr (map snd (take n asc), map (\<lambda>p. mt_normalized_distance M (fst p)) (take n asc)))"
  using assms by (rule build_then_search)


text \<open>
  Integers for floats, percent for the share of a side, and a generator that draws the sides in
  turn.
\<close>

definition int_arith :: "int annoy_arith" where
  "int_arith = \<lparr>aa_fl = int_floats, aa_of_int = (\<lambda>i. i), aa_nonzero = (\<lambda>x. x \<noteq> 0), aa_infinity = 1000000,
     aa_square = (\<lambda>x. x * x), aa_one = 100, aa_split_share = (\<lambda>a b. if a = 0 then 0 else if b = 0 then 100 else 50),
     aa_below_095 = (\<lambda>x. x < 95), aa_above_099 = (\<lambda>x. 99 < x)\<rparr>"

definition alternate :: "bool rng" where
  "alternate = \<lparr>rng_seeded = False, rng_flip = (\<lambda>g. (g, \<not> g)), rng_index = (\<lambda>g n. (0, g))\<rparr>"

definition sample_metric :: "(int e_node, int, bool) metric" where
  "sample_metric = Euclidean int_arith alternate (\<lambda>nds. []) (\<lambda>s. None) 1"

lemma split_sides_longer:
  "split_sides side js g l r = (l', r', g') \<Longrightarrow> length l \<le> length l' \<and> length r \<le> length r'"
proof (induction side js g l r rule: split_sides.induct)
  case (2 side j js g l r)
  obtain s g1 where s: "side g j = (s, g1)" by (cases "side g j")
  show ?case
  proof (cases s)
    case True
    then show ?thesis using 2(1) [OF s [symmetric] refl] 2(3) s by fastforce
  next
    case False
    then show ?thesis using 2(2) [OF s [symmetric] refl] 2(3) s by fastforce
  qed
qed simp

lemma sample_lopsided: "\<not> mt_lopsided sample_metric a b \<longleftrightarrow> 0 < a \<and> 0 < b"
  by (auto simp: sample_metric_def int_arith_def metric_lengths split_imbalance_def int_floats_def fl_max_def)

lemma sample_metric_ok: "metric_ok sample_metric"
proof -
  have "acceptable sample_metric (draws sample_metric js 0 g)" if len: "2 \<le> length js" for js g
  proof -
    obtain a b js' where js: "js = a # b # js'" using len by (cases js; cases "tl js") auto
    obtain l r g' where d: "draw sample_metric js g = (l, r, g')" by (cases "draw sample_metric js g")
    have "split_sides (\<lambda>g j. mt_flip sample_metric g) js' g (if g then [b] else [a]) (if g then [a] else [b]) = (l, r, g')"
      using d by (cases g) (simp_all add: draw_def js sample_metric_def alternate_def)
    from split_sides_longer [OF this] have "0 < length l \<and> 0 < length r" by (cases g) auto
    then show ?thesis using d by (auto simp: acceptable_def sample_lopsided)
  qed
  then have "draws_end sample_metric" unfolding draws_end_def by blast
  then show ?thesis
    using sample_lopsided by (simp add: metric_ok_def sample_metric_def metric_lengths)
qed

definition sample_annoy :: "int e_node annoy" where
  "sample_annoy = \<lparr>nodes = map (\<lambda>x. \<lparr>n_descendants = 1, children = [0, 0], node_body = \<lparr>en_a = 0, en_v = [x]\<rparr>\<rparr>) [5, 1, 3],
     n_items = 3, n_nodes = 0, roots = [], is_loaded = False, is_built = False\<rparr>"

lemma sample_annoy_filling: "filling sample_annoy" "present_items sample_annoy = [0, 1, 2]"
proof -
  show "filling sample_annoy"
    by (auto simp: filling_def sample_annoy_def less_Suc_eq numeral_3_eq_3)
  have "[0..(2::int)] = [0, 1, 2]" by (simp add: upto_rec1)
  then show "present_items sample_annoy = [0, 1, 2]" by (simp add: present_items_def sample_annoy_def)
qed

theorem annoy_search_exact_witness:
  "\<exists>ix' ids ds. annoy_build sample_metric 2 sample_annoy = Some (None, ix') \<and>
     get_all_nns sample_metric ix' [2] 3 100 = Some (Inr (ids, ds)) \<and> set ids = {0, 1, 2} \<and> length ids = 3"
proof -
  have F: "mt_fl sample_metric = int_floats" by (simp add: sample_metric_def int_arith_def)
  have n: "n_items sample_annoy = 3" by (simp add: sample_annoy_def)
  obtain ix' asc where b: "annoy_build sample_metric 2 sample_annoy = Some (None, ix')"
    "mset asc = mset (map (\<lambda>i. (item_dist sample_metric ix' [2] i, i)) [0, 1, 2])"
    "get_all_nns sample_metric ix' [2] 3 100 =
      Some (Inr (map snd (take 3 asc), map (\<lambda>p. mt_normalized_distance sample_metric (fst p)) (take 3 asc)))"
    using annoy_search_exact [OF sample_metric_ok sample_annoy_filling(1), of 2 100 "[2]" 3] int_floats_order
    by (auto simp: F n sample_annoy_filling(2))
  have "length asc = length (map (\<lambda>i. (item_dist sample_metric ix' [2] i, i)) [0 :: int, 1, 2])"
    using b(2) by (rule mset_eq_length)
  then have len: "length asc = 3" by simp
  have "set asc = set (map (\<lambda>i. (item_dist sample_metric ix' [2] i, i)) [0, 1, 2])" using b(2) by (rule mset_eq_setD)
  then have "snd ` set asc = {0, 1, 2}" by auto
  then show ?thesis using b(1,3) len by auto
qed

end
