(* ===== verification/Annoy_Wrapper.thy ===== *)
theory Annoy_Wrapper
  imports Annoy_Forest Hnsw_Index Vdb_Instances
begin

text \<open>
  annoy_index.cpp and annoy_index.h: the wrapper around the two instances of the Annoy index. An
  operation gives its result and the object it leaves, also when it throws; \<open>None\<close> stands for a
  call that does not return (see \<open>randomize_sides\<close>). Shown here: the object never follows its
  null pointer, a search returns what was inserted and not removed, nearest first, and an
  insertion after a search or a save leaves an object that cannot be searched or filled again.
\<close>

section \<open>The object\<close>

text \<open>What the wrapper takes from elsewhere: arithmetic, random numbers, the file layout, errno texts.\<close>

record ('r, 'g) annoy_env =
  ae_arith :: "'r annoy_arith"
  ae_rng :: "'g rng"
  ae_dump_l2 :: "'r e_node anode list \<Rightarrow> string"
  ae_undump_l2 :: "string \<Rightarrow> 'r e_node anode list option"
  ae_dump_ip :: "'r d_node anode list \<Rightarrow> string"
  ae_undump_ip :: "string \<Rightarrow> 'r d_node anode list option"
  ae_strerror :: string

definition l2_metric :: "('r, 'g) annoy_env \<Rightarrow> int \<Rightarrow> ('r e_node, 'r, 'g) metric" where
  "l2_metric E dim = Euclidean (ae_arith E) (ae_rng E) (ae_dump_l2 E) (ae_undump_l2 E) (nat dim)"

definition ip_metric :: "('r, 'g) annoy_env \<Rightarrow> int \<Rightarrow> ('r d_node, 'r, 'g) metric" where
  "ip_metric E dim = DotProduct (ae_arith E) (ae_rng E) (ae_dump_ip E) (ae_undump_ip E) (nat dim)"

record 'r AnnoyImpl =
  an_dim :: int
  an_metric :: MetricType
  n_trees :: int
  need_rebuild :: bool
  deleted_ids :: "int set"
  l2_index :: "'r e_node annoy option"
  ip_index :: "'r d_node annoy option"

definition create_index_by_metric :: "'r AnnoyImpl \<Rightarrow> 'r AnnoyImpl" where
  "create_index_by_metric a =
     (if an_metric a = L2 then a\<lparr>l2_index := Some AnnoyIndex_lib_new, ip_index := None\<rparr>
      else a\<lparr>ip_index := Some AnnoyIndex_lib_new, l2_index := None\<rparr>)"

definition AnnoyIndex_new :: "int \<Rightarrow> MetricType \<Rightarrow> int \<Rightarrow> 'r AnnoyImpl res" where
  "AnnoyIndex_new dim metric trees =
     (if dim \<le> 0 then Inl (Throw (Invalid_argument ''AnnoyIndex dim must be positive''))
      else Inr (create_index_by_metric
             \<lparr>an_dim = dim, an_metric = metric, n_trees = trees, need_rebuild = False, deleted_ids = {},
              l2_index = None, ip_index = None\<rparr>))"

section \<open>Calls of the library\<close>

text \<open>A step with a result, then another one unless it failed.\<close>

definition run_then ::
  "('a res \<times> 's) option \<Rightarrow> ('a \<Rightarrow> 's \<Rightarrow> ('b res \<times> 's) option) \<Rightarrow> ('b res \<times> 's) option" where
  "run_then m f = Option.bind m (\<lambda>(r, s). case r of Inl e \<Rightarrow> Some (Inl e, s) | Inr x \<Rightarrow> f x s)"

lemma run_then_simps [simp]:
  "run_then None f = None" "run_then (Some (Inl e, s)) f = Some (Inl e, s)" "run_then (Some (Inr x, s)) f = f x s"
  by (simp_all add: run_then_def)

text \<open>The value \<^verbatim>\<open>false\<close> with a message becomes an exception.\<close>

definition checked :: "string option \<Rightarrow> unit res" where
  "checked error = (case error of None \<Rightarrow> Inr () | Some msg \<Rightarrow> Inl (Throw (Runtime_error msg)))"

lemma checked_simps [simp]:
  "checked None = Inr ()" "checked (Some m) = Inl (Throw (Runtime_error m))"
  "checked e = Inr u \<longleftrightarrow> e = None"
  by (cases e; simp add: checked_def)+

definition on_index ::
  "('r, 'g) annoy_env
   \<Rightarrow> (('r e_node, 'r, 'g) metric \<Rightarrow> 'r e_node annoy \<Rightarrow> ('a res \<times> 'r e_node annoy) option)
   \<Rightarrow> (('r d_node, 'r, 'g) metric \<Rightarrow> 'r d_node annoy \<Rightarrow> ('a res \<times> 'r d_node annoy) option)
   \<Rightarrow> 'r AnnoyImpl \<Rightarrow> ('a res \<times> 'r AnnoyImpl) option" where
  "on_index E l2_call ip_call a =
     (if an_metric a = L2 then
        (case l2_index a of
           None \<Rightarrow> Some (Inl (Abort (Null_dereference ''l2_index_'')), a)
         | Some ix \<Rightarrow> Option.bind (l2_call (l2_metric E (an_dim a)) ix) (\<lambda>(r, ix). Some (r, a\<lparr>l2_index := Some ix\<rparr>)))
      else
        (case ip_index a of
           None \<Rightarrow> Some (Inl (Abort (Null_dereference ''ip_index_'')), a)
         | Some ix \<Rightarrow> Option.bind (ip_call (ip_metric E (an_dim a)) ix) (\<lambda>(r, ix). Some (r, a\<lparr>ip_index := Some ix\<rparr>))))"

section \<open>Operations\<close>

definition lib_build :: "int \<Rightarrow> ('n, 'r, 'g) metric \<Rightarrow> 'n annoy \<Rightarrow> (unit res \<times> 'n annoy) option" where
  "lib_build q M ix = Option.bind (annoy_build M q ix) (\<lambda>(error, ix). Some (checked error, ix))"

definition rebuild_if_needed :: "('r, 'g) annoy_env \<Rightarrow> 'r AnnoyImpl \<Rightarrow> (unit res \<times> 'r AnnoyImpl) option" where
  "rebuild_if_needed E a =
     (if \<not> need_rebuild a then Some (Inr (), a)
      else run_then (on_index E (lib_build (n_trees a)) (lib_build (n_trees a)) a)
             (\<lambda>_ a. Some (Inr (), a\<lparr>need_rebuild := False\<rparr>)))"

definition ensure_built :: "('r, 'g) annoy_env \<Rightarrow> 'r AnnoyImpl \<Rightarrow> (unit res \<times> 'r AnnoyImpl) option" where
  "ensure_built E a = rebuild_if_needed E a"

text \<open>\<^verbatim>\<open>static_cast<int>\<close> of a size.\<close>

definition size_int :: "'a list \<Rightarrow> int" where
  "size_int xs = sint (word_of_int (int (length xs)) :: 32 word)"

definition lib_add_item :: "int \<Rightarrow> 'r list \<Rightarrow> ('n, 'r, 'g) metric \<Rightarrow> 'n annoy \<Rightarrow> (unit res \<times> 'n annoy) option" where
  "lib_add_item item w M ix =
     Some (case add_item M item w ix of Inl e \<Rightarrow> (Inl e, ix) | Inr (error, ix) \<Rightarrow> (checked error, ix))"

definition annoy_insert_vectors ::
  "('r, 'g) annoy_env \<Rightarrow> 'r list \<Rightarrow> u64 \<Rightarrow> 'r AnnoyImpl \<Rightarrow> (unit res \<times> 'r AnnoyImpl) option" where
  "annoy_insert_vectors E data label a =
     (if size_int data \<noteq> an_dim a
      then Some (Inl (Throw (Invalid_argument ''AnnoyIndex insert vector dim mismatch'')), a)
      else
        let item = sint label in
        run_then (on_index E (lib_add_item item data) (lib_add_item item data) a)
          (\<lambda>_ a. Some (Inr (), a\<lparr>deleted_ids := deleted_ids a - {item}, need_rebuild := True\<rparr>)))"

definition annoy_remove_vectors :: "int list \<Rightarrow> 'r AnnoyImpl \<Rightarrow> 'r AnnoyImpl" where
  "annoy_remove_vectors ids a = a\<lparr>deleted_ids := deleted_ids a \<union> set ids\<rparr>"

definition lib_nns ::
  "'r list \<Rightarrow> nat \<Rightarrow> int \<Rightarrow> ('n, 'r, 'g) metric \<Rightarrow> 'n annoy \<Rightarrow> ((int list \<times> 'r list) res \<times> 'n annoy) option" where
  "lib_nns query n search_k M ix = Option.bind (get_all_nns M ix query n search_k) (\<lambda>r. Some (r, ix))"

text \<open>The loop over the candidates, which stops when \<open>k\<close> are kept, and the loop that pads.\<close>

fun keep_candidates :: "(int \<Rightarrow> bool) \<Rightarrow> int \<Rightarrow> (int \<times> 'r) list \<Rightarrow> int list \<Rightarrow> 'r list \<Rightarrow> int list \<times> 'r list" where
  "keep_candidates wanted k [] ids distances = (ids, distances)"
| "keep_candidates wanted k ((i, d) # cs) ids distances =
     (if \<not> int (length ids) < k then (ids, distances)
      else if \<not> wanted i then keep_candidates wanted k cs ids distances
      else keep_candidates wanted k cs (ids @ [i]) (distances @ [d]))"

definition pad_results :: "'r \<Rightarrow> int \<Rightarrow> int list \<times> 'r list \<Rightarrow> int list \<times> 'r list" where
  "pad_results pad k r =
     (let (ids, distances) = r; missing = nat k - length ids
      in (ids @ replicate missing (-1), distances @ replicate missing pad))"

definition annoy_wanted :: "'b croaring \<Rightarrow> 'b option \<Rightarrow> 'r AnnoyImpl \<Rightarrow> int \<Rightarrow> bool" where
  "annoy_wanted R bitmap a i \<longleftrightarrow>
     \<not> (i \<in> deleted_ids a) \<and> \<not> (case bitmap of None \<Rightarrow> False | Some b \<Rightarrow> \<not> rb_contains R b (word_of_int i))"

definition annoy_search_vectors ::
  "('r, 'g) annoy_env \<Rightarrow> 'b croaring \<Rightarrow> 'r list \<Rightarrow> int \<Rightarrow> 'b option \<Rightarrow> int \<Rightarrow> 'r AnnoyImpl
   \<Rightarrow> ((int list \<times> 'r list) res \<times> 'r AnnoyImpl) option" where
  "annoy_search_vectors E R query k bitmap search_k a =
     (if k \<le> 0 then Some (Inr ([], []), a)
      else if size_int query \<noteq> an_dim a
      then Some (Inl (Throw (Invalid_argument ''AnnoyIndex query vector dim mismatch'')), a)
      else run_then (rebuild_if_needed E a) (\<lambda>_ a.
        if k * 4 \<ge> 2 ^ 31 then Some (Inl (Abort Signed_overflow), a)
        else
          let candidate_k = nat (max (k * 4) k) in
          run_then (on_index E (lib_nns query candidate_k search_k) (lib_nns query candidate_k search_k) a)
            (\<lambda>(annoy_ids, annoy_distances) a.
               Some (Inr (pad_results (aa_infinity (ae_arith E)) k
                 (keep_candidates (annoy_wanted R bitmap a) k (zip annoy_ids annoy_distances) [] [])), a))))"

definition lib_save ::
  "string \<Rightarrow> string \<Rightarrow> filesys \<Rightarrow> ('n, 'r, 'g) metric \<Rightarrow> 'n annoy \<Rightarrow> ((string option \<times> filesys) res \<times> 'n annoy) option" where
  "lib_save strerror path fs M ix =
     (let (error, ix, fs) = annoy_save M strerror path (ix, fs) in Some (Inr (error, fs), ix))"

definition annoy_saveIndex ::
  "('r, 'g) annoy_env \<Rightarrow> string \<Rightarrow> 'r AnnoyImpl \<Rightarrow> filesys \<Rightarrow> (unit res \<times> 'r AnnoyImpl \<times> filesys) option" where
  "annoy_saveIndex E file_path a fs =
     Option.bind (run_then (rebuild_if_needed E a) (\<lambda>_.
         on_index E (lib_save (ae_strerror E) file_path fs) (lib_save (ae_strerror E) file_path fs)))
       (\<lambda>(r, a). Some (case r of Inl e \<Rightarrow> (Inl e, a, fs) | Inr (error, fs) \<Rightarrow> (checked error, a, fs)))"

definition lib_load :: "string \<Rightarrow> string \<Rightarrow> filesys \<Rightarrow> ('n, 'r, 'g) metric \<Rightarrow> 'n annoy \<Rightarrow> (unit res \<times> 'n annoy) option" where
  "lib_load strerror path fs M ix = (let (error, ix) = annoy_load M strerror fs path ix in Some (checked error, ix))"

definition annoy_loadIndex ::
  "('r, 'g) annoy_env \<Rightarrow> string \<Rightarrow> filesys \<Rightarrow> 'r AnnoyImpl \<Rightarrow> (unit res \<times> 'r AnnoyImpl) option" where
  "annoy_loadIndex E file_path fs a =
     (case fs_read fs file_path of
        None \<Rightarrow> Some (Inr (), a)
      | Some _ \<Rightarrow>
          run_then (on_index E (lib_load (ae_strerror E) file_path fs) (lib_load (ae_strerror E) file_path fs)
                      (create_index_by_metric a))
            (\<lambda>_ a. Some (Inr (), a\<lparr>deleted_ids := {}, need_rebuild := False\<rparr>)))"

section \<open>The pointers\<close>

text \<open>
  The dimension is positive and exactly the index of the metric exists. An index that was not
  built is being filled.
\<close>

definition annoy_typed :: "'r AnnoyImpl \<Rightarrow> bool" where
  "annoy_typed a \<longleftrightarrow> 0 < an_dim a \<and>
     (if an_metric a = L2 then ip_index a = None \<and> (\<exists>ix. l2_index a = Some ix \<and> (is_built ix \<or> filling ix))
      else l2_index a = None \<and> (\<exists>ix. ip_index a = Some ix \<and> (is_built ix \<or> filling ix)))"

lemma annoy_typed_update [simp]:
  "annoy_typed (a\<lparr>need_rebuild := b\<rparr>) = annoy_typed a" "annoy_typed (a\<lparr>deleted_ids := s\<rparr>) = annoy_typed a"
  by (simp_all add: annoy_typed_def)

lemma create_typed: "0 < an_dim a \<Longrightarrow> annoy_typed (create_index_by_metric a)"
  by (simp add: annoy_typed_def create_index_by_metric_def filling_new)

text \<open>A library call that keeps a sound index sound and gives a result with \<open>P\<close>.\<close>

definition sound_call ::
  "('a res \<Rightarrow> bool) \<Rightarrow> (('n, 'r, 'g) metric \<Rightarrow> 'n annoy \<Rightarrow> ('a res \<times> 'n annoy) option) \<Rightarrow> bool" where
  "sound_call P call \<longleftrightarrow> (\<forall>M ix r ix'. is_built ix \<or> filling ix \<longrightarrow> call M ix = Some (r, ix') \<longrightarrow> (is_built ix' \<or> filling ix') \<and> P r)"

lemma on_index_typed:
  assumes "annoy_typed a" "sound_call P f" "sound_call P g" "on_index E f g a = Some (r, a')"
  shows "annoy_typed a' \<and> P r \<and> an_dim a' = an_dim a \<and> an_metric a' = an_metric a \<and> deleted_ids a' = deleted_ids a"
proof (cases "an_metric a = L2")
  case True
  then obtain ix where ix: "l2_index a = Some ix" "is_built ix \<or> filling ix" using assms(1) by (auto simp: annoy_typed_def)
  then obtain ix' where c: "f (l2_metric E (an_dim a)) ix = Some (r, ix')" "a' = a\<lparr>l2_index := Some ix'\<rparr>"
    using assms(4) True by (auto simp: on_index_def bind_eq_Some_conv)
  have "(is_built ix' \<or> filling ix') \<and> P r" using assms(2) ix(2) c(1) unfolding sound_call_def by blast
  then show ?thesis using assms(1) True by (auto simp: c(2) annoy_typed_def)
next
  case False
  then obtain ix where ix: "ip_index a = Some ix" "is_built ix \<or> filling ix" using assms(1) by (auto simp: annoy_typed_def)
  then obtain ix' where c: "g (ip_metric E (an_dim a)) ix = Some (r, ix')" "a' = a\<lparr>ip_index := Some ix'\<rparr>"
    using assms(4) False by (auto simp: on_index_def bind_eq_Some_conv)
  have "(is_built ix' \<or> filling ix') \<and> P r" using assms(3) ix(2) c(1) unfolding sound_call_def by blast
  then show ?thesis using assms(1) False by (auto simp: c(2) annoy_typed_def)
qed

definition no_null :: "'a res \<Rightarrow> bool" where
  "no_null r \<longleftrightarrow> (\<forall>what. r \<noteq> Inl (Abort (Null_dereference what)))"

lemma no_null_simps [simp]:
  "no_null (Inr x)" "no_null (Inl (Throw e))" "no_null (checked m)" "no_null (Inl (Abort (Out_of_bounds w)))"
  "no_null (Inl (Abort Signed_overflow))"
  by (simp_all add: no_null_def checked_def split: option.split)

lemma annoy_build_built:
  "annoy_build M q ix = Some (e, ix') \<Longrightarrow>
   (case e of None \<Rightarrow> is_built ix' \<and> \<not> is_loaded ix \<and> \<not> is_built ix
    | Some m \<Rightarrow> ix' = ix \<and> (is_loaded ix \<or> is_built ix))"
  by (auto simp: annoy_build_def Let_def bind_eq_Some_conv split: if_splits)

lemma build_sound: "sound_call no_null (lib_build q)"
  unfolding sound_call_def lib_build_def
  by (auto simp: bind_eq_Some_conv dest!: annoy_build_built split: option.splits)

lemma add_item_errors:
  "add_item M item w ix = r \<Longrightarrow>
   (case r of Inl e \<Rightarrow> \<exists>what. e = Abort (Out_of_bounds what)
    | Inr (Some m, ix') \<Rightarrow> ix' = ix \<and> is_loaded ix
    | Inr (None, ix') \<Rightarrow> \<not> is_loaded ix \<and> is_loaded ix' = is_loaded ix \<and> is_built ix' = is_built ix)"
  by (auto simp: add_item_def put_node_def allocate_size_def Let_def)

lemma add_item_sound: "sound_call no_null (lib_add_item item w)"
  unfolding sound_call_def
proof (intro allI impI)
  fix M ix r ix'
  assume ok: "is_built ix \<or> filling ix" and c: "lib_add_item item w M ix = Some (r, ix')"
  show "(is_built ix' \<or> filling ix') \<and> no_null r"
  proof (cases "add_item M item w ix")
    case (Inl e)
    then show ?thesis using add_item_errors [OF Inl] ok c by (auto simp: lib_add_item_def)
  next
    case (Inr p)
    obtain e ix1 where p: "p = (e, ix1)" by (cases p)
    show ?thesis
      using add_item_errors [OF Inr] add_item_filling [of ix M item w e ix1] ok c
      by (auto simp: lib_add_item_def Inr p split: option.splits)
  qed
qed

lemma mapM_errors: "mapM f js = Inl e \<Longrightarrow> (\<And>j e. f j = Inl e \<Longrightarrow> P e) \<Longrightarrow> P e"
  by (induction js) (auto simp: res_simps)

lemma nns_dist_errors: "nns_dist M ix v js = Inl e \<Longrightarrow> e = Abort (Out_of_bounds ''_nodes'')"
  by (auto simp: nns_dist_def res_simps split: option.splits elim!: mapM_errors)

lemma search_loop_errors:
  assumes "search_loop M ix v sk q nns = Some (Inl e)"
  shows "e = Abort (Out_of_bounds ''_nodes'')"
proof -
  have "\<forall>e. Inl e = r \<longrightarrow> e = Abort (Out_of_bounds ''_nodes'')" if "search_loop M ix v sk q nns = Some r" for r
  proof (rule search_loop.raw_induct [OF _ that, where P = "\<lambda>M ix v sk q nns r. \<forall>e. Inl e = r \<longrightarrow> e = Abort (Out_of_bounds ''_nodes'')"], goal_cases)
    case (1 loop M ix v sk q nns r)
    show ?case
      using 1(2) by (auto simp: Let_def dest!: 1(1) split: if_splits list.splits prod.splits option.splits)
  qed
  then show ?thesis using assms by blast
qed

lemma nns_sound: "sound_call no_null (lib_nns v n sk)"
proof -
  have "no_null r" if "get_all_nns M ix v n sk = Some r" for M :: "('b, 'a, 'c) metric" and ix r
    using that unfolding get_all_nns_def Let_def
    by (auto simp: bind_eq_Some_conv no_null_def res_simps dest!: search_loop_errors nns_dist_errors)
  then show ?thesis unfolding sound_call_def lib_nns_def by (auto simp: bind_eq_Some_conv)
qed

lemma annoy_load_built:
  "annoy_load M s fs path ix = (e, ix') \<Longrightarrow> (case e of None \<Rightarrow> is_built ix' \<and> is_loaded ix' | Some m \<Rightarrow> ix' = ix)"
  by (auto simp: annoy_load_def Let_def split: option.splits if_splits prod.splits)

lemma load_sound: "sound_call no_null (lib_load s path fs)"
  unfolding sound_call_def lib_load_def
  by (auto dest!: annoy_load_built split: prod.splits option.splits)

lemma annoy_save_built:
  "annoy_save M s path (ix, fs) = (e, ix', fs') \<Longrightarrow> (is_built ix \<and> is_built ix') \<or> (\<not> is_built ix \<and> ix' = ix)"
  by (auto simp: annoy_save_def Let_def unload_def reinitialize_def dest!: annoy_load_built
      split: prod.splits if_splits option.splits)

lemma save_sound: "sound_call no_null (lib_save s path fs)"
  unfolding sound_call_def lib_save_def
  by (auto dest!: annoy_save_built split: prod.splits)

lemmas sound_calls = build_sound add_item_sound nns_sound load_sound save_sound

text \<open>The operations of the object on itself and the files.\<close>

datatype ('r, 'b) annoy_op =
    Insert_vectors "'r list" u64
  | Remove_vectors "int list"
  | Ensure_built
  | Search_vectors "'r list" int "'b option" int
  | Save_index string
  | Load_index string

text \<open>The outcome without the result.\<close>

definition annoy_call ::
  "('r, 'g) annoy_env \<Rightarrow> 'b croaring \<Rightarrow> ('r, 'b) annoy_op \<Rightarrow> 'r AnnoyImpl \<times> filesys \<Rightarrow> (unit res \<times> 'r AnnoyImpl \<times> filesys) option" where
  "annoy_call E R op s =
     (let (a, fs) = s; here = (\<lambda>(r, a). Some (andthen r (\<lambda>_. Inr ()), a, fs)) in
      case op of
        Insert_vectors data label \<Rightarrow> Option.bind (annoy_insert_vectors E data label a) here
      | Remove_vectors ids \<Rightarrow> Some (Inr (), annoy_remove_vectors ids a, fs)
      | Ensure_built \<Rightarrow> Option.bind (ensure_built E a) here
      | Search_vectors query k bitmap search_k \<Rightarrow>
          Option.bind (annoy_search_vectors E R query k bitmap search_k a)
            (\<lambda>(r, a). Some (andthen r (\<lambda>_. Inr ()), a, fs))
      | Save_index path \<Rightarrow> annoy_saveIndex E path a fs
      | Load_index path \<Rightarrow> Option.bind (annoy_loadIndex E path fs a) here)"

text \<open>What every operation keeps, for the state it leaves and the outcome.\<close>

definition annoy_kept :: "'r AnnoyImpl \<Rightarrow> 'r AnnoyImpl \<Rightarrow> bool" where
  "annoy_kept a a' \<longleftrightarrow> annoy_typed a' \<and> an_dim a' = an_dim a \<and> an_metric a' = an_metric a"

lemma annoy_kept_simps [simp]:
  "annoy_kept a (a'\<lparr>need_rebuild := b\<rparr>) = annoy_kept a a'" "annoy_kept a (a'\<lparr>deleted_ids := s\<rparr>) = annoy_kept a a'"
  "annoy_kept a a = annoy_typed a"
  by (simp_all add: annoy_kept_def)

lemma annoy_kept_trans: "annoy_kept a b \<Longrightarrow> annoy_kept b c \<Longrightarrow> annoy_kept a c"
  by (simp add: annoy_kept_def)

definition keeps :: "'r AnnoyImpl \<Rightarrow> ('a res \<times> 'r AnnoyImpl) option \<Rightarrow> bool" where
  "keeps a m \<longleftrightarrow> (\<forall>r a'. m = Some (r, a') \<longrightarrow> annoy_kept a a' \<and> no_null r)"

lemma keepsD: "keeps a m \<Longrightarrow> m = Some (r, a') \<Longrightarrow> annoy_kept a a' \<and> no_null r"
  by (simp add: keeps_def)

lemma keeps_Some [simp]: "keeps a (Some (r, a')) \<longleftrightarrow> annoy_kept a a' \<and> no_null r"
  by (simp add: keeps_def)

lemma keeps_run_then:
  assumes "keeps a m" "\<And>x a'. m = Some (Inr x, a') \<Longrightarrow> annoy_kept a a' \<Longrightarrow> keeps a' (f x a')"
  shows "keeps a (run_then m f)"
  unfolding keeps_def
proof (intro allI impI)
  fix r a' assume *: "run_then m f = Some (r, a')"
  then obtain r1 a1 where m: "m = Some (r1, a1)" by (cases m) auto
  show "annoy_kept a a' \<and> no_null r"
  proof (cases r1)
    case (Inl e)
    then show ?thesis using keepsD [OF assms(1) m] * by (auto simp: m no_null_def)
  next
    case (Inr x)
    then show ?thesis
      using assms(2) [of x a1] keepsD [OF assms(1) m] * by (auto simp: m keeps_def intro: annoy_kept_trans)
  qed
qed

lemma keeps_on_index:
  "annoy_typed a \<Longrightarrow> sound_call no_null f \<Longrightarrow> sound_call no_null g \<Longrightarrow> keeps a (on_index E f g a)"
  unfolding keeps_def annoy_kept_def by (blast dest: on_index_typed)

lemma keeps_rebuild: "annoy_typed a \<Longrightarrow> keeps a (rebuild_if_needed E a)"
  unfolding rebuild_if_needed_def
  by (auto intro!: keeps_run_then keeps_on_index build_sound) (auto simp: annoy_kept_def)

lemma keeps_insert: "annoy_typed a \<Longrightarrow> keeps a (annoy_insert_vectors E data label a)"
  unfolding annoy_insert_vectors_def Let_def
  by (auto intro!: keeps_run_then keeps_on_index add_item_sound) (auto simp: annoy_kept_def)

lemma keeps_search: "annoy_typed a \<Longrightarrow> keeps a (annoy_search_vectors E R query k bitmap search_k a)"
  unfolding annoy_search_vectors_def Let_def
  by (auto intro!: keeps_run_then keeps_rebuild keeps_on_index nns_sound) (auto simp: annoy_kept_def)

lemma keeps_load:
  assumes "annoy_typed a"
  shows "keeps a (annoy_loadIndex E path fs a)"
proof -
  let ?c = "create_index_by_metric a"
  have c: "annoy_typed ?c" "an_dim ?c = an_dim a" "an_metric ?c = an_metric a"
    using assms create_typed [of a] by (auto simp: annoy_typed_def create_index_by_metric_def)
  let ?m = "run_then (on_index E (lib_load (ae_strerror E) path fs) (lib_load (ae_strerror E) path fs) ?c)
            (\<lambda>_ a. Some (Inr (), a\<lparr>deleted_ids := {}, need_rebuild := False\<rparr>))"
  have "keeps ?c ?m"
    by (rule keeps_run_then [OF keeps_on_index [OF c(1) load_sound load_sound]])
      (simp only: keeps_Some annoy_kept_simps no_null_simps, simp only: annoy_kept_def)
  then have m: "keeps a ?m" unfolding keeps_def annoy_kept_def c(2,3) .
  show ?thesis
  proof (cases "fs_read fs path")
    case None
    then show ?thesis using assms by (simp add: annoy_loadIndex_def)
  next
    case (Some bytes)
    then have "annoy_loadIndex E path fs a = ?m" by (simp add: annoy_loadIndex_def)
    then show ?thesis using m by (simp only:)
  qed
qed

lemma save_kept:
  assumes "annoy_typed a" "annoy_saveIndex E path a fs = Some (r, a', fs')"
  shows "annoy_kept a a' \<and> no_null r"
proof -
  let ?m = "run_then (rebuild_if_needed E a) (\<lambda>_.
         on_index E (lib_save (ae_strerror E) path fs) (lib_save (ae_strerror E) path fs))"
  have "keeps a ?m"
    by (rule keeps_run_then [OF keeps_rebuild [OF assms(1)]])
      (rule keeps_on_index [OF _ save_sound save_sound], simp add: annoy_kept_def)
  moreover obtain q a1 where m: "?m = Some (q, a1)"
    and q: "(case q of Inl e \<Rightarrow> (Inl e, a1, fs) | Inr (error, fs) \<Rightarrow> (checked error, a1, fs)) = (r, a', fs')"
    using assms(2) unfolding annoy_saveIndex_def bind_eq_Some_conv by auto
  ultimately have "annoy_kept a a1" "no_null q" using keepsD [of a ?m q a1] by blast+
  then show ?thesis using q by (cases q) (auto simp: no_null_def checked_def split: option.splits)
qed

lemma annoy_call_kept:
  assumes "annoy_typed a" "annoy_call E R op (a, fs) = Some (r, a', fs')"
  shows "annoy_kept a a' \<and> no_null r"
proof -
  have "no_null (andthen r (\<lambda>_. Inr ()))" if "no_null r" for r :: "'x res"
    using that by (cases r) (auto simp: no_null_def)
  note outcome = this
  show ?thesis
  proof (cases op)
    case (Remove_vectors ids)
    then show ?thesis using assms by (auto simp: annoy_call_def annoy_remove_vectors_def)
  next
    case (Save_index path)
    then show ?thesis using assms save_kept by (fastforce simp: annoy_call_def)
  qed (use assms keepsD [OF keeps_insert] keepsD [OF keeps_rebuild] keepsD [OF keeps_search] keepsD [OF keeps_load] outcome in
        \<open>fastforce simp: annoy_call_def bind_eq_Some_conv ensure_built_def\<close>)+
qed

inductive annoy_reachable ::
  "('r, 'g) annoy_env \<Rightarrow> 'b croaring \<Rightarrow> int \<Rightarrow> MetricType \<Rightarrow> int \<Rightarrow> 'r AnnoyImpl \<times> filesys \<Rightarrow> bool"
  for E R dim metric trees where
  reach_new: "AnnoyIndex_new dim metric trees = Inr a \<Longrightarrow> annoy_reachable E R dim metric trees (a, fs)"
| reach_call: "annoy_reachable E R dim metric trees s \<Longrightarrow> annoy_call E R op s = Some (r, s') \<Longrightarrow>
    annoy_reachable E R dim metric trees s'"

lemma reachable_typed:
  "annoy_reachable E R dim metric trees s \<Longrightarrow> annoy_typed (fst s) \<and> an_dim (fst s) = dim \<and> an_metric (fst s) = metric"
proof (induction rule: annoy_reachable.induct)
  case (reach_new a fs)
  then have "0 < dim" and a: "a = create_index_by_metric
    \<lparr>an_dim = dim, an_metric = metric, n_trees = trees, need_rebuild = False, deleted_ids = {}, l2_index = None, ip_index = None\<rparr>"
    by (auto simp: AnnoyIndex_new_def split: if_splits)
  then show ?case by (simp add: create_typed) (simp add: create_index_by_metric_def)
next
  case (reach_call s op r s')
  obtain a fs a' fs' where s: "s = (a, fs)" "s' = (a', fs')" by (cases s; cases s')
  show ?case using annoy_call_kept [of a E R op fs r a' fs'] reach_call by (auto simp: s annoy_kept_def)
qed

section \<open>What a search returns\<close>

lemma run_then_eq_Some:
  "run_then m f = Some (r, s') \<longleftrightarrow>
   (\<exists>e. m = Some (Inl e, s') \<and> r = Inl e) \<or> (\<exists>x s. m = Some (Inr x, s) \<and> f x s = Some (r, s'))"
proof (cases m)
  case (Some p)
  obtain q s where p: "p = (q, s)" by (cases p)
  show ?thesis by (cases q) (auto simp: Some p)
qed simp

lemma keep_candidates_eq:
  assumes "int (length ids) \<le> k"
  shows "keep_candidates wanted k cs ids ds =
    (let kept = take (nat k - length ids) (filter (\<lambda>c. wanted (fst c)) cs) in (ids @ map fst kept, ds @ map snd kept))"
  using assms
proof (induction wanted k cs ids ds rule: keep_candidates.induct)
  case (2 wanted k i d cs ids ds)
  show ?case
  proof (cases "int (length ids) < k \<and> wanted i")
    case True
    then have "nat k - length ids = Suc (nat k - Suc (length ids))" by linarith
    then show ?thesis using 2 True by (simp add: Let_def)
  qed (use 2 in auto)
qed simp

lemma on_index_fields:
  "on_index E f g a = Some (r, a') \<Longrightarrow>
   deleted_ids a' = deleted_ids a \<and> an_dim a' = an_dim a \<and> an_metric a' = an_metric a \<and>
   n_trees a' = n_trees a \<and> need_rebuild a' = need_rebuild a"
  by (auto simp: on_index_def bind_eq_Some_conv split: if_splits option.splits)

lemma rebuild_cases:
  assumes "rebuild_if_needed E a = Some (r, a')"
  obtains "\<not> need_rebuild a" "a' = a" "r = Inr ()"
  | e where "need_rebuild a" "on_index E (lib_build (n_trees a)) (lib_build (n_trees a)) a = Some (Inl e, a')" "r = Inl e"
  | a1 where "need_rebuild a" "on_index E (lib_build (n_trees a)) (lib_build (n_trees a)) a = Some (Inr (), a1)"
      "a' = a1\<lparr>need_rebuild := False\<rparr>" "r = Inr ()"
  using assms that unfolding rebuild_if_needed_def by (auto simp: run_then_eq_Some split: if_splits)

lemma rebuild_fields:
  assumes "rebuild_if_needed E a = Some (r, a')"
  shows "deleted_ids a' = deleted_ids a" "an_dim a' = an_dim a"
  by (rule rebuild_cases [OF assms]; (drule on_index_fields)?; simp)+

lemma wanted_cong: "deleted_ids a' = deleted_ids a \<Longrightarrow> annoy_wanted R bm a' = annoy_wanted R bm a"
  by (simp add: annoy_wanted_def fun_eq_iff)

lemma search_cases:
  assumes "annoy_search_vectors E R query k bm search_k a = Some (Inr r, a')" "0 < k"
  obtains a1 js xs where "rebuild_if_needed E a = Some (Inr (), a1)"
    "on_index E (lib_nns query (nat (max (k * 4) k)) search_k) (lib_nns query (nat (max (k * 4) k)) search_k) a1 = Some (Inr (js, xs), a')"
    "r = pad_results (aa_infinity (ae_arith E)) k (keep_candidates (annoy_wanted R bm a') k (zip js xs) [] [])"
  using assms that unfolding annoy_search_vectors_def Let_def by (simp add: run_then_eq_Some split: if_splits) blast

lemma search_kept:
  assumes "annoy_search_vectors E R query k bm search_k a = Some (Inr r, a')" "0 < k"
  obtains cs where "r = pad_results (aa_infinity (ae_arith E)) k (keep_candidates (annoy_wanted R bm a) k cs [] [])"
proof -
  obtain a1 js xs where *: "rebuild_if_needed E a = Some (Inr (), a1)"
    "on_index E (lib_nns query (nat (max (k * 4) k)) search_k) (lib_nns query (nat (max (k * 4) k)) search_k) a1 = Some (Inr (js, xs), a')"
    "r = pad_results (aa_infinity (ae_arith E)) k (keep_candidates (annoy_wanted R bm a') k (zip js xs) [] [])"
    using assms by (rule search_cases)
  have "deleted_ids a' = deleted_ids a" using rebuild_fields(1) [OF *(1)] on_index_fields [OF *(2)] by simp
  then have "annoy_wanted R bm a' = annoy_wanted R bm a" by (rule wanted_cong)
  then show thesis using that [of "zip js xs"] *(3) by (simp only:)
qed

section \<open>Insertion after a build\<close>

lemma on_index_cases:
  assumes "on_index E f g a = Some (r, a')"
  shows "(\<exists>what. r = Inl (Abort (Null_dereference what)) \<and> a' = a) \<or>
    (\<exists>ix ix'. an_metric a = L2 \<and> l2_index a = Some ix \<and> f (l2_metric E (an_dim a)) ix = Some (r, ix') \<and> a' = a\<lparr>l2_index := Some ix'\<rparr>) \<or>
    (\<exists>ix ix'. an_metric a \<noteq> L2 \<and> ip_index a = Some ix \<and> g (ip_metric E (an_dim a)) ix = Some (r, ix') \<and> a' = a\<lparr>ip_index := Some ix'\<rparr>)"
  using assms by (auto simp: on_index_def bind_eq_Some_conv split: if_splits option.splits)

text \<open>An index that was built, and items were added since.\<close>

definition stuck :: "'r AnnoyImpl \<Rightarrow> bool" where
  "stuck a \<longleftrightarrow> need_rebuild a \<and>
     (if an_metric a = L2 then (\<exists>ix. l2_index a = Some ix \<and> is_built ix \<and> \<not> is_loaded ix)
      else (\<exists>ix. ip_index a = Some ix \<and> is_built ix \<and> \<not> is_loaded ix))"

abbreviation build_twice :: failure where
  "build_twice \<equiv> Throw (Runtime_error ''You can't build a built index'')"

lemma stuck_rebuild: "stuck a \<Longrightarrow> rebuild_if_needed E a = Some (Inl build_twice, a)"
  by (auto simp: stuck_def rebuild_if_needed_def on_index_def lib_build_def annoy_build_def split: if_splits)

definition index_built :: "'r AnnoyImpl \<Rightarrow> bool" where
  "index_built a \<longleftrightarrow> (if an_metric a = L2 then (\<exists>ix. l2_index a = Some ix \<and> is_built ix)
     else (\<exists>ix. ip_index a = Some ix \<and> is_built ix))"

lemma rebuild_built:
  assumes "need_rebuild a" "rebuild_if_needed E a = Some (Inr u, a1)"
  shows "index_built a1"
  using assms(2)
proof (rule rebuild_cases)
  fix a' assume a': "on_index E (lib_build (n_trees a)) (lib_build (n_trees a)) a = Some (Inr (), a')"
      "a1 = a'\<lparr>need_rebuild := False\<rparr>"
  from on_index_cases [OF a'(1)] show ?thesis
    by (auto simp: a'(2) index_built_def lib_build_def bind_eq_Some_conv dest!: annoy_build_built)
qed (use assms(1) in auto)

lemma lib_add_item_ok:
  "lib_add_item item w M ix = Some (Inr u, ix') \<Longrightarrow> \<not> is_loaded ix' \<and> is_built ix' = is_built ix"
  using add_item_errors [of M item w ix "add_item M item w ix"]
  by (auto simp: lib_add_item_def split: sum.splits)

lemma insert_cases:
  assumes "annoy_insert_vectors E data label a = Some (Inr u, a')"
  obtains a1 where "on_index E (lib_add_item (sint label) data) (lib_add_item (sint label) data) a = Some (Inr (), a1)"
      "a' = a1\<lparr>deleted_ids := deleted_ids a1 - {sint label}, need_rebuild := True\<rparr>"
  using assms that unfolding annoy_insert_vectors_def Let_def by (simp add: run_then_eq_Some split: if_splits) blast

lemma insert_stuck:
  assumes "index_built a" "annoy_insert_vectors E data label a = Some (Inr u, a')"
  shows "stuck a'" "an_dim a' = an_dim a"
proof -
  obtain a1 where a1: "on_index E (lib_add_item (sint label) data) (lib_add_item (sint label) data) a = Some (Inr (), a1)"
      "a' = a1\<lparr>deleted_ids := deleted_ids a1 - {sint label}, need_rebuild := True\<rparr>"
    using assms(2) by (rule insert_cases)
  from on_index_cases [OF a1(1)] show "stuck a'"
    using assms(1) by (auto simp: a1(2) stuck_def index_built_def dest!: lib_add_item_ok)
  show "an_dim a' = an_dim a" using on_index_fields [OF a1(1)] by (simp add: a1(2))
qed

text \<open>An index that is not loaded takes every vector of its dimension under a non-negative label.\<close>

definition index_loaded :: "'r AnnoyImpl \<Rightarrow> bool" where
  "index_loaded a \<longleftrightarrow> (if an_metric a = L2 then (\<exists>ix. l2_index a = Some ix \<and> is_loaded ix)
     else (\<exists>ix. ip_index a = Some ix \<and> is_loaded ix))"

lemma lib_add_item_returns:
  assumes "\<not> is_loaded ix" "0 \<le> item" "mt_f M \<le> length w"
  shows "\<exists>ix'. lib_add_item item w M ix = Some (Inr (), ix')"
  using assms by (simp add: lib_add_item_def add_item_def Let_def)

lemma sint_label_nonneg:
  assumes "(label :: u64) < 2 ^ 63"
  shows "0 \<le> sint label"
proof -
  have "uint label < 2 ^ 63" using assms by (simp add: word_less_def)
  moreover have "- (2 ^ 63) \<le> uint label" by (rule order_trans [OF _ uint_ge_0]) simp
  ultimately have "signed_take_bit 63 (uint label) = uint label" by (intro signed_take_bit_int_eq_self)
  then show ?thesis by (simp add: sint_uint del: signed_take_bit_nonnegative_iff)
qed

lemma uint_sint_nonneg:
  assumes "sint (w :: 32 word) = d" "0 \<le> d"
  shows "uint w = d"
proof -
  have u: "0 \<le> uint w" "uint w < 2 ^ 32" using uint_lt2p [of w] by simp_all
  then have "take_bit 32 (uint w) = uint w" by (intro take_bit_int_eq_self)
  then have "d = uint w - 2 ^ 32 * of_bool (bit (uint w) 31)"
    using assms(1) by (simp add: sint_uint signed_take_bit_eq_take_bit_minus)
  then show ?thesis using u assms(2) by (cases "bit (uint w) 31") auto
qed

lemma metric_size: "mt_f (l2_metric E d) = nat d" "mt_f (ip_metric E d) = nat d"
  by (simp_all add: l2_metric_def ip_metric_def Euclidean_def DotProduct_def Let_def)

lemma size_int_le:
  assumes "size_int xs = d" "0 \<le> d"
  shows "nat d \<le> length xs"
proof -
  let ?w = "word_of_int (int (length xs)) :: 32 word"
  have "sint ?w = d" using assms(1) by (simp add: size_int_def)
  then have "uint ?w = d" using assms(2) uint_sint_nonneg by blast
  moreover have "uint ?w = int (length xs) mod 2 ^ 32" by (subst uint_word_of_int) simp
  ultimately have "d = int (length xs) mod 2 ^ 32" by simp
  then have "d \<le> int (length xs)" by (simp add: zmod_le_nonneg_dividend)
  then show ?thesis by simp
qed

lemma insert_returns:
  assumes "index_built a" "\<not> index_loaded a" "size_int data = an_dim a" "0 \<le> an_dim a" "label < 2 ^ 63"
  shows "\<exists>a'. annoy_insert_vectors E data label a = Some (Inr (), a')"
proof -
  have d: "nat (an_dim a) \<le> length data" using size_int_le [OF assms(3,4)] .
  have "\<exists>a'. on_index E (lib_add_item (sint label) data) (lib_add_item (sint label) data) a = Some (Inr (), a')"
  proof (cases "an_metric a = L2")
    case True
    then obtain ix where ix: "l2_index a = Some ix" "\<not> is_loaded ix"
      using assms(1,2) by (auto simp: index_built_def index_loaded_def)
    have "mt_f (l2_metric E (an_dim a)) \<le> length data" using d by (simp add: metric_size)
    from lib_add_item_returns [OF ix(2) sint_label_nonneg [OF assms(5)] this]
    show ?thesis using True ix(1) by (auto simp: on_index_def)
  next
    case False
    then obtain ix where ix: "ip_index a = Some ix" "\<not> is_loaded ix"
      using assms(1,2) by (auto simp: index_built_def index_loaded_def)
    have "mt_f (ip_metric E (an_dim a)) \<le> length data" using d by (simp add: metric_size)
    from lib_add_item_returns [OF ix(2) sint_label_nonneg [OF assms(5)] this]
    show ?thesis using False ix(1) by (auto simp: on_index_def)
  qed
  then show ?thesis using assms(3) by (auto simp: annoy_insert_vectors_def Let_def)
qed

lemma insert_deleted:
  assumes "annoy_insert_vectors E data label a = Some (Inr u, a')"
  shows "deleted_ids a' = deleted_ids a - {sint label}"
  by (rule insert_cases [OF assms]) (use on_index_fields in force)

lemma stuck_calls:
  assumes "stuck a"
  shows "ensure_built E a = Some (Inl build_twice, a)"
    and "0 < k \<Longrightarrow> size_int query = an_dim a \<Longrightarrow> annoy_search_vectors E R query k bm search_k a = Some (Inl build_twice, a)"
    and "annoy_saveIndex E path a fs = Some (Inl build_twice, a, fs)"
  using assms by (simp_all add: ensure_built_def annoy_search_vectors_def annoy_saveIndex_def stuck_rebuild)

section \<open>Search of a filled index\<close>

lemma rebuild_l2:
  assumes "need_rebuild a" "an_metric a = L2" "l2_index a = Some ix" "annoy_build (l2_metric E (an_dim a)) (n_trees a) ix = Some (None, ix')"
  shows "rebuild_if_needed E a = Some (Inr (), a\<lparr>l2_index := Some ix', need_rebuild := False\<rparr>)"
  using assms by (simp add: rebuild_if_needed_def on_index_def lib_build_def)

lemma search_l2:
  assumes "need_rebuild a" "an_metric a = L2" "l2_index a = Some ix" "annoy_build (l2_metric E (an_dim a)) (n_trees a) ix = Some (None, ix')"
    and "0 < k" "k * 4 < 2 ^ 31" "size_int query = an_dim a"
    and "get_all_nns (l2_metric E (an_dim a)) ix' query (nat (k * 4)) search_k = Some (Inr (map snd best, map (\<lambda>p. f (fst p)) best))"
  shows "annoy_search_vectors E R query k bm search_k a =
    Some (Inr (let kept = take (nat k) (filter (\<lambda>p. annoy_wanted R bm a (snd p)) best)
               in pad_results (aa_infinity (ae_arith E)) k (map snd kept, map (\<lambda>p. f (fst p)) kept)),
          a\<lparr>l2_index := Some ix', need_rebuild := False\<rparr>)"
proof -
  have z: "zip (map snd best) (map (\<lambda>p. f (fst p)) best) = map (\<lambda>p. (snd p, f (fst p))) best"
    by (simp add: zip_map_map zip_same_conv_map)
  have wanted: "annoy_wanted R bm (a\<lparr>l2_index := i, need_rebuild := b\<rparr>) = annoy_wanted R bm a"
    "annoy_wanted R bm (a\<lparr>need_rebuild := b, l2_index := i\<rparr>) = annoy_wanted R bm a" for i b
    by (rule wanted_cong, simp)+
  have m: "max (k * 4) k = k * 4" using assms(5) by simp
  show ?thesis
    using assms(5-7)
    by (simp add: annoy_search_vectors_def rebuild_l2 [OF assms(1-4)] m on_index_def assms(2) lib_nns_def assms(8)
        z keep_candidates_eq filter_map comp_def take_map Let_def wanted)
qed


section \<open>Properties\<close>

text \<open>
  From its construction on, through any sequence of calls that return, an Annoy index holds
  exactly the library index of its metric, and no call follows a null pointer.
\<close>

theorem annoy_pointers_safe:
  assumes "annoy_reachable E R dim metric trees (a, fs)"
  shows "(if metric = L2 then l2_index a \<noteq> None \<and> ip_index a = None else ip_index a \<noteq> None \<and> l2_index a = None) \<and>
    (\<forall>op r s. annoy_call E R op (a, fs) \<noteq> Some (Inl (Abort (Null_dereference r)), s))"
proof -
  have t: "annoy_typed a" "an_metric a = metric" using reachable_typed [OF assms] by auto
  have "annoy_call E R op (a, fs) \<noteq> Some (Inl (Abort (Null_dereference r)), s)" for op r s
  proof
    assume *: "annoy_call E R op (a, fs) = Some (Inl (Abort (Null_dereference r)), s)"
    obtain a' fs' where s: "s = (a', fs')" by (cases s)
    show False using annoy_call_kept [OF t(1) * [unfolded s]] by (simp add: no_null_def)
  qed
  then show ?thesis using t by (auto simp: annoy_typed_def)
qed

text \<open>
  An Annoy search for \<open>k > 0\<close> that returns answers with exactly \<open>k\<close> slots: first ids that are
  neither removed nor outside the bitmap, then \<open>-1\<close> with infinity. It changes no removed id.
\<close>

theorem annoy_search_slots:
  assumes "0 < k" "annoy_search_vectors E R query k bm search_k a = Some (Inr (ids, ds), a')"
  shows "\<exists>hits. length hits \<le> nat k \<and>
    ids = map fst hits @ replicate (nat k - length hits) (-1) \<and>
    ds = map snd hits @ replicate (nat k - length hits) (aa_infinity (ae_arith E)) \<and>
    (\<forall>(i, d) \<in> set hits. i \<notin> deleted_ids a \<and> (case bm of None \<Rightarrow> True | Some b \<Rightarrow> rb_contains R b (word_of_int i)))"
proof -
  obtain cs where "(ids, ds) = pad_results (aa_infinity (ae_arith E)) k (keep_candidates (annoy_wanted R bm a) k cs [] [])"
    using search_kept [OF assms(2,1)] .
  moreover define hits where "hits = take (nat k) (filter (\<lambda>c. annoy_wanted R bm a (fst c)) cs)"
  ultimately have "ids = map fst hits @ replicate (nat k - length hits) (-1)"
    "ds = map snd hits @ replicate (nat k - length hits) (aa_infinity (ae_arith E))"
    using assms(1) by (simp_all add: keep_candidates_eq pad_results_def Let_def)
  moreover have "length hits \<le> nat k" by (simp add: hits_def)
  moreover have "\<forall>(i, d) \<in> set hits. i \<notin> deleted_ids a \<and> (case bm of None \<Rightarrow> True | Some b \<Rightarrow> rb_contains R b (word_of_int i))"
    by (cases bm) (auto simp: hits_def annoy_wanted_def dest!: in_set_takeD)
  ultimately show ?thesis by blast
qed

text \<open>
  C31. An Annoy index that was built by a search or by \<^verbatim>\<open>ensure_built\<close>, not loaded from a file,
  accepts every insert of a vector of its dimension under a label below \<open>2 ^ 63\<close>: the insert returns
  and takes the label out of the removed ids. It leaves an object in which every later build, search
  and save throws and changes nothing: the library builds an index only once and the wrapper never
  unbuilds it.
\<close>

theorem insert_after_build_breaks_index:
  assumes "need_rebuild a" "ensure_built E a = Some (Inr (), a1)" "\<not> index_loaded a1"
    and "size_int data = an_dim a" "0 \<le> an_dim a" "label < 2 ^ 63"
  shows "\<exists>a2. annoy_insert_vectors E data label a1 = Some (Inr (), a2) \<and>
    deleted_ids a2 = deleted_ids a - {sint label} \<and>
    ensure_built E a2 = Some (Inl (Throw (Runtime_error ''You can't build a built index'')), a2) \<and>
    (\<forall>R query k bm search_k. 0 < k \<and> size_int query = an_dim a \<longrightarrow>
      annoy_search_vectors E R query k bm search_k a2 = Some (Inl (Throw (Runtime_error ''You can't build a built index'')), a2)) \<and>
    (\<forall>path fs. annoy_saveIndex E path a2 fs = Some (Inl (Throw (Runtime_error ''You can't build a built index'')), a2, fs))"
proof -
  have r: "rebuild_if_needed E a = Some (Inr (), a1)" using assms(2) by (simp add: ensure_built_def)
  note b = rebuild_built [OF assms(1) r]
  obtain a2 where i: "annoy_insert_vectors E data label a1 = Some (Inr (), a2)"
    using insert_returns [OF b assms(3)] assms(4-6) rebuild_fields(2) [OF r] by metis
  note s = insert_stuck [OF b i]
  have "an_dim a2 = an_dim a" using rebuild_fields(2) [OF r] s(2) by simp
  then show ?thesis
    using i insert_deleted [OF i] rebuild_fields(1) [OF r] stuck_calls [OF s(1)] by (intro exI [of _ a2]) auto
qed

text \<open>
  C32. The first search of a freshly filled Annoy L2 index whose \<^verbatim>\<open>search_k\<close> is larger than the number of
  trees times the number of items builds it and answers from the \<open>4 k\<close> nearest of all items ever
  inserted: of those, the first \<open>k\<close> that are neither removed nor outside the bitmap, nearest first,
  padded to \<open>k\<close>. Wanted items beyond the \<open>4 k\<close> nearest are not looked at, so it may answer fewer than \<open>k\<close>
  although more exist. With the default \<open>search_k = -1\<close> the library looks at \<open>n * trees\<close> items only
  and the answer is approximate: this theorem does not speak of it. The other hypotheses: the
  generator's draws split every set of items after finitely many attempts (in \<open>metric_ok\<close>), and the
  comparison orders the distances (no NaN among them).
\<close>

theorem annoy_first_search_exact:
  assumes "annoy_reachable E R dim L2 trees (a, fs)" "need_rebuild a" "l2_index a = Some ix" "\<not> is_built ix"
    and "metric_ok (l2_metric E dim)" "1 \<le> n_trees a" "n_trees a < 2 ^ 31" "n_trees a * n_items ix < search_k" "search_k < 2 ^ 31"
    and "0 < k" "k * 4 < 2 ^ 31" "size_int query = dim"
    and "\<And>ix'. annoy_build (l2_metric E dim) (n_trees a) ix = Some (None, ix') \<Longrightarrow>
      float_order_on (aa_fl (ae_arith E)) (item_dist (l2_metric E dim) ix' query ` set (present_items ix))"
  shows "\<exists>ix' asc kept. annoy_build (l2_metric E dim) (n_trees a) ix = Some (None, ix') \<and>
    mset asc = mset (map (\<lambda>i. (item_dist (l2_metric E dim) ix' query i, i)) (present_items ix)) \<and>
    sorted_wrt (pair_lt (aa_fl (ae_arith E))) asc \<and>
    kept = take (nat k) (filter (\<lambda>p. annoy_wanted R bm a (snd p)) (take (nat (k * 4)) asc)) \<and>
    annoy_search_vectors E R query k bm search_k a =
      Some (Inr (map snd kept @ replicate (nat k - length kept) (-1),
                 map (\<lambda>p. mt_normalized_distance (l2_metric E dim) (fst p)) kept @
                   replicate (nat k - length kept) (aa_infinity (ae_arith E))),
            a\<lparr>l2_index := Some ix', need_rebuild := False\<rparr>)"
proof -
  let ?M = "l2_metric E dim"
  have t: "annoy_typed a" "an_metric a = L2" "an_dim a = dim" using reachable_typed [OF assms(1)] by auto
  have fill: "filling ix" using t assms(3,4) by (auto simp: annoy_typed_def)
  have F: "mt_fl ?M = aa_fl (ae_arith E)" by (simp add: l2_metric_def)
  obtain ix' asc where b: "annoy_build ?M (n_trees a) ix = Some (None, ix')"
      "mset asc = mset (map (\<lambda>i. (item_dist ?M ix' query i, i)) (present_items ix))" "sorted_wrt (pair_lt (aa_fl (ae_arith E))) asc"
      "get_all_nns ?M ix' query (nat (k * 4)) search_k =
        Some (Inr (map snd (take (nat (k * 4)) asc), map (\<lambda>p. mt_normalized_distance ?M (fst p)) (take (nat (k * 4)) asc)))"
    using build_then_search [OF assms(5) fill assms(6-9), of query "nat (k * 4)"] assms(13) by (auto simp: F)
  have "annoy_search_vectors E R query k bm search_k a =
    Some (Inr (let kept = take (nat k) (filter (\<lambda>p. annoy_wanted R bm a (snd p)) (take (nat (k * 4)) asc))
               in pad_results (aa_infinity (ae_arith E)) k (map snd kept, map (\<lambda>p. mt_normalized_distance ?M (fst p)) kept)),
          a\<lparr>l2_index := Some ix', need_rebuild := False\<rparr>)"
    by (rule search_l2) (use assms(2,3,10,11,12) t b in simp_all)
  then show ?thesis using b(1-3) by (simp add: pad_results_def Let_def del: map_map) blast
qed


section \<open>A small index\<close>

definition sample_annoy_env :: "(int, bool) annoy_env" where
  "sample_annoy_env = \<lparr>ae_arith = int_arith, ae_rng = alternate, ae_dump_l2 = (\<lambda>nds. []), ae_undump_l2 = (\<lambda>s. None),
     ae_dump_ip = (\<lambda>nds. []), ae_undump_ip = (\<lambda>s. None), ae_strerror = ''''\<rparr>"

lemma sample_l2 [simp]: "l2_metric sample_annoy_env 1 = sample_metric"
  by (simp add: l2_metric_def sample_annoy_env_def sample_metric_def)

definition sample_impl :: "int list \<Rightarrow> int e_node annoy \<Rightarrow> int AnnoyImpl" where
  "sample_impl deleted ix = \<lparr>an_dim = 1, an_metric = L2, n_trees = 2, need_rebuild = True, deleted_ids = set deleted,
     l2_index = Some ix, ip_index = None\<rparr>"

definition sample_node :: "int \<Rightarrow> int e_node anode" where
  "sample_node x = \<lparr>n_descendants = 1, children = [0, 0], node_body = \<lparr>en_a = 0, en_v = [x]\<rparr>\<rparr>"

definition sample_index :: "int e_node annoy" where
  "sample_index = \<lparr>nodes = [sample_node 5, sample_node 1], n_items = 2, n_nodes = 0, roots = [], is_loaded = False, is_built = False\<rparr>"

definition sample_index1 :: "int e_node annoy" where
  "sample_index1 = \<lparr>nodes = [sample_node 5], n_items = 1, n_nodes = 0, roots = [], is_loaded = False, is_built = False\<rparr>"

lemma sample_fields [simp]:
  "mt_f sample_metric = 1" "mt_zero_node sample_metric = \<lparr>en_a = 0, en_v = [0]\<rparr>" "mt_zero_value sample_metric n = n"
  "mt_set_v sample_metric v n = n\<lparr>en_v := v\<rparr>" "mt_init_node sample_metric n = n"
  by (simp_all add: sample_metric_def Euclidean_def Let_def int_arith_def int_floats_def)

lemma sample_add:
  "add_item sample_metric 0 [5] AnnoyIndex_lib_new = Inr (None, sample_index1)"
  "add_item sample_metric 1 [1] sample_index1 = Inr (None, sample_index)"
  by (simp_all add: add_item_def AnnoyIndex_lib_new_def allocate_size_def put_node_def sample_index1_def sample_index_def
      sample_node_def zero_node_def)

lemma sample_size [simp]: "size_int [x] = 1"
  by (simp add: size_int_def)

lemma sample_new: "AnnoyIndex_new 1 L2 2 = Inr ((sample_impl [] AnnoyIndex_lib_new)\<lparr>need_rebuild := False\<rparr>)"
  by (simp add: AnnoyIndex_new_def create_index_by_metric_def sample_impl_def)

lemma sample_insert:
  "annoy_insert_vectors sample_annoy_env [5] 0 ((sample_impl [] AnnoyIndex_lib_new)\<lparr>need_rebuild := False\<rparr>) =
     Some (Inr (), sample_impl [] sample_index1)"
  "annoy_insert_vectors sample_annoy_env [1] 1 (sample_impl [] sample_index1) = Some (Inr (), sample_impl [] sample_index)"
  by (simp_all add: annoy_insert_vectors_def sample_impl_def on_index_def lib_add_item_def sample_add)

lemma sample_reachable:
  "annoy_reachable sample_annoy_env R 1 L2 2 (sample_impl [] sample_index, fs)"
proof -
  have "annoy_reachable sample_annoy_env R 1 L2 2 ((sample_impl [] AnnoyIndex_lib_new)\<lparr>need_rebuild := False\<rparr>, fs)"
    by (rule reach_new) (rule sample_new)
  then have "annoy_reachable sample_annoy_env R 1 L2 2 (sample_impl [] sample_index1, fs)"
    by (rule reach_call [where op = "Insert_vectors [5] 0" and r = "Inr ()"]) (simp add: annoy_call_def sample_insert)
  then show ?thesis
    by (rule reach_call [where op = "Insert_vectors [1] 1" and r = "Inr ()"]) (simp add: annoy_call_def sample_insert)
qed

lemma sample_index_facts:
  "n_items sample_index = 2" "\<not> is_built sample_index" "filling sample_index" "present_items sample_index = [0, 1]"
proof -
  show "filling sample_index" by (auto simp: filling_def sample_index_def sample_node_def less_Suc_eq numeral_2_eq_2)
  have "[0..(1::int)] = [0, 1]" by (simp add: upto_rec1)
  then show "present_items sample_index = [0, 1]" by (simp add: present_items_def sample_index_def sample_node_def)
qed (simp_all add: sample_index_def)

lemma sample_builds: "\<exists>ix'. annoy_build sample_metric 2 sample_index = Some (None, ix')"
  using build_forest [OF sample_metric_ok sample_index_facts(3), of 2] by auto


lemma sample_build_then_search:
  "\<exists>ix' asc. annoy_build sample_metric 2 sample_index = Some (None, ix') \<and> is_built ix' \<and> \<not> is_loaded ix' \<and>
     mset asc = mset (map (\<lambda>i. (item_dist sample_metric ix' [2] i, i)) [0, 1]) \<and>
     get_all_nns sample_metric ix' [2] 4 100 =
       Some (Inr (map snd (take 4 asc), map (\<lambda>p. mt_normalized_distance sample_metric (fst p)) (take 4 asc)))"
proof -
  have F: "mt_fl sample_metric = int_floats" by (simp add: sample_metric_def int_arith_def)
  obtain ix' asc where b: "annoy_build sample_metric 2 sample_index = Some (None, ix')"
    "mset asc = mset (map (\<lambda>i. (item_dist sample_metric ix' [2] i, i)) [0, 1])"
    "get_all_nns sample_metric ix' [2] 4 100 =
       Some (Inr (map snd (take 4 asc), map (\<lambda>p. mt_normalized_distance sample_metric (fst p)) (take 4 asc)))"
    using build_then_search [OF sample_metric_ok sample_index_facts(3), of 2 100 "[2]" 4] int_floats_order
    by (auto simp: F sample_index_facts)
  moreover have "is_built ix' \<and> \<not> is_loaded ix'"
    using build_forest [OF sample_metric_ok sample_index_facts(3), of 2] b(1) by auto
  ultimately show ?thesis by blast
qed

lemma sample_impl_fields [simp]:
  "an_dim (sample_impl ds ix) = 1" "an_metric (sample_impl ds ix) = L2" "n_trees (sample_impl ds ix) = 2"
  "need_rebuild (sample_impl ds ix) = True" "deleted_ids (sample_impl ds ix) = set ds" "l2_index (sample_impl ds ix) = Some ix"
  by (simp_all add: sample_impl_def)

lemma sample_remove: "annoy_reachable sample_annoy_env R 1 L2 2 (sample_impl [1] sample_index, fs)"
  by (rule reach_call [OF sample_reachable, where op = "Remove_vectors [1]" and r = "Inr ()"])
    (simp add: annoy_call_def annoy_remove_vectors_def sample_impl_def)

abbreviation no_files :: filesys where
  "no_files \<equiv> \<lparr>fs_files = [], fs_writable = (\<lambda>path. True)\<rparr>"

theorem annoy_pointers_safe_witness:
  "annoy_reachable sample_annoy_env list_bitmap 1 L2 2 (sample_impl [1] sample_index, no_files) \<and>
   (\<forall>op r s. annoy_call sample_annoy_env list_bitmap op (sample_impl [1] sample_index, no_files) \<noteq>
      Some (Inl (Abort (Null_dereference r)), s))"
  using annoy_pointers_safe [OF sample_remove, of list_bitmap no_files] sample_remove by blast

theorem annoy_search_slots_witness:
  "\<exists>ids ds a' (hits :: (int \<times> int) list). annoy_search_vectors sample_annoy_env list_bitmap [2] 1 (Some [0]) 100 (sample_impl [1] sample_index) =
       Some (Inr (ids, ds), a') \<and> ids = map fst hits @ replicate (1 - length hits) (-1) \<and>
     (\<forall>(i, d) \<in> set hits. i \<noteq> 1 \<and> word_of_int i = (0 :: u32))"
proof -
  obtain ids ds a' where s: "annoy_search_vectors sample_annoy_env list_bitmap [2] 1 (Some [0]) 100 (sample_impl [1] sample_index) =
       Some (Inr (ids, ds), a')"
    using sample_build_then_search search_l2 [of "sample_impl [1] sample_index" sample_index sample_annoy_env _ 1 "[2]"]
    by (fastforce simp: pad_results_def Let_def)
  obtain hits :: "(int \<times> int) list" where "ids = map fst hits @ replicate (nat 1 - length hits) (-1)"
    "\<forall>(i, d) \<in> set hits. i \<notin> deleted_ids (sample_impl [1] sample_index) \<and>
       (case Some [0 :: u32] of None \<Rightarrow> True | Some b \<Rightarrow> rb_contains list_bitmap b (word_of_int i))"
    using annoy_search_slots [OF zero_less_one s] by blast
  then show ?thesis using s by (intro exI [of _ ids] exI [of _ ds] exI [of _ a'] exI [of _ hits]) (auto simp: list_bitmap_def)
qed

theorem insert_after_build_breaks_index_witness:
  "\<exists>a1 a2. ensure_built sample_annoy_env (sample_impl [] sample_index) = Some (Inr (), a1) \<and>
     annoy_insert_vectors sample_annoy_env [9] 7 a1 = Some (Inr (), a2) \<and>
     annoy_search_vectors sample_annoy_env list_bitmap [2] 1 None 100 a2 =
       Some (Inl (Throw (Runtime_error ''You can't build a built index'')), a2)"
proof -
  let ?a = "sample_impl [] sample_index"
  obtain ix' where b: "annoy_build sample_metric 2 sample_index = Some (None, ix')" "\<not> is_loaded ix'"
    using sample_build_then_search by blast
  let ?a1 = "?a\<lparr>l2_index := Some ix', need_rebuild := False\<rparr>"
  have e: "ensure_built sample_annoy_env ?a = Some (Inr (), ?a1)"
    unfolding ensure_built_def by (rule rebuild_l2) (use b(1) in simp_all)
  have "\<not> index_loaded ?a1" using b(2) by (simp add: index_loaded_def)
  from insert_after_build_breaks_index [OF _ e this, of "[9]" 7]
  obtain a2 where "annoy_insert_vectors sample_annoy_env [9] 7 ?a1 = Some (Inr (), a2)"
    "\<forall>(R :: u32 list croaring) query k bm search_k. 0 < k \<and> size_int query = an_dim ?a \<longrightarrow>
      annoy_search_vectors sample_annoy_env R query k bm search_k a2 =
        Some (Inl (Throw (Runtime_error ''You can't build a built index'')), a2)"
    by auto
  with e show ?thesis by (intro exI conjI) auto
qed

theorem annoy_first_search_exact_witness:
  "\<exists>ds a'. annoy_search_vectors sample_annoy_env list_bitmap [2] 1 None 100 (sample_impl [1] sample_index) =
     Some (Inr ([0], ds), a')"
proof -
  have A: "aa_fl (ae_arith sample_annoy_env) = int_floats" by (simp add: sample_annoy_env_def int_arith_def)
  have M: "metric_ok (l2_metric sample_annoy_env 1)" by (simp add: sample_metric_ok)
  obtain ix' asc kept where k:
    "mset asc = mset (map (\<lambda>i. (item_dist sample_metric ix' [2] i, i)) [0, 1])"
    "kept = take (nat 1) (filter (\<lambda>p. annoy_wanted list_bitmap None (sample_impl [1] sample_index) (snd p)) (take (nat (1 * 4)) asc))"
    "\<exists>ds a'. annoy_search_vectors sample_annoy_env list_bitmap [2] 1 None 100 (sample_impl [1] sample_index) =
       Some (Inr (map snd kept @ replicate (nat 1 - length kept) (-1), ds), a')"
    using annoy_first_search_exact [OF sample_remove [of list_bitmap no_files], of sample_index 100 1 "[2]" None] M int_floats_order
    by (auto simp: A sample_index_facts)
  let ?w = "\<lambda>p. annoy_wanted list_bitmap None (sample_impl [1] sample_index) (snd p)"
  have "mset (filter ?w asc) = filter_mset ?w (mset asc)" by (rule mset_filter)
  also have "\<dots> = {#(item_dist sample_metric ix' [2] 0, 0)#}" unfolding k(1) by (simp add: annoy_wanted_def)
  finally have f: "filter ?w asc = [(item_dist sample_metric ix' [2] 0, 0)]" by (simp del: mset_filter)
  have "size (mset asc) = 2" using k(1) by simp
  then have "take (nat (1 * 4)) asc = asc" by simp
  then have "kept = [(item_dist sample_metric ix' [2] 0, 0)]" using k(2) f by simp
  then show ?thesis using k(3) by simp
qed

end
