(* ===== verification/Http_Codec.thy ===== *)
theory Http_Codec
  imports Log_Format
begin

text \<open>
  httplib.h, the text codecs of a request: hexadecimal digits, percent encoding and UTF-8,
  splitting and trimming, the query text of a target or a form, and the check of a file path.
  Shown here: what \<open>encode_query_param\<close> writes is read back by \<open>decode_url\<close>, a list of parameters
  by \<open>parse_query_text\<close>; the index loop of \<open>split\<close> is the list of trimmed fields; an accepted
  path never climbs above its root.
\<close>

unbundle bit_operations_syntax

named_theorems codec_simps

section \<open>Hexadecimal digits and UTF-8\<close>

definition is_hex :: "char \<Rightarrow> nat option" where
  "is_hex c =
     (if is_digit c then Some (of_char c - 48)
      else if 65 \<le> (of_char c :: nat) \<and> (of_char c :: nat) \<le> 70 then Some (of_char c - 65 + 10)
      else if 97 \<le> (of_char c :: nat) \<and> (of_char c :: nat) \<le> 102 then Some (of_char c - 97 + 10)
      else None)"

text \<open>
  A position past the end reads as the terminating NUL; \<open>None\<close> is \<^verbatim>\<open>false\<close>. The loop does not get
  past the NUL at the end.
\<close>

fun from_hex_loop :: "nat \<Rightarrow> nat \<Rightarrow> string \<Rightarrow> nat option" where
  "from_hex_loop 0 val s = Some val"
| "from_hex_loop (Suc cnt) val [] = None"
| "from_hex_loop (Suc cnt) val (c # s) =
     (if c = CHR 0x00 then None
      else case is_hex c of None \<Rightarrow> None | Some v \<Rightarrow> from_hex_loop cnt (val * 16 + v) s)"

definition from_hex_to_i :: "string \<Rightarrow> nat \<Rightarrow> nat \<Rightarrow> nat option" where
  "from_hex_to_i s i cnt = (if i \<ge> length s then None else from_hex_loop cnt 0 (drop i s))"

definition to_utf8 :: "nat \<Rightarrow> string" where
  "to_utf8 code =
     (if code < 0x80 then [char_of (code AND 0x7F)]
      else if code < 0x800 then
        [char_of (0xC0 OR (drop_bit 6 code AND 0x1F)), char_of (0x80 OR (code AND 0x3F))]
      else if code < 0xD800 then
        [char_of (0xE0 OR (drop_bit 12 code AND 0xF)), char_of (0x80 OR (drop_bit 6 code AND 0x3F)),
         char_of (0x80 OR (code AND 0x3F))]
      else if code < 0xE000 then []
      else if code < 0x10000 then
        [char_of (0xE0 OR (drop_bit 12 code AND 0xF)), char_of (0x80 OR (drop_bit 6 code AND 0x3F)),
         char_of (0x80 OR (code AND 0x3F))]
      else if code < 0x110000 then
        [char_of (0xF0 OR (drop_bit 18 code AND 0x7)), char_of (0x80 OR (drop_bit 12 code AND 0x3F)),
         char_of (0x80 OR (drop_bit 6 code AND 0x3F)), char_of (0x80 OR (code AND 0x3F))]
      else [])"

section \<open>Percent encoding\<close>

definition is_alnum :: "char \<Rightarrow> bool" where
  "is_alnum c \<longleftrightarrow> is_digit c \<or> c \<in> set ''ABCDEFGHIJKLMNOPQRSTUVWXYZ'' \<or> c \<in> set ''abcdefghijklmnopqrstuvwxyz''"

definition unescaped :: "char \<Rightarrow> bool" where
  "unescaped c \<longleftrightarrow> is_alnum c \<or> c \<in> set ''-_.!~*()'' \<or> c = CHR 0x27"

definition upper_hex :: "nat \<Rightarrow> char" where
  "upper_hex d = ''0123456789ABCDEF'' ! d"

definition encode_char :: "char \<Rightarrow> string" where
  "encode_char c =
     (if unescaped c then [c] else [CHR ''%'', upper_hex (of_char c div 16), upper_hex (of_char c mod 16)])"

definition encode_query_param :: "string \<Rightarrow> string" where
  "encode_query_param v = concat (map encode_char v)"

fun decode_url :: "string \<Rightarrow> bool \<Rightarrow> string" where
  "decode_url [] pl = []"
| "decode_url (c # s) pl =
     (if c = CHR ''%'' \<and> s \<noteq> [] then
        (if hd s = CHR ''u'' then
           (case from_hex_to_i s 1 4 of
              Some val \<Rightarrow> to_utf8 val @ decode_url (drop 5 s) pl
            | None \<Rightarrow> c # decode_url s pl)
         else
           (case from_hex_to_i s 0 2 of
              Some val \<Rightarrow> char_of val # decode_url (drop 2 s) pl
            | None \<Rightarrow> c # decode_url s pl))
      else if pl \<and> c = CHR ''+'' then CHR '' '' # decode_url s pl
      else c # decode_url s pl)"

declare decode_url.simps(2) [simp del]

lemma upper_hex_table:
  "list_all (\<lambda>d. is_hex (upper_hex d) = Some d \<and> upper_hex d \<noteq> CHR 0x00 \<and> upper_hex d \<noteq> CHR ''u'' \<and>
     upper_hex d \<notin> set ''&= '' \<and> upper_hex d \<noteq> CHR 0x09) [0..<16]"
  by code_simp

lemma upper_hex_facts [codec_simps]:
  assumes "d < 16"
  shows "is_hex (upper_hex d) = Some d" "upper_hex d \<noteq> CHR 0x00" "upper_hex d \<noteq> CHR ''u''"
    "upper_hex d \<noteq> CHR ''&''" "upper_hex d \<noteq> CHR ''=''" "upper_hex d \<noteq> CHR '' ''" "upper_hex d \<noteq> CHR 0x09"
  using assms upper_hex_table by (auto simp: list_all_iff)

lemma of_char_less: "(of_char c :: nat) < 256"
  using of_char_mod_256 [of c, where ?'a = nat] by (metis mod_less_divisor zero_less_numeral)

lemma of_char_digits [codec_simps]: "of_char c div 16 < (16 :: nat)" "of_char c mod 16 < (16 :: nat)"
  using of_char_less [of c] by (simp_all add: less_mult_imp_div_less)

lemma unescaped_safe [codec_simps]:
  "\<not> unescaped CHR ''%''" "\<not> unescaped CHR ''+''" "\<not> unescaped CHR ''&''" "\<not> unescaped CHR ''=''"
  "\<not> unescaped CHR '' ''" "\<not> unescaped CHR 0x09" "\<not> unescaped CHR 0x00"
  by (simp_all add: unescaped_def is_alnum_def is_digit_def)

lemma decode_plain [codec_simps]:
  "c \<noteq> CHR ''%'' \<Longrightarrow> c \<noteq> CHR ''+'' \<Longrightarrow> decode_url (c # s) pl = c # decode_url s pl"
  by (simp add: decode_url.simps(2))

lemma decode_encode_char: "decode_url (encode_char c @ s) pl = c # decode_url s pl"
proof (cases "unescaped c")
  case True
  then have "c \<noteq> CHR ''%''" "c \<noteq> CHR ''+''" by (auto simp: codec_simps)
  with True show ?thesis by (simp add: encode_char_def decode_plain)
next
  case False
  have "of_char c div 16 * 16 + of_char c mod 16 = (of_char c :: nat)" by simp
  with False show ?thesis
    by (simp add: encode_char_def decode_url.simps(2) from_hex_to_i_def numeral_2_eq_2 codec_simps)
qed

lemma decode_encode_append: "decode_url (encode_query_param v @ s) pl = v @ decode_url s pl"
  by (induction v) (simp_all add: encode_query_param_def decode_encode_char)

lemma decode_encode [codec_simps]: "decode_url (encode_query_param v) pl = v"
  using decode_encode_append [of v "[]"] by simp

lemma decode_plain_all: "CHR ''%'' \<notin> set s \<Longrightarrow> CHR ''+'' \<notin> set s \<Longrightarrow> decode_url s pl = s"
  by (induction s) (auto simp: decode_plain)

lemma decode_no_percent: "CHR ''%'' \<notin> set s \<Longrightarrow> decode_url s False = s"
  by (induction s) (auto simp: decode_url.simps(2))

lemma encode_char_chars:
  "x \<in> set (encode_char c) \<Longrightarrow> x \<noteq> CHR ''&'' \<and> x \<noteq> CHR ''='' \<and> x \<noteq> CHR '' '' \<and> x \<noteq> CHR 0x09"
  using upper_hex_facts [OF of_char_digits(1) [of c]] upper_hex_facts [OF of_char_digits(2) [of c]] unescaped_safe
  by (auto simp: encode_char_def split: if_splits)

lemma encode_query_param_chars [codec_simps]:
  "CHR ''&'' \<notin> set (encode_query_param v)" "CHR ''='' \<notin> set (encode_query_param v)"
  "CHR '' '' \<notin> set (encode_query_param v)" "CHR 0x09 \<notin> set (encode_query_param v)"
  by (auto simp: encode_query_param_def dest!: encode_char_chars)

lemma encode_query_param_Nil' [simp]: "encode_query_param [] = []"
  by (simp add: encode_query_param_def)

lemma encode_query_param_Nil [simp]: "encode_query_param v = [] \<longleftrightarrow> v = []"
  by (cases v) (auto simp: encode_query_param_def encode_char_def)

section \<open>Splitting and trimming\<close>

definition is_space_or_tab :: "char \<Rightarrow> bool" where
  "is_space_or_tab c \<longleftrightarrow> c = CHR '' '' \<or> c = CHR 0x09"

text \<open>
  \<open>trim s left right\<close> moves two positions of \<open>s\<close> towards each other; the left one stops at the end
  of the whole text, not at the right one, so on a blank field they pass each other.
\<close>

fun trim_right :: "string \<Rightarrow> nat \<Rightarrow> nat" where
  "trim_right s 0 = 0"
| "trim_right s (Suc r) = (if is_space_or_tab (s ! r) then trim_right s r else Suc r)"

definition trim :: "string \<Rightarrow> nat \<Rightarrow> nat \<Rightarrow> nat \<times> nat" where
  "trim s left right = (left + length (takeWhile is_space_or_tab (drop left s)), trim_right s right)"

text \<open>
  \<^verbatim>\<open>s.substr(first, second - first)\<close>: on a blank text \<open>first\<close> is the end, so the wrapped-around
  count is cut to nothing.
\<close>

definition trim_copy :: "string \<Rightarrow> string" where
  "trim_copy s = (let r = trim s 0 (length s) in take (snd r - fst r) (drop (fst r) s))"

definition trim_double_quotes_copy :: "string \<Rightarrow> string" where
  "trim_double_quotes_copy s =
     (if length s \<ge> 2 \<and> hd s = CHR 0x22 \<and> last s = CHR 0x22 then take (length s - 2) (drop 1 s) else s)"

text \<open>
  \<^verbatim>\<open>split\<close>: the state of the loop is the start of the current field and the fields handed to the
  callback so far.
\<close>

definition emit_field :: "string \<Rightarrow> nat \<Rightarrow> nat \<Rightarrow> string list \<Rightarrow> string list" where
  "emit_field s beg i fs =
     (let r = trim s beg i in if fst r < snd r then fs @ [take (snd r - fst r) (drop (fst r) s)] else fs)"

definition split_step :: "char \<Rightarrow> string \<Rightarrow> nat \<times> string list \<Rightarrow> nat \<Rightarrow> nat \<times> string list" where
  "split_step d s = (\<lambda>(beg, fs) i. if s ! i = d then (i + 1, emit_field s beg i fs) else (beg, fs))"

definition split :: "char \<Rightarrow> string \<Rightarrow> string list" where
  "split d s =
     (let (beg, fs) = foldl (split_step d s) (0, []) [0..<length s]
      in if s \<noteq> [] then emit_field s beg (length s) fs else fs)"

text \<open>The same, on lists: cut at the delimiter, strip both ends, drop what is empty.\<close>

definition strip :: "string \<Rightarrow> string" where
  "strip s = rev (dropWhile is_space_or_tab (rev (dropWhile is_space_or_tab s)))"

definition raw_fields :: "char \<Rightarrow> string \<Rightarrow> string list" where
  "raw_fields d s = foldr (\<lambda>c fs. if c = d then [] # fs else (c # hd fs) # tl fs) s [[]]"

lemma trim_right_append: "r \<le> length s \<Longrightarrow> trim_right (s @ t) r = trim_right s r"
  by (induction r) (auto simp: nth_append)

lemma trim_right_length: "trim_right s (length s) = length (rev (dropWhile is_space_or_tab (rev s)))"
  by (induction s rule: rev_induct) (simp_all add: nth_append trim_right_append)

lemma trim_right_take: "i \<le> length s \<Longrightarrow> trim_right s i = trim_right (take i s) i"
  using trim_right_append [of i "take i s" "drop i s"] by simp

lemma strip_blank: "strip s = [] \<longleftrightarrow> (\<forall>c \<in> set s. is_space_or_tab c)"
proof -
  have "strip s = [] \<longleftrightarrow> (\<forall>c \<in> set (dropWhile is_space_or_tab s). is_space_or_tab c)"
    by (simp add: strip_def dropWhile_eq_Nil_conv)
  also have "\<dots> \<longleftrightarrow> (\<forall>c \<in> set s. is_space_or_tab c)"
    by (metis dropWhile_eq_Nil_conv hd_dropWhile list.set_sel(1) set_dropWhileD)
  finally show ?thesis .
qed

lemma strip_parts:
  assumes "strip f \<noteq> []"
  shows "length (takeWhile is_space_or_tab f) + length (strip f) = trim_right f (length f)"
    and "strip f = take (length (strip f)) (dropWhile is_space_or_tab f)"
proof -
  let ?g = "dropWhile is_space_or_tab f" and ?a = "takeWhile is_space_or_tab f"
  from assms have g: "\<exists>c \<in> set (rev ?g). \<not> is_space_or_tab c" by (auto simp: strip_def dropWhile_eq_Nil_conv)
  have "dropWhile is_space_or_tab (rev f) = dropWhile is_space_or_tab (rev ?g @ rev ?a)"
    by (metis rev_append takeWhile_dropWhile_id)
  also have "\<dots> = dropWhile is_space_or_tab (rev ?g) @ rev ?a"
    using g by (auto simp: dropWhile_append1)
  finally show "length ?a + length (strip f) = trim_right f (length f)"
    by (simp add: trim_right_length strip_def)
  have "?g = strip f @ rev (takeWhile is_space_or_tab (rev ?g))"
    unfolding strip_def by (metis rev_append rev_rev_ident takeWhile_dropWhile_id)
  then show "strip f = take (length (strip f)) ?g" by (metis append_eq_conv_conj)
qed

lemma emit_field_strip:
  assumes "beg \<le> i" "i \<le> length s"
  shows "emit_field s beg i fs =
    (let f = strip (take (i - beg) (drop beg s)) in if f \<noteq> [] then fs @ [f] else fs)"
proof -
  let ?f = "take (i - beg) (drop beg s)" and ?p = "take beg s"
  have d: "drop beg s = ?f @ drop i s" using assms
    by (metis append_take_drop_id drop_drop le_add_diff_inverse2)
  have t: "take i s = ?p @ ?f" using assms by (metis le_add_diff_inverse take_add)
  have len: "length ?p = beg" "length (?p @ ?f) = i" using assms by auto
  have r: "trim_right s i = length (dropWhile is_space_or_tab (rev ?f @ rev ?p))"
    using trim_right_length [of "?p @ ?f"] trim_right_take [OF assms(2)] by (simp only: t len length_rev rev_append)
  show ?thesis
  proof (cases "strip ?f = []")
    case True
    then have b: "\<forall>c \<in> set ?f. is_space_or_tab c" by (simp only: strip_blank)
    have "length ?f \<le> length (takeWhile is_space_or_tab (drop beg s))"
      using b by (subst d) (simp add: takeWhile_append2)
    then have "i \<le> fst (trim s beg i)" using assms by (simp add: trim_def)
    moreover have "dropWhile is_space_or_tab (rev ?f @ rev ?p) = dropWhile is_space_or_tab (rev ?p)"
      by (rule dropWhile_append2) (use b in auto)
    then have "trim_right s i \<le> i"
      unfolding r using length_dropWhile_le [of is_space_or_tab "rev ?p"] len(1) assms(1) by simp
    ultimately show ?thesis using True by (simp add: emit_field_def trim_def Let_def)
  next
    case False
    then have b: "\<exists>c \<in> set ?f. \<not> is_space_or_tab c" by (simp only: strip_blank) blast
    have l: "takeWhile is_space_or_tab (drop beg s) = takeWhile is_space_or_tab ?f"
      using b by (subst d) (auto simp: takeWhile_append1)
    have "dropWhile is_space_or_tab (rev ?f @ rev ?p) = dropWhile is_space_or_tab (rev ?f) @ rev ?p"
      using b by (auto simp: dropWhile_append1)
    then have r': "trim_right s i = beg + trim_right ?f (length ?f)"
      unfolding r by (simp only: trim_right_length length_append length_rev len)
    let ?a = "length (takeWhile is_space_or_tab ?f)" and ?m = "length (strip ?f)"
    have m: "trim_right ?f (length ?f) = ?a + ?m" "take ?m (dropWhile is_space_or_tab ?f) = strip ?f"
      using strip_parts [OF False] by simp_all
    then have "?m \<le> length (dropWhile is_space_or_tab ?f)" by (metis length_take min.cobounded1)
    moreover have "drop (beg + ?a) s = drop ?a (drop beg s)" by (simp only: drop_drop add.commute)
    then have "drop (beg + ?a) s = drop ?a (?f @ drop i s)" by (simp only: d [symmetric])
    then have "drop (beg + ?a) s = dropWhile is_space_or_tab ?f @ drop i s"
      by (simp only: drop_append dropWhile_eq_drop diff_is_0_eq' [OF length_takeWhile_le] drop_0)
    moreover have "fst (trim s beg i) = beg + ?a" "snd (trim s beg i) = beg + (?a + ?m)"
      by (simp_all only: trim_def fst_conv snd_conv l r' m)
    ultimately show ?thesis
      using False m by (simp only: emit_field_def Let_def) simp
  qed
qed

lemma raw_fields_not_Nil [simp]: "raw_fields d s \<noteq> []"
  by (induction s) (auto simp: raw_fields_def)

lemma raw_fields_simps [codec_simps]:
  "raw_fields d [] = [[]]"
  "raw_fields d (c # s) = (if c = d then [] # raw_fields d s else (c # hd (raw_fields d s)) # tl (raw_fields d s))"
  by (simp_all add: raw_fields_def)

lemma raw_fields_snoc:
  "raw_fields d (s @ [c]) =
    (if c = d then raw_fields d s @ [[]] else butlast (raw_fields d s) @ [last (raw_fields d s) @ [c]])"
proof (induction s)
  case Nil
  then show ?case by (simp add: raw_fields_simps)
next
  case (Cons x s)
  then show ?case by (cases "raw_fields d s") (auto simp: raw_fields_simps)
qed

lemma last_field_suffix: "drop (length s - length (last (raw_fields d s))) s = last (raw_fields d s) \<and>
    length (last (raw_fields d s)) \<le> length s"
proof (induction s rule: rev_induct)
  case Nil
  then show ?case by (simp add: raw_fields_simps)
next
  case (snoc c s)
  then show ?case by (auto simp: raw_fields_snoc Suc_diff_le)
qed

lemma kept_last:
  "fs \<noteq> [] \<Longrightarrow> filter (\<lambda>f. f \<noteq> []) (map strip fs) =
    filter (\<lambda>f. f \<noteq> []) (map strip (butlast fs)) @ (if strip (last fs) \<noteq> [] then [strip (last fs)] else [])"
  by (cases fs rule: rev_cases) auto

lemma split_loop:
  assumes "n \<le> length s"
  shows "foldl (split_step d s) (0, []) [0..<n] =
    (n - length (last (raw_fields d (take n s))), filter (\<lambda>f. f \<noteq> []) (map strip (butlast (raw_fields d (take n s)))))"
  using assms
proof (induction n)
  case 0
  then show ?case by (simp add: raw_fields_simps)
next
  case (Suc n)
  let ?l = "last (raw_fields d (take n s))"
  have n: "take (Suc n) s = take n s @ [s ! n]" using Suc.prems by (simp add: take_Suc_conv_app_nth)
  have l: "drop (n - length ?l) (take n s) = ?l" "length ?l \<le> n"
    using last_field_suffix [of "take n s" d] Suc.prems by auto
  have "emit_field s (n - length ?l) n fs = (if strip ?l \<noteq> [] then fs @ [strip ?l] else fs)" for fs
    using l Suc.prems by (simp add: emit_field_strip Let_def drop_take)
  then show ?case
    using Suc l(2) by (auto simp: n raw_fields_snoc split_step_def kept_last [of "raw_fields d (take n s)"])
qed

lemma split_fields: "split d s = filter (\<lambda>f. f \<noteq> []) (map strip (raw_fields d s))"
proof (cases "s = []")
  case True
  then show ?thesis by (simp add: split_def raw_fields_simps strip_def)
next
  case False
  let ?l = "last (raw_fields d s)"
  have l: "drop (length s - length ?l) s = ?l" "length ?l \<le> length s"
    using last_field_suffix [of s d] by auto
  have "split d s = emit_field s (length s - length ?l) (length s) (filter (\<lambda>f. f \<noteq> []) (map strip (butlast (raw_fields d s))))"
    using False split_loop [of "length s" s d] by (simp add: split_def)
  also have "\<dots> = filter (\<lambda>f. f \<noteq> []) (map strip (raw_fields d s))"
    using l kept_last [of "raw_fields d s"] by (simp add: emit_field_strip)
  finally show ?thesis .
qed

lemma trim_copy_strip: "trim_copy s = strip s"
proof (cases "strip s = []")
  case True
  then have b: "\<forall>c \<in> set s. is_space_or_tab c" by (simp only: strip_blank)
  then have "length (takeWhile is_space_or_tab s) = length s" by (metis takeWhile_eq_all_conv)
  with True show ?thesis by (simp add: trim_copy_def trim_def)
next
  case False
  show ?thesis
    using strip_parts [OF False] by (simp add: trim_copy_def trim_def Let_def dropWhile_eq_drop)
      (metis add_diff_cancel_left')
qed

section \<open>Query text\<close>

text \<open>
  A \<^verbatim>\<open>std::multimap\<close> is the list of its entries in the order of their keys; \<open>lt\<close> is its comparison.
  \<^verbatim>\<open>emplace\<close> puts an entry behind those with an equal key.
\<close>

fun mm_emplace :: "('k \<Rightarrow> 'k \<Rightarrow> bool) \<Rightarrow> 'k \<Rightarrow> 'v \<Rightarrow> ('k \<times> 'v) list \<Rightarrow> ('k \<times> 'v) list" where
  "mm_emplace lt k v [] = [(k, v)]"
| "mm_emplace lt k v (e # m) = (if lt k (fst e) then (k, v) # e # m else e # mm_emplace lt k v m)"

lemma mm_emplace_last: "\<forall>e \<in> set m. \<not> lt k (fst e) \<Longrightarrow> mm_emplace lt k v m = m @ [(k, v)]"
  by (induction m) auto

lemma set_mm_emplace [simp]: "set (mm_emplace lt k v m) = insert (k, v) (set m)"
  by (induction m) auto

text \<open>The first part is the key, the last one after it the value.\<close>

definition key_and_val :: "string \<Rightarrow> string \<times> string" where
  "key_and_val kv =
     foldl (\<lambda>(key, val) part. if key = [] then (part, val) else (key, part)) ([], []) (split (CHR ''='') kv)"

definition parse_query_text :: "string \<Rightarrow> (string \<times> string) list \<Rightarrow> (string \<times> string) list" where
  "parse_query_text s params =
     snd (foldl (\<lambda>(cache, ps) kv.
        if kv \<in> set cache then (cache, ps)
        else (kv # cache,
              let (key, val) = key_and_val kv
              in if key \<noteq> [] then mm_emplace (<) (decode_url key True) (decode_url val True) ps else ps))
       ([], params) (split (CHR ''&'') s))"

definition params_to_query_str :: "(string \<times> string) list \<Rightarrow> string" where
  "params_to_query_str params =
     foldl (\<lambda>query (it, kv). (if it \<noteq> 0 then query @ ''&'' else query) @ fst kv @ ''='' @ encode_query_param (snd kv))
       [] (enumerate 0 params)"

definition param_key_ok :: "string \<Rightarrow> bool" where
  "param_key_ok k \<longleftrightarrow> k \<noteq> [] \<and> set k \<inter> set ''&=%+'' = {} \<and> \<not> is_space_or_tab (hd k) \<and> \<not> is_space_or_tab (last k)"

definition pair_text :: "string \<times> string \<Rightarrow> string" where
  "pair_text kv = fst kv @ ''='' @ encode_query_param (snd kv)"

lemma raw_fields_no_delim [codec_simps]: "d \<notin> set a \<Longrightarrow> raw_fields d a = [a]"
  by (induction a) (auto simp: codec_simps)

lemma raw_fields_append [codec_simps]:
  "d \<notin> set a \<Longrightarrow> raw_fields d (a @ d # s) = a # raw_fields d s"
  by (induction a) (auto simp: codec_simps)

lemma strip_id: "s = [] \<or> (\<not> is_space_or_tab (hd s) \<and> \<not> is_space_or_tab (last s)) \<Longrightarrow> strip s = s"
proof (cases "s = []")
  case False
  moreover assume "s = [] \<or> (\<not> is_space_or_tab (hd s) \<and> \<not> is_space_or_tab (last s))"
  ultimately have "dropWhile is_space_or_tab s = s" "dropWhile is_space_or_tab (rev s) = rev s"
    by (simp_all add: dropWhile_eq_self_iff hd_rev)
  then show ?thesis by (simp add: strip_def)
qed (simp add: strip_def)

lemma strip_no_blanks: "\<forall>c \<in> set s. \<not> is_space_or_tab c \<Longrightarrow> strip s = s"
  by (rule strip_id) (metis hd_in_set last_in_set)

lemma encode_not_blank: "c \<in> set (encode_query_param v) \<Longrightarrow> \<not> is_space_or_tab c"
  using encode_query_param_chars by (auto simp: is_space_or_tab_def)

lemma key_and_val_pair:
  assumes "param_key_ok k"
  shows "key_and_val (pair_text (k, v)) = (k, encode_query_param v)"
proof -
  have k: "CHR ''='' \<notin> set k" "strip k = k" "k \<noteq> []"
    using assms by (auto simp: param_key_ok_def intro: strip_id)
  have "strip (encode_query_param v) = encode_query_param v"
    using encode_not_blank by (blast intro: strip_no_blanks)
  with k show ?thesis
    by (simp add: key_and_val_def pair_text_def split_fields codec_simps)
qed

lemma pair_text_field:
  assumes "param_key_ok (fst kv)"
  shows "strip (pair_text kv) = pair_text kv" "pair_text kv \<noteq> []" "CHR ''&'' \<notin> set (pair_text kv)"
proof -
  have k: "fst kv \<noteq> []" "\<not> is_space_or_tab (hd (fst kv))" "CHR ''&'' \<notin> set (fst kv)"
    using assms by (auto simp: param_key_ok_def)
  have "\<not> is_space_or_tab (last (''='' @ encode_query_param (snd kv)))"
    using encode_not_blank [of "last (encode_query_param (snd kv))" "snd kv"]
    by (auto simp: is_space_or_tab_def)
  with k show "strip (pair_text kv) = pair_text kv" "pair_text kv \<noteq> []" "CHR ''&'' \<notin> set (pair_text kv)"
    by (auto simp: pair_text_def codec_simps intro!: strip_id)
qed

lemma pair_text_inject:
  assumes "param_key_ok (fst a)" "param_key_ok (fst b)" "pair_text a = pair_text b"
  shows "a = b"
proof -
  have "(fst a, encode_query_param (snd a)) = (fst b, encode_query_param (snd b))"
    using key_and_val_pair [of "fst a" "snd a"] key_and_val_pair [of "fst b" "snd b"] assms by simp
  then have "fst a = fst b" "encode_query_param (snd a) = encode_query_param (snd b)" by auto
  then show ?thesis by (metis decode_encode prod.expand)
qed

lemma params_to_query_str_Nil [codec_simps]: "params_to_query_str [] = []"
  by (simp add: params_to_query_str_def)

lemma params_to_query_str_snoc [codec_simps]:
  "params_to_query_str (ps @ [p]) = (if ps = [] then pair_text p else params_to_query_str ps @ ''&'' @ pair_text p)"
  by (simp add: params_to_query_str_def enumerate_append_eq pair_text_def split_beta)

lemma raw_fields_append_right:
  "d \<notin> set b \<Longrightarrow> raw_fields d (a @ d # b) = raw_fields d a @ [b]"
  by (induction a) (auto simp: codec_simps hd_append tl_append split: list.splits)

lemma split_query_str:
  assumes "\<forall>p \<in> set ps. param_key_ok (fst p)"
  shows "split (CHR ''&'') (params_to_query_str ps) = map pair_text ps"
proof (cases "ps = []")
  case True
  then show ?thesis by (simp add: split_fields codec_simps strip_def)
next
  case False
  then have "raw_fields (CHR ''&'') (params_to_query_str ps) = map pair_text ps"
    using assms
  proof (induction ps rule: rev_induct)
    case Nil
    then show ?case by simp
  next
    case (snoc p ps)
    then show ?case by (auto simp: codec_simps pair_text_field raw_fields_append_right)
  qed
  then show ?thesis
    using assms pair_text_field by (auto simp: split_fields filter_id_conv map_idI)
qed

lemma parse_query_pairs:
  assumes "\<forall>p \<in> set ps. param_key_ok (fst p)" "distinct ps" "set cache \<inter> pair_text ` set ps = {}"
    and "sorted (map fst (acc @ ps))"
  shows "snd (foldl (\<lambda>(cache, qs) kv.
        if kv \<in> set cache then (cache, qs)
        else (kv # cache,
              let (key, val) = key_and_val kv
              in if key \<noteq> [] then mm_emplace (<) (decode_url key True) (decode_url val True) qs else qs))
       (cache, acc) (map pair_text ps)) = acc @ ps"
  using assms
proof (induction ps arbitrary: cache acc)
  case Nil
  then show ?case by simp
next
  case (Cons p ps)
  obtain k v where p: "p = (k, v)" by fastforce
  have k: "param_key_ok k" "k \<noteq> []" "decode_url k True = k"
    using Cons.prems(1) by (auto simp: p param_key_ok_def intro!: decode_plain_all)
  have kv: "key_and_val (pair_text p) = (k, encode_query_param v)"
    unfolding p by (rule key_and_val_pair [OF k(1)])
  have "\<forall>e \<in> set acc. \<not> k < fst e" using Cons.prems(4) by (auto simp: p sorted_append not_less)
  then have e: "mm_emplace (<) k v acc = acc @ [p]" by (simp add: p mm_emplace_last)
  have "pair_text q \<noteq> pair_text p" if "q \<in> set ps" for q
    using that Cons.prems(1,2) pair_text_inject by (metis distinct.simps(2) list.set_intros)
  then have "pair_text p \<notin> pair_text ` set ps" by (metis imageE)
  then have "set (pair_text p # cache) \<inter> pair_text ` set ps = {}" using Cons.prems(3) by auto
  then show ?case
    using Cons.IH [of "pair_text p # cache" "acc @ [p]"] Cons.prems kv k e
    by (auto simp: decode_encode)
qed

text \<open>
  C35. Query parameters written as text are read back: for every sorted list of parameters without
  repeated entries whose keys need no escape, whatever bytes the values are made of.
\<close>

theorem query_text_reads_back:
  assumes "\<forall>p \<in> set ps. param_key_ok (fst p)" "distinct ps" "sorted (map fst ps)"
  shows "parse_query_text (params_to_query_str ps) [] = ps"
  using parse_query_pairs [OF assms(1,2), of "[]" "[]"] assms
  by (simp add: parse_query_text_def split_query_str)

theorem query_text_reads_back_witness:
  "parse_query_text (params_to_query_str [(''key'', ''a b&c''), (''page_num'', ''2'')]) [] =
    [(''key'', ''a b&c''), (''page_num'', ''2'')]"
  by (rule query_text_reads_back) (simp_all add: param_key_ok_def is_space_or_tab_def)

section \<open>File paths\<close>

text \<open>
  \<open>level\<close> is the depth below the root, the text starts behind slashes. The component read is not
  empty, as the assertion of the code says.
\<close>

lemma is_valid_path_rest:
  "p \<noteq> [] \<Longrightarrow> length (dropWhile (\<lambda>c. c = d) (dropWhile (\<lambda>c. c \<noteq> d) p)) < length p"
  by (cases p) (auto simp: less_Suc_eq_le intro: length_dropWhile_le order_trans)

function is_valid_path_loop :: "nat \<Rightarrow> string \<Rightarrow> bool" where
  "is_valid_path_loop level path =
     (if path = [] then True
      else
        let component = takeWhile (\<lambda>c. c \<noteq> CHR ''/'') path;
            rest = dropWhile (\<lambda>c. c = CHR ''/'') (dropWhile (\<lambda>c. c \<noteq> CHR ''/'') path)
        in if component = ''.'' then is_valid_path_loop level rest
           else if component = ''..'' then (if level = 0 then False else is_valid_path_loop (level - 1) rest)
           else is_valid_path_loop (level + 1) rest)"
  by pat_completeness auto

termination
  by (relation "measure (\<lambda>(level, path). length path)") (auto simp: is_valid_path_rest)

declare is_valid_path_loop.simps [simp del]

definition is_valid_path :: "string \<Rightarrow> bool" where
  "is_valid_path path = is_valid_path_loop 0 (dropWhile (\<lambda>c. c = CHR ''/'') path)"

definition path_components :: "string \<Rightarrow> string list" where
  "path_components path = filter (\<lambda>c. c \<noteq> []) (raw_fields (CHR ''/'') path)"

text \<open>How far a component moves away from the root.\<close>

definition path_move :: "string \<Rightarrow> int" where
  "path_move c = (if c = ''.'' then 0 else if c = ''..'' then - 1 else 1)"

lemma path_move_simps [codec_simps]:
  "path_move ''.'' = 0" "path_move ''..'' = - 1" "c \<noteq> ''.'' \<Longrightarrow> c \<noteq> ''..'' \<Longrightarrow> path_move c = 1"
  by (simp_all add: path_move_def)

lemma path_components_slash: "path_components (dropWhile (\<lambda>c. c = CHR ''/'') p) = path_components p"
  by (induction p) (auto simp: path_components_def codec_simps)

lemma hd_after_slashes: "dropWhile (\<lambda>c. c = d) p = [] \<or> hd (dropWhile (\<lambda>c. c = d) p) \<noteq> d"
  by (induction p) auto

lemma path_components_Cons:
  assumes "p \<noteq> []" "hd p \<noteq> CHR ''/''"
  shows "path_components p = takeWhile (\<lambda>c. c \<noteq> CHR ''/'') p #
      path_components (dropWhile (\<lambda>c. c = CHR ''/'') (dropWhile (\<lambda>c. c \<noteq> CHR ''/'') p))"
proof -
  let ?a = "takeWhile (\<lambda>c. c \<noteq> CHR ''/'') p" and ?r = "dropWhile (\<lambda>c. c \<noteq> CHR ''/'') p"
  have a: "?a \<noteq> []" "CHR ''/'' \<notin> set ?a" using assms by (cases p; auto dest: set_takeWhileD)+
  have p: "p = ?a @ ?r" by simp
  show ?thesis
  proof (cases ?r)
    case Nil
    then have n: "CHR ''/'' \<notin> set p" by auto
    then have "?a = p" by (rule span_no_delim(1))
    then show ?thesis
      unfolding Nil using n assms by (simp only: path_components_def raw_fields_no_delim) (simp add: codec_simps)
  next
    case (Cons x r)
    then have x: "x = CHR ''/''" using hd_dropWhile [of "\<lambda>c. c \<noteq> CHR ''/''" p] by simp
    have "path_components (?a @ x # r) = ?a # path_components r"
      unfolding x using a by (simp only: path_components_def raw_fields_append filter.simps if_True not_False_eq_True)
    moreover have "path_components (x # r) = path_components r"
      unfolding x by (simp add: path_components_def codec_simps)
    ultimately show ?thesis
      unfolding path_components_slash by (simp only: Cons [symmetric] takeWhile_dropWhile_id)
  qed
qed

lemma all_prefixes_Cons:
  "(\<forall>n. 0 \<le> a + sum_list (map f (take n (c # cs)))) \<longleftrightarrow>
   0 \<le> (a :: int) \<and> (\<forall>n. 0 \<le> a + f c + sum_list (map f (take n cs)))"
proof (intro iffI conjI allI)
  assume h: "\<forall>n. 0 \<le> a + sum_list (map f (take n (c # cs)))"
  then show "0 \<le> a" by (metis add_0_right list.simps(8) sum_list.Nil take0)
  fix n from h [rule_format, of "Suc n"] show "0 \<le> a + f c + sum_list (map f (take n cs))" by simp
next
  fix n assume "0 \<le> a \<and> (\<forall>n. 0 \<le> a + f c + sum_list (map f (take n cs)))"
  then show "0 \<le> a + sum_list (map f (take n (c # cs)))" by (cases n) (auto simp: add.assoc)
qed

lemma is_valid_path_loop_depth:
  "path = [] \<or> hd path \<noteq> CHR ''/'' \<Longrightarrow>
   is_valid_path_loop level path \<longleftrightarrow> (\<forall>n. 0 \<le> int level + sum_list (map path_move (take n (path_components path))))"
proof (induction level path rule: is_valid_path_loop.induct)
  case (1 level path)
  let ?c = "takeWhile (\<lambda>c. c \<noteq> CHR ''/'') path"
  let ?r = "dropWhile (\<lambda>c. c = CHR ''/'') (dropWhile (\<lambda>c. c \<noteq> CHR ''/'') path)"
  show ?case
  proof (cases "path = []")
    case True
    then show ?thesis by (simp add: is_valid_path_loop.simps path_components_def codec_simps)
  next
    case False
    then have cs: "path_components path = ?c # path_components ?r" by (rule path_components_Cons) (use 1(4) False in simp)
    have r: "?r = [] \<or> hd ?r \<noteq> CHR ''/''" by (rule hd_after_slashes)
    have neg: "\<not> (\<forall>n. 0 \<le> (- 1 :: int) + sum_list (map path_move (take n cs)))" for cs
      by (auto intro!: exI [of _ 0])
    consider (dot) "?c = ''.''" | (up) "?c = ''..''" | (name) "?c \<noteq> ''.''" "?c \<noteq> ''..''" by blast
    then show ?thesis
    proof cases
      case dot
      with False 1(1)[OF False refl refl dot r] show ?thesis
        unfolding cs all_prefixes_Cons is_valid_path_loop.simps [of level path] by (simp add: Let_def codec_simps)
    next
      case up
      then have "?c \<noteq> ''.''" by simp
      with up False neg 1(2)[OF False refl refl this up _ r] show ?thesis
        unfolding cs all_prefixes_Cons is_valid_path_loop.simps [of level path]
        by (cases level) (simp_all add: Let_def codec_simps)
    next
      case name
      with False 1(3)[OF False refl refl name r] show ?thesis
        unfolding cs all_prefixes_Cons is_valid_path_loop.simps [of level path] by (simp add: Let_def codec_simps add.commute)
    qed
  qed
qed

text \<open>
  The check of a file path accepts exactly the paths none of whose prefixes climbs above the
  root.
\<close>

theorem is_valid_path_stays_below_root:
  "is_valid_path path \<longleftrightarrow> (\<forall>n. 0 \<le> sum_list (map path_move (take n (path_components path))))"
proof -
  show ?thesis
    using is_valid_path_loop_depth [OF hd_after_slashes, of 0 path]
    by (simp add: is_valid_path_def path_components_slash)
qed

end
