(* ===== verification/Http_Stream.thy ===== *)
theory Http_Stream
  imports Http_Codec
begin

text \<open>
  httplib.h, the connection as a byte stream: \<^verbatim>\<open>SocketStream\<close> with its read buffer over what the
  peer sends, and \<^verbatim>\<open>stream_line_reader\<close>. Shown here: however the bytes arrive, reading yields
  them in order (\<open>to_come\<close>), a line is read up to its newline, and a sequence of reads that ends
  where a segment ends leaves nothing in the buffer.
\<close>

named_theorems stream_simps

section \<open>\<^verbatim>\<open>SocketStream\<close>\<close>

text \<open>
  \<open>segments\<close> are the pieces the peer's bytes arrive in; one \<^verbatim>\<open>recv\<close> returns bytes of one piece. After
  them the peer has closed its side (\<^verbatim>\<open>recv\<close> returns 0), or nothing arrives within the read timeout.
  \<open>read_buff\<close> is the part of \<^verbatim>\<open>read_buff_\<close> that was received and not read yet, \<open>sent\<close> what was written.
\<close>

datatype peer_end = Peer_closed | Peer_silent

record sock_stream =
  read_buff :: string
  segments :: "string list"
  peer :: peer_end
  peer_writable :: bool
  sent :: string

definition read_buff_size :: nat where
  "read_buff_size = 4096"

definition RECV_BUFSIZ :: nat where
  "RECV_BUFSIZ = 4096"

fun recv :: "nat \<Rightarrow> string list \<Rightarrow> string \<times> string list" where
  "recv n [] = ([], [])"
| "recv n (x # xs) = (if x = [] then recv n xs else (take n x, drop n x # xs))"

text \<open>The result is \<open>None\<close> for \<open>-1\<close>, and the bytes read otherwise; no bytes are the end of the stream.\<close>

definition sock_read :: "nat \<Rightarrow> sock_stream \<Rightarrow> string option \<times> sock_stream" where
  "sock_read n s =
     (if read_buff s \<noteq> [] then (Some (take n (read_buff s)), s\<lparr>read_buff := drop n (read_buff s)\<rparr>)
      else if concat (segments s) = [] then (case peer s of Peer_silent \<Rightarrow> None | Peer_closed \<Rightarrow> Some [], s)
      else if n < read_buff_size then
        (let (d, xs) = recv read_buff_size (segments s)
         in (Some (take n d), s\<lparr>read_buff := drop n d, segments := xs\<rparr>))
      else
        (let (d, xs) = recv n (segments s) in (Some d, s\<lparr>segments := xs\<rparr>)))"

definition sock_write :: "string \<Rightarrow> sock_stream \<Rightarrow> bool \<times> sock_stream" where
  "sock_write data s = (if peer_writable s then (True, s\<lparr>sent := sent s @ data\<rparr>) else (False, s))"

text \<open>The bytes that are still to be read.\<close>

definition to_come :: "sock_stream \<Rightarrow> string" where
  "to_come s = read_buff s @ concat (segments s)"

lemma recv_concat: "fst (recv n xs) @ concat (snd (recv n xs)) = concat xs"
  by (induction n xs rule: recv.induct) auto

lemma recv_length: "length (fst (recv n xs)) \<le> n"
  by (induction n xs rule: recv.induct) auto

lemma recv_Nil: "0 < n \<Longrightarrow> fst (recv n xs) = [] \<longleftrightarrow> concat xs = []"
  by (induction n xs rule: recv.induct) auto

text \<open>What one read does, in terms of the bytes still to come.\<close>

lemma sock_read_frame:
  "peer (snd (sock_read n s)) = peer s" "peer_writable (snd (sock_read n s)) = peer_writable s"
  "sent (snd (sock_read n s)) = sent s"
  by (simp_all add: sock_read_def split_beta)

text \<open>The four cases of a read: from the buffer, at the end, through the buffer, directly.\<close>

lemma sock_read_cases:
  obtains (buffered) "read_buff s \<noteq> []"
      "sock_read n s = (Some (take n (read_buff s)), s\<lparr>read_buff := drop n (read_buff s)\<rparr>)"
  | (ended) "read_buff s = []" "concat (segments s) = []"
      "sock_read n s = (if peer s = Peer_closed then Some [] else None, s)"
  | (filled) d xs where "read_buff s = []" "concat (segments s) \<noteq> []" "n < read_buff_size"
      "recv read_buff_size (segments s) = (d, xs)"
      "sock_read n s = (Some (take n d), s\<lparr>read_buff := drop n d, segments := xs\<rparr>)"
  | (direct) d xs where "read_buff s = []" "concat (segments s) \<noteq> []" "read_buff_size \<le> n"
      "recv n (segments s) = (d, xs)" "sock_read n s = (Some d, s\<lparr>segments := xs\<rparr>)"
proof -
  consider "read_buff s \<noteq> []" | "read_buff s = []" "concat (segments s) = []"
    | "read_buff s = []" "concat (segments s) \<noteq> []" "n < read_buff_size"
    | "read_buff s = []" "concat (segments s) \<noteq> []" "read_buff_size \<le> n"
    by (meson not_le)
  then show thesis
  proof cases
    case 1
    then show ?thesis by (intro buffered) (simp_all add: sock_read_def)
  next
    case 2
    then show ?thesis by (intro ended) (simp_all add: sock_read_def split: peer_end.split)
  next
    case 3
    obtain d xs where "recv read_buff_size (segments s) = (d, xs)" by fastforce
    with 3 show ?thesis by (intro filled [of d xs]) (simp_all add: sock_read_def del: concat_eq_Nil_conv)
  next
    case 4
    obtain d xs where "recv n (segments s) = (d, xs)" by fastforce
    with 4 show ?thesis by (intro direct [of d xs]) (simp_all add: sock_read_def del: concat_eq_Nil_conv)
  qed
qed

lemma sock_read_pending:
  assumes "fst (sock_read n s) = Some d" "0 < n"
  shows "to_come s = d @ to_come (snd (sock_read n s))" "length d \<le> n" "d = [] \<longleftrightarrow> to_come s = []"
proof -
  have "to_come s = d @ to_come (snd (sock_read n s)) \<and> length d \<le> n \<and> (d = [] \<longleftrightarrow> to_come s = [])"
  proof (cases n s rule: sock_read_cases)
    case buffered
    with assms show ?thesis by (auto simp: to_come_def)
  next
    case ended
    with assms show ?thesis by (auto simp: to_come_def split: if_splits)
  next
    case (filled e xs)
    with recv_concat [of read_buff_size "segments s"] recv_Nil [of read_buff_size "segments s"] assms
    have "e @ concat xs = concat (segments s)" "e \<noteq> []" "d = take n e"
      by (auto simp: read_buff_size_def simp del: concat_eq_Nil_conv)
    moreover then have "take n e @ drop n e @ concat xs = concat (segments s)"
      by (simp only: append_assoc [symmetric] append_take_drop_id)
    ultimately show ?thesis using filled assms(2) by (auto simp: to_come_def simp del: concat_eq_Nil_conv)
  next
    case (direct e xs)
    with recv_concat [of n "segments s"] recv_Nil [of n "segments s"] recv_length [of n "segments s"] assms
    have "e @ concat xs = concat (segments s)" "e \<noteq> []" "d = e" "length e \<le> n"
      by (auto simp del: concat_eq_Nil_conv)
    then show ?thesis using direct by (auto simp: to_come_def simp del: concat_eq_Nil_conv)
  qed
  then show "to_come s = d @ to_come (snd (sock_read n s))" "length d \<le> n" "d = [] \<longleftrightarrow> to_come s = []"
    by blast+
qed

lemma sock_read_None: "fst (sock_read n s) = None \<Longrightarrow> to_come s = [] \<and> peer s = Peer_silent \<and> snd (sock_read n s) = s"
  by (auto simp: sock_read_def to_come_def split_beta split: if_splits peer_end.splits)

lemma sock_read_end:
  "to_come s = [] \<Longrightarrow> fst (sock_read n s) = (if peer s = Peer_closed then Some [] else None)"
  by (cases "peer s") (auto simp: sock_read_def to_come_def)

lemma sock_read_some:
  assumes "to_come s \<noteq> []" "0 < n"
  obtains d s' where "sock_read n s = (Some d, s')" "d \<noteq> []" "length d \<le> n" "to_come s = d @ to_come s'"
    "peer s' = peer s" "peer_writable s' = peer_writable s" "sent s' = sent s"
proof -
  obtain r s' where e: "sock_read n s = (r, s')" by fastforce
  with assms(1) sock_read_None [of n s] obtain d where d: "r = Some d" by (cases r) auto
  have f: "fst (sock_read n s) = Some d" "snd (sock_read n s) = s'" using e d by simp_all
  show ?thesis
  proof (rule that)
    show "sock_read n s = (Some d, s')" using e d by simp
    show "to_come s = d @ to_come s'" "length d \<le> n" "d \<noteq> []"
      using sock_read_pending [OF f(1) assms(2)] assms(1) f(2) by simp_all
    show "peer s' = peer s" "peer_writable s' = peer_writable s" "sent s' = sent s"
      using sock_read_frame [of n s] f(2) by simp_all
  qed
qed

lemma sock_read_byte:
  assumes "to_come s = c # rest"
  obtains s' where "sock_read 1 s = (Some [c], s')" "to_come s' = rest"
    "peer s' = peer s" "peer_writable s' = peer_writable s" "sent s' = sent s"
proof -
  obtain d s' where "sock_read 1 s = (Some d, s')" "d \<noteq> []" "length d \<le> 1" "to_come s = d @ to_come s'"
    "peer s' = peer s" "peer_writable s' = peer_writable s" "sent s' = sent s"
    using sock_read_some [of s 1] assms by auto
  with assms that show ?thesis by (cases d) auto
qed

section \<open>\<^verbatim>\<open>stream_line_reader\<close>\<close>

lemma sock_read_less:
  assumes "sock_read n s = (Some (c # d), s')" "0 < n"
  shows "length (to_come s') < length (to_come s)"
  using sock_read_pending(1) [of n s "c # d"] assms by simp

text \<open>
  One byte at a time up to a newline, which belongs to the line. The line is the same text in the
  fixed buffer and in the one that grows; read as a C string it ends at the first NUL. A stream
  that ends in the middle of a line gives the part it has.
\<close>

function line_loop :: "string \<Rightarrow> sock_stream \<Rightarrow> string option \<times> sock_stream" where
  "line_loop line s =
     (case sock_read 1 s of
        (None, s') \<Rightarrow> (None, s')
      | (Some [], s') \<Rightarrow> (if line = [] then None else Some line, s')
      | (Some (c # d), s') \<Rightarrow>
          if c = CHR 0x0A then (Some (line @ [c]), s') else line_loop (line @ [c]) s')"
  by pat_completeness auto

termination
  by (relation "measure (\<lambda>(line, s). length (to_come s))")
     (auto simp del: One_nat_def dest!: sym [of _ "sock_read _ _"] sock_read_less)

declare line_loop.simps [simp del]

definition sock_getline :: "sock_stream \<Rightarrow> string option \<times> sock_stream" where
  "sock_getline s = line_loop [] s"

definition end_with_crlf :: "string \<Rightarrow> bool" where
  "end_with_crlf line \<longleftrightarrow> length line \<ge> 2 \<and> drop (length line - 2) line = [CHR 0x0D, CHR 0x0A]"

lemma line_loop_line:
  assumes "to_come s = l @ CHR 0x0A # r" "CHR 0x0A \<notin> set l"
  obtains s' where "line_loop line s = (Some (line @ l @ [CHR 0x0A]), s')" "to_come s' = r"
    "peer s' = peer s" "peer_writable s' = peer_writable s" "sent s' = sent s"
  using assms
proof (induction l arbitrary: line s thesis)
  case Nil
  obtain s' where "sock_read 1 s = (Some [CHR 0x0A], s')" "to_come s' = r"
    "peer s' = peer s" "peer_writable s' = peer_writable s" "sent s' = sent s"
    using sock_read_byte [of s "CHR 0x0A" r] Nil.prems(2) by auto
  then show ?case by (intro Nil.prems(1) [of s']) (simp_all add: line_loop.simps [of line s])
next
  case (Cons c l)
  obtain s1 where s1: "sock_read 1 s = (Some [c], s1)" "to_come s1 = l @ CHR 0x0A # r"
    "peer s1 = peer s" "peer_writable s1 = peer_writable s" "sent s1 = sent s"
    using sock_read_byte [of s c "l @ CHR 0x0A # r"] Cons.prems(2) by auto
  have "CHR 0x0A \<notin> set l" using Cons.prems(3) by simp
  from Cons.IH [OF _ s1(2) this, of "line @ [c]"] obtain s' where
    "line_loop (line @ [c]) s1 = (Some ((line @ [c]) @ l @ [CHR 0x0A]), s')" "to_come s' = r"
    "peer s' = peer s1" "peer_writable s' = peer_writable s1" "sent s' = sent s1" by blast
  moreover have "c \<noteq> CHR 0x0A" using Cons.prems(3) by auto
  ultimately show ?case using s1
    by (intro Cons.prems(1) [of s']) (simp_all add: line_loop.simps [of line s])
qed

lemma getline_line:
  assumes "to_come s = l @ CHR 0x0A # r" "CHR 0x0A \<notin> set l"
  obtains s' where "sock_getline s = (Some (l @ [CHR 0x0A]), s')" "to_come s' = r"
    "peer s' = peer s" "peer_writable s' = peer_writable s" "sent s' = sent s"
  using line_loop_line [OF assms, of "[]"] by (auto simp: sock_getline_def)

lemma getline_end: "to_come s = [] \<Longrightarrow> fst (sock_getline s) = None"
  using sock_read_end [of s 1]
  by (cases "sock_read 1 s") (auto simp: sock_getline_def line_loop.simps [of "[]" s] split: if_splits)

section \<open>Sequences of reads and writes\<close>

text \<open>
  Everything the library does with a stream is a sequence of these steps: the bytes still to come
  only lose a prefix, and what was written stays.
\<close>

inductive uses :: "sock_stream \<Rightarrow> sock_stream \<Rightarrow> bool" where
  uses_refl: "uses s s"
| uses_read: "uses s s' \<Longrightarrow> 0 < n \<Longrightarrow> uses s (snd (sock_read n s'))"
| uses_write: "uses s s' \<Longrightarrow> uses s (snd (sock_write d s'))"

lemma uses_trans: "uses b c \<Longrightarrow> uses a b \<Longrightarrow> uses a c"
  by (induction rule: uses.induct) (auto intro: uses.intros)

lemma read_uses: "0 < n \<Longrightarrow> sock_read n s = (r, s') \<Longrightarrow> uses s s'"
  using uses_read [OF uses_refl, of n s] by simp

lemma write_uses: "sock_write d s = (r, s') \<Longrightarrow> uses s s'"
  using uses_write [OF uses_refl, of s d] by simp

lemma sock_write_frame:
  "to_come (snd (sock_write d s)) = to_come s" "peer (snd (sock_write d s)) = peer s"
  "peer_writable (snd (sock_write d s)) = peer_writable s"
  "segments (snd (sock_write d s)) = segments s" "read_buff (snd (sock_write d s)) = read_buff s"
  by (simp_all add: sock_write_def to_come_def)

lemma sock_read_suffix: "0 < n \<Longrightarrow> \<exists>d. to_come s = d @ to_come (snd (sock_read n s))"
  using sock_read_None [of n s] sock_read_pending(1) [of n s] by (cases "fst (sock_read n s)") auto

lemma uses_suffix:
  "uses s s' \<Longrightarrow> (\<exists>d. to_come s = d @ to_come s') \<and> peer s' = peer s \<and> peer_writable s' = peer_writable s"
proof (induction rule: uses.induct)
  case (uses_read s s' n)
  then show ?case using sock_read_suffix [of n s'] by (auto simp: sock_read_frame)
qed (auto simp: sock_write_frame)

lemma uses_shrinks: "uses s s' \<Longrightarrow> length (to_come s') \<le> length (to_come s)"
  using uses_suffix by fastforce

lemma line_loop_uses: "uses s (snd (line_loop line s))"
proof (induction line s rule: line_loop.induct)
  case (1 line s)
  obtain r s' where e: "sock_read 1 s = (r, s')" by fastforce
  then have u: "uses s s'" by (intro read_uses) auto
  show ?case
  proof (cases r)
    case None
    with e u show ?thesis by (simp add: line_loop.simps [of line s])
  next
    case (Some d)
    with e u 1 [of r s' d] show ?thesis
      by (cases d) (auto simp: line_loop.simps [of line s] intro: uses_trans)
  qed
qed

lemma getline_uses: "sock_getline s = (r, s') \<Longrightarrow> uses s s'"
  using line_loop_uses [of s "[]"] by (simp add: sock_getline_def)

lemma line_loop_sent: "sent (snd (line_loop line s)) = sent s"
proof (induction line s rule: line_loop.induct)
  case (1 line s)
  obtain r s' where e: "sock_read 1 s = (r, s')" by fastforce
  then have f: "sent s' = sent s" using sock_read_frame(3) [of 1 s] by simp
  show ?case
  proof (cases r)
    case None
    with e f show ?thesis by (simp add: line_loop.simps [of line s])
  next
    case (Some d)
    with e f 1 [of r s' d] show ?thesis
      by (cases d) (auto simp: line_loop.simps [of line s])
  qed
qed

lemma getline_sent: "sock_getline s = (r, s') \<Longrightarrow> sent s' = sent s"
  using line_loop_sent [of "[]" s] by (simp add: sock_getline_def)

text \<open>\<open>before post s\<close>: the stream has not read past the start of the segments \<open>post\<close>.\<close>

definition before :: "string list \<Rightarrow> sock_stream \<Rightarrow> bool" where
  "before post s \<longleftrightarrow> (\<exists>pre. segments s = pre @ post)"

lemma recv_append:
  "concat xs \<noteq> [] \<Longrightarrow> recv n (xs @ ys) = (fst (recv n xs), snd (recv n xs) @ ys)"
  by (induction n xs rule: recv.induct) auto

lemma read_keeps_before:
  assumes "before post s" "0 < n" "length (concat post) \<le> length (to_come (snd (sock_read n s)))"
  shows "before post (snd (sock_read n s))"
proof -
  from assms(1) obtain pre where pre: "segments s = pre @ post" by (auto simp: before_def)
  have nonblank: "concat pre \<noteq> []"
    if "read_buff s = []" "concat (segments s) \<noteq> []" "0 < k" "recv k (segments s) = (d, xs)" "e \<noteq> []" "e @ r = d"
      "length (concat post) \<le> length (r @ concat xs)" for k d xs e r
  proof
    assume b: "concat pre = []"
    have "d @ concat xs = concat pre @ concat post"
      using recv_concat [of k "segments s"] that(4) by (simp add: pre)
    then have "concat post = e @ r @ concat xs" by (simp only: b that(6) [symmetric] append_Nil append_assoc)
    with that(5,7) show False by simp
  qed
  show ?thesis
  proof (cases n s rule: sock_read_cases)
    case buffered
    with assms(1) show ?thesis by (simp add: before_def)
  next
    case ended
    with assms(1) show ?thesis by (simp add: before_def)
  next
    case (filled d xs)
    have "d \<noteq> []" using filled recv_Nil [of read_buff_size "segments s"]
      by (auto simp: read_buff_size_def simp del: concat_eq_Nil_conv)
    then have "take n d \<noteq> []" using assms(2) by simp
    then have "concat pre \<noteq> []"
      using filled assms(3) nonblank [of read_buff_size d xs "take n d" "drop n d"]
      by (simp add: to_come_def read_buff_size_def del: concat_eq_Nil_conv)
    with filled recv_append [of pre read_buff_size post] show ?thesis by (auto simp: before_def pre)
  next
    case (direct d xs)
    have "d \<noteq> []" using direct recv_Nil [of n "segments s"] assms(2) by (auto simp del: concat_eq_Nil_conv)
    then have "concat pre \<noteq> []"
      using direct assms(2,3) nonblank [of n d xs d "[]"] by (simp add: to_come_def del: concat_eq_Nil_conv)
    with direct recv_append [of pre n post] show ?thesis by (auto simp: before_def pre)
  qed
qed

lemma uses_keeps_before:
  "uses s s' \<Longrightarrow> before post s \<Longrightarrow> length (concat post) \<le> length (to_come s') \<Longrightarrow> before post s'"
proof (induction rule: uses.induct)
  case (uses_read s s' n)
  have "length (to_come (snd (sock_read n s'))) \<le> length (to_come s')"
    using uses_shrinks [OF uses.uses_read [OF uses_refl uses_read.hyps(2), of s']] .
  with uses_read show ?case by (intro read_keeps_before) auto
qed (auto simp: before_def sock_write_frame)

text \<open>
  When exactly the bytes in front of \<open>post\<close> were used, the buffer is empty and \<open>post\<close> is what is
  still to be received.
\<close>

lemma uses_exactly:
  assumes "uses s s'" "before post s" "to_come s' = concat post"
  shows "read_buff s' = []" "\<exists>blank. segments s' = blank @ post \<and> concat blank = []"
proof -
  from uses_keeps_before [OF assms(1,2)] assms(3) obtain pre where p: "segments s' = pre @ post"
    by (auto simp: before_def)
  then have "read_buff s' @ concat pre = []" using assms(3) by (simp add: to_come_def)
  then show "read_buff s' = []" "\<exists>blank. segments s' = blank @ post \<and> concat blank = []" using p by auto
qed

end
