(* ===== verification/Http_Message.thy ===== *)
theory Http_Message
  imports Http_Stream Log_Files
begin

text \<open>
  httplib.h, the parts of a message: headers, the three ways to read content (with a length, until
  the peer closes, in chunks) and byte ranges. Shown here: what \<open>write_headers\<close> writes is read
  back, content of a given length is handed on complete and in order however it arrives, a chunked
  body is the concatenation of its chunks, and an answered range lies inside the body.
\<close>

section \<open>Headers\<close>

text \<open>\<^verbatim>\<open>Headers\<close> is a \<^verbatim>\<open>std::multimap\<close> ordered by \<^verbatim>\<open>detail::ci\<close>, which compares lower-case letters.\<close>

type_synonym headers = "(string \<times> string) list"

definition tolower :: "char \<Rightarrow> char" where
  "tolower c = (if 65 \<le> (of_char c :: nat) \<and> (of_char c :: nat) \<le> 90 then char_of (of_char c + 32 :: nat) else c)"

definition ci_less :: "string \<Rightarrow> string \<Rightarrow> bool" where
  "ci_less s1 s2 \<longleftrightarrow> map tolower s1 < map tolower s2"

definition compare_case_ignore :: "string \<Rightarrow> string \<Rightarrow> bool" where
  "compare_case_ignore a b \<longleftrightarrow> length a = length b \<and> list_all2 (\<lambda>x y. tolower x = tolower y) a b"

definition header_range :: "headers \<Rightarrow> string \<Rightarrow> headers" where
  "header_range h key = filter (\<lambda>e. \<not> ci_less (fst e) key \<and> \<not> ci_less key (fst e)) h"

definition has_header :: "headers \<Rightarrow> string \<Rightarrow> bool" where
  "has_header h key \<longleftrightarrow> header_range h key \<noteq> []"

text \<open>The first value under a key, as a C string; the index \<^verbatim>\<open>id\<close> is 0 in every call.\<close>

definition get_header_value :: "headers \<Rightarrow> string \<Rightarrow> string \<Rightarrow> string" where
  "get_header_value h key dflt = (case header_range h key of [] \<Rightarrow> dflt | e # _ \<Rightarrow> c_str (snd e))"

definition strtoull10 :: "string \<Rightarrow> u64" where
  "strtoull10 s =
     (case strto (c_str s) of
        None \<Rightarrow> 0
      | Some (neg, n, _) \<Rightarrow> if n \<ge> 2 ^ 64 then - 1 else if neg then - of_nat n else of_nat n)"

definition get_header_value_u64 :: "headers \<Rightarrow> string \<Rightarrow> u64 \<Rightarrow> u64" where
  "get_header_value_u64 h key dflt = (case header_range h key of [] \<Rightarrow> dflt | e # _ \<Rightarrow> strtoull10 (snd e))"

definition has_crlf :: "string \<Rightarrow> bool" where
  "has_crlf s \<longleftrightarrow> CHR 0x0D \<in> set (c_str s) \<or> CHR 0x0A \<in> set (c_str s)"

definition emplace_header :: "string \<Rightarrow> string \<Rightarrow> headers \<Rightarrow> headers" where
  "emplace_header key val h = mm_emplace ci_less key val h"

text \<open>\<^verbatim>\<open>set_header\<close> of requests and responses: it adds, and ignores texts with a line break.\<close>

definition set_header :: "string \<Rightarrow> string \<Rightarrow> headers \<Rightarrow> headers" where
  "set_header key val h = (if \<not> has_crlf key \<and> \<not> has_crlf val then emplace_header key val h else h)"

text \<open>A line without its terminator. Every value but that of \<^verbatim>\<open>Location\<close> is percent-decoded.\<close>

definition rtrim :: "string \<Rightarrow> string" where
  "rtrim s = rev (dropWhile is_space_or_tab (rev s))"

definition parse_header :: "string \<Rightarrow> (string \<times> string) option" where
  "parse_header line =
     (let l = rtrim line;
          key = takeWhile (\<lambda>c. c \<noteq> CHR '':'') l;
          rest = dropWhile (\<lambda>c. c \<noteq> CHR '':'') l
      in if rest = [] then None
         else
           let p = dropWhile is_space_or_tab (tl rest)
           in if p \<noteq> [] then Some (key, if compare_case_ignore key ''Location'' then p else decode_url p False)
              else None)"

definition add_header_line :: "string \<Rightarrow> headers \<Rightarrow> headers" where
  "add_header_line line h = (case parse_header line of None \<Rightarrow> h | Some (key, val) \<Rightarrow> emplace_header key val h)"

definition HEADER_MAX_LENGTH :: nat where
  "HEADER_MAX_LENGTH = 8192"

lemma line_loop_less:
  "line_loop line s = (Some l, s') \<Longrightarrow> line = [] \<Longrightarrow> length (to_come s') < length (to_come s)"
proof -
  assume a: "line_loop line s = (Some l, s')" and e: "line = []"
  obtain r s1 where r: "sock_read 1 s = (r, s1)" by fastforce
  with a e obtain c d where d: "r = Some (c # d)"
    by (cases r; cases "the r") (auto simp: line_loop.simps [of "[]" s])
  have l: "length (to_come s1) < length (to_come s)" using sock_read_less [of 1 s c d s1] r d by simp
  show ?thesis
  proof (cases "c = CHR 0x0A")
    case True
    with a e r d l show ?thesis by (simp add: line_loop.simps [of "[]" s])
  next
    case False
    then have "line_loop [c] s1 = (Some l, s')" using a e r d by (simp add: line_loop.simps [of "[]" s])
    then have "uses s1 s'" using line_loop_uses [of s1 "[c]"] by simp
    with l uses_shrinks show ?thesis by (meson le_less_trans)
  qed
qed

lemma getline_less: "sock_getline s = (Some l, s') \<Longrightarrow> length (to_come s') < length (to_come s)"
  unfolding sock_getline_def by (rule line_loop_less) auto

text \<open>A line that does not end in CRLF is skipped; a line that is too long, or the end of the stream, fails.\<close>

function read_headers :: "headers \<Rightarrow> sock_stream \<Rightarrow> bool \<times> headers \<times> sock_stream" where
  "read_headers h s =
     (case sock_getline s of
        (None, s') \<Rightarrow> (False, h, s')
      | (Some line, s') \<Rightarrow>
          if end_with_crlf line then
            (if length line = 2 then (True, h, s')
             else if length line > HEADER_MAX_LENGTH then (False, h, s')
             else read_headers (add_header_line (take (length line - 2) line) h) s')
          else read_headers h s')"
  by pat_completeness auto

termination
  by (relation "measure (\<lambda>(h, s). length (to_come s))")
     (auto dest!: sym [of _ "sock_getline _"] getline_less)

declare read_headers.simps [simp del]

definition header_line :: "string \<times> string \<Rightarrow> string" where
  "header_line e = c_str (fst e) @ '': '' @ c_str (snd e) @ [CHR 0x0D, CHR 0x0A]"

definition write_headers :: "headers \<Rightarrow> string" where
  "write_headers h = concat (map header_line h) @ [CHR 0x0D, CHR 0x0A]"
section \<open>Reading back written headers\<close>

text \<open>Headers a line can carry unchanged.\<close>

definition header_ok :: "string \<times> string \<Rightarrow> bool" where
  "header_ok e \<longleftrightarrow>
     CHR '':'' \<notin> set (fst e) \<and> snd e \<noteq> [] \<and> \<not> is_space_or_tab (hd (snd e)) \<and> \<not> is_space_or_tab (last (snd e)) \<and>
     set (fst e @ snd e) \<inter> {CHR 0x00, CHR 0x0A} = {} \<and> CHR ''%'' \<notin> set (snd e) \<and>
     length (fst e) + length (snd e) + 4 \<le> HEADER_MAX_LENGTH"

definition headers_ok :: "headers \<Rightarrow> bool" where
  "headers_ok h \<longleftrightarrow> (\<forall>e \<in> set h. header_ok e) \<and> sorted_wrt (\<lambda>a b. \<not> ci_less (fst b) (fst a)) h"

lemma rtrim_id: "s \<noteq> [] \<Longrightarrow> \<not> is_space_or_tab (last s) \<Longrightarrow> rtrim s = s"
  by (cases s rule: rev_cases) (simp_all add: rtrim_def)

lemma dropWhile_colon: "CHR '':'' \<notin> set k \<Longrightarrow> dropWhile (\<lambda>c. c \<noteq> CHR '':'') (k @ CHR '':'' # v) = CHR '':'' # v"
  "CHR '':'' \<notin> set k \<Longrightarrow> takeWhile (\<lambda>c. c \<noteq> CHR '':'') (k @ CHR '':'' # v) = k"
  by (induction k) auto

lemma parse_header_line:
  assumes "header_ok e"
  shows "parse_header (fst e @ '': '' @ snd e) = Some e"
proof -
  have v: "snd e \<noteq> []" "\<not> is_space_or_tab (hd (snd e))" "\<not> is_space_or_tab (last (snd e))" "CHR ''%'' \<notin> set (snd e)"
    and k: "CHR '':'' \<notin> set (fst e)" using assms by (auto simp: header_ok_def)
  have "rtrim (fst e @ '': '' @ snd e) = fst e @ '': '' @ snd e" using v by (intro rtrim_id) auto
  moreover have "dropWhile is_space_or_tab ('' '' @ snd e) = snd e"
    using v by (simp add: is_space_or_tab_def [of "CHR '' ''"] dropWhile_eq_self_iff)
  moreover have "decode_url (snd e) False = snd e" using v(4) by (rule decode_no_percent)
  ultimately show ?thesis using k v(1)
    by (simp add: parse_header_def Let_def dropWhile_colon)
qed

lemma getline_crlf:
  assumes "to_come s = l @ CHR 0x0D # CHR 0x0A # r" "CHR 0x0A \<notin> set l"
  obtains s' where "sock_getline s = (Some (l @ [CHR 0x0D, CHR 0x0A]), s')" "to_come s' = r"
    "sent s' = sent s" "uses s s'"
proof -
  obtain s' where "sock_getline s = (Some ((l @ [CHR 0x0D]) @ [CHR 0x0A]), s')" "to_come s' = r" "sent s' = sent s"
    using getline_line [of s "l @ [CHR 0x0D]" r] assms by auto
  with getline_uses that show ?thesis by force
qed

lemma end_with_crlf_append [simp]: "end_with_crlf (l @ [CHR 0x0D, CHR 0x0A])"
  by (simp add: end_with_crlf_def)

lemma read_headers_written:
  assumes "\<forall>e \<in> set h. header_ok e" "sorted_wrt (\<lambda>a b. \<not> ci_less (fst b) (fst a)) (acc @ h)"
    and "to_come s = write_headers h @ r"
  obtains s' where "read_headers acc s = (True, acc @ h, s')" "to_come s' = r" "sent s' = sent s" "uses s s'"
  using assms
proof (induction h arbitrary: acc s thesis)
  case Nil
  have "to_come s = [] @ CHR 0x0D # CHR 0x0A # r" using Nil.prems(4) by (simp add: write_headers_def)
  from getline_crlf [OF this] obtain s' where
    "sock_getline s = (Some [CHR 0x0D, CHR 0x0A], s')" "to_come s' = r" "sent s' = sent s" "uses s s'" by auto
  then show ?case
    by (intro Nil.prems(1) [of s']) (auto simp: read_headers.simps [of acc s] end_with_crlf_def)
next
  case (Cons e h)
  have ok: "header_ok e" using Cons.prems(2) by simp
  then have c: "c_str (fst e) = fst e" "c_str (snd e) = snd e" "snd e \<noteq> []"
    and n: "CHR 0x0A \<notin> set (fst e @ '': '' @ snd e)"
    and len: "length (fst e) + length (snd e) + 4 \<le> HEADER_MAX_LENGTH"
    by (auto simp: header_ok_def)
  have "to_come s = (fst e @ '': '' @ snd e) @ CHR 0x0D # CHR 0x0A # (write_headers h @ r)"
    using Cons.prems(4) c by (simp add: write_headers_def header_line_def)
  from getline_crlf [OF this n] obtain s1 where s1:
    "sock_getline s = (Some ((fst e @ '': '' @ snd e) @ [CHR 0x0D, CHR 0x0A]), s1)"
    "to_come s1 = write_headers h @ r" "sent s1 = sent s" "uses s s1" by blast
  have "\<forall>x \<in> set acc. \<not> ci_less (fst e) (fst x)" using Cons.prems(3) by (auto simp: sorted_wrt_append)
  then have m: "emplace_header (fst e) (snd e) acc = acc @ [e]"
    by (simp add: emplace_header_def mm_emplace_last)
  have step: "read_headers acc s = read_headers (acc @ [e]) s1"
    using s1(1) len c(3) parse_header_line [OF ok] m
    by (subst read_headers.simps) (simp add: add_header_line_def end_with_crlf_def split_beta)
  have sorted: "sorted_wrt (\<lambda>a b. \<not> ci_less (fst b) (fst a)) ((acc @ [e]) @ h)" using Cons.prems(3) by simp
  from Cons.IH [OF _ _ sorted s1(2)] Cons.prems(2) obtain s' where
    "read_headers (acc @ [e]) s1 = (True, (acc @ [e]) @ h, s')" "to_come s' = r" "sent s' = sent s1" "uses s1 s'" by auto
  with step s1 uses_trans show ?case by (intro Cons.prems(1) [of s']) auto
qed

section \<open>Content\<close>

text \<open>
  Content goes to a receiver piece by piece; it may refuse a piece. \<open>'x\<close> is what the receiver
  works on: the body, or the parser of a form. One read is at most \<^verbatim>\<open>CPPHTTPLIB_RECV_BUFSIZ\<close> bytes.
\<close>

type_synonym 'x receiver = "string \<Rightarrow> 'x \<Rightarrow> bool \<times> 'x"

function read_content_with_length ::
  "'x receiver \<Rightarrow> nat \<Rightarrow> nat \<Rightarrow> 'x \<Rightarrow> sock_stream \<Rightarrow> bool \<times> 'x \<times> sock_stream" where
  "read_content_with_length out len r x s =
     (if r < len then
        (case sock_read (min (len - r) RECV_BUFSIZ) s of
           (None, s') \<Rightarrow> (False, x, s')
         | (Some d, s') \<Rightarrow>
             if d = [] then (False, x, s')
             else
               let (ok, x') = out d x
               in if \<not> ok then (False, x', s')
                  else read_content_with_length out len (r + length d) x' s')
      else (True, x, s))"
  by pat_completeness auto

termination
  by (relation "measure (\<lambda>(out, len, r, x, s). len - r)") (auto intro: diff_less_mono2)

declare read_content_with_length.simps [simp del]

function skip_content_with_length :: "nat \<Rightarrow> nat \<Rightarrow> sock_stream \<Rightarrow> sock_stream" where
  "skip_content_with_length len r s =
     (if r < len then
        (case sock_read (min (len - r) RECV_BUFSIZ) s of
           (None, s') \<Rightarrow> s'
         | (Some d, s') \<Rightarrow> if d = [] then s' else skip_content_with_length len (r + length d) s')
      else s)"
  by pat_completeness auto

termination
  by (relation "measure (\<lambda>(len, r, s). len - r)") (auto intro: diff_less_mono2)

declare skip_content_with_length.simps [simp del]

lemma sock_read_less': "sock_read n s = (Some d, s') \<Longrightarrow> d \<noteq> [] \<Longrightarrow> 0 < n \<Longrightarrow> length (to_come s') < length (to_come s)"
  by (cases d) (auto intro: sock_read_less)

function read_content_without_length :: "'x receiver \<Rightarrow> 'x \<Rightarrow> sock_stream \<Rightarrow> bool \<times> 'x \<times> sock_stream" where
  "read_content_without_length out x s =
     (case sock_read RECV_BUFSIZ s of
        (None, s') \<Rightarrow> (False, x, s')
      | (Some d, s') \<Rightarrow>
          if d = [] then (True, x, s')
          else
            let (ok, x') = out d x
            in if \<not> ok then (False, x', s') else read_content_without_length out x' s')"
  by pat_completeness auto

termination
  by (relation "measure (\<lambda>(out, x, s). length (to_come s))")
     (auto simp: RECV_BUFSIZ_def dest!: sym [of _ "sock_read _ _"] sock_read_less')

declare read_content_without_length.simps [simp del]

text \<open>
  \<^verbatim>\<open>strtoul\<close> in base 16: white space, a sign, an optional \<^verbatim>\<open>0x\<close>, digits; the maximum on overflow.
  \<open>None\<close> when nothing was converted.
\<close>

definition hex_digits_value :: "string \<Rightarrow> nat" where
  "hex_digits_value ds = foldl (\<lambda>a c. 16 * a + (case is_hex c of Some v \<Rightarrow> v | None \<Rightarrow> 0)) 0 ds"

definition strtoul16 :: "string \<Rightarrow> u64 option" where
  "strtoul16 s =
     (let s1 = dropWhile isspace s;
          neg = (s1 \<noteq> [] \<and> hd s1 = CHR ''-'');
          s2 = (if s1 \<noteq> [] \<and> (hd s1 = CHR ''-'' \<or> hd s1 = CHR ''+'') then tl s1 else s1);
          s3 = (case s2 of
                  z # x # d # _ \<Rightarrow>
                    if z = CHR ''0'' \<and> (x = CHR ''x'' \<or> x = CHR ''X'') \<and> is_hex d \<noteq> None then drop 2 s2 else s2
                | _ \<Rightarrow> s2);
          ds = takeWhile (\<lambda>c. is_hex c \<noteq> None) s3;
          n = hex_digits_value ds
      in if ds = [] then None
         else Some (if n \<ge> 2 ^ 64 then - 1 else if neg then - of_nat n else of_nat n))"

text \<open>The trailer: header lines up to an empty one, with two bytes cut off as the terminator.\<close>

function read_trailer :: "string \<Rightarrow> headers \<Rightarrow> sock_stream \<Rightarrow> bool \<times> headers \<times> sock_stream" where
  "read_trailer line h s =
     (if c_str line = [CHR 0x0D, CHR 0x0A] then (True, h, s)
      else if length line > HEADER_MAX_LENGTH then (False, h, s)
      else
        let h' = add_header_line (take (length line - 2) line) h
        in case sock_getline s of
             (None, s') \<Rightarrow> (False, h', s')
           | (Some line', s') \<Rightarrow> read_trailer line' h' s')"
  by pat_completeness auto

termination
  by (relation "measure (\<lambda>(line, h, s). length (to_come s))")
     (auto dest!: sym [of _ "sock_getline _"] getline_less)

declare read_trailer.simps [simp del]

text \<open>
  \<^verbatim>\<open>read_content_chunked\<close>: \<open>line\<close> is the size line of the next chunk. Each chunk ends in an empty
  line; the trailer goes to the headers of the request.
\<close>

lemma content_length_uses:
  "uses s (snd (snd (read_content_with_length out len r x s)))"
proof (induction out len r x s rule: read_content_with_length.induct)
  case (1 out len r x s)
  show ?case
  proof (cases "r < len")
    case False
    then show ?thesis by (simp add: read_content_with_length.simps [of out len r] uses_refl)
  next
    case True
    obtain d s' where e: "sock_read (min (len - r) RECV_BUFSIZ) s = (d, s')" by fastforce
    have u: "uses s s'" using read_uses [OF _ e] True by (simp add: RECV_BUFSIZ_def)
    show ?thesis
    proof (cases "d = None \<or> d = Some [] \<or> (\<exists>y x'. d = Some y \<and> out y x = (False, x'))")
      case True
      with e u \<open>r < len\<close> show ?thesis
        by (auto simp: read_content_with_length.simps [of out len r])
    next
      case False
      then obtain y x' where y: "d = Some y" "y \<noteq> []" "out y x = (True, x')"
        by (cases d) (metis (full_types) old.prod.exhaust option.sel)+
      then have "uses s' (snd (snd (read_content_with_length out len (r + length y) x' s')))"
        using 1 [OF True e [symmetric] y(1,2)] by simp
      with y e u \<open>r < len\<close> show ?thesis
        by (simp add: read_content_with_length.simps [of out len r]) (erule uses_trans)
    qed
  qed
qed

lemma content_length_shrinks:
  "read_content_with_length out len r x s = (ok, x', s') \<Longrightarrow> length (to_come s') \<le> length (to_come s)"
  using content_length_uses [of s out len r x] uses_shrinks by fastforce

function read_chunks ::
  "'x receiver \<Rightarrow> string \<Rightarrow> 'x \<Rightarrow> sock_stream \<Rightarrow> bool \<times> 'x \<times> sock_stream" where
  "read_chunks out line x s =
     (case strtoul16 (c_str line) of
        None \<Rightarrow> (False, x, s)
      | Some chunk_len \<Rightarrow>
          if chunk_len = - 1 then (False, x, s)
          else if chunk_len = 0 then (True, x, s)
          else
            let (ok, x', s1) = read_content_with_length out (unat chunk_len) 0 x s
            in if \<not> ok then (False, x', s1)
               else case sock_getline s1 of
                      (None, s2) \<Rightarrow> (False, x', s2)
                    | (Some l2, s2) \<Rightarrow>
                        if c_str l2 \<noteq> [CHR 0x0D, CHR 0x0A] then (False, x', s2)
                        else case sock_getline s2 of
                               (None, s3) \<Rightarrow> (False, x', s3)
                             | (Some l3, s3) \<Rightarrow> read_chunks out l3 x' s3)"
  by pat_completeness auto

termination
proof (relation "measure (\<lambda>(out, line, x, s). length (to_come s))", goal_cases)
  case 1
  then show ?case by simp
next
  case (2 out line x s n z ok y x' s1 a s2 l2 b s3 l3)
  then have "read_content_with_length out (unat n) 0 x s = (True, x', s1)" by simp
  then have "length (to_come s1) \<le> length (to_come s)" by (rule content_length_shrinks)
  moreover have "length (to_come s2) < length (to_come s1)" using 2 getline_less by (metis)
  moreover have "length (to_come s3) < length (to_come s2)" using 2 getline_less by (metis)
  ultimately show ?case by simp
qed

declare read_chunks.simps [simp del]

definition read_content_chunked ::
  "'x receiver \<Rightarrow> headers \<Rightarrow> 'x \<Rightarrow> sock_stream \<Rightarrow> bool \<times> headers \<times> 'x \<times> sock_stream" where
  "read_content_chunked out h x s =
     (case sock_getline s of
        (None, s1) \<Rightarrow> (False, h, x, s1)
      | (Some line, s1) \<Rightarrow>
          let (ok, x', s2) = read_chunks out line x s1
          in if \<not> ok then (False, h, x', s2)
             else case sock_getline s2 of
                    (None, s3) \<Rightarrow> (False, h, x', s3)
                  | (Some l3, s3) \<Rightarrow>
                      let (ok', h', s4) = read_trailer l3 h s3 in (ok', h', x', s4))"

definition is_chunked_transfer_encoding :: "headers \<Rightarrow> bool" where
  "is_chunked_transfer_encoding h \<longleftrightarrow>
     map tolower (get_header_value h ''Transfer-Encoding'' []) = map tolower ''chunked''"

text \<open>
  No decompressor is compiled in, so an encoded body is refused with status 415. A failed read is
  413 when the announced length is above the limit and 400 otherwise; the content of a request
  that is too long is skipped.
\<close>

definition read_content ::
  "'x receiver \<Rightarrow> nat \<Rightarrow> int \<Rightarrow> headers \<Rightarrow> 'x \<Rightarrow> sock_stream \<Rightarrow> bool \<times> int \<times> headers \<times> 'x \<times> sock_stream" where
  "read_content out payload_max_length st h x s =
     (let encoding = get_header_value h ''Content-Encoding'' [] in
      if encoding = ''gzip'' \<or> encoding = ''deflate'' then (False, 415, h, x, s)
      else if find_at encoding ''br'' 0 \<noteq> None then (False, 415, h, x, s)
      else if is_chunked_transfer_encoding h then
        (let (ok, h', x', s') = read_content_chunked out h x s in (ok, if ok then st else 400, h', x', s'))
      else if \<not> has_header h ''Content-Length'' then
        (let (ok, x', s') = read_content_without_length out x s in (ok, if ok then st else 400, h, x', s'))
      else
        let len = unat (get_header_value_u64 h ''Content-Length'' 0) in
        if len > payload_max_length then (False, 413, h, x, skip_content_with_length len 0 s)
        else if len > 0 then
          (let (ok, x', s') = read_content_with_length out len 0 x s in (ok, if ok then st else 400, h, x', s'))
        else (True, st, h, x, s))"

section \<open>A receiver sees the content complete and in order\<close>

text \<open>
  What a receiver promises when it takes content in pieces: it accepts every piece that fits, and
  two pieces are the same as their concatenation.
\<close>

locale piecewise_receiver =
  fixes out :: "'x receiver"
    and add :: "'x \<Rightarrow> string \<Rightarrow> 'x"
    and fits :: "'x \<Rightarrow> string \<Rightarrow> bool"
  assumes accepts: "fits x d \<Longrightarrow> out d x = (True, add x d)"
    and fits_append: "fits x (a @ b) \<Longrightarrow> fits x a \<and> fits (add x a) b"
    and add_append: "add (add x a) b = add x (a @ b)"
    and add_Nil: "add x [] = x"
begin

lemma reads_length:
  assumes "to_come s = b @ r" "length b = len - k" "fits x b"
  obtains s' where "read_content_with_length out len k x s = (True, add x b, s')" "to_come s' = r"
    "sent s' = sent s" "uses s s'"
  using assms
proof (induction "len - k" arbitrary: k b x s thesis rule: less_induct)
  case less
  show ?case
  proof (cases "k < len")
    case False
    with less.prems have "b = []" by simp
    with False less.prems add_Nil show ?thesis
      by (intro less.prems(1) [of s]) (simp_all add: read_content_with_length.simps [of out len k] uses_refl)
  next
    case True
    let ?n = "min (len - k) RECV_BUFSIZ"
    have n: "0 < ?n" using True by (simp add: RECV_BUFSIZ_def)
    have "to_come s \<noteq> []" using less.prems(2,3) True by auto
    from sock_read_some [OF this n] obtain d s1 where d: "sock_read ?n s = (Some d, s1)" "d \<noteq> []" "length d \<le> ?n"
      "to_come s = d @ to_come s1" "sent s1 = sent s" by metis
    then have "length d \<le> length b" using less.prems(3) by simp
    moreover have "d @ to_come s1 = b @ r" using d(4) less.prems(2) by simp
    ultimately obtain b' where b: "b = d @ b'" "to_come s1 = b' @ r"
      by (auto simp: append_eq_append_conv2)
    have f: "out d x = (True, add x d)" "fits (add x d) b'"
      using fits_append [of x d b'] less.prems(4) accepts b(1) by auto
    have m: "len - (k + length d) < len - k" "length b' = len - (k + length d)"
      using True d(2) less.prems(3) b(1) by (cases d; auto)+
    from less.hyps [OF m(1) _ b(2) m(2) f(2)] obtain s' where
      s': "read_content_with_length out len (k + length d) (add x d) s1 = (True, add (add x d) b', s')" "to_come s' = r"
        "sent s' = sent s1" "uses s1 s'" by blast
    have "uses s s'" using uses_trans [OF s'(4) read_uses [OF n d(1)]] .
    with True d s' f(1) b(1) show ?thesis
      by (intro less.prems(1) [of s'])
         (simp_all add: read_content_with_length.simps [of out len k] add_append)
  qed
qed

lemma reads_until_close:
  assumes "to_come s = b" "peer s = Peer_closed" "fits x b"
  obtains s' where "read_content_without_length out x s = (True, add x b, s')" "to_come s' = []"
    "sent s' = sent s" "uses s s'"
  using assms
proof (induction "length b" arbitrary: b x s thesis rule: less_induct)
  case less
  have n: "0 < RECV_BUFSIZ" by (simp add: RECV_BUFSIZ_def)
  show ?case
  proof (cases "b = []")
    case True
    obtain d s' where e: "sock_read RECV_BUFSIZ s = (d, s')" by fastforce
    with sock_read_end [of s RECV_BUFSIZ] True less.prems have d: "d = Some []" by simp
    have f: "sent s' = sent s" "to_come s' = []"
      using sock_read_frame [of RECV_BUFSIZ s] sock_read_pending(1) [of RECV_BUFSIZ s "[]"] e d n True less.prems(2) by auto
    with e d True less.prems add_Nil read_uses [OF n e] show ?thesis
      by (intro less.prems(1) [of s']) (simp_all add: read_content_without_length.simps [of out x s])
  next
    case False
    then have "to_come s \<noteq> []" using less.prems(2) by simp
    from sock_read_some [OF this n] obtain d s1 where d: "sock_read RECV_BUFSIZ s = (Some d, s1)" "d \<noteq> []"
      "to_come s = d @ to_come s1" "peer s1 = peer s" "sent s1 = sent s" by metis
    then have b: "b = d @ to_come s1" using less.prems(2) by simp
    have f: "out d x = (True, add x d)" "fits (add x d) (to_come s1)"
      using fits_append [of x d "to_come s1"] less.prems(4) accepts b by auto
    have m: "length (to_come s1) < length b" using b d(2) by simp
    from less.hyps [OF m _ refl _ f(2)] d(4) less.prems(3) obtain s' where
      s': "read_content_without_length out (add x d) s1 = (True, add (add x d) (to_come s1), s')" "to_come s' = []"
        "sent s' = sent s1" "uses s1 s'" by auto
    have "uses s s'" using uses_trans [OF s'(4) read_uses [OF n d(1)]] .
    with d s' f(1) b show ?thesis
      by (intro less.prems(1) [of s']) (simp_all add: read_content_without_length.simps [of out x s] add_append)
  qed
qed

end

section \<open>Chunks written and read back\<close>

fun hex_loop :: "nat \<Rightarrow> string \<Rightarrow> string" where
  "hex_loop n ret =
     (let ret' = hex_digit (n mod 16) # ret; n' = n div 16 in if n' > 0 then hex_loop n' ret' else ret')"

declare hex_loop.simps [simp del]

definition from_i_to_hex :: "nat \<Rightarrow> string" where
  "from_i_to_hex n = hex_loop n []"

text \<open>One call of the sink of \<^verbatim>\<open>write_content_chunked\<close>, and the end of the content without a trailer.\<close>

definition write_chunk :: "string \<Rightarrow> string" where
  "write_chunk payload =
     (if payload \<noteq> [] then from_i_to_hex (length payload) @ [CHR 0x0D, CHR 0x0A] @ payload @ [CHR 0x0D, CHR 0x0A]
      else [])"

definition chunks_done :: string where
  "chunks_done = ''0'' @ [CHR 0x0D, CHR 0x0A] @ [CHR 0x0D, CHR 0x0A]"

lemma hex_digit_table:
  "list_all (\<lambda>d. is_hex (hex_digit d) = Some d \<and> \<not> isspace (hex_digit d) \<and> hex_digit d \<notin> set ''-+xX'' \<and>
     hex_digit d \<notin> {CHR 0x00, CHR 0x0A}) [0..<16]"
  by code_simp

definition hex_char :: "char \<Rightarrow> bool" where
  "hex_char c \<longleftrightarrow> is_hex c \<noteq> None \<and> \<not> isspace c \<and> c \<notin> set ''-+xX'' \<and> c \<notin> {CHR 0x00, CHR 0x0A}"

lemma hex_digit_facts: "is_hex (hex_digit (n mod 16)) = Some (n mod 16)" "hex_char (hex_digit (n mod 16))"
  using hex_digit_table by (auto simp: list_all_iff hex_char_def)

lemma hex_loop_to_hex: "hex_loop n ret = to_hex n @ ret"
proof (induction n ret rule: hex_loop.induct)
  case (1 n ret)
  show ?case
  proof (cases "n < 16")
    case True
    then show ?thesis by (simp add: hex_loop.simps [of n] to_hex.simps [of n])
  next
    case False
    then have "0 < n div 16" by (simp add: div_greater_zero_iff)
    with 1 False show ?thesis by (simp add: hex_loop.simps [of n] to_hex.simps [of n] Let_def)
  qed
qed

lemma from_i_to_hex_digits: "c \<in> set (from_i_to_hex n) \<Longrightarrow> hex_char c"
  unfolding from_i_to_hex_def hex_loop_to_hex append_Nil2
proof (induction n rule: to_hex.induct)
  case (1 n)
  show ?case
  proof (cases "n < 16")
    case True
    with 1 hex_digit_facts [of n] show ?thesis by (simp add: to_hex.simps [of n])
  next
    case False
    with 1 hex_digit_facts [of n] show ?thesis by (auto simp: to_hex.simps [of n])
  qed
qed

lemma from_i_to_hex_Nil [simp]: "from_i_to_hex n \<noteq> []"
  unfolding from_i_to_hex_def hex_loop_to_hex by (subst to_hex.simps) simp

lemma hex_digits_value_snoc: "is_hex c = Some v \<Longrightarrow> hex_digits_value (ds @ [c]) = 16 * hex_digits_value ds + v"
  by (simp add: hex_digits_value_def)

lemma hex_digits_value_from_i: "hex_digits_value (from_i_to_hex n) = n"
  unfolding from_i_to_hex_def hex_loop_to_hex append_Nil2
proof (induction n rule: to_hex.induct)
  case (1 n)
  show ?case
  proof (cases "n < 16")
    case True
    with hex_digit_facts(1) [of n] show ?thesis by (simp add: to_hex.simps [of n] hex_digits_value_def)
  next
    case False
    with 1 hex_digit_facts(1) [of n] show ?thesis by (simp add: to_hex.simps [of n] hex_digits_value_snoc)
  qed
qed

lemma strtoul16_from_i:
  assumes "n < 2 ^ 64"
  shows "strtoul16 (from_i_to_hex n @ [CHR 0x0D, CHR 0x0A]) = Some (of_nat n)"
proof -
  let ?h = "from_i_to_hex n" and ?s = "from_i_to_hex n @ [CHR 0x0D, CHR 0x0A]"
  have hd: "hex_char (hd ?s)" using from_i_to_hex_digits [OF hd_in_set [of ?h]] by simp
  have s1: "dropWhile isspace ?s = ?s"
    using hd by (cases ?s) (auto simp: hex_char_def)
  have sign: "hd ?s \<noteq> CHR ''-''" "hd ?s \<noteq> CHR ''+''" using hd by (auto simp: hex_char_def)
  then have no_sign: "(if ?s \<noteq> [] \<and> (hd ?s = CHR ''-'' \<or> hd ?s = CHR ''+'') then tl ?s else ?s) = ?s"
    "(?s \<noteq> [] \<and> hd ?s = CHR ''-'') = False" by simp_all
  have prefix: "(case ?s of
                  z # x # d # _ \<Rightarrow>
                    if z = CHR ''0'' \<and> (x = CHR ''x'' \<or> x = CHR ''X'') \<and> is_hex d \<noteq> None then drop 2 ?s else ?s
                | _ \<Rightarrow> ?s) = ?s"
  proof (cases ?h)
    case (Cons z h)
    then show ?thesis
      using from_i_to_hex_digits [of "hd h" n] by (cases h) (auto simp: hex_char_def split: list.split)
  qed simp
  have "is_hex (CHR 0x0D) = None" by (simp add: is_hex_def is_digit_def)
  then have digits: "takeWhile (\<lambda>c. is_hex c \<noteq> None) ?s = ?h"
    using from_i_to_hex_digits by (subst takeWhile_append2) (auto simp: hex_char_def)
  show ?thesis
    using assms by (simp only: strtoul16_def Let_def s1 no_sign prefix digits hex_digits_value_from_i if_False) simp
qed

lemma chunk_line:
  "c_str (from_i_to_hex n @ [CHR 0x0D, CHR 0x0A]) = from_i_to_hex n @ [CHR 0x0D, CHR 0x0A]"
  "CHR 0x0A \<notin> set (from_i_to_hex n)"
proof -
  have "CHR 0x00 \<notin> set (from_i_to_hex n)" "CHR 0x0A \<notin> set (from_i_to_hex n)"
    using from_i_to_hex_digits [of "CHR 0x00" n] from_i_to_hex_digits [of "CHR 0x0A" n] by (auto simp: hex_char_def)
  then show "c_str (from_i_to_hex n @ [CHR 0x0D, CHR 0x0A]) = from_i_to_hex n @ [CHR 0x0D, CHR 0x0A]"
    "CHR 0x0A \<notin> set (from_i_to_hex n)" by (auto intro!: c_str_id)
qed

context piecewise_receiver
begin

lemma reads_chunks:
  assumes "\<forall>c \<in> set cs. c \<noteq> [] \<and> length c < 2 ^ 64 - 1" "fits x (concat cs)"
    and "to_come s = concat (map write_chunk cs) @ chunks_done @ r"
  obtains s1 line s' where "sock_getline s = (Some line, s1)"
    "read_chunks out line x s1 = (True, add x (concat cs), s')" "to_come s' = [CHR 0x0D, CHR 0x0A] @ r"
    "sent s' = sent s" "uses s s'"
  using assms
proof (induction cs arbitrary: x s thesis)
  case Nil
  have "to_come s = ''0'' @ CHR 0x0D # CHR 0x0A # ([CHR 0x0D, CHR 0x0A] @ r)" using Nil.prems(4) by (simp add: chunks_done_def)
  from getline_crlf [OF this] obtain s1 where s1: "sock_getline s = (Some (''0'' @ [CHR 0x0D, CHR 0x0A]), s1)"
    "to_come s1 = [CHR 0x0D, CHR 0x0A] @ r" "sent s1 = sent s" "uses s s1" by auto
  have "strtoul16 (from_i_to_hex 0 @ [CHR 0x0D, CHR 0x0A]) = Some 0" using strtoul16_from_i [of 0] by simp
  moreover have "from_i_to_hex 0 = ''0''" by (simp add: from_i_to_hex_def hex_loop.simps hex_digit_def)
  ultimately have z: "strtoul16 (c_str (''0'' @ [CHR 0x0D, CHR 0x0A])) = Some 0" using chunk_line(1) [of 0] by simp
  have "read_chunks out (''0'' @ [CHR 0x0D, CHR 0x0A]) x s1 = (True, add x (concat []), s1)"
    by (subst read_chunks.simps) (simp only: z option.case if_True if_False concat.simps add_Nil, simp)
  with s1 show ?case by (intro Nil.prems(1))
next
  case (Cons c cs)
  have c: "c \<noteq> []" "length c < 2 ^ 64 - 1" using Cons.prems(2) by auto
  have f: "fits x c" "fits (add x c) (concat cs)" using Cons.prems(3) fits_append [of x c "concat cs"] by auto
  let ?t = "concat (map write_chunk cs) @ chunks_done @ r"
  have "to_come s = from_i_to_hex (length c) @ CHR 0x0D # CHR 0x0A # (c @ CHR 0x0D # CHR 0x0A # ?t)"
    using Cons.prems(4) c by (simp add: write_chunk_def [of c])
  from getline_crlf [OF this chunk_line(2)] obtain s1 where s1:
    "sock_getline s = (Some (from_i_to_hex (length c) @ [CHR 0x0D, CHR 0x0A]), s1)"
    "to_come s1 = c @ CHR 0x0D # CHR 0x0A # ?t" "sent s1 = sent s" "uses s s1" by blast
  from reads_length [OF s1(2), of "length c" 0 x] f(1) obtain s2 where s2:
    "read_content_with_length out (length c) 0 x s1 = (True, add x c, s2)" "to_come s2 = CHR 0x0D # CHR 0x0A # ?t"
    "sent s2 = sent s1" "uses s1 s2" by auto
  from getline_crlf [of s2 "[]" ?t] s2(2) obtain s3 where s3: "sock_getline s2 = (Some [CHR 0x0D, CHR 0x0A], s3)"
    "to_come s3 = ?t" "sent s3 = sent s2" "uses s2 s3" by auto
  have cs: "\<forall>c \<in> set cs. c \<noteq> [] \<and> length c < 2 ^ 64 - 1" using Cons.prems(2) by simp
  from Cons.IH [OF _ cs f(2) s3(2)] obtain s4 line s' where s4: "sock_getline s3 = (Some line, s4)"
    "read_chunks out line (add x c) s4 = (True, add (add x c) (concat cs), s')" "to_come s' = [CHR 0x0D, CHR 0x0A] @ r"
    "sent s' = sent s3" "uses s3 s'" by blast
  have n: "strtoul16 (c_str (from_i_to_hex (length c) @ [CHR 0x0D, CHR 0x0A])) = Some (of_nat (length c))"
    using strtoul16_from_i [of "length c"] c(2) by (simp add: chunk_line)
  have u: "unat (of_nat (length c) :: u64) = length c" using c(2) by (simp add: unsigned_of_nat take_bit_nat_eq_self)
  have w: "(of_nat (length c) :: u64) \<noteq> - 1" "(of_nat (length c) :: u64) \<noteq> 0"
  proof -
    have "unat (- 1 :: u64) = 2 ^ 64 - 1" by (simp add: unsigned_minus_1_eq_mask mask_eq_exp_minus_1)
    then show "(of_nat (length c) :: u64) \<noteq> - 1" using u c(2) by auto
    show "(of_nat (length c) :: u64) \<noteq> 0" using u c(1) by auto
  qed
  have "read_chunks out (from_i_to_hex (length c) @ [CHR 0x0D, CHR 0x0A]) x s1 = read_chunks out line (add x c) s4"
    using n w u s2(1) s3(1) s4(1) by (subst read_chunks.simps) (simp add: c_str_def)
  with s1 s2 s3 s4 show ?case
    by (intro Cons.prems(1) [of _ s1 s']) (auto simp: add_append intro: uses_trans)
qed

lemma reads_chunked:
  assumes "\<forall>c \<in> set cs. c \<noteq> [] \<and> length c < 2 ^ 64 - 1" "fits x (concat cs)"
    and "to_come s = concat (map write_chunk cs) @ chunks_done @ r"
  obtains s' where "read_content_chunked out h x s = (True, h, add x (concat cs), s')" "to_come s' = r"
    "sent s' = sent s" "uses s s'"
proof -
  from reads_chunks [OF assms] obtain s1 line s2 where s2: "sock_getline s = (Some line, s1)"
    "read_chunks out line x s1 = (True, add x (concat cs), s2)" "to_come s2 = [CHR 0x0D, CHR 0x0A] @ r"
    "sent s2 = sent s" "uses s s2" by blast
  from getline_crlf [of s2 "[]" r] s2(3) obtain s3 where s3: "sock_getline s2 = (Some [CHR 0x0D, CHR 0x0A], s3)"
    "to_come s3 = r" "sent s3 = sent s2" "uses s2 s3" by auto
  have "read_trailer [CHR 0x0D, CHR 0x0A] h s3 = (True, h, s3)"
    by (simp add: read_trailer.simps c_str_def)
  with s2 s3 show ?thesis
    by (intro that [of s3]) (auto simp: read_content_chunked_def intro: uses_trans)
qed

end

section \<open>The body of a request\<close>

text \<open>The receiver of \<^verbatim>\<open>Server::read_content\<close> appends to the body, up to the size limit of a string.\<close>

definition string_max_size :: nat where
  "string_max_size = 2 ^ 63 - 1"

definition receive_body :: "string receiver" where
  "receive_body d body = (if length body + length d > string_max_size then (False, body) else (True, body @ d))"

interpretation body: piecewise_receiver receive_body append "\<lambda>body d. length body + length d \<le> string_max_size"
  by unfold_locales (auto simp: receive_body_def)

lemma read_content_length:
  assumes "get_header_value h ''Content-Encoding'' [] = []" "get_header_value h ''Transfer-Encoding'' [] = []"
    and "has_header h ''Content-Length''" "get_header_value_u64 h ''Content-Length'' 0 = of_nat (length b)"
    and "length b \<le> limit" "length b \<le> string_max_size" "to_come s = b @ r"
  obtains s' where "read_content receive_body limit st h [] s = (True, st, h, b, s')" "to_come s' = r"
    "sent s' = sent s" "uses s s'"
proof -
  have u: "unat (of_nat (length b) :: u64) = length b"
    using assms(6) by (simp add: string_max_size_def unsigned_of_nat take_bit_nat_eq_self)
  have e: "find_at [] ''br'' 0 = None" by (simp add: find_at_def find_in.simps)
  have t: "\<not> is_chunked_transfer_encoding h" by (simp add: is_chunked_transfer_encoding_def assms(2))
  have f: "length [] + length b \<le> string_max_size" using assms(6) by simp
  show ?thesis
  proof (cases "b = []")
    case True
    with assms u e t show ?thesis by (intro that [of s]) (simp_all add: read_content_def uses_refl)
  next
    case False
    from body.reads_length [OF assms(7), of "length b" 0 "[]"] f obtain s' where
      "read_content_with_length receive_body (length b) 0 [] s = (True, b, s')" "to_come s' = r" "sent s' = sent s" "uses s s'"
      by auto
    with False assms(1,3-5) u e t show ?thesis by (intro that [of s']) (simp_all add: read_content_def)
  qed
qed



text \<open>
  C34. A body sent in chunks is read as the concatenation of its chunks, with nothing read beyond
  its end, however the bytes arrive, and whatever the limit on the content is.
\<close>

theorem chunked_body_reads_back:
  assumes "get_header_value h ''Content-Encoding'' [] = []" "is_chunked_transfer_encoding h"
    and "\<forall>c \<in> set cs. c \<noteq> []" "length (concat cs) \<le> string_max_size"
    and "read_buff s @ concat (segments s) = concat (map write_chunk cs) @ chunks_done @ r"
  shows "\<exists>s'. read_content receive_body limit st h [] s = (True, st, h, concat cs, s') \<and>
    read_buff s' @ concat (segments s') = r"
proof -
  have "length c < 2 ^ 64 - 1" if "c \<in> set cs" for c
  proof -
    have "length c \<le> length (concat cs)" using that by (simp add: length_concat member_le_sum_list)
    then show ?thesis using assms(4) by (simp add: string_max_size_def)
  qed
  then have c: "\<forall>c \<in> set cs. c \<noteq> [] \<and> length c < 2 ^ 64 - 1" using assms(3) by blast
  have f: "length [] + length (concat cs) \<le> string_max_size" using assms(4) by simp
  have p: "to_come s = concat (map write_chunk cs) @ chunks_done @ r" using assms(5) by (simp add: to_come_def)
  obtain s' where s': "read_content_chunked receive_body h [] s = (True, h, [] @ concat cs, s')" "to_come s' = r"
    by (rule body.reads_chunked [OF c f p, of h])
  have "find_at [] ''br'' 0 = None" by (simp add: find_at_def find_in.simps)
  with s' assms(1,2) show ?thesis by (simp add: read_content_def to_come_def)
qed

theorem chunked_body_reads_back_witness:
  "\<exists>s'. read_content receive_body 2 (- 1) [(''transfer-encoding'', ''chunked'')] [] \<lparr>read_buff = [], segments = [''2'' @ [CHR 0x0D],
       [CHR 0x0A] @ ''ab'' @ [CHR 0x0D, CHR 0x0A] @ ''1'', [CHR 0x0D, CHR 0x0A] @ ''c'' @ [CHR 0x0D, CHR 0x0A] @ ''0'',
       [CHR 0x0D, CHR 0x0A, CHR 0x0D, CHR 0x0A] @ ''rest''], peer = Peer_closed, peer_writable = True, sent = []\<rparr> =
      (True, - 1, [(''transfer-encoding'', ''chunked'')], ''abc'', s') \<and> read_buff s' @ concat (segments s') = ''rest''"
proof -
  let ?h = "[(''transfer-encoding'', ''chunked'')]"
  have h: "get_header_value ?h ''Content-Encoding'' [] = []" "is_chunked_transfer_encoding ?h"
    by (simp_all add: get_header_value_def is_chunked_transfer_encoding_def header_range_def ci_less_def tolower_def less_char_def c_str_def)
  show ?thesis
    using chunked_body_reads_back [OF h, of "[''ab'', ''c'']" "\<lparr>read_buff = [], segments = [''2'' @ [CHR 0x0D],
       [CHR 0x0A] @ ''ab'' @ [CHR 0x0D, CHR 0x0A] @ ''1'', [CHR 0x0D, CHR 0x0A] @ ''c'' @ [CHR 0x0D, CHR 0x0A] @ ''0'',
       [CHR 0x0D, CHR 0x0A, CHR 0x0D, CHR 0x0A] @ ''rest''], peer = Peer_closed, peer_writable = True, sent = []\<rparr>"
      "''rest''" 2 "- 1"]
    by (simp add: string_max_size_def write_chunk_def chunks_done_def from_i_to_hex_def hex_loop.simps hex_digit_def)
qed

end
