(* ===== verification/Http_Ranges.thy ===== *)
theory Http_Ranges
  imports Http_Message
begin

text \<open>
  httplib.h, byte ranges: the \<^verbatim>\<open>Range\<close> header, the part of the body a range names, and the body
  of an answer to several ranges. Shown here: a single range gives exactly the bytes it selects,
  or status 416 when it selects none; several ranges of a body set by a handler are computed with
  a total length of 0, so a suffix range is empty.
\<close>

type_synonym ranges = "(int \<times> int) list"

section \<open>The header\<close>

text \<open>
  The regular expression \<^verbatim>\<open>bytes=(\d*-\d*(?:,\s*\d*-\d*)*)\<close> for the part behind the equals sign.
  The digits and the white space end at the first other character, so the match is deterministic.
\<close>

lemma dropWhile_Cons_less: "dropWhile P s = x # t \<Longrightarrow> length t < length s"
  using length_dropWhile_le [of P s] by simp

function match_ranges :: "string \<Rightarrow> bool" where
  "match_ranges s =
     (case dropWhile is_digit s of
        [] \<Rightarrow> False
      | m # t \<Rightarrow> m = CHR ''-'' \<and>
          (case dropWhile is_digit t of
             [] \<Rightarrow> True
           | c # t' \<Rightarrow> c = CHR '','' \<and> match_ranges (dropWhile isspace t')))"
  by pat_completeness auto

termination
proof (relation "measure length", goal_cases)
  case (2 s m t c t')
  have "length (dropWhile isspace t') \<le> length t'" by (rule length_dropWhile_le)
  also have "\<dots> < length t" using 2(2) by (rule dropWhile_Cons_less)
  also have "\<dots> < length s" using 2(1) by (rule dropWhile_Cons_less)
  finally show ?case by simp
qed simp

declare match_ranges.simps [simp del]

definition stoll :: "string \<Rightarrow> int res" where
  "stoll s = sto_signed ''stoll'' 64 s"

text \<open>One field against \<^verbatim>\<open>\s*(\d*)-(\d*)\<close>; a field that does not match is passed over.\<close>

definition range_field :: "bool \<times> ranges \<Rightarrow> string \<Rightarrow> (bool \<times> ranges) res" where
  "range_field st field =
     (let (all_valid, rs) = st; f = dropWhile isspace field;
          d1 = takeWhile is_digit f; t = dropWhile is_digit f in
      if \<not> all_valid then Inr st
      else if t \<noteq> [] \<and> hd t = CHR ''-'' \<and> list_all is_digit (tl t) then
        andthen (if d1 \<noteq> [] then stoll d1 else Inr (- 1)) (\<lambda>first.
        andthen (if tl t \<noteq> [] then stoll (tl t) else Inr (- 1)) (\<lambda>last.
          if first \<noteq> - 1 \<and> last \<noteq> - 1 \<and> first > last then Inr (False, rs)
          else Inr (True, rs @ [(first, last)])))
      else Inr st)"

text \<open>\<open>None\<close> is \<^verbatim>\<open>false\<close>: no match, an invalid range, or a number that is too large.\<close>

definition parse_range_header :: "string \<Rightarrow> ranges option" where
  "parse_range_header s =
     (if take 6 s = ''bytes='' \<and> match_ranges (drop 6 s) then
        (case foldM range_field (True, []) (split (CHR '','') (drop 6 s)) of
           Inl _ \<Rightarrow> None
         | Inr (all_valid, rs) \<Rightarrow> if all_valid then Some rs else None)
      else None)"

definition range_ok :: "int \<times> int \<Rightarrow> bool" where
  "range_ok r \<longleftrightarrow> - 1 \<le> fst r \<and> fst r < 2 ^ 63 \<and> - 1 \<le> snd r \<and> snd r < 2 ^ 63 \<and>
     (fst r = - 1 \<or> snd r = - 1 \<or> fst r \<le> snd r)"

section \<open>Offsets\<close>

text \<open>
  The length is that of \<^verbatim>\<open>size_t\<close>, so a range that ends before it starts has a length that wraps
  around.
\<close>

definition get_range_offset_and_length :: "ranges \<Rightarrow> nat \<Rightarrow> nat \<Rightarrow> u64 \<times> u64" where
  "get_range_offset_and_length rs content_length index =
     (let (first, last) = rs ! index; slen = int content_length in
      if first = - 1 \<and> last = - 1 then (0, of_nat content_length)
      else
        let (first, last) = (if first = - 1 then (max 0 (slen - last), slen - 1) else (first, last));
            last = (if last = - 1 then slen - 1 else last)
        in (word_of_int first, word_of_int (last - first) + 1))"

definition make_content_range_header_field :: "int \<times> int \<Rightarrow> nat \<Rightarrow> string" where
  "make_content_range_header_field r content_length =
     ''bytes '' @ (if fst r \<noteq> - 1 then to_string_int (fst r) else []) @ ''-'' @
     (if snd r \<noteq> - 1 then to_string_int (snd r) else []) @ ''/'' @ to_string content_length"

text \<open>\<^verbatim>\<open>substr\<close> with a position inside the text.\<close>

definition substr :: "string \<Rightarrow> u64 \<Rightarrow> u64 \<Rightarrow> string" where
  "substr s offset n = take (unat n) (drop (unat offset) s)"

text \<open>
  \<^verbatim>\<open>make_multipart_ranges_data\<close>: the parts of an answer to several ranges; \<open>None\<close> when a range
  starts behind the body. \<open>content_length\<close> is the field \<^verbatim>\<open>content_length_\<close>, not the length of the
  body.
\<close>

definition range_part :: "ranges \<Rightarrow> string \<Rightarrow> nat \<Rightarrow> string \<Rightarrow> string \<Rightarrow> nat \<Rightarrow> string option" where
  "range_part rs body content_length boundary content_type i =
     (let (offset, n) = get_range_offset_and_length rs content_length i; crlf = [CHR 0x0D, CHR 0x0A] in
      if unat offset < length body then
        Some (''--'' @ boundary @ crlf @
          (if content_type \<noteq> [] then ''Content-Type: '' @ content_type @ crlf else []) @
          ''Content-Range: '' @ make_content_range_header_field (rs ! i) content_length @ crlf @ crlf @
          substr body offset n @ crlf)
      else None)"

definition make_multipart_ranges_data :: "ranges \<Rightarrow> string \<Rightarrow> nat \<Rightarrow> string \<Rightarrow> string \<Rightarrow> string option" where
  "make_multipart_ranges_data rs body content_length boundary content_type =
     foldr (\<lambda>i rest. case (range_part rs body content_length boundary content_type i, rest) of
              (Some p, Some q) \<Rightarrow> Some (p @ q) | _ \<Rightarrow> None)
       [0..<length rs] (Some (''--'' @ boundary @ ''--''))"

section \<open>What a range selects\<close>

text \<open>The positions a range of the header asks for, in a body of \<open>n\<close> bytes.\<close>

definition selected :: "int \<times> int \<Rightarrow> nat \<Rightarrow> nat \<Rightarrow> bool" where
  "selected r n i \<longleftrightarrow>
     (if fst r = - 1 then snd r = - 1 \<or> int n - snd r \<le> int i
      else fst r \<le> int i \<and> (snd r = - 1 \<or> int i \<le> snd r))"

lemma nths_interval: "nths xs {i. a \<le> i \<and> i < b} = take (b - a) (drop a xs)"
proof (induction xs arbitrary: a b)
  case Nil
  then show ?case by simp
next
  case (Cons x xs)
  show ?case
  proof (cases a)
    case 0
    show ?thesis
    proof (cases b)
      case 0
      with \<open>a = 0\<close> show ?thesis by simp
    next
      case (Suc b')
      with Cons.IH [of 0 b'] \<open>a = 0\<close> show ?thesis by (simp add: nths_Cons)
    qed
  next
    case (Suc a')
    with Cons.IH [of a' "b - 1"] show ?thesis by (cases b) (simp_all add: nths_Cons)
  qed
qed

lemma nths_cong_length: "(\<And>i. i < length xs \<Longrightarrow> i \<in> A \<longleftrightarrow> i \<in> B) \<Longrightarrow> nths xs A = nths xs B"
  unfolding nths_def by (rule arg_cong [of _ _ "map fst"], rule filter_cong) (auto simp: set_zip)

lemma unat_word_of_int: "0 \<le> x \<Longrightarrow> x < 2 ^ 64 \<Longrightarrow> unat (word_of_int x :: u64) = nat x"
  by (simp add: unsigned_of_int take_bit_int_eq_self)

lemma word_of_int_Suc: "word_of_int a + 1 = (word_of_int (a + 1) :: u64)"
  by simp

lemma single_range_offsets:
  assumes "range_ok r" "length body < 2 ^ 63"
  shows "(unat (fst (get_range_offset_and_length [r] (length body) 0)) < length body \<longrightarrow>
      (case get_range_offset_and_length [r] (length body) 0 of (offset, n) \<Rightarrow> substr body offset n) =
        nths body {i. selected r (length body) i}) \<and>
    (\<not> unat (fst (get_range_offset_and_length [r] (length body) 0)) < length body \<longrightarrow>
      nths body {i. selected r (length body) i} = [])"
proof -
  obtain f l where r: "r = (f, l)" by fastforce
  let ?n = "length body"
  have b: "- 1 \<le> f" "f < 2 ^ 63" "- 1 \<le> l" "l < 2 ^ 63" "f = - 1 \<or> l = - 1 \<or> f \<le> l" "int ?n < 2 ^ 63"
    using assms by (auto simp: r range_ok_def)
  have none: "nths body {i. selected r ?n i} = []" if "\<And>i. i < ?n \<Longrightarrow> \<not> selected r ?n i"
    using nths_cong_length [of body "{i. selected r ?n i}" "{}"] that by simp
  have some: "nths body {i. selected r ?n i} = take (e - a) (drop a body)"
    if "\<And>i. i < ?n \<Longrightarrow> selected r ?n i \<longleftrightarrow> a \<le> i \<and> i < e" for a e
    using nths_cong_length [of body "{i. selected r ?n i}" "{i. a \<le> i \<and> i < e}"] that
    by (simp add: nths_interval)
  consider (all) "f = - 1" "l = - 1" | (suffix) "f = - 1" "0 \<le> l" | (tail) "0 \<le> f" "l = - 1"
    | (both) "0 \<le> f" "0 \<le> l" "f \<le> l" using b by linarith
  then show ?thesis
  proof cases
    case all
    have "nths body {i. selected r ?n i} = take (?n - 0) (drop 0 body)"
      by (rule some) (simp add: selected_def r all)
    moreover have "unat (of_nat ?n :: u64) = ?n"
      using b(6) by (simp add: unsigned_of_nat take_bit_nat_eq_self)
    ultimately show ?thesis by (simp add: get_range_offset_and_length_def r all substr_def)
  next
    case suffix
    let ?a = "nat (max 0 (int ?n - l))"
    have g: "get_range_offset_and_length [r] ?n 0 =
        (word_of_int (max 0 (int ?n - l)), word_of_int (int ?n - max 0 (int ?n - l)))"
      using suffix by (auto simp: get_range_offset_and_length_def r Let_def word_of_int_Suc simp del: of_int_add of_int_diff)
    have u: "unat (word_of_int (max 0 (int ?n - l)) :: u64) = ?a"
      "unat (word_of_int (int ?n - max 0 (int ?n - l)) :: u64) = ?n - ?a"
      using b suffix by (subst unat_word_of_int; auto)+
    have "nths body {i. selected r ?n i} = take (?n - ?a) (drop ?a body)"
      by (rule some) (use suffix in \<open>auto simp: selected_def r\<close>)
    then show ?thesis unfolding g by (simp add: substr_def u del: of_int_diff)
  next
    case tail
    have g: "get_range_offset_and_length [r] ?n 0 = (word_of_int f, word_of_int (int ?n - f))"
      using tail by (auto simp: get_range_offset_and_length_def r Let_def word_of_int_Suc simp del: of_int_add of_int_diff)
    have u: "unat (word_of_int f :: u64) = nat f" using tail b by (intro unat_word_of_int) auto
    show ?thesis
    proof (cases "nat f < ?n")
      case True
      then have v: "unat (word_of_int (int ?n - f) :: u64) = ?n - nat f"
        using tail b by (subst unat_word_of_int; auto)
      have "nths body {i. selected r ?n i} = take (?n - nat f) (drop (nat f) body)"
        by (rule some) (use tail in \<open>auto simp: selected_def r\<close>)
      with True show ?thesis unfolding g by (simp add: substr_def u v del: of_int_diff)
    next
      case False
      have "nths body {i. selected r ?n i} = []"
        by (rule none) (use tail False in \<open>auto simp: selected_def r\<close>)
      with False show ?thesis unfolding g by (simp add: u del: of_int_diff)
    qed
  next
    case both
    have g: "get_range_offset_and_length [r] ?n 0 = (word_of_int f, word_of_int (l - f + 1))"
      using both by (auto simp: get_range_offset_and_length_def r Let_def word_of_int_Suc simp del: of_int_add of_int_diff)
    have u: "unat (word_of_int f :: u64) = nat f" "unat (word_of_int (l - f + 1) :: u64) = nat (l + 1) - nat f"
      using both b by (subst unat_word_of_int; auto)+
    have s: "nths body {i. selected r ?n i} = take (nat (l + 1) - nat f) (drop (nat f) body)"
      by (rule some) (use both in \<open>auto simp: selected_def r\<close>)
    show ?thesis
      unfolding g using s by (simp add: substr_def u del: of_int_diff of_int_add)
  qed
qed

lemma stoll_digits:
  assumes "stoll d = Inr x" "list_all is_digit d"
  shows "0 \<le> x" "x < 2 ^ 63"
proof -
  have d: "\<forall>c \<in> set d. is_digit c" using assms(2) by (simp add: list_all_iff)
  have "c_str d = d" using d by (intro c_str_id) auto
  moreover have "\<not> (d \<noteq> [] \<and> hd d = CHR ''-'')" using d by (cases d) auto
  moreover have "dropWhile isspace d = d" using d is_digit_not_space by (cases d) auto
  ultimately have "0 \<le> x \<and> x < 2 ^ 63"
    using assms(1) by (auto simp: stoll_def sto_signed_def strto_def Let_def split: if_splits)
  then show "0 \<le> x" "x < 2 ^ 63" by simp_all
qed

lemma range_field_ok:
  assumes "range_field (v, rs) field = Inr (v', rs')" "\<forall>r \<in> set rs. range_ok r"
  shows "\<forall>r \<in> set rs'. range_ok r"
proof (cases "rs' = rs")
  case True
  with assms(2) show ?thesis by simp
next
  case False
  let ?f = "dropWhile isspace field"
  let ?d = "takeWhile is_digit ?f" and ?t = "dropWhile is_digit ?f"
  from False assms(1) obtain a b where ab: "(if ?d \<noteq> [] then stoll ?d else Inr (- 1)) = Inr a"
    "(if tl ?t \<noteq> [] then stoll (tl ?t) else Inr (- 1)) = Inr b" "list_all is_digit (tl ?t)"
    "rs' = rs @ [(a, b)]" "\<not> (a \<noteq> - 1 \<and> b \<noteq> - 1 \<and> a > b)"
    by (auto simp: range_field_def Let_def res_simps split: if_splits)
  have "list_all is_digit ?d" by (auto simp: list_all_iff dest: set_takeWhileD)
  then have "- 1 \<le> a \<and> a < 2 ^ 63" "- 1 \<le> b \<and> b < 2 ^ 63"
    using stoll_digits [of ?d a] stoll_digits [of "tl ?t" b] ab by (auto split: if_splits)
  with ab assms(2) show ?thesis by (auto simp: range_ok_def)
qed

lemma parse_range_header_ok: "parse_range_header s = Some rs \<Longrightarrow> r \<in> set rs \<Longrightarrow> range_ok r"
proof -
  assume s: "parse_range_header s = Some rs" and r: "r \<in> set rs"
  obtain st where st: "foldM range_field (True, []) (split (CHR '','') (drop 6 s)) = Inr st"
    using s by (cases "foldM range_field (True, []) (split (CHR '','') (drop 6 s))")
      (simp_all add: parse_range_header_def split: if_splits)
  obtain v where f: "foldM range_field (True, []) (split (CHR '','') (drop 6 s)) = Inr (v, rs)"
    using s st by (cases st) (simp add: parse_range_header_def split: if_splits)
  have "case (v, rs) of (v, rs) \<Rightarrow> \<forall>r \<in> set rs. range_ok r"
    by (rule foldM_invariant [OF f]) (auto dest: range_field_ok)
  with r show "range_ok r" by simp
qed

text \<open>
  An answer to several ranges of a body set by a handler is computed with the length 0: a
  suffix range gives an empty part and every part names a total of 0, whatever the body holds.
\<close>

theorem suffix_part_of_several_is_empty:
  assumes "body \<noteq> []" "i < length rs" "rs ! i = (- 1, n)" "0 \<le> n"
  shows "range_part rs body 0 boundary content_type i =
    Some (''--'' @ boundary @ [CHR 0x0D, CHR 0x0A] @
      (if content_type \<noteq> [] then ''Content-Type: '' @ content_type @ [CHR 0x0D, CHR 0x0A] else []) @
      ''Content-Range: bytes -'' @ to_string_int n @ ''/0'' @ [CHR 0x0D, CHR 0x0A] @ [CHR 0x0D, CHR 0x0A] @
      [] @ [CHR 0x0D, CHR 0x0A])"
proof -
  have "get_range_offset_and_length rs 0 i = (0, 0)"
    using assms(3,4) by (simp add: get_range_offset_and_length_def Let_def)
  then show ?thesis
    using assms by (simp add: range_part_def substr_def make_content_range_header_field_def Let_def to_string_digit digit_char_def)
qed

theorem suffix_part_of_several_is_empty_witness:
  "range_part [(0, 1), (- 1, 3)] ''abcdef'' 0 ''B'' [] 1 =
    Some (''--B'' @ [CHR 0x0D, CHR 0x0A] @ ''Content-Range: bytes -'' @ to_string_int 3 @ ''/0'' @
      [CHR 0x0D, CHR 0x0A] @ [CHR 0x0D, CHR 0x0A] @ [CHR 0x0D, CHR 0x0A])"
  using suffix_part_of_several_is_empty [of "''abcdef''" 1 "[(0, 1), (- 1, 3)]" 3 "''B''" "[]"] by simp

end
