(* ===== verification/Http_Multipart.thy ===== *)
theory Http_Multipart
  imports Http_Ranges
begin

text \<open>
  httplib.h, \<^verbatim>\<open>MultipartFormDataParser\<close>: the parser of \<^verbatim>\<open>multipart/form-data\<close> content, which gets
  the content piece by piece, and the two callbacks of \<^verbatim>\<open>Server::read_content\<close> that store the files
  of a form. Every round of the parser shortens its buffer, so it ends on every piece; a piece
  without the first boundary is thrown away. What a whole form is read as is in Http_Form.
\<close>

section \<open>Forms\<close>

record multipart_file =
  mf_name :: string
  mf_content :: string
  mf_filename :: string
  mf_content_type :: string

definition empty_file :: multipart_file where
  "empty_file = \<lparr>mf_name = [], mf_content = [], mf_filename = [], mf_content_type = []\<rparr>"

text \<open>
  The files by name, how many there are, and the name under which the last one was entered: the
  iterator \<^verbatim>\<open>cur\<close> is the last entry of that name.
\<close>

record form =
  fm_files :: "(string \<times> multipart_file) list"
  fm_count :: nat
  fm_cur :: string

definition empty_form :: form where
  "empty_form = \<lparr>fm_files = [], fm_count = 0, fm_cur = []\<rparr>"

definition MULTIPART_FILE_MAX_COUNT :: nat where
  "MULTIPART_FILE_MAX_COUNT = 1024"

definition form_header :: "multipart_file \<Rightarrow> form \<Rightarrow> bool \<times> form" where
  "form_header file fm =
     (if fm_count fm = MULTIPART_FILE_MAX_COUNT then (False, fm\<lparr>fm_count := Suc (fm_count fm)\<rparr>)
      else (True, \<lparr>fm_files = mm_emplace (<) (mf_name file) file (fm_files fm), fm_count = Suc (fm_count fm),
                   fm_cur = mf_name file\<rparr>))"

fun append_content :: "string \<Rightarrow> string \<Rightarrow> (string \<times> multipart_file) list \<Rightarrow> (string \<times> multipart_file) list" where
  "append_content key d [] = []"
| "append_content key d (e # es) =
     (if fst e = key \<and> \<not> list_ex (\<lambda>e'. fst e' = key) es
      then (fst e, (snd e)\<lparr>mf_content := mf_content (snd e) @ d\<rparr>) # es
      else e # append_content key d es)"

definition form_content :: "string \<Rightarrow> form \<Rightarrow> bool \<times> form" where
  "form_content d fm =
     (if list_ex (\<lambda>e. fst e = fm_cur fm \<and> length (mf_content (snd e)) + length d > string_max_size)
           (take 1 (rev (filter (\<lambda>e. fst e = fm_cur fm) (fm_files fm))))
      then (False, fm)
      else (True, fm\<lparr>fm_files := append_content (fm_cur fm) d (fm_files fm)\<rparr>))"

section \<open>The lines of a part\<close>

definition parse_disposition_params :: "string \<Rightarrow> (string \<times> string) list \<Rightarrow> (string \<times> string) list" where
  "parse_disposition_params s params =
     snd (foldl (\<lambda>(cache, ps) kv.
        if kv \<in> set cache then (cache, ps)
        else (kv # cache,
              let (key, val) = key_and_val kv
              in if key \<noteq> [] then mm_emplace (<) (trim_double_quotes_copy key) (trim_double_quotes_copy val) ps
                 else ps))
       ([], params) (split (CHR '';'') s))"

text \<open>\<^verbatim>\<open>npos - beg\<close> for a missing semicolon is larger than what is left.\<close>

definition parse_multipart_boundary :: "string \<Rightarrow> string option" where
  "parse_multipart_boundary content_type =
     (case find_at content_type ''boundary='' 0 of
        None \<Rightarrow> None
      | Some pos \<Rightarrow>
          let beg = pos + 9;
              boundary = trim_double_quotes_copy
                (case find_at content_type '';'' pos of
                   None \<Rightarrow> drop beg content_type
                 | Some fin \<Rightarrow> take (fin - beg) (drop beg content_type))
          in if boundary \<noteq> [] then Some boundary else None)"

definition start_with_case_ignore :: "string \<Rightarrow> string \<Rightarrow> bool" where
  "start_with_case_ignore a b \<longleftrightarrow> length b \<le> length a \<and> map tolower (take (length b) a) = map tolower b"

text \<open>
  The regular expressions \<^verbatim>\<open>^Content-Disposition:\s*form-data;\s*(.*)$\<close> and \<^verbatim>\<open>^UTF-8''(.+?)$\<close>, both
  without regard to case; a dot matches no line break.
\<close>

definition match_content_disposition :: "string \<Rightarrow> string option" where
  "match_content_disposition header =
     (let a = ''Content-Disposition:''; b = ''form-data;'';
          t = dropWhile isspace (drop (length a) header);
          m = dropWhile isspace (drop (length b) t)
      in if start_with_case_ignore header a \<and> start_with_case_ignore t b \<and>
            CHR 0x0D \<notin> set m \<and> CHR 0x0A \<notin> set m
         then Some m else None)"

definition match_rfc5987 :: "string \<Rightarrow> string option" where
  "match_rfc5987 v =
     (let a = ''UTF-8'' @ [CHR 0x27, CHR 0x27]; m = drop (length a) v
      in if start_with_case_ignore v a \<and> m \<noteq> [] \<and> CHR 0x0D \<notin> set m \<and> CHR 0x0A \<notin> set m then Some m else None)"

text \<open>One header line of a part; \<open>None\<close> makes the form invalid.\<close>

definition part_header :: "string \<Rightarrow> multipart_file \<Rightarrow> multipart_file option" where
  "part_header header file =
     (if start_with_case_ignore header ''content-type:'' then
        Some (file\<lparr>mf_content_type := trim_copy (drop 13 header)\<rparr>)
      else case match_content_disposition header of
        None \<Rightarrow> None
      | Some m \<Rightarrow>
          let params = parse_disposition_params m [] in
          (case map_of params ''name'' of
             None \<Rightarrow> None
           | Some name \<Rightarrow>
               let f1 = file\<lparr>mf_name := name\<rparr>;
                   f2 = (case map_of params ''filename'' of None \<Rightarrow> f1 | Some v \<Rightarrow> f1\<lparr>mf_filename := v\<rparr>)
               in case map_of params ''filename*'' of
                    None \<Rightarrow> Some f2
                  | Some v \<Rightarrow>
                      (case match_rfc5987 v of
                         None \<Rightarrow> None
                       | Some m2 \<Rightarrow> Some (f2\<lparr>mf_filename := decode_url m2 False\<rparr>))))"

section \<open>The parser\<close>

text \<open>
  The values of \<^verbatim>\<open>state_\<close>, as the code comments them. \<open>mp_buf\<close> is the part of the buffer that is not
  erased.
\<close>

datatype multipart_state = Initial_boundary | New_entry | Part_headers | Part_body | Part_boundary

record multipart_parser =
  mp_boundary :: string
  mp_state :: multipart_state
  mp_is_valid :: bool
  mp_file :: multipart_file
  mp_buf :: string

definition crlf :: string where "crlf = [CHR 0x0D, CHR 0x0A]"

definition multipart_parser_new :: "string \<Rightarrow> multipart_parser" where
  "multipart_parser_new boundary =
     \<lparr>mp_boundary = boundary, mp_state = Initial_boundary, mp_is_valid = False, mp_file = empty_file, mp_buf = []\<rparr>"

definition dash_boundary_crlf :: "multipart_parser \<Rightarrow> string" where
  "dash_boundary_crlf p = ''--'' @ mp_boundary p @ crlf"

definition crlf_dash_boundary :: "multipart_parser \<Rightarrow> string" where
  "crlf_dash_boundary p = crlf @ ''--'' @ mp_boundary p"

definition buf_find :: "string \<Rightarrow> string \<Rightarrow> nat" where
  "buf_find buf pat = (case find_at buf pat 0 of None \<Rightarrow> length buf | Some i \<Rightarrow> i)"

definition buf_start_with :: "string \<Rightarrow> string \<Rightarrow> bool" where
  "buf_start_with buf pat \<longleftrightarrow> take (length pat) buf = pat"

definition buf_erase :: "nat \<Rightarrow> multipart_parser \<Rightarrow> multipart_parser" where
  "buf_erase n p = p\<lparr>mp_buf := drop n (mp_buf p)\<rparr>"

text \<open>
  The inner loop of the header state. \<open>Some b\<close> returns \<open>b\<close> from \<^verbatim>\<open>parse\<close>; \<open>None\<close> goes on, in the body
  state after the empty line, in the header state when no line is complete.
\<close>

function part_headers :: "multipart_parser \<Rightarrow> form \<Rightarrow> bool option \<times> multipart_parser \<times> form" where
  "part_headers p fm =
     (let pos = buf_find (mp_buf p) crlf in
      if pos < length (mp_buf p) then
        (if pos = 0 then
           (let (ok, fm') = form_header (mp_file p) fm
            in if \<not> ok then (Some False, p\<lparr>mp_is_valid := False\<rparr>, fm')
               else (None, (buf_erase (length crlf) p)\<lparr>mp_state := Part_body\<rparr>, fm'))
         else
           (case part_header (take pos (mp_buf p)) (mp_file p) of
              None \<Rightarrow> (Some False, p\<lparr>mp_is_valid := False\<rparr>, fm)
            | Some file \<Rightarrow> part_headers (buf_erase (pos + length crlf) (p\<lparr>mp_file := file\<rparr>)) fm))
      else (None, p, fm))"
  by pat_completeness auto

termination
  by (relation "measure (\<lambda>(p, fm). length (mp_buf p))") (auto simp: buf_erase_def crlf_def)

declare part_headers.simps [simp del]

text \<open>
  One round of \<^verbatim>\<open>while (buf_size() > 0)\<close>: \<open>Some b\<close> returns \<open>b\<close>, \<open>None\<close> goes on with the loop.
\<close>

definition parse_round :: "multipart_parser \<Rightarrow> form \<Rightarrow> bool option \<times> multipart_parser \<times> form" where
  "parse_round p fm =
     (case mp_state p of
        Initial_boundary \<Rightarrow>
          (let d = dash_boundary_crlf p; p1 = buf_erase (buf_find (mp_buf p) d) p in
           if length d > length (mp_buf p1) then (Some True, p1, fm)
           else if \<not> buf_start_with (mp_buf p1) d then (Some False, p1, fm)
           else (None, (buf_erase (length d) p1)\<lparr>mp_state := New_entry\<rparr>, fm))
      | New_entry \<Rightarrow>
          (None, p\<lparr>mp_file := (mp_file p)\<lparr>mf_name := [], mf_filename := [], mf_content_type := []\<rparr>,
                   mp_state := Part_headers\<rparr>, fm)
      | Part_headers \<Rightarrow>
          if buf_find (mp_buf p) crlf > HEADER_MAX_LENGTH then (Some False, p, fm)
          else
            (case part_headers p fm of
               (Some b, p', fm') \<Rightarrow> (Some b, p', fm')
             | (None, p', fm') \<Rightarrow> (if mp_state p' \<noteq> Part_body then Some True else None, p', fm'))
      | Part_body \<Rightarrow>
          (let d = crlf_dash_boundary p; n = length (mp_buf p) in
           if length d > n then (Some True, p, fm)
           else
             let pos = buf_find (mp_buf p) d in
             if pos < n then
               (let (ok, fm') = form_content (take pos (mp_buf p)) fm
                in if \<not> ok then (Some False, p\<lparr>mp_is_valid := False\<rparr>, fm')
                   else (None, (buf_erase (pos + length d) p)\<lparr>mp_state := Part_boundary\<rparr>, fm'))
             else
               let len = n - length d in
               if len > 0 then
                 (let (ok, fm') = form_content (take len (mp_buf p)) fm
                  in if \<not> ok then (Some False, p\<lparr>mp_is_valid := False\<rparr>, fm')
                     else (Some True, buf_erase len p, fm'))
               else (Some True, p, fm))
      | Part_boundary \<Rightarrow>
          if length crlf > length (mp_buf p) then (Some True, p, fm)
          else if buf_start_with (mp_buf p) crlf then (None, (buf_erase (length crlf) p)\<lparr>mp_state := New_entry\<rparr>, fm)
          else if buf_start_with (mp_buf p) ''--'' then (None, p\<lparr>mp_is_valid := True, mp_buf := []\<rparr>, fm)
          else (Some True, p, fm))"

lemma part_headers_shrinks:
  "part_headers p fm = (r, p', fm') \<Longrightarrow> length (mp_buf p') \<le> length (mp_buf p) \<and>
    (r = None \<and> mp_state p \<noteq> Part_body \<and> mp_state p' = Part_body \<longrightarrow> length (mp_buf p') < length (mp_buf p))"
proof (induction p fm arbitrary: r p' fm' rule: part_headers.induct)
  case (1 p fm)
  let ?pos = "buf_find (mp_buf p) crlf"
  show ?case
  proof (cases "?pos < length (mp_buf p) \<and> ?pos \<noteq> 0")
    case False
    with 1(2) show ?thesis
      by (auto simp: part_headers.simps [of p fm] buf_erase_def crlf_def split: if_splits prod.splits)
  next
    case True
    show ?thesis
    proof (cases "part_header (take ?pos (mp_buf p)) (mp_file p)")
      case None
      with 1(2) True show ?thesis by (auto simp: part_headers.simps [of p fm])
    next
      case (Some mf)
      let ?q = "buf_erase (?pos + length crlf) (p\<lparr>mp_file := mf\<rparr>)"
      have "part_headers ?q fm = (r, p', fm')" using 1(2) True Some by (simp add: part_headers.simps [of p fm])
      with 1(1) [OF refl _ _ Some] True have "length (mp_buf p') \<le> length (mp_buf ?q)" by blast
      moreover have "0 < length (mp_buf p)" using True by linarith
      then have "length (mp_buf ?q) < length (mp_buf p)" by (simp add: buf_erase_def crlf_def)
      ultimately show ?thesis by simp
    qed
  qed
qed

lemma parse_round_shrinks:
  assumes "parse_round p fm = (None, p', fm')" "mp_buf p \<noteq> []"
  shows "2 * length (mp_buf p') + (if mp_state p' = New_entry then 1 else 0)
    < 2 * length (mp_buf p) + (if mp_state p = New_entry then 1 else 0)"
proof (cases "mp_state p")
  case Initial_boundary
  have "2 * (n - 4 - k) + 1 < 2 * n" if "0 < n" for n k :: nat using that by linarith
  then show ?thesis
    using assms Initial_boundary
    by (auto simp: parse_round_def Let_def buf_erase_def dash_boundary_crlf_def crlf_def split: if_splits)
next
  case New_entry
  with assms show ?thesis by (auto simp: parse_round_def)
next
  case Part_headers
  then obtain r q fm2 where q: "part_headers p fm = (r, q, fm2)" "r = None" "mp_state q = Part_body" "p' = q"
    using assms by (auto simp: parse_round_def split: if_splits prod.splits option.splits)
  with part_headers_shrinks [OF q(1)] Part_headers show ?thesis by simp
next
  case Part_body
  then have "mp_state p' = Part_boundary" "length (mp_buf p') < length (mp_buf p)"
    using assms by (auto simp: parse_round_def Let_def buf_erase_def crlf_dash_boundary_def crlf_def
        split: if_splits prod.splits)
  then show ?thesis by simp
next
  case Part_boundary
  with assms show ?thesis
    by (auto simp: parse_round_def buf_erase_def crlf_def Suc_le_eq split: if_splits)
qed

function parse_loop :: "multipart_parser \<Rightarrow> form \<Rightarrow> bool \<times> multipart_parser \<times> form" where
  "parse_loop p fm =
     (if mp_buf p = [] then (True, p, fm)
      else case parse_round p fm of
             (Some b, p', fm') \<Rightarrow> (b, p', fm')
           | (None, p', fm') \<Rightarrow> parse_loop p' fm')"
  by pat_completeness auto

termination
proof (relation "measure (\<lambda>(p, fm). 2 * length (mp_buf p) + (if mp_state p = New_entry then 1 else 0))", goal_cases)
  case (2 p fm r rest p' fm')
  then have "parse_round p fm = (None, p', fm')" by simp
  from parse_round_shrinks [OF this 2(1)] show ?case by simp
qed simp

declare parse_loop.simps [simp del]

text \<open>\<^verbatim>\<open>parse\<close> as a receiver of content.\<close>

definition receive_multipart :: "(multipart_parser \<times> form) receiver" where
  "receive_multipart d = (\<lambda>(p, fm).
     let (ok, p', fm') = parse_loop (p\<lparr>mp_buf := mp_buf p @ d\<rparr>) fm in (ok, p', fm'))"

lemma find_in_short: "length s < length pat \<Longrightarrow> find_in pat n s = None"
  by (induction pat n s rule: find_in.induct) (subst find_in.simps, auto split: list.split)

lemma buf_find_short: "length buf < length pat \<Longrightarrow> buf_find buf pat = length buf"
  by (simp add: buf_find_def find_at_def find_in_short)

lemma receive_without_boundary:
  assumes "buf_find d (''--'' @ boundary @ crlf) = length d" "d \<noteq> []"
  shows "receive_multipart d (multipart_parser_new boundary, fm) = (True, multipart_parser_new boundary, fm)"
proof -
  let ?p = "multipart_parser_new boundary"
  have "parse_round (?p\<lparr>mp_buf := d\<rparr>) fm = (Some True, ?p, fm)"
    using assms(1) by (simp add: parse_round_def multipart_parser_new_def dash_boundary_crlf_def buf_erase_def)
  then have "parse_loop (?p\<lparr>mp_buf := d\<rparr>) fm = (True, ?p, fm)"
    using assms(2) by (simp add: parse_loop.simps [of "?p\<lparr>mp_buf := d\<rparr>"])
  then show ?thesis by (simp add: receive_multipart_def multipart_parser_new_def)
qed

lemma first_piece_dropped:
  "length d < length boundary + 4 \<Longrightarrow> d \<noteq> [] \<Longrightarrow>
   receive_multipart d (multipart_parser_new boundary, fm) = (True, multipart_parser_new boundary, fm)"
  by (intro receive_without_boundary buf_find_short) (simp_all add: crlf_def)

end
