(* ===== verification/Http_Service.thy ===== *)
theory Http_Service
  imports Http_Pipeline
begin

text \<open>
  The HTTP interface from bytes to bytes: a request as a client writes it, what
  \<^verbatim>\<open>process_request\<close> makes of it, and a connection of several requests. Shown here: a well-formed
  request is answered with what \<open>serve\<close> gives and read exactly to its end; requests that arrive one
  after the other are served in order, at most five on a connection; a request that arrives in one
  piece with its predecessor is lost; malformed requests are answered without changing the state.
\<close>

section \<open>Headers under other headers\<close>

definition same_key :: "string \<Rightarrow> string \<Rightarrow> bool" where
  "same_key a b \<longleftrightarrow> map tolower a = map tolower b"

lemma not_ci_less [simp]: "\<not> ci_less a b \<and> \<not> ci_less b a \<longleftrightarrow> same_key a b"
  by (auto simp: ci_less_def same_key_def)

lemma header_range_same_key: "header_range h key = filter (\<lambda>e. same_key (fst e) key) h"
  by (simp add: header_range_def)

lemma header_range_emplace_other:
  "\<not> same_key k key \<Longrightarrow> header_range (emplace_header k v h) key = header_range h key"
  unfolding header_range_same_key emplace_header_def by (induction h) auto

lemma header_range_set_other:
  "\<not> same_key k key \<Longrightarrow> header_range (set_header k v h) key = header_range h key"
  by (simp add: set_header_def header_range_emplace_other)

definition address_keys :: "string list" where
  "address_keys = [''REMOTE_ADDR'', ''REMOTE_PORT'', ''LOCAL_ADDR'', ''LOCAL_PORT'']"

lemma header_range_addresses:
  "\<forall>k \<in> set address_keys. \<not> same_key k key \<Longrightarrow> header_range (add_addresses E h) key = header_range h key"
  by (simp add: add_addresses_def address_keys_def header_range_set_other)

lemma no_address_key:
  "key \<in> {''Range'', ''Expect'', ''Content-Encoding'', ''Transfer-Encoding'', ''Content-Type'', ''Content-Length'', ''Connection''} \<Longrightarrow>
   \<forall>k \<in> set address_keys. \<not> same_key k key"
  unfolding address_keys_def same_key_def by (auto simp: tolower_def)

section \<open>A request as a client writes it\<close>

record client_request =
  cq_method :: http_method
  cq_path :: string
  cq_params :: "(string \<times> string) list"
  cq_headers :: headers
  cq_body :: string

definition method_name :: "http_method \<Rightarrow> string" where
  "method_name m = (case m of GET \<Rightarrow> ''GET'' | POST \<Rightarrow> ''POST'')"

definition cq_target :: "client_request \<Rightarrow> string" where
  "cq_target q = cq_path q @ (if cq_params q = [] then [] else ''?'' @ params_to_query_str (cq_params q))"

definition cq_line :: "client_request \<Rightarrow> string" where
  "cq_line q = method_name (cq_method q) @ '' '' @ cq_target q @ '' '' @ ''HTTP/1.1''"

definition cq_text :: "client_request \<Rightarrow> string" where
  "cq_text q = cq_line q @ crlf @ write_headers (cq_headers q) @ cq_body q"

text \<open>Text without blanks, line breaks or NUL.\<close>

definition token :: "string \<Rightarrow> bool" where
  "token s \<longleftrightarrow> s \<noteq> [] \<and> set s \<inter> {CHR '' '', CHR 0x09, CHR 0x00, CHR 0x0A, CHR 0x0D} = {}"

text \<open>
  A plain request: a path that needs no decoding, parameters whose keys need no escape, headers a
  line can carry, no byte ranges, no content coding, a content type that is no form, and for a POST
  a content length that is right and within the limit.
\<close>

definition client_request_ok :: "client_request \<Rightarrow> bool" where
  "client_request_ok q \<longleftrightarrow>
     token (cq_path q) \<and> set (cq_path q) \<inter> set ''?#%'' = {} \<and>
     (\<forall>p \<in> set (cq_params q). param_key_ok (fst p) \<and> token (fst p) \<and> set (fst p) \<inter> set ''?#'' = {}) \<and>
     distinct (cq_params q) \<and> sorted (map fst (cq_params q)) \<and>
     length (cq_line q) + 2 \<le> REQUEST_URI_MAX_LENGTH \<and> headers_ok (cq_headers q) \<and>
     (\<forall>k \<in> {''Range'', ''Expect'', ''Content-Encoding'', ''Transfer-Encoding''}. header_range (cq_headers q) k = []) \<and>
     take 33 (get_header_value (cq_headers q) ''Content-Type'' []) \<noteq> ''application/x-www-form-urlencoded'' \<and>
     take 19 (get_header_value (cq_headers q) ''Content-Type'' []) \<noteq> ''multipart/form-data'' \<and>
     (case cq_method q of
        GET \<Rightarrow> cq_body q = []
      | POST \<Rightarrow> length (cq_body q) \<le> vdb_payload_max \<and>
          (\<exists>k. header_range (cq_headers q) ''Content-Length'' = [(k, to_string (length (cq_body q)))]))"

lemma upper_hex_unescaped: "d < 16 \<Longrightarrow> unescaped (upper_hex d)"
proof -
  have "list_all (\<lambda>d. unescaped (upper_hex d)) [0..<16]" by code_simp
  then show "d < 16 \<Longrightarrow> unescaped (upper_hex d)" by (simp add: list_all_iff)
qed

lemma encode_query_param_safe: "x \<in> set (encode_query_param v) \<Longrightarrow> x = CHR ''%'' \<or> unescaped x"
  using upper_hex_unescaped of_char_digits
  by (auto simp: encode_query_param_def encode_char_def split: if_splits)

lemma query_str_chars:
  "x \<in> set (params_to_query_str ps) \<Longrightarrow>
   x \<in> {CHR ''&'', CHR ''='', CHR ''%''} \<or> unescaped x \<or> (\<exists>p \<in> set ps. x \<in> set (fst p))"
proof (induction ps rule: rev_induct)
  case Nil
  then show ?case by (simp add: params_to_query_str_Nil)
next
  case (snoc p ps)
  then show ?case
    using encode_query_param_safe [of x "snd p"]
    by (auto simp: params_to_query_str_snoc pair_text_def split: if_splits)
qed

lemma unescaped_plain:
  "\<not> unescaped CHR ''?''" "\<not> unescaped CHR ''#''" "\<not> unescaped CHR 0x0A" "\<not> unescaped CHR 0x0D"
  by (simp_all add: unescaped_def is_alnum_def is_digit_def)

lemma strip_token: "token s \<Longrightarrow> strip s = s"
  by (rule strip_no_blanks) (auto simp: token_def is_space_or_tab_def)
lemma cq_target_token:
  assumes "client_request_ok q"
  shows "token (cq_target q)" "CHR ''#'' \<notin> set (cq_target q)"
proof -
  have k: "x \<notin> {CHR '' '', CHR 0x09, CHR 0x00, CHR 0x0A, CHR 0x0D, CHR ''#''}"
    if "x \<in> set (params_to_query_str (cq_params q))" for x
    using query_str_chars [OF that] assms unescaped_plain unescaped_safe
    by (auto simp: client_request_ok_def token_def)
  have p: "token (cq_path q)" "CHR ''#'' \<notin> set (cq_path q)" using assms by (auto simp: client_request_ok_def)
  show "token (cq_target q)" using p k by (auto simp: cq_target_def token_def)
  show "CHR ''#'' \<notin> set (cq_target q)" using p k by (auto simp: cq_target_def)
qed

lemma method_token: "token (method_name m)" and version_token: "token ''HTTP/1.1''"
  by (cases m; simp add: method_name_def token_def)+

lemma split_three:
  assumes "token a" "token b" "token c"
  shows "split (CHR '' '') (a @ '' '' @ b @ '' '' @ c) = [a, b, c]"
proof -
  have "CHR '' '' \<notin> set a" "CHR '' '' \<notin> set b" "CHR '' '' \<notin> set c" "a \<noteq> []" "b \<noteq> []" "c \<noteq> []"
    using assms by (auto simp: token_def)
  with assms show ?thesis by (simp add: split_fields codec_simps strip_token)
qed

lemma split_two:
  assumes "token a" "token b"
  shows "split (CHR '' '') (a @ '' '' @ b) = [a, b]"
proof -
  have "CHR '' '' \<notin> set a" "CHR '' '' \<notin> set b" "a \<noteq> []" "b \<noteq> []" using assms by (auto simp: token_def)
  with assms show ?thesis by (simp add: split_fields codec_simps strip_token)
qed

lemma token_not_Nil: "token s \<Longrightarrow> s \<noteq> []"
  by (simp add: token_def)

lemma split_target:
  assumes "client_request_ok q"
  shows "split (CHR ''?'') (cq_target q) =
    cq_path q # (if cq_params q = [] then [] else [params_to_query_str (cq_params q)])"
proof -
  have p: "token (cq_path q)" "CHR ''?'' \<notin> set (cq_path q)" using assms by (auto simp: client_request_ok_def)
  have k: "x \<notin> {CHR ''?'', CHR '' '', CHR 0x09}" if "x \<in> set (params_to_query_str (cq_params q))" for x
    using query_str_chars [OF that] assms unescaped_plain unescaped_safe
    by (auto simp: client_request_ok_def token_def)
  have s: "strip (params_to_query_str (cq_params q)) = params_to_query_str (cq_params q)"
    by (rule strip_no_blanks) (use k in \<open>auto simp: is_space_or_tab_def\<close>)
  have "params_to_query_str (cq_params q) \<noteq> []" if "cq_params q \<noteq> []"
    using that by (cases "cq_params q" rule: rev_cases) (auto simp: params_to_query_str_snoc pair_text_def)
  moreover have "CHR ''?'' \<notin> set (params_to_query_str (cq_params q))" using k by blast
  ultimately show ?thesis using p s
    by (auto simp: cq_target_def split_fields codec_simps strip_token token_not_Nil)
qed

lemma parse_cq_line:
  assumes "client_request_ok q"
  shows "parse_request_line (cq_line q @ crlf) http_request_new =
    (True, http_request_new\<lparr>rq_method := method_name (cq_method q), rq_target := cq_target q, rq_version := ''HTTP/1.1'',
       rq_path := cq_path q, rq_params := cq_params q\<rparr>)"
proof -
  note t = cq_target_token [OF assms] method_token [of "cq_method q"] version_token
  have nul: "CHR 0x00 \<notin> set (cq_line q @ crlf)"
    using t by (auto simp: cq_line_def token_def crlf_def)
  have c: "c_str (cq_line q @ crlf) = cq_line q @ crlf" using nul by (rule c_str_id)
  have m: "method_name (cq_method q) \<in> set http_methods" by (cases "cq_method q") (simp_all add: method_name_def http_methods_def)
  have tw: "takeWhile (\<lambda>c. c \<noteq> CHR ''#'') (cq_target q) = cq_target q" using t(2) by (rule span_no_delim(1))
  have path: "decode_url (cq_path q) False = cq_path q"
    by (rule decode_no_percent) (use assms in \<open>auto simp: client_request_ok_def\<close>)
  have par: "parse_query_text (params_to_query_str (cq_params q)) [] = cq_params q"
    using assms parse_query_pairs [of "cq_params q" "[]" "[]"]
    by (simp add: client_request_ok_def parse_query_text_def split_query_str)
  have sp: "split (CHR '' '') (cq_line q) = [method_name (cq_method q), cq_target q, ''HTTP/1.1'']"
    unfolding cq_line_def by (rule split_three [OF t(3,1,4)])
  have e: "end_with_crlf (cq_line q @ crlf)" by (simp add: crlf_def)
  have "take (length (cq_line q @ crlf) - 2) (cq_line q @ crlf) = cq_line q" by (simp add: crlf_def)
  then show ?thesis
    using e m path par split_target [OF assms]
    by (simp add: parse_request_line_def c Let_def sp tw http_request_new_def)
qed

section \<open>What the server makes of it\<close>

definition cq_request :: "'st http_env \<Rightarrow> client_request \<Rightarrow> http_request" where
  "cq_request E q =
     \<lparr>rq_method = method_name (cq_method q), rq_target = cq_target q, rq_path = cq_path q, rq_version = ''HTTP/1.1'',
      rq_headers = add_addresses E (cq_headers q), rq_params = cq_params q, rq_body = cq_body q, rq_form = empty_form,
      rq_ranges = []\<rparr>"

definition cq_handlers :: "'st http_env \<Rightarrow> client_request \<Rightarrow> (string \<times> 'st http_handler) list" where
  "cq_handlers E q = (case cq_method q of GET \<Rightarrow> he_get E | POST \<Rightarrow> he_post E)"

definition wants_close :: "client_request \<Rightarrow> bool" where
  "wants_close q \<longleftrightarrow> get_header_value (cq_headers q) ''Connection'' [] = ''close''"

text \<open>The facts about the headers the proofs need.\<close>

lemma get_header_value_addresses:
  "key \<in> {''Range'', ''Expect'', ''Content-Encoding'', ''Transfer-Encoding'', ''Content-Type'', ''Content-Length'', ''Connection''} \<Longrightarrow>
   get_header_value (add_addresses E h) key d = get_header_value h key d"
  by (simp only: get_header_value_def header_range_addresses [OF no_address_key])

lemma strtoull10_to_string: "n < 2 ^ 64 \<Longrightarrow> strtoull10 (to_string n) = of_nat n"
  using strto_to_string [of "[]" n] by (simp add: strtoull10_def)

lemma content_length_header:
  assumes "client_request_ok q" "cq_method q = POST"
  shows "has_header (add_addresses E (cq_headers q)) ''Content-Length''"
    "get_header_value_u64 (add_addresses E (cq_headers q)) ''Content-Length'' 0 = of_nat (length (cq_body q))"
proof -
  obtain k where k: "header_range (cq_headers q) ''Content-Length'' = [(k, to_string (length (cq_body q)))]"
    and n: "length (cq_body q) \<le> vdb_payload_max"
    using assms by (auto simp: client_request_ok_def)
  have r: "header_range (add_addresses E (cq_headers q)) ''Content-Length'' = [(k, to_string (length (cq_body q)))]"
    by (subst header_range_addresses [OF no_address_key]) (simp_all add: k)
  have "length (cq_body q) < 2 ^ 64" using n by (simp add: vdb_payload_max_def)
  then show "has_header (add_addresses E (cq_headers q)) ''Content-Length''"
    "get_header_value_u64 (add_addresses E (cq_headers q)) ''Content-Length'' 0 = of_nat (length (cq_body q))"
    by (simp_all add: has_header_def get_header_value_u64_def r strtoull10_to_string)
qed

lemma plain_values:
  assumes "client_request_ok q"
    and "key \<in> {''Range'', ''Expect'', ''Content-Encoding'', ''Transfer-Encoding''}"
  shows "get_header_value (add_addresses E (cq_headers q)) key [] = []" "\<not> has_header (add_addresses E (cq_headers q)) key"
proof -
  have k: "\<forall>k \<in> set address_keys. \<not> same_key k key" by (rule no_address_key) (use assms(2) in auto)
  have "header_range (cq_headers q) key = []" using assms by (auto simp: client_request_ok_def)
  then have "header_range (add_addresses E (cq_headers q)) key = []" using header_range_addresses [OF k] by metis
  then show "get_header_value (add_addresses E (cq_headers q)) key [] = []" "\<not> has_header (add_addresses E (cq_headers q)) key"
    by (simp_all add: get_header_value_def has_header_def)
qed

lemma routing_plain:
  assumes "client_request_ok q" "he_payload_max E = vdb_payload_max" "to_come s = cq_body q @ r"
  obtains s' where "routing E ((cq_request E q)\<lparr>rq_body := []\<rparr>) http_response_new s st =
      (let (res, rs, st') = dispatch_request (cq_handlers E q) (cq_request E q) http_response_new st
       in (res, cq_request E q, rs, s', st'))"
    "to_come s' = r" "sent s' = sent s" "uses s s'"
proof (cases "cq_method q")
  case GET
  then have "cq_body q = []" using assms(1) by (simp add: client_request_ok_def)
  with GET assms(3) show ?thesis
    by (intro that [of s])
       (simp_all add: routing_def expect_content_def cq_request_def method_name_def cq_handlers_def split_beta
          Let_def http_response_new_def uses_refl)
next
  case POST
  let ?h = "add_addresses E (cq_headers q)"
  have n: "length (cq_body q) \<le> vdb_payload_max" using assms(1) POST by (simp add: client_request_ok_def)
  then have m: "length (cq_body q) \<le> string_max_size" by (simp add: vdb_payload_max_def string_max_size_def)
  have ce: "get_header_value ?h ''Content-Encoding'' [] = []" by (rule plain_values(1) [OF assms(1)]) simp
  have te: "get_header_value ?h ''Transfer-Encoding'' [] = []" by (rule plain_values(1) [OF assms(1)]) simp
  from read_content_length [OF ce te content_length_header [OF assms(1) POST] n m assms(3), of "- 1"] obtain s' where
    s': "read_content receive_body vdb_payload_max (- 1) ?h [] s = (True, - 1, ?h, cq_body q, s')" "to_come s' = r"
      "sent s' = sent s" "uses s s'" by auto
  have ct: "take 33 (get_header_value ?h ''Content-Type'' []) \<noteq> ''application/x-www-form-urlencoded''"
    "take 19 (get_header_value ?h ''Content-Type'' []) \<noteq> ''multipart/form-data''"
    using assms(1) by (auto simp: client_request_ok_def get_header_value_addresses)
  have "server_read_content vdb_payload_max ((cq_request E q)\<lparr>rq_body := []\<rparr>) (- 1) s = (True, cq_request E q, - 1, s')"
    using s'(1) ct POST
    by (simp add: server_read_content_def read_content_core_def is_multipart_form_data_def cq_request_def method_name_def)
  with POST s' show ?thesis
    by (intro that [of s'])
       (simp_all add: routing_def expect_content_def cq_request_def method_name_def cq_handlers_def split_beta
          Let_def http_response_new_def assms(2))
qed

lemma process_plain:
  assumes "client_request_ok q" "he_socket E < FD_SETSIZE" "he_payload_max E = vdb_payload_max"
    and "to_come s = cq_text q @ r"
  obtains s' where "process_request E cl s st =
      andthen (finish_request E cl
        (let (res, rs, st') = dispatch_request (cq_handlers E q) (cq_request E q) http_response_new st
         in (res, cq_request E q, rs, s', st')))
      (\<lambda>(ret, s4, st'). Inr (ret, wants_close q, s4, st'))"
    "to_come s' = r" "sent s' = sent s" "uses s s'"
proof -
  let ?h = "cq_headers q"
  have lf: "CHR 0x0A \<notin> set (cq_line q)"
    using cq_target_token [OF assms(1)] method_token [of "cq_method q"] version_token
    by (auto simp: cq_line_def token_def)
  have "to_come s = cq_line q @ CHR 0x0D # CHR 0x0A # (write_headers ?h @ cq_body q @ r)"
    using assms(4) by (simp add: cq_text_def crlf_def)
  from getline_crlf [OF this lf] obtain s1 where s1: "sock_getline s = (Some (cq_line q @ crlf), s1)"
    "to_come s1 = write_headers ?h @ cq_body q @ r" "sent s1 = sent s" "uses s s1" by (auto simp: crlf_def)
  have ok: "\<forall>e \<in> set ?h. header_ok e" "sorted_wrt (\<lambda>a b. \<not> ci_less (fst b) (fst a)) ([] @ ?h)"
    using assms(1) by (auto simp: client_request_ok_def headers_ok_def)
  from read_headers_written [OF ok s1(2)] obtain s2 where s2: "read_headers [] s1 = (True, ?h, s2)"
    "to_come s2 = cq_body q @ r" "sent s2 = sent s1" "uses s1 s2" by auto
  from routing_plain [OF assms(1,3) s2(2), of st] obtain s3 where
    s3: "routing E ((cq_request E q)\<lparr>rq_body := []\<rparr>) http_response_new s2 st =
      (let (res, rs, st') = dispatch_request (cq_handlers E q) (cq_request E q) http_response_new st
       in (res, cq_request E q, rs, s3, st'))"
    "to_come s3 = r" "sent s3 = sent s2" "uses s2 s3" by auto
  have len: "\<not> length (cq_line q @ crlf) > REQUEST_URI_MAX_LENGTH"
    using assms(1) by (simp add: client_request_ok_def crlf_def)
  have rng: "\<not> has_header (add_addresses E ?h) ''Range''" by (rule plain_values(2) [OF assms(1)]) simp
  have exp: "get_header_value (add_addresses E ?h) ''Expect'' [] \<noteq> ''100-continue''"
    using plain_values(1) [OF assms(1), of "''Expect''" E] by simp
  have rq: "http_request_new\<lparr>rq_method := method_name (cq_method q), rq_target := cq_target q, rq_version := ''HTTP/1.1'',
      rq_path := cq_path q, rq_params := cq_params q, rq_headers := add_addresses E ?h, rq_ranges := []\<rparr> =
    (cq_request E q)\<lparr>rq_body := []\<rparr>"
    by (simp add: http_request_new_def cq_request_def)
  have h0: "rq_headers (http_request_new\<lparr>rq_method := m, rq_target := t, rq_version := v, rq_path := p, rq_params := ps\<rparr>) = []"
    for m t v p ps by (simp add: http_request_new_def)
  have "process_request E cl s st =
      andthen (finish_request E cl (routing E ((cq_request E q)\<lparr>rq_body := []\<rparr>) http_response_new s2 st))
        (\<lambda>(ret, s4, st'). Inr (ret, wants_close q, s4, st'))"
    using assms(2) len rng exp rq s1(1) s2(1) parse_cq_line [OF assms(1)]
    by (simp add: process_request_def Let_def h0 wants_close_def)
  with s1 s2 s3 show ?thesis by (intro that [of s3]) (auto intro: uses_trans)
qed

section \<open>The answer\<close>

text \<open>The bytes of an answer; \<open>extra\<close> is the header an exception adds.\<close>

definition answer_bytes :: "bool \<Rightarrow> headers \<Rightarrow> response \<Rightarrow> string" where
  "answer_bytes closing extra res =
     ''HTTP/1.1 '' @ to_string_int (status res) @ '' '' @ status_message (status res) @ crlf @
     write_headers
       ((if closing then [(''Connection'', ''close'')] else []) @
        [(''Content-Length'', to_string (length (res_body res)))] @
        (if content_type res \<noteq> [] then [(''Content-Type'', content_type res)] else []) @ extra @
        (if closing then [] else [(''Keep-Alive'', ''timeout=5, max=5'')])) @ res_body res"

lemma to_string_no_crlf: "\<not> has_crlf (to_string n)"
  by (simp add: has_crlf_def is_digit_def)

lemma no_crlf_constants:
  "\<not> has_crlf ''Connection''" "\<not> has_crlf ''close''" "\<not> has_crlf ''Keep-Alive''" "\<not> has_crlf ''Content-Length''"
  "\<not> has_crlf ''Content-Type''" "\<not> has_crlf ''0''" "\<not> has_crlf ''EXCEPTION_WHAT''" "\<not> has_crlf ''timeout=5, max=5''"
  "\<not> has_crlf RESPONSE_CONTENT_TYPE_JSON"
  by (simp_all add: has_crlf_def c_str_def RESPONSE_CONTENT_TYPE_JSON_def)

lemma keep_alive_text: "''timeout='' @ to_string KEEPALIVE_TIMEOUT_SECOND @ '', max='' @ to_string KEEPALIVE_MAX_COUNT = ''timeout=5, max=5''"
  by (simp add: KEEPALIVE_TIMEOUT_SECOND_def KEEPALIVE_MAX_COUNT_def to_string_digit digit_char_def)

text \<open>The order of the header names an answer has.\<close>

lemma ci_less_names:
  "ci_less ''Connection'' ''Content-Length''" "ci_less ''Connection'' ''Content-Type''"
  "ci_less ''Connection'' ''EXCEPTION_WHAT''" "ci_less ''Content-Length'' ''Content-Type''"
  "ci_less ''Content-Length'' ''Keep-Alive''" "ci_less ''Content-Length'' ''EXCEPTION_WHAT''"
  "\<not> ci_less ''Content-Length'' ''Connection''" "\<not> ci_less ''Keep-Alive'' ''Content-Length''"
  "\<not> ci_less ''Keep-Alive'' ''Content-Type''" "\<not> ci_less ''Keep-Alive'' ''EXCEPTION_WHAT''"
  "ci_less ''Content-Type'' ''Keep-Alive''" "\<not> ci_less ''Content-Type'' ''Content-Length''"
  by (simp_all add: ci_less_def tolower_def less_char_def)

lemma same_key_names:
  "same_key k k" "\<not> same_key ''Connection'' ''Content-Type''" "\<not> same_key ''Keep-Alive'' ''Content-Type''"
  "\<not> same_key ''Content-Length'' ''Content-Type''" "\<not> same_key ''Connection'' ''Content-Length''"
  "\<not> same_key ''Keep-Alive'' ''Content-Length''" "\<not> same_key ''Content-Type'' ''Content-Length''"
  "\<not> same_key ''EXCEPTION_WHAT'' ''Content-Length''" "\<not> same_key ''EXCEPTION_WHAT'' ''Content-Type''"
  by (simp_all add: same_key_def tolower_def)

lemma escape_crlf_plain: "\<not> has_crlf (escape_crlf m)"
proof -
  have "c \<noteq> CHR 0x0D \<and> c \<noteq> CHR 0x0A" if "c \<in> set (escape_crlf m)" for c
    using that by (auto simp: escape_crlf_def split: if_splits)
  moreover have "set (c_str (escape_crlf m)) \<subseteq> set (escape_crlf m)"
    by (auto simp: c_str_def dest: set_takeWhileD)
  ultimately show ?thesis by (auto simp: has_crlf_def)
qed

text \<open>The three kinds of answer, by the headers they have before the common ones are added.\<close>

lemma add_headers_plain:
  assumes "rq_method rq \<noteq> ''HEAD''"
  shows "add_headers cl rq \<lparr>rs_status = st, rs_headers = [], rs_body = []\<rparr> =
    \<lparr>rs_status = st, rs_headers =
       (let c = (cl \<or> get_header_value (rq_headers rq) ''Connection'' [] = ''close'') in
        (if c then [(''Connection'', ''close'')] else []) @ [(''Content-Length'', ''0'')] @
        (if c then [] else [(''Keep-Alive'', ''timeout=5, max=5'')])), rs_body = []\<rparr>"
  using assms unfolding add_headers_def keep_alive_text
  by (simp add: Let_def rs_set_header_def set_header_def emplace_header_def no_crlf_constants has_header_def
      header_range_same_key same_key_names ci_less_names)

lemma add_headers_exception:
  assumes "rq_method rq \<noteq> ''HEAD''"
  shows "add_headers cl rq (rs_set_header ''EXCEPTION_WHAT'' (escape_crlf m) \<lparr>rs_status = st, rs_headers = [], rs_body = []\<rparr>) =
    \<lparr>rs_status = st, rs_headers =
       (let c = (cl \<or> get_header_value (rq_headers rq) ''Connection'' [] = ''close'') in
        (if c then [(''Connection'', ''close'')] else []) @ [(''Content-Length'', ''0'')] @
        [(''EXCEPTION_WHAT'', escape_crlf m)] @
        (if c then [] else [(''Keep-Alive'', ''timeout=5, max=5'')])), rs_body = []\<rparr>"
  using assms unfolding add_headers_def keep_alive_text
  by (simp add: Let_def rs_set_header_def set_header_def emplace_header_def no_crlf_constants escape_crlf_plain has_header_def
      header_range_same_key same_key_names ci_less_names)

lemma add_headers_content:
  assumes "rq_method rq \<noteq> ''HEAD''" "rq_ranges rq = []"
  shows "add_headers cl rq (apply_ranges boundary rq
      (rs_set_content body RESPONSE_CONTENT_TYPE_JSON \<lparr>rs_status = st, rs_headers = [], rs_body = []\<rparr>)) =
    \<lparr>rs_status = st, rs_headers =
       (let c = (cl \<or> get_header_value (rq_headers rq) ''Connection'' [] = ''close'') in
        (if c then [(''Connection'', ''close'')] else []) @ [(''Content-Length'', to_string (length body))] @
        [(''Content-Type'', RESPONSE_CONTENT_TYPE_JSON)] @
        (if c then [] else [(''Keep-Alive'', ''timeout=5, max=5'')])), rs_body = body\<rparr>"
proof (cases "body = []")
  case True
  have z: "to_string 0 = ''0''" by (simp add: to_string_digit digit_char_def)
  show ?thesis
    using assms True unfolding add_headers_def keep_alive_text
    by (simp add: Let_def apply_ranges_def rs_set_content_def rs_set_header_def set_header_def emplace_header_def
        no_crlf_constants has_header_def header_range_same_key same_key_names ci_less_names z)
next
  case False
  let ?hs = "[(''Content-Length'', to_string (length body)), (''Content-Type'', RESPONSE_CONTENT_TYPE_JSON)]"
  have ar: "apply_ranges boundary rq
      (rs_set_content body RESPONSE_CONTENT_TYPE_JSON \<lparr>rs_status = st, rs_headers = [], rs_body = []\<rparr>) =
      \<lparr>rs_status = st, rs_headers = ?hs, rs_body = body\<rparr>"
    using assms(2) False
    by (simp add: apply_ranges_def rs_set_content_def rs_set_header_def set_header_def emplace_header_def
        no_crlf_constants ci_less_names to_string_no_crlf)
  have h: "has_header (e # ?hs) ''Content-Type''" "has_header (e # ?hs) ''Content-Length''"
    "has_header (?hs @ [e]) ''Content-Type''" "has_header (?hs @ [e]) ''Content-Length''" for e
    by (simp_all add: has_header_def header_range_same_key same_key_names)
  have c: "set_header ''Connection'' ''close'' ?hs = (''Connection'', ''close'') # ?hs"
    "set_header ''Keep-Alive'' ''timeout=5, max=5'' ?hs = ?hs @ [(''Keep-Alive'', ''timeout=5, max=5'')]"
    by (simp_all add: set_header_def emplace_header_def no_crlf_constants ci_less_names)
  show ?thesis
    unfolding ar add_headers_def keep_alive_text rs_set_header_def
    using assms(1) h c by (simp add: Let_def)
qed

lemma write_core_sent:
  assumes "peer_writable s" "rq_method rq \<noteq> ''HEAD''"
    and rs': "add_headers cl rq (if need then apply_ranges boundary rq rs else rs) = rs'"
  obtains s' where "write_response_core boundary cl rq rs need s = (True, s')" "to_come s' = to_come s"
    "uses s s'" "sent s' = sent s @ response_head rs' @ rs_body rs'"
proof -
  let ?s1 = "s\<lparr>sent := sent s @ response_head rs'\<rparr>"
  have w: "sock_write d t = (True, t\<lparr>sent := sent t @ d\<rparr>)" if "peer_writable t" for d t
    using that by (simp add: sock_write_def)
  have u: "uses s ?s1" using write_uses [OF w [OF assms(1)]] .
  have e: "write_response_core boundary cl rq rs need s =
      (if rs_body rs' \<noteq> [] then sock_write (rs_body rs') ?s1 else (True, ?s1))"
    using assms(2) by (simp only: write_response_core_def Let_def rs' w [OF assms(1)] split_beta snd_conv simp_thms)
  show ?thesis
  proof (cases "rs_body rs' = []")
    case True
    with e u show ?thesis by (intro that [of ?s1]) (simp_all add: to_come_def)
  next
    case False
    let ?s2 = "?s1\<lparr>sent := sent ?s1 @ rs_body rs'\<rparr>"
    have w2: "sock_write (rs_body rs') ?s1 = (True, ?s2)" using w [of ?s1] assms(1) by simp
    show ?thesis
    proof (rule that)
      show "write_response_core boundary cl rq rs need s = (True, ?s2)" using e False w2 by simp
      show "uses s ?s2" using uses_trans [OF write_uses [OF w2] u] .
    qed (simp_all add: to_come_def)
  qed
qed

section \<open>What the handlers answer with\<close>

definition json_answer :: "(response \<times> 's) res \<Rightarrow> bool" where
  "json_answer r \<longleftrightarrow> (\<forall>res s. r = Inr (res, s) \<longrightarrow> content_type res = RESPONSE_CONTENT_TYPE_JSON)"

lemma json_answer_simps:
  "json_answer (Inl e)" "json_answer (Inr (bad_request J m res, s))" "json_answer (Inr (ok_response J ms res, s))"
  by (simp_all add: json_answer_def bad_request_def ok_response_def setErrorJsonResponse_def setJsonResponse_def)

lemma json_answer_andthen: "(\<And>x. json_answer (f x)) \<Longrightarrow> json_answer (andthen m f)"
  by (cases m) (auto simp: json_answer_simps)

lemma json_answers:
  "json_answer (searchHandler L req res srv)" "json_answer (insertHandler L req res srv)"
  "json_answer (upsertHandler N G L req res srv')" "json_answer (addFollowerHandler G L req res srv'')"
  unfolding searchHandler_def insertHandler_def upsertHandler_def addFollowerHandler_def Let_def
  by (auto intro!: json_answer_andthen simp: json_answer_simps split: prod.split IndexType.split)

lemma call_handler_json:
  "call_handler N G L h req res srv = (Inr res', srv') \<Longrightarrow> content_type res' = RESPONSE_CONTENT_TYPE_JSON"
  using json_answers(1) [of L req res srv, unfolded json_answer_def]
    json_answers(2) [of L req res srv, unfolded json_answer_def]
    json_answers(3) [of N G L req res srv, unfolded json_answer_def]
    json_answers(4) [of G L req res srv, unfolded json_answer_def]
  by (cases h)
     (auto simp: call_handler_def queryHandler_def snapshotHandler_def setLeaderHandler_def listNodeHandler_def
        getNodeHandler_def getScalarHandler_def ok_response_def bad_request_def setErrorJsonResponse_def setJsonResponse_def
        Let_def res_simps split: sum.splits prod.splits if_splits option.splits)

section \<open>One request\<close>

definition cq_serve ::
  "('u, 'e) nuraft \<Rightarrow> ('u, 'r, 'x) raft_server \<Rightarrow> ('b, 'd, 'f, 'h) libs \<Rightarrow> client_request
   \<Rightarrow> ('b, 'd, 'f, 'h, 'e, 'c, 't, 'r) HttpServer
   \<Rightarrow> (response \<times> ('b, 'd, 'f, 'h, 'e, 'c, 't, 'r) HttpServer) res" where
  "cq_serve N G L q srv =
     serve N G L (cq_method q) (cq_path q) \<lparr>req_body = cq_body q, req_params = cq_params q\<rparr> srv"

lemma method_not_head: "method_name m \<noteq> ''HEAD''"
  by (cases m) (simp_all add: method_name_def)

lemma cq_handlers_env: "cq_handlers (vdb_env N G L host) q = handlers_for (cq_method q) N G L"
  by (cases "cq_method q") (simp_all add: cq_handlers_def vdb_env_def)

lemma finish_plain:
  assumes "peer_writable s" "rq = cq_request E0 q" "outcome =
      (let (r, rs, st') = dispatch_request (handlers_for (cq_method q) N G L) rq http_response_new srv
       in (r, rq, rs, s, st'))"
  shows "(\<forall>a. cq_serve N G L q srv = Inl (Abort a) \<longrightarrow> finish_request (vdb_env N G L host) cl outcome = Inl (Abort a)) \<and>
    (\<forall>res srv'. cq_serve N G L q srv = Inr (res, srv') \<longrightarrow>
      (\<exists>s' extra. finish_request (vdb_env N G L host) cl outcome = Inr (True, s', srv') \<and> to_come s' = to_come s \<and>
        uses s s' \<and> sent s' = sent s @ answer_bytes (cl \<or> wants_close q) extra res \<and>
        (status res \<noteq> 500 \<longrightarrow> extra = [])))"
proof -
  let ?E = "vdb_env N G L host"
  have m: "rq_method rq \<noteq> ''HEAD''" by (simp add: assms(2) cq_request_def method_not_head)
  have rq: "rq_path rq = cq_path q" "rq_body rq = cq_body q" "rq_params rq = cq_params q" "rq_ranges rq = []"
    "get_header_value (rq_headers rq) ''Connection'' [] = ''close'' \<longleftrightarrow> wants_close q"
    by (simp_all add: assms(2) cq_request_def wants_close_def get_header_value_addresses)
  have new: "http_response_new = \<lparr>rs_status = -1, rs_headers = [], rs_body = []\<rparr>" by (simp add: http_response_new_def)
  have nr: "\<lparr>status = -1, res_body = [], content_type = []\<rparr> = response_new" by (simp add: response_new_def)
  have head: "response_head \<lparr>rs_status = st, rs_headers = h, rs_body = b\<rparr> =
      ''HTTP/1.1 '' @ to_string_int st @ '' '' @ status_message st @ crlf @ write_headers h" for st h b
    by (simp add: response_head_def)
  show ?thesis
  proof (cases "map_of routes (cq_method q, cq_path q)")
    case None
    then have o: "outcome = (Inr False, rq, http_response_new, s, srv)"
      by (simp add: assms(3) dispatch_request_def rq map_of_handlers_for)
    have sv: "cq_serve N G L q srv = Inr (\<lparr>status = 404, res_body = [], content_type = []\<rparr>, srv)"
      using None by (simp add: cq_serve_def serve_def finish_status_def response_new_def)
    have n: "add_headers cl rq (if False then apply_ranges (he_boundary host) rq (http_response_new\<lparr>rs_status := 404\<rparr>)
        else http_response_new\<lparr>rs_status := 404\<rparr>) = add_headers cl rq \<lparr>rs_status = 404, rs_headers = [], rs_body = []\<rparr>"
      by (simp add: new)
    from write_core_sent [OF assms(1) m n] add_headers_plain [OF m, of cl 404]
    obtain s' where w: "write_response (he_boundary host) cl rq (http_response_new\<lparr>rs_status := 404\<rparr>) s = (True, s')"
      "to_come s' = to_come s" "uses s s'"
      "sent s' = sent s @ answer_bytes (cl \<or> wants_close q) [] \<lparr>status = 404, res_body = [], content_type = []\<rparr>"
      by (auto simp: write_response_def new head rq answer_bytes_def Let_def to_string_digit digit_char_def)
    have "finish_request ?E cl outcome = Inr (True, s', srv)"
      using w(1) by (simp add: o finish_request_def vdb_env_def new)
    with sv w show ?thesis by auto
  next
    case (Some hd)
    obtain r srv' where c: "call_handler N G L hd \<lparr>req_body = cq_body q, req_params = cq_params q\<rparr> response_new srv = (r, srv')"
      by fastforce
    have d: "dispatch_request (handlers_for (cq_method q) N G L) rq http_response_new srv =
        (case r of Inr res \<Rightarrow> (Inr True, rs_set_content (res_body res) (content_type res)
            (http_response_new\<lparr>rs_status := status res\<rparr>), srv')
          | Inl e \<Rightarrow> (Inl e, http_response_new, srv'))"
      using Some c by (cases r) (simp_all add: dispatch_request_def rq map_of_handlers_for http_handler_of_def new nr)
    show ?thesis
    proof (cases r)
      case (Inr res)
      then have ty: "content_type res = RESPONSE_CONTENT_TYPE_JSON" using call_handler_json c by blast
      let ?st = "if status res = -1 then 200 else status res"
      let ?rs = "rs_set_content (res_body res) RESPONSE_CONTENT_TYPE_JSON \<lparr>rs_status = ?st, rs_headers = [], rs_body = []\<rparr>"
      have n: "add_headers cl rq (if True then apply_ranges (he_boundary host) rq ?rs else ?rs) =
          add_headers cl rq (apply_ranges (he_boundary host) rq ?rs)" by simp
      have sv: "cq_serve N G L q srv = Inr (res\<lparr>status := ?st\<rparr>, srv')"
        using Some c Inr by (simp add: cq_serve_def serve_def run_handler_call finish_status_def)
      have o: "outcome = (Inr True, rq, rs_set_content (res_body res) (content_type res)
          (http_response_new\<lparr>rs_status := status res\<rparr>), s, srv')" using Inr d by (simp add: assms(3))
      from write_core_sent [OF assms(1) m n] add_headers_content [OF m rq(4), of cl "he_boundary host" "res_body res" ?st]
      obtain s' where w: "write_response_with_content (he_boundary host) cl rq ?rs s = (True, s')"
        "to_come s' = to_come s" "uses s s'"
        "sent s' = sent s @ answer_bytes (cl \<or> wants_close q) [] (res\<lparr>status := ?st\<rparr>)"
        using ty by (auto simp: write_response_with_content_def head rq answer_bytes_def Let_def RESPONSE_CONTENT_TYPE_JSON_def)
      have "finish_request ?E cl outcome = Inr (True, s', srv')"
        using w(1) ty by (simp add: o finish_request_def vdb_env_def new rq rs_set_content_def split: if_splits)
      with sv w show ?thesis by auto
    next
      case (Inl e)
      then have o: "outcome = (Inl e, rq, http_response_new, s, srv')" using d by (simp add: assms(3))
      show ?thesis
      proof (cases e)
        case (Abort a)
        with o Some c Inl show ?thesis
          by (simp add: finish_request_def cq_serve_def serve_def run_handler_call)
      next
        case (Throw x)
        let ?rs = "rs_set_header ''EXCEPTION_WHAT'' (escape_crlf (what x)) \<lparr>rs_status = 500, rs_headers = [], rs_body = []\<rparr>"
        have n: "add_headers cl rq (if False then apply_ranges (he_boundary host) rq ?rs else ?rs) = add_headers cl rq ?rs"
          by simp
        have sv: "cq_serve N G L q srv = Inr (\<lparr>status = 500, res_body = [], content_type = []\<rparr>, srv')"
          using Some c Inl Throw by (simp add: cq_serve_def serve_def run_handler_call finish_status_def response_new_def)
        from write_core_sent [OF assms(1) m n] add_headers_exception [OF m, of cl "what x" 500]
        obtain s' where w: "write_response (he_boundary host) cl rq ?rs s = (True, s')" "to_come s' = to_come s" "uses s s'"
          "sent s' = sent s @ answer_bytes (cl \<or> wants_close q) [(''EXCEPTION_WHAT'', escape_crlf (what x))]
             \<lparr>status = 500, res_body = [], content_type = []\<rparr>"
          by (auto simp: write_response_def head rq answer_bytes_def Let_def to_string_digit digit_char_def)
        have "finish_request ?E cl outcome = Inr (True, s', srv')"
          using w(1) by (simp add: o Throw finish_request_def vdb_env_def new)
        with sv w show ?thesis by auto
      qed
    qed
  qed
qed

lemma request_served:
  fixes srv :: "('b, 'd, 'f, 'h, 'e, 'c, 't, 'r) HttpServer"
  assumes "client_request_ok q" "he_socket host < FD_SETSIZE" "peer_writable s" "to_come s = cq_text q @ r"
  shows "(\<forall>a. cq_serve N G L q srv = Inl (Abort a) \<longrightarrow> process_request (vdb_env N G L host) cl s srv = Inl (Abort a)) \<and>
    (\<forall>res srv'. cq_serve N G L q srv = Inr (res, srv') \<longrightarrow>
      (\<exists>s' extra. process_request (vdb_env N G L host) cl s srv = Inr (True, wants_close q, s', srv') \<and>
        to_come s' = r \<and> uses s s' \<and> sent s' = sent s @ answer_bytes (cl \<or> wants_close q) extra res \<and>
        (status res \<noteq> 500 \<longrightarrow> extra = [])))"
proof -
  let ?E = "vdb_env N G L host"
  define E :: "('b, 'd, 'f, 'h, 'e, 'c, 't, 'r) HttpServer http_env" where "E = ?E"
  have e: "he_socket E < FD_SETSIZE" "he_payload_max E = vdb_payload_max" using assms(2) by (simp_all add: E_def vdb_env_def)
  obtain s1 where s1:
    "process_request E cl s srv =
      andthen (finish_request E cl
        (let (res, rs, st') = dispatch_request (cq_handlers E q) (cq_request E q) http_response_new srv
         in (res, cq_request E q, rs, s1, st')))
      (\<lambda>(ret, s4, st'). Inr (ret, wants_close q, s4, st'))"
    "to_come s1 = r" "sent s1 = sent s" "uses s s1"
    by (rule process_plain [OF assms(1) e assms(4), of cl srv])
  have w: "peer_writable s1" using uses_suffix [OF s1(4)] assms(3) by simp
  note f = finish_plain [OF w refl refl, of N G L q srv host cl E, folded E_def]
  have cq_handlers_E: "cq_handlers E q = handlers_for (cq_method q) N G L" unfolding E_def by (rule cq_handlers_env)
  have ab: "process_request E cl s srv = Inl (Abort a)" if "cq_serve N G L q srv = Inl (Abort a)" for a
    using f that by (simp add: s1(1) cq_handlers_E)
  have an: "\<exists>s' extra. process_request E cl s srv = Inr (True, wants_close q, s', srv') \<and>
        to_come s' = r \<and> uses s s' \<and> sent s' = sent s @ answer_bytes (cl \<or> wants_close q) extra res \<and>
        (status res \<noteq> 500 \<longrightarrow> extra = [])" if sv: "cq_serve N G L q srv = Inr (res, srv')" for res srv'
  proof -
    from f sv obtain s' extra where s': "finish_request E cl
        (let (res, rs, st') = dispatch_request (handlers_for (cq_method q) N G L) (cq_request E q) http_response_new srv
         in (res, cq_request E q, rs, s1, st')) = Inr (True, s', srv')" "to_come s' = to_come s1" "uses s1 s'"
      "sent s' = sent s1 @ answer_bytes (cl \<or> wants_close q) extra res" "status res \<noteq> 500 \<longrightarrow> extra = []" by blast
    have "process_request E cl s srv = Inr (True, wants_close q, s', srv')"
      unfolding s1(1) cq_handlers_E s'(1) by simp
    moreover have "uses s s'" using uses_trans [OF s'(3) s1(4)] .
    ultimately show ?thesis using s' s1 by auto
  qed
  from ab an show ?thesis unfolding E_def by blast
qed

text \<open>
  C5. From bytes to bytes: a well-formed request for any path is answered with the response of
  \<open>serve\<close>, written out with its status line, length, content type and connection header, the
  server is left in the state of \<open>serve\<close>, and the request is read exactly to its end, in whatever
  pieces it arrives.
\<close>

theorem request_bytes_are_served:
  assumes "client_request_ok q" "he_socket host < FD_SETSIZE" "peer_writable s"
    and "read_buff s @ concat (segments s) = cq_text q @ r"
    and "serve N G L (cq_method q) (cq_path q) \<lparr>req_body = cq_body q, req_params = cq_params q\<rparr> srv = Inr (res, srv')"
  shows "\<exists>s' extra. process_request (vdb_env N G L host) cl s srv = Inr (True, wants_close q, s', srv') \<and>
    read_buff s' @ concat (segments s') = r \<and> sent s' = sent s @ answer_bytes (cl \<or> wants_close q) extra res \<and>
    (status res \<noteq> 500 \<longrightarrow> extra = [])"
proof -
  have "to_come s = cq_text q @ r" using assms(4) by (simp add: to_come_def)
  moreover have "cq_serve N G L q srv = Inr (res, srv')" using assms(5) by (simp only: cq_serve_def)
  ultimately obtain s' extra where "process_request (vdb_env N G L host) cl s srv = Inr (True, wants_close q, s', srv')"
    "to_come s' = r" "sent s' = sent s @ answer_bytes (cl \<or> wants_close q) extra res" "status res \<noteq> 500 \<longrightarrow> extra = []"
    using request_served [OF assms(1-3), THEN conjunct2, rule_format] by metis
  then show ?thesis unfolding to_come_def by (intro exI conjI)
qed

definition sample_request :: client_request where
  "sample_request = \<lparr>cq_method = POST, cq_path = ''/query'', cq_params = [],
     cq_headers = [(''Content-Length'', ''2''), (''Host'', ''vdb'')], cq_body = ''{Q''\<rparr>"

definition sample_connection :: "unit http_env" where
  "sample_connection = \<lparr>he_socket = 7, he_remote_addr = ''10.0.0.1'', he_remote_port = 40000, he_local_addr = ''10.0.0.2'',
     he_local_port = 8080, he_boundary = ''B'', he_payload_max = 0, he_get = [], he_post = []\<rparr>"

lemma sample_request_ok: "client_request_ok sample_request"
proof -
  let ?h = "[(''Content-Length'', ''2''), (''Host'', ''vdb'')]"
  have n: "to_string 2 = ''2''" by (simp add: to_string_digit digit_char_def)
  have hr: "header_range ?h ''Content-Length'' = [(''Content-Length'', ''2'')]" "header_range ?h ''Range'' = []"
    "header_range ?h ''Expect'' = []" "header_range ?h ''Content-Encoding'' = []"
    "header_range ?h ''Transfer-Encoding'' = []" "header_range ?h ''Content-Type'' = []"
    by (simp_all add: header_range_same_key same_key_def tolower_def)
  have ok: "headers_ok ?h"
    by (simp add: headers_ok_def header_ok_def HEADER_MAX_LENGTH_def is_space_or_tab_def ci_less_def tolower_def less_char_def)
  have t: "cq_target sample_request = ''/query''" by (simp add: sample_request_def cq_target_def)
  have l: "length (cq_line sample_request) + 2 \<le> REQUEST_URI_MAX_LENGTH"
    unfolding cq_line_def t by (simp add: method_name_def sample_request_def REQUEST_URI_MAX_LENGTH_def)
  have v: "get_header_value ?h ''Content-Type'' [] = []" by (simp add: get_header_value_def hr)
  have f: "cq_method sample_request = POST" "cq_path sample_request = ''/query''" "cq_params sample_request = []"
    "cq_headers sample_request = ?h" "cq_body sample_request = ''{Q''" by (simp_all add: sample_request_def)
  have p: "token ''/query''" "set ''/query'' \<inter> set ''?#%'' = {}" by (simp_all add: token_def)
  have b: "length ''{Q'' \<le> vdb_payload_max" "to_string (length ''{Q'') = ''2''"
    using n by (simp_all add: vdb_payload_max_def numeral_2_eq_2)
  show ?thesis
    unfolding client_request_ok_def f http_method.case using ok l v p b hr by simp
qed

definition sample_answer :: response where
  "sample_answer = finish_status True (ok_response table_json [(''id'', JInt 1), (''vectors'', JArray [JInt 1]),
     (''indexType'', JString ''FLAT''), (''a'', JInt 2)] response_new)"

lemma sample_serve:
  "serve string_raft list_raft_server sample_libs (cq_method sample_request) (cq_path sample_request)
     \<lparr>req_body = cq_body sample_request, req_params = cq_params sample_request\<rparr> (sample_server True) =
   Inr (sample_answer, sample_server True)"
proof -
  have "queryHandler sample_libs \<lparr>req_body = cq_body sample_request, req_params = cq_params sample_request\<rparr> response_new
      (sample_server True) = Inr (ok_response table_json [(''id'', JInt 1), (''vectors'', JArray [JInt 1]),
        (''indexType'', JString ''FLAT''), (''a'', JInt 2)] response_new)"
    using query_answers_document_witness by (simp add: sample_request_def)
  then show ?thesis
    by (simp add: serve_def routes_def run_handler_def guarded_def sample_request_def sample_answer_def)
qed

lemma sample_request_open: "\<not> wants_close sample_request"
  by (simp add: wants_close_def get_header_value_def header_range_same_key same_key_def tolower_def sample_request_def)

theorem request_bytes_are_served_witness:
  "\<exists>s' extra. process_request (vdb_env string_raft list_raft_server sample_libs sample_connection) False
      \<lparr>read_buff = [], segments = [take 10 (cq_text sample_request), drop 10 (cq_text sample_request) @ ''POST''],
       peer = Peer_silent, peer_writable = True, sent = []\<rparr> (sample_server True) =
      Inr (True, False, s', sample_server True) \<and>
    read_buff s' @ concat (segments s') = ''POST'' \<and> sent s' = answer_bytes False extra sample_answer"
proof -
  let ?s = "\<lparr>read_buff = [], segments = [take 10 (cq_text sample_request), drop 10 (cq_text sample_request) @ ''POST''],
       peer = Peer_silent, peer_writable = True, sent = []\<rparr>"
  have c: "read_buff ?s @ concat (segments ?s) = cq_text sample_request @ ''POST''" by simp
  have h: "he_socket sample_connection < FD_SETSIZE" "peer_writable ?s" by (simp_all add: sample_connection_def FD_SETSIZE_def)
  show ?thesis
    using request_bytes_are_served [OF sample_request_ok h c sample_serve, of False] sample_request_open by auto
qed

section \<open>A connection\<close>

text \<open>
  What a connection is to do: serve the requests in order, up to \<open>count\<close> of them, ending after
  one that asks for it. An answer is listed with whether it announces the end of the connection.
\<close>

fun serve_connection ::
  "('u, 'e) nuraft \<Rightarrow> ('u, 'r, 'x) raft_server \<Rightarrow> ('b, 'd, 'f, 'h) libs \<Rightarrow> nat \<Rightarrow> client_request list
   \<Rightarrow> ('b, 'd, 'f, 'h, 'e, 'c, 't, 'r) HttpServer
   \<Rightarrow> ((bool \<times> response) list \<times> ('b, 'd, 'f, 'h, 'e, 'c, 't, 'r) HttpServer) res" where
  "serve_connection N G L count [] srv = Inr ([], srv)"
| "serve_connection N G L 0 (q # qs) srv = Inr ([], srv)"
| "serve_connection N G L (Suc count) (q # qs) srv =
     andthen (cq_serve N G L q srv) (\<lambda>(res, srv').
       if wants_close q then Inr ([(True, res)], srv')
       else andthen (serve_connection N G L count qs srv') (\<lambda>(as, srv'').
         Inr ((count = 0, res) # as, srv'')))"

definition answers_bytes :: "(bool \<times> response) list \<Rightarrow> headers list \<Rightarrow> string" where
  "answers_bytes as extras = concat (map2 (\<lambda>(c, res) extra. answer_bytes c extra res) as extras)"

lemma cq_text_not_Nil: "cq_text q \<noteq> []"
  by (simp add: cq_text_def crlf_def)

lemma serve_not_Throw: "cq_serve N G L q srv \<noteq> Inl (Throw e)"
proof
  assume "cq_serve N G L q srv = Inl (Throw e)"
  then show False
    by (auto simp: cq_serve_def serve_def run_handler_call split: option.splits sum.splits failure.splits prod.splits)
qed

lemma serve_connection_not_Throw: "serve_connection N G L count qs srv \<noteq> Inl (Throw e)"
proof (induction N G L count qs srv rule: serve_connection.induct)
  case (3 N G L count q qs srv)
  show ?case
  proof (cases "cq_serve N G L q srv")
    case (Inl f)
    then show ?thesis using serve_not_Throw [of N G L q srv e] by simp
  next
    case (Inr p)
    with 3 show ?thesis by (cases p) (auto simp: andthen_def split: sum.splits)
  qed
qed auto

text \<open>One request of a connection: its segments are used up, the next ones untouched.\<close>

lemma connection_step:
  fixes srv :: "('b, 'd, 'f, 'h, 'e, 'c, 't, 'r) HttpServer"
  assumes "client_request_ok q" "he_socket host < FD_SETSIZE" "peer_writable s"
    and "segments s = g @ post" "concat g = cq_text q" "cq_serve N G L q srv = Inr (res, srv')"
  obtains s' extra where
    "process_request (vdb_env N G L host) cl (s\<lparr>read_buff := []\<rparr>) srv = Inr (True, wants_close q, s', srv')"
    "\<exists>blank. segments s' = blank @ post \<and> concat blank = []" "peer s' = peer s" "peer_writable s'"
    "sent s' = sent s @ answer_bytes (cl \<or> wants_close q) extra res"
proof -
  let ?s = "s\<lparr>read_buff := []\<rparr>"
  have p: "to_come ?s = cq_text q @ concat post" using assms(4,5) by (simp add: to_come_def)
  have w: "peer_writable ?s" using assms(3) by simp
  obtain s' extra where s': "process_request (vdb_env N G L host) cl ?s srv = Inr (True, wants_close q, s', srv')"
    "to_come s' = concat post" "uses ?s s'" "sent s' = sent ?s @ answer_bytes (cl \<or> wants_close q) extra res"
    using request_served [OF assms(1,2) w p, THEN conjunct2, rule_format, OF assms(6)] by metis
  have "before post ?s" using assms(4) by (auto simp: before_def)
  from uses_exactly(2) [OF s'(3) this s'(2)] have "\<exists>blank. segments s' = blank @ post \<and> concat blank = []" .
  moreover have "peer s' = peer s" "peer_writable s'" using uses_suffix [OF s'(3)] assms(3) by simp_all
  ultimately show ?thesis using s' by (intro that [of s' extra]) simp_all
qed

lemma connection_serves:
  fixes srv :: "('b, 'd, 'f, 'h, 'e, 'c, 't, 'r) HttpServer"
  assumes "list_all client_request_ok qs" "he_socket host < FD_SETSIZE" "peer_writable s" "peer s = Peer_silent"
    and "list_all2 (\<lambda>g q. concat g = cq_text q) gs qs"
    and "if gs = [] then concat (segments s) = [] else segments s = concat gs"
  shows "case serve_connection N G L count qs srv of
      Inl f \<Rightarrow> connection_loop (vdb_env N G L host) count ret s srv = Inl f
    | Inr (as, srv') \<Rightarrow> \<exists>ret' s' extras. connection_loop (vdb_env N G L host) count ret s srv = Inr (ret', s', srv') \<and>
        length extras = length as \<and> sent s' = sent s @ answers_bytes as extras"
  using assms
proof (induction qs arbitrary: gs s srv count ret)
  case Nil
  then have "\<not> keep_alive s" by (auto simp: keep_alive_def)
  then have "connection_loop (vdb_env N G L host) count ret s srv = Inr (ret, s, srv)" by (cases count) simp_all
  then show ?case by (auto simp: answers_bytes_def)
next
  case (Cons q qs)
  from Cons.prems(5) obtain g gs' where gs: "gs = g # gs'" "concat g = cq_text q" "list_all2 (\<lambda>g q. concat g = cq_text q) gs' qs"
    by (auto simp: list_all2_Cons2)
  have seg: "segments s = g @ concat gs'" using Cons.prems(6) gs(1) by simp
  have ka: "keep_alive s" using cq_text_not_Nil [of q] gs(2) by (simp add: keep_alive_def seg del: concat_eq_Nil_conv)
  have ok: "client_request_ok q" "list_all client_request_ok qs" using Cons.prems(1) by simp_all
  show ?case
  proof (cases count)
    case 0
    then show ?thesis by (auto simp: answers_bytes_def)
  next
    case (Suc n)
    show ?thesis
    proof (cases "cq_serve N G L q srv")
      case (Inl f)
      then obtain a where f: "f = Abort a" using serve_not_Throw [of N G L q srv] by (cases f) auto
      have p: "to_come (s\<lparr>read_buff := []\<rparr>) = cq_text q @ concat (concat gs')" using gs(2) seg by (simp add: to_come_def)
      have "peer_writable (s\<lparr>read_buff := []\<rparr>)" using Cons.prems(3) by simp
      from request_served [OF ok(1) Cons.prems(2) this p, THEN conjunct1, rule_format, OF Inl [unfolded f], of "n = 0"]
      show ?thesis using Suc Inl f ka by simp
    next
      case (Inr p)
      then obtain res srv1 where sv: "cq_serve N G L q srv = Inr (res, srv1)" by (cases p) simp
      obtain s1 extra where s1:
        "process_request (vdb_env N G L host) (n = 0) (s\<lparr>read_buff := []\<rparr>) srv = Inr (True, wants_close q, s1, srv1)"
        "\<exists>blank. segments s1 = blank @ concat gs' \<and> concat blank = []" "peer s1 = peer s" "peer_writable s1"
        "sent s1 = sent s @ answer_bytes (n = 0 \<or> wants_close q) extra res"
        by (rule connection_step [OF ok(1) Cons.prems(2,3) seg gs(2) sv])
      show ?thesis
      proof (cases "wants_close q")
        case True
        with Suc sv s1 ka show ?thesis
          by (auto simp: answers_bytes_def intro!: exI [of _ "[extra]"])
      next
        case False
        from s1(2) obtain blank where blank: "segments s1 = blank @ concat gs'" "concat blank = []" by blast
        define hs where "hs = (case gs' of [] \<Rightarrow> [] | g2 # r \<Rightarrow> (blank @ g2) # r)"
        have hs: "list_all2 (\<lambda>g q. concat g = cq_text q) hs qs"
          "if hs = [] then concat (segments s1) = [] else segments s1 = concat hs"
          using gs(3) blank by (cases gs'; auto simp: hs_def list_all2_Cons1)+
        have st: "connection_loop (vdb_env N G L host) count ret s srv = connection_loop (vdb_env N G L host) n True s1 srv1"
          using Suc s1(1) ka False by simp
        note IH = Cons.IH [OF ok(2) Cons.prems(2) s1(4) _ hs, of n True srv1]
        show ?thesis
        proof (cases "serve_connection N G L n qs srv1")
          case (Inl f)
          then show ?thesis using IH s1(3) Cons.prems(4) st Suc sv False by simp
        next
          case (Inr r)
          then obtain as srv2 where r: "serve_connection N G L n qs srv1 = Inr (as, srv2)" by (cases r) simp
          then obtain ret' s' extras where "connection_loop (vdb_env N G L host) n True s1 srv1 = Inr (ret', s', srv2)"
            "length extras = length as" "sent s' = sent s1 @ answers_bytes as extras"
            using IH s1(3) Cons.prems(4) by auto
          then show ?thesis
            using st Suc sv False r s1(5)
            by (auto simp: answers_bytes_def intro!: exI [of _ "extra # extras"])
        qed
      qed
    qed
  qed
qed

text \<open>
  C4. A connection serves its requests in the order they are sent, at most five of them, and up to
  the first that asks for the end of the connection, if none of them shares a segment with the
  next: the state is that of serving them one after the other, and the bytes sent are their
  answers; a handler that ends the process ends it here.
\<close>

theorem connection_serves_in_order:
  assumes "list_all client_request_ok qs" "he_socket host < FD_SETSIZE" "peer_writable s" "peer s = Peer_silent"
    and "list_all2 (\<lambda>g q. concat g = cq_text q) gs qs" "segments s = concat gs"
  shows "case serve_connection N G L 5 qs srv of
      Inl f \<Rightarrow> process_server_socket (vdb_env N G L host) s srv = Inl f
    | Inr (as, srv') \<Rightarrow> \<exists>ret s' extras. process_server_socket (vdb_env N G L host) s srv = Inr (ret, s', srv') \<and>
        length extras = length as \<and> sent s' = sent s @ answers_bytes as extras"
proof -
  have "if gs = [] then concat (segments s) = [] else segments s = concat gs" using assms(6) by simp
  from connection_serves [OF assms(1-5) this, where N = N and G = G and L = L and srv = srv and
      count = KEEPALIVE_MAX_COUNT and ret = False]
  show ?thesis unfolding process_server_socket_def KEEPALIVE_MAX_COUNT_def .
qed

theorem connection_serves_in_order_witness:
  "\<exists>ret s' extras. process_server_socket (vdb_env string_raft list_raft_server sample_libs sample_connection)
      \<lparr>read_buff = [], segments = [take 10 (cq_text sample_request), drop 10 (cq_text sample_request), cq_text sample_request],
       peer = Peer_silent, peer_writable = True, sent = []\<rparr> (sample_server True) = Inr (ret, s', sample_server True) \<and>
    length extras = 2 \<and> sent s' = answers_bytes [(False, sample_answer), (False, sample_answer)] extras"
proof -
  let ?s = "\<lparr>read_buff = [], segments = [take 10 (cq_text sample_request), drop 10 (cq_text sample_request), cq_text sample_request],
       peer = Peer_silent, peer_writable = True, sent = []\<rparr>"
  have cs: "cq_serve string_raft list_raft_server sample_libs sample_request (sample_server True) = Inr (sample_answer, sample_server True)"
    using sample_serve by (simp only: cq_serve_def)
  have five: "(5 :: nat) = Suc (Suc 3)" by simp
  have c: "serve_connection string_raft list_raft_server sample_libs 5 [sample_request, sample_request] (sample_server True) =
      Inr ([(False, sample_answer), (False, sample_answer)], sample_server True)"
    unfolding five serve_connection.simps cs andthen_Inr prod.case using sample_request_open by simp
  show ?thesis
    using connection_serves_in_order [of "[sample_request, sample_request]" sample_connection ?s
        "[[take 10 (cq_text sample_request), drop 10 (cq_text sample_request)], [cq_text sample_request]]"
        string_raft list_raft_server sample_libs "sample_server True"] sample_request_ok
    by (simp add: c sample_connection_def FD_SETSIZE_def numeral_2_eq_2)
qed

text \<open>What is left of a segment in the read buffer is gone with it.\<close>

definition one_segment :: "string \<Rightarrow> sock_stream \<Rightarrow> bool" where
  "one_segment t s \<longleftrightarrow> to_come s = t \<and> read_buff s = [] \<and> segments s = [t] \<or> concat (segments s) = []"

lemma read_keeps_one_segment:
  assumes "one_segment t s" "length t \<le> read_buff_size" "0 < n"
  shows "one_segment t (snd (sock_read n s))"
proof (cases n s rule: sock_read_cases)
  case buffered
  with assms(1) show ?thesis by (auto simp: one_segment_def)
next
  case ended
  then show ?thesis by (auto simp: one_segment_def)
next
  case (filled d xs)
  with assms show ?thesis by (auto simp: one_segment_def split: if_splits)
next
  case (direct d xs)
  with assms show ?thesis by (auto simp: one_segment_def split: if_splits)
qed

lemma uses_keeps_one_segment:
  "uses s s' \<Longrightarrow> one_segment t s \<Longrightarrow> length t \<le> read_buff_size \<Longrightarrow> one_segment t s'"
proof (induction rule: uses.induct)
  case (uses_read s s' n)
  then show ?case by (intro read_keeps_one_segment) simp_all
next
  case (uses_write s s' d)
  then show ?case by (simp add: one_segment_def sock_write_frame)
qed

text \<open>
  C37. A request that arrives in one piece with the request before it is lost: the read buffer
  belongs to the stream of one request, so only the first of the two is served and answered.
\<close>

theorem pipelined_request_is_lost:
  assumes "client_request_ok q" "he_socket host < FD_SETSIZE" "peer_writable s" "peer s = Peer_silent"
    and "segments s = [cq_text q @ r]" "length (cq_text q @ r) \<le> read_buff_size"
    and "serve N G L (cq_method q) (cq_path q) \<lparr>req_body = cq_body q, req_params = cq_params q\<rparr> srv = Inr (res, srv')"
  shows "\<exists>s' extra. process_server_socket (vdb_env N G L host) s srv = Inr (True, s', srv') \<and>
    sent s' = sent s @ answer_bytes (wants_close q) extra res"
proof -
  let ?s = "s\<lparr>read_buff := []\<rparr>" and ?t = "cq_text q @ r"
  have p: "to_come ?s = ?t" using assms(5) by (simp add: to_come_def)
  have w: "peer_writable ?s" using assms(3) by simp
  have sv: "cq_serve N G L q srv = Inr (res, srv')" using assms(7) by (simp only: cq_serve_def)
  obtain s' extra where s': "process_request (vdb_env N G L host) False ?s srv = Inr (True, wants_close q, s', srv')"
    "to_come s' = r" "uses ?s s'" "sent s' = sent ?s @ answer_bytes (False \<or> wants_close q) extra res"
    using request_served [OF assms(1,2) w p, THEN conjunct2, rule_format, OF sv, of False] by blast
  have "one_segment ?t ?s" using p assms(5) by (simp add: one_segment_def)
  from uses_keeps_one_segment [OF s'(3) this assms(6)] have "concat (segments s') = []"
    using s'(2) cq_text_not_Nil [of q] by (simp add: one_segment_def del: concat_eq_Nil_conv)
  moreover have "peer s' = Peer_silent" using uses_suffix [OF s'(3)] assms(4) by simp
  ultimately have "\<not> keep_alive s'" by (simp add: keep_alive_def)
  then have rest: "connection_loop (vdb_env N G L host) n True s' srv' = Inr (True, s', srv')" for n by (cases n) simp_all
  have ka: "keep_alive s" using cq_text_not_Nil [of q] by (simp add: keep_alive_def assms(5) del: concat_eq_Nil_conv)
  have four: "(4 :: nat) = 0 \<longleftrightarrow> False" by simp
  have "connection_loop (vdb_env N G L host) (Suc 4) False s srv = Inr (True, s', srv')"
    using ka rest [of 4]
    by (cases "wants_close q") (simp_all only: connection_loop.simps four s'(1) andthen_Inr prod.case simp_thms if_True if_False)
  then have "process_server_socket (vdb_env N G L host) s srv = Inr (True, s', srv')"
    by (simp add: process_server_socket_def KEEPALIVE_MAX_COUNT_def)
  then show ?thesis using s'(4) by (intro exI [of _ s'] exI [of _ extra]) simp
qed

theorem pipelined_request_is_lost_witness:
  "\<exists>s' extra. process_server_socket (vdb_env string_raft list_raft_server sample_libs sample_connection)
      \<lparr>read_buff = [], segments = [cq_text sample_request @ cq_text sample_request],
       peer = Peer_silent, peer_writable = True, sent = []\<rparr> (sample_server True) = Inr (True, s', sample_server True) \<and>
    sent s' = answer_bytes False extra sample_answer"
proof -
  let ?s = "\<lparr>read_buff = [], segments = [cq_text sample_request @ cq_text sample_request],
       peer = Peer_silent, peer_writable = True, sent = []\<rparr>"
  have "length (cq_text sample_request) < 100"
    by (simp add: cq_text_def cq_line_def cq_target_def sample_request_def method_name_def crlf_def write_headers_def
        header_line_def c_str_def)
  then have n: "length (cq_text sample_request @ cq_text sample_request) \<le> read_buff_size"
    by (simp add: read_buff_size_def)
  have h: "he_socket sample_connection < FD_SETSIZE" "peer_writable ?s" "peer ?s = Peer_silent"
    "segments ?s = [cq_text sample_request @ cq_text sample_request]" by (simp_all add: sample_connection_def FD_SETSIZE_def)
  show ?thesis
    using pipelined_request_is_lost [OF sample_request_ok h n sample_serve] sample_request_open by simp
qed

section \<open>Ranges and malformed requests\<close>

lemma selected_offset:
  assumes "range_ok r" "length body < 2 ^ 63"
    and "unat (fst (get_range_offset_and_length [r] (length body) 0)) < length body"
  shows "selected r (length body) (unat (fst (get_range_offset_and_length [r] (length body) 0)))"
proof -
  obtain f l where r: "r = (f, l)" by fastforce
  let ?n = "length body"
  have b: "- 1 \<le> f" "f < 2 ^ 63" "- 1 \<le> l" "l < 2 ^ 63" "f = - 1 \<or> l = - 1 \<or> f \<le> l" "int ?n < 2 ^ 63"
    using assms(1,2) by (auto simp: r range_ok_def)
  have u: "unat (word_of_int f :: u64) = nat f" if "0 \<le> f" using that b by (intro unat_word_of_int) auto
  have v: "unat (word_of_int (max 0 (int ?n - l)) :: u64) = nat (max 0 (int ?n - l))" if "0 \<le> l"
    using that b by (intro unat_word_of_int) auto
  have g: "fst (get_range_offset_and_length [r] ?n 0) =
      (if f = - 1 \<and> l = - 1 then 0 else if f = - 1 then word_of_int (max 0 (int ?n - l)) else word_of_int f)"
    by (simp add: get_range_offset_and_length_def r Let_def)
  consider (all) "f = - 1" "l = - 1" | (suffix) "f = - 1" "0 \<le> l" | (start) "0 \<le> f" using b by linarith
  then have "unat (fst (get_range_offset_and_length [r] ?n 0)) =
      (if f = - 1 \<and> l = - 1 then 0 else if f = - 1 then nat (max 0 (int ?n - l)) else nat f)"
  proof cases
    case all
    then show ?thesis by (simp add: g)
  next
    case suffix
    then have "\<not> (f = - 1 \<and> l = - 1)" by simp
    with suffix show ?thesis using v by (simp only: g if_False if_True simp_thms)
  next
    case start
    then have "f \<noteq> - 1" by simp
    with start show ?thesis using u by (simp only: g if_False simp_thms)
  qed
  then show ?thesis using b by (auto simp: selected_def r)
qed

text \<open>
  C38. A request for one byte range of a body is answered with exactly the bytes the range selects
  and the length of that, and with status 416 exactly when it selects none.
\<close>

theorem range_answer_is_selection:
  assumes "parse_range_header v = Some [r]" "rq_ranges rq = [r]" "rs_body rs \<noteq> []" "length (rs_body rs) < 2 ^ 63"
  shows "rs_body (apply_ranges boundary rq rs) = nths (rs_body rs) {i. selected r (length (rs_body rs)) i} \<and>
    rs_status (apply_ranges boundary rq rs) =
      (if nths (rs_body rs) {i. selected r (length (rs_body rs)) i} = [] then 416 else rs_status rs)"
proof -
  have ok: "range_ok r" using parse_range_header_ok [OF assms(1)] by simp
  let ?n = "length (rs_body rs)"
  let ?g = "get_range_offset_and_length [r] ?n 0"
  note s = single_range_offsets [OF ok assms(4)]
  have "nths (rs_body rs) {i. selected r ?n i} \<noteq> []" if lt: "unat (fst ?g) < ?n"
  proof -
    have "rs_body rs ! unat (fst ?g) \<in> set (nths (rs_body rs) {i. selected r ?n i})"
      using selected_offset [OF ok assms(4) lt] lt by (auto simp: set_nths)
    then show ?thesis by auto
  qed
  then show ?thesis
    using s assms(2,3) by (auto simp: apply_ranges_def rs_set_header_def Let_def split_beta)
qed

theorem range_answer_is_selection_witness:
  "rs_body (apply_ranges ''B'' (http_request_new\<lparr>rq_ranges := [(- 1, 2)]\<rparr>)
     \<lparr>rs_status = 206, rs_headers = [], rs_body = ''abcde''\<rparr>) = ''de''"
proof -
  have p: "parse_range_header ''bytes=-2'' = Some [(- 1, 2)]"
  proof -
    have "match_ranges ''-2''" by (simp add: match_ranges.simps is_digit_def)
    moreover have "split (CHR '','') ''-2'' = [''-2'']"
      by (simp add: split_fields codec_simps strip_no_blanks is_space_or_tab_def)
    moreover have "stoll ''2'' = Inr 2"
      using sto_signed_to_string_int [of 64 2 "''stoll''"] by (simp add: stoll_def to_string_int_def to_string_digit digit_char_def)
    ultimately show ?thesis
      by (simp add: parse_range_header_def range_field_def Let_def isspace_def is_digit_def)
  qed
  have n: "nths ''abcde'' {i. selected (- 1, 2) (length ''abcde'') i} = ''de''" by (simp add: nths_Cons selected_def)
  have "rs_body (apply_ranges ''B'' (http_request_new\<lparr>rq_ranges := [(- 1, 2)]\<rparr>)
     \<lparr>rs_status = 206, rs_headers = [], rs_body = ''abcde''\<rparr>) = nths ''abcde'' {i. selected (- 1, 2) (length ''abcde'') i}"
    using range_answer_is_selection [OF p, of "http_request_new\<lparr>rq_ranges := [(- 1, 2)]\<rparr>"
        "\<lparr>rs_status = 206, rs_headers = [], rs_body = ''abcde''\<rparr>" "''B''", THEN conjunct1] by simp
  then show ?thesis by (simp only: n)
qed

lemma write_head_only:
  assumes "peer_writable s"
  obtains s' where "write_response boundary cl rq \<lparr>rs_status = st, rs_headers = [], rs_body = []\<rparr> s = (True, s')"
    "to_come s' = to_come s" "sent s' = sent s @ response_head (add_headers cl rq \<lparr>rs_status = st, rs_headers = [], rs_body = []\<rparr>)"
proof -
  let ?rs = "\<lparr>rs_status = st, rs_headers = [], rs_body = []\<rparr>"
  have "rs_body (add_headers cl rq ?rs) = []"
    by (simp add: add_headers_def Let_def rs_set_header_def)
  then show ?thesis
    using assms by (intro that [of "s\<lparr>sent := sent s @ response_head (add_headers cl rq ?rs)\<rparr>"])
      (simp_all add: write_response_def write_response_core_def sock_write_def to_come_def)
qed

lemma read_headers_uses: "uses s (snd (snd (read_headers h s)))"
proof (induction h s rule: read_headers.induct)
  case (1 h s)
  obtain r s' where e: "sock_getline s = (r, s')" by fastforce
  have u: "uses s s'" using getline_uses [OF e] .
  show ?case
  proof (cases r)
    case None
    with e u show ?thesis by (simp add: read_headers.simps [of h s])
  next
    case (Some line)
    have a: "uses s (snd (snd (read_headers h' s')))" if "uses s' (snd (snd (read_headers h' s')))" for h'
      using uses_trans [OF that u] .
    have step: "read_headers h s =
        (if end_with_crlf line then
           (if length line = 2 then (True, h, s')
            else if length line > HEADER_MAX_LENGTH then (False, h, s')
            else read_headers (add_header_line (take (length line - 2) line) h) s')
         else read_headers h s')"
      by (subst read_headers.simps) (simp add: e Some)
    have "uses s (snd (snd (read_headers h s')))" if "\<not> end_with_crlf line"
      using a [OF 1(2) [OF e [symmetric] Some that]] .
    moreover have "uses s (snd (snd (read_headers (add_header_line (take (length line - 2) line) h) s')))"
      if "end_with_crlf line" "length line \<noteq> 2" "\<not> HEADER_MAX_LENGTH < length line"
      using a [OF 1(1) [OF e [symmetric] Some that]] .
    ultimately show ?thesis using u unfolding step by (simp split del: if_split split: if_splits)
  qed
qed

lemma read_headers_sent: "sent (snd (snd (read_headers h s))) = sent s"
proof (induction h s rule: read_headers.induct)
  case (1 h s)
  obtain r s' where e: "sock_getline s = (r, s')" by fastforce
  have f: "sent s' = sent s" using getline_sent [OF e] .
  show ?case
  proof (cases r)
    case None
    with e f show ?thesis by (simp add: read_headers.simps [of h s])
  next
    case (Some line)
    then show ?thesis
      using e f 1(1) [OF e [symmetric] Some] 1(2) [OF e [symmetric] Some]
      by (auto simp: read_headers.simps [of h s])
  qed
qed

lemma empty_answer_length:
  "(''Content-Length'', ''0'') \<in> set (rs_headers (add_headers cl rq \<lparr>rs_status = st, rs_headers = [], rs_body = []\<rparr>))"
proof -
  have grow: "e \<in> set (rs_headers (rs_set_header k v rs))" if "e \<in> set (rs_headers rs)" for e k v rs
    using that by (simp add: rs_set_header_def set_header_def emplace_header_def)
  have new: "(k, v) \<in> set (rs_headers (rs_set_header k v rs))" if "\<not> has_crlf k" "\<not> has_crlf v" for k v rs
    using that by (simp add: rs_set_header_def set_header_def emplace_header_def)
  have body: "rs_body (rs_set_header k v rs) = rs_body rs" for k v rs
    by (simp add: rs_set_header_def)
  have absent: "\<not> has_header (rs_headers (rs_set_header k v \<lparr>rs_status = st, rs_headers = [], rs_body = []\<rparr>)) ''Content-Length''"
    if "\<not> same_key k ''Content-Length''" for k v
    using that by (simp add: rs_set_header_def set_header_def emplace_header_def has_header_def header_range_same_key)
  show ?thesis
    unfolding add_headers_def Let_def
    by (simp only: body absent [OF same_key_names(5)] absent [OF same_key_names(6)] new [OF no_crlf_constants(4,6)]
        grow simp_thms if_True if_False http_response.select_convs split: if_split)
       (simp add: body absent [OF same_key_names(5)] absent [OF same_key_names(6)] new [OF no_crlf_constants(4,6)] grow)?
qed

lemma add_headers_status: "rs_status (add_headers cl rq rs) = rs_status rs"
  by (simp add: add_headers_def Let_def rs_set_header_def)

text \<open>
  C36. A request line that is too long or that does not parse is answered with status 414 or 400
  and an empty body; no handler is called and the state stays.
\<close>

theorem malformed_request_changes_nothing:
  assumes "he_socket E < FD_SETSIZE" "peer_writable s"
    and "read_buff s @ concat (segments s) = l @ [CHR 0x0D, CHR 0x0A] @ r" "CHR 0x0A \<notin> set l"
    and "length l + 2 > REQUEST_URI_MAX_LENGTH \<or> \<not> fst (parse_request_line (l @ [CHR 0x0D, CHR 0x0A]) http_request_new)"
  shows "\<exists>s' h. process_request E cl s st = Inr (True, False, s', st) \<and>
    sent s' = sent s @ ''HTTP/1.1 '' @
      (if length l + 2 > REQUEST_URI_MAX_LENGTH then ''414 URI Too Long'' else ''400 Bad Request'') @ crlf @ write_headers h \<and>
    (''Content-Length'', ''0'') \<in> set h"
proof -
  have "to_come s = l @ CHR 0x0D # CHR 0x0A # r" using assms(3) by (simp add: to_come_def)
  from getline_crlf [OF this assms(4)] obtain s1 where s1: "sock_getline s = (Some (l @ [CHR 0x0D, CHR 0x0A]), s1)"
    "sent s1 = sent s" "uses s s1" by blast
  have head: "response_head (add_headers cl rq \<lparr>rs_status = code, rs_headers = [], rs_body = []\<rparr>) =
      ''HTTP/1.1 '' @ to_string_int code @ '' '' @ status_message code @ crlf @
      write_headers (rs_headers (add_headers cl rq \<lparr>rs_status = code, rs_headers = [], rs_body = []\<rparr>))" for rq code
    by (simp add: response_head_def add_headers_status)
  have t: "to_string_int 414 @ '' '' @ status_message 414 @ z = ''414 URI Too Long'' @ z"
    "to_string_int 400 @ '' '' @ status_message 400 @ z = ''400 Bad Request'' @ z" for z
    by (simp_all add: to_string_int_def to_string.simps digit_char_def status_message_def status_messages_def)
  have new: "http_response_new\<lparr>rs_status := code\<rparr> = \<lparr>rs_status = code, rs_headers = [], rs_body = []\<rparr>" for code
    by (simp add: http_response_new_def)
  have fd: "\<not> FD_SETSIZE \<le> he_socket E" using assms(1) by simp
  show ?thesis
  proof (cases "length l + 2 > REQUEST_URI_MAX_LENGTH")
    case True
    obtain ok h s2 where rh: "read_headers [] s1 = (ok, h, s2)" using prod_cases3 by blast
    have w: "peer_writable s2" "sent s2 = sent s"
      using read_headers_uses [of s1 "[]"] read_headers_sent [of "[]" s1] rh uses_suffix [of s1 s2] uses_suffix [OF s1(3)] assms(2) s1(2)
      by simp_all
    obtain s' where s': "write_response (he_boundary E) cl http_request_new (http_response_new\<lparr>rs_status := 414\<rparr>) s2 = (True, s')"
      "sent s' = sent s2 @ response_head (add_headers cl http_request_new \<lparr>rs_status = 414, rs_headers = [], rs_body = []\<rparr>)"
      unfolding new by (rule write_head_only [OF w(1)])
    have "process_request E cl s st = Inr (True, False, s', st)"
      using fd True s1(1) rh s'(1) by (simp add: process_request_def Let_def)
    moreover have "sent s' = sent s @ ''HTTP/1.1 '' @ ''414 URI Too Long'' @ crlf @
        write_headers (rs_headers (add_headers cl http_request_new \<lparr>rs_status = 414, rs_headers = [], rs_body = []\<rparr>))"
      by (simp only: s'(2) w(2) head t(1))
    ultimately show ?thesis
      unfolding if_P [OF True] using empty_answer_length by (intro exI conjI)
  next
    case False
    obtain ok rq where pr: "parse_request_line (l @ [CHR 0x0D, CHR 0x0A]) http_request_new = (ok, rq)" by fastforce
    then have ok: "\<not> ok" using assms(5) False by simp
    have w: "peer_writable s1" using uses_suffix [OF s1(3)] assms(2) by simp
    obtain s' where s': "write_response (he_boundary E) cl rq (http_response_new\<lparr>rs_status := 400\<rparr>) s1 = (True, s')"
      "sent s' = sent s1 @ response_head (add_headers cl rq \<lparr>rs_status = 400, rs_headers = [], rs_body = []\<rparr>)"
      unfolding new by (rule write_head_only [OF w])
    have "process_request E cl s st = Inr (True, False, s', st)"
      using fd False s1(1) pr ok s'(1) by (simp add: process_request_def Let_def)
    moreover have "sent s' = sent s @ ''HTTP/1.1 '' @ ''400 Bad Request'' @ crlf @
        write_headers (rs_headers (add_headers cl rq \<lparr>rs_status = 400, rs_headers = [], rs_body = []\<rparr>))"
      by (simp only: s'(2) s1(2) head t(2))
    ultimately show ?thesis
      unfolding if_not_P [OF False] using empty_answer_length by (intro exI conjI)
  qed
qed

theorem malformed_request_changes_nothing_witness:
  "\<exists>s' h. process_request (vdb_env string_raft list_raft_server sample_libs sample_connection) False
      \<lparr>read_buff = [], segments = [''GET /admin/listNode'' @ [CHR 0x0D, CHR 0x0A], ''Host: a''], peer = Peer_silent,
       peer_writable = True, sent = []\<rparr> (sample_server True) = Inr (True, False, s', sample_server True) \<and>
    sent s' = ''HTTP/1.1 400 Bad Request'' @ crlf @ write_headers h \<and> (''Content-Length'', ''0'') \<in> set h"
proof -
  let ?l = "''GET /admin/listNode''"
  let ?s = "\<lparr>read_buff = [], segments = [?l @ [CHR 0x0D, CHR 0x0A], ''Host: a''], peer = Peer_silent,
       peer_writable = True, sent = []\<rparr>"
  have c: "c_str (?l @ [CHR 0x0D, CHR 0x0A]) = ?l @ [CHR 0x0D, CHR 0x0A]" by simp
  have tk: "take (length (?l @ [CHR 0x0D, CHR 0x0A]) - 2) (?l @ [CHR 0x0D, CHR 0x0A]) = ?l" by simp
  have sp: "split (CHR '' '') ?l = [''GET'', ''/admin/listNode'']"
    using split_two [of "''GET''" "''/admin/listNode''"] by (simp add: token_def)
  have f: "\<not> fst (parse_request_line (?l @ [CHR 0x0D, CHR 0x0A]) http_request_new)"
    by (simp only: parse_request_line_def c Let_def tk sp) simp
  let ?E = "vdb_env string_raft list_raft_server sample_libs sample_connection"
  have h: "he_socket ?E < FD_SETSIZE" "peer_writable ?s" "CHR 0x0A \<notin> set ?l"
    "read_buff ?s @ concat (segments ?s) = ?l @ [CHR 0x0D, CHR 0x0A] @ ''Host: a''"
    by (simp_all add: vdb_env_def sample_connection_def FD_SETSIZE_def)
  have n: "\<not> length ?l + 2 > REQUEST_URI_MAX_LENGTH" by (simp add: REQUEST_URI_MAX_LENGTH_def)
  from malformed_request_changes_nothing [OF h(1,2,4,3) disjI2 [OF f], of False "sample_server True"]
  show ?thesis unfolding if_not_P [OF n] by simp
qed

end
