(* ===== verification/Http_Form.thy ===== *)
theory Http_Form
  imports Http_Multipart "HOL-Library.Multiset"
begin

text \<open>
  Forms from end to end: \<^verbatim>\<open>serialize_multipart_formdata\<close> of httplib.h, which writes the items of a
  form, and what \<^verbatim>\<open>MultipartFormDataParser\<close> makes of that text in whatever pieces it comes. The
  relation \<open>awaits\<close> says of each state of the parser which text it still has to get; it is kept by
  every round of the loop.
\<close>

section \<open>Writing a form\<close>

definition serialize_multipart_formdata_item_begin :: "multipart_file \<Rightarrow> string \<Rightarrow> string" where
  "serialize_multipart_formdata_item_begin item boundary =
     ''--'' @ boundary @ crlf @
     ''Content-Disposition: form-data; name='' @ [CHR 0x22] @ mf_name item @ [CHR 0x22] @
     (if mf_filename item \<noteq> [] then ''; filename='' @ [CHR 0x22] @ mf_filename item @ [CHR 0x22] else []) @ crlf @
     (if mf_content_type item \<noteq> [] then ''Content-Type: '' @ mf_content_type item @ crlf else []) @ crlf"

definition serialize_multipart_formdata_item_end :: string where
  "serialize_multipart_formdata_item_end = crlf"

definition serialize_multipart_formdata_finish :: "string \<Rightarrow> string" where
  "serialize_multipart_formdata_finish boundary = ''--'' @ boundary @ ''--'' @ crlf"

definition serialize_multipart_formdata :: "multipart_file list \<Rightarrow> string \<Rightarrow> bool \<Rightarrow> string" where
  "serialize_multipart_formdata items boundary finish =
     foldl (\<lambda>body item. body @ serialize_multipart_formdata_item_begin item boundary @
              mf_content item @ serialize_multipart_formdata_item_end) [] items @
     (if finish then serialize_multipart_formdata_finish boundary else [])"

text \<open>A receiver gets its content in pieces, until it refuses one.\<close>

fun feed :: "'x receiver \<Rightarrow> string list \<Rightarrow> 'x \<Rightarrow> bool \<times> 'x" where
  "feed out [] x = (True, x)"
| "feed out (d # ds) x = (let (ok, x') = out d x in if ok then feed out ds x' else (False, x'))"

section \<open>Items that can be read back\<close>

text \<open>The pattern does not occur in the text followed by the pattern but at the end.\<close>

definition free_of :: "string \<Rightarrow> string \<Rightarrow> bool" where
  "free_of pat c \<longleftrightarrow> list_all (\<lambda>i. take (length pat) (drop i (c @ pat)) \<noteq> pat) [0..<length c]"

definition disposition_value :: "string \<Rightarrow> string \<Rightarrow> string" where
  "disposition_value n f = ''name='' @ [CHR 0x22] @ n @ [CHR 0x22] @
     (if f \<noteq> [] then ''; filename='' @ [CHR 0x22] @ f @ [CHR 0x22] else [])"

definition disposition_line :: "multipart_file \<Rightarrow> string" where
  "disposition_line x = ''Content-Disposition: form-data; '' @ disposition_value (mf_name x) (mf_filename x)"

definition part_lines :: "multipart_file \<Rightarrow> string list" where
  "part_lines x = disposition_line x #
     (if mf_content_type x \<noteq> [] then [''Content-Type: '' @ mf_content_type x] else [])"

definition form_item_ok :: "string \<Rightarrow> multipart_file \<Rightarrow> bool" where
  "form_item_ok b x \<longleftrightarrow>
     set (mf_name x @ mf_filename x) \<inter> set [CHR '';'', CHR ''='', CHR 0x0D, CHR 0x0A] = {} \<and>
     CHR 0x0D \<notin> set (mf_content_type x) \<and> strip (mf_content_type x) = mf_content_type x \<and>
     length (disposition_line x) < HEADER_MAX_LENGTH \<and> length (mf_content_type x) + 14 < HEADER_MAX_LENGTH \<and>
     free_of (crlf @ ''--'' @ b) (mf_content x) \<and> length (mf_content x) \<le> string_max_size"

section \<open>Searching for a pattern in a buffer\<close>

lemma find_in_first:
  assumes "\<And>j. j < i \<Longrightarrow> take (length pat) (drop j s) \<noteq> pat" "take (length pat) (drop i s) = pat" "i \<le> length s"
  shows "find_in pat n s = Some (n + i)"
  using assms
proof (induction s arbitrary: n i)
  case Nil
  then show ?case by (subst find_in.simps) simp
next
  case (Cons c s)
  show ?case
  proof (cases i)
    case 0
    with Cons.prems show ?thesis by (simp add: find_in.simps [of pat n])
  next
    case (Suc k)
    have "find_in pat (Suc n) s = Some (Suc n + k)"
      using Cons.prems(1) [of "Suc j" for j] Cons.prems(2,3) Suc by (intro Cons.IH) auto
    with Suc Cons.prems(1) [of 0] show ?thesis by (simp add: find_in.simps [of pat n])
  qed
qed

lemma find_in_absent:
  assumes "\<And>j. j \<le> length s \<Longrightarrow> take (length pat) (drop j s) \<noteq> pat"
  shows "find_in pat n s = None"
  using assms
proof (induction s arbitrary: n)
  case Nil
  then show ?case by (simp add: find_in.simps [of pat n])
next
  case (Cons c s)
  have "find_in pat (Suc n) s = None"
    using Cons.prems [of "Suc j" for j] by (intro Cons.IH) auto
  with Cons.prems [of 0] show ?case by (simp add: find_in.simps [of pat n])
qed

lemma free_ofD: "free_of pat c \<Longrightarrow> j < length c \<Longrightarrow> take (length pat) (drop j (c @ pat)) \<noteq> pat"
  by (simp add: free_of_def list_all_iff)

lemma free_of_drop: "free_of pat c \<Longrightarrow> free_of pat (drop k c)"
  unfolding free_of_def list_all_iff
proof
  fix i assume a: "\<forall>i \<in> set [0..<length c]. take (length pat) (drop i (c @ pat)) \<noteq> pat" and i: "i \<in> set [0..<length (drop k c)]"
  then have "take (length pat) (drop (k + i) (c @ pat)) \<noteq> pat" by (auto intro: a [rule_format])
  with i show "take (length pat) (drop i (drop k c @ pat)) \<noteq> pat" by (simp add: add.commute)
qed

lemma free_of_Nil [simp]: "free_of pat []"
  by (simp add: free_of_def)

lemma free_of_crlf: "CHR 0x0D \<notin> set l \<Longrightarrow> free_of crlf l"
  unfolding free_of_def list_all_iff
proof
  fix i assume a: "CHR 0x0D \<notin> set l" and i: "i \<in> set [0..<length l]"
  then have "take (length crlf) (drop i (l @ crlf)) = l ! i # take 1 (drop (Suc i) (l @ crlf))"
    by (simp add: crlf_def Cons_nth_drop_Suc [symmetric])
  moreover have "l ! i \<noteq> CHR 0x0D" using a i nth_mem by fastforce
  ultimately show "take (length crlf) (drop i (l @ crlf)) \<noteq> crlf" by (simp add: crlf_def)
qed

text \<open>What a search finds when only a beginning \<open>B\<close> of the text is in the buffer.\<close>

lemma buf_find_first:
  assumes "free_of pat c" "pat \<noteq> []" "B @ r = c @ pat @ t"
  shows "buf_find B pat = (if length c + length pat \<le> length B then length c else length B)"
proof -
  have pre: "take (length pat) (drop j B) \<noteq> pat" if "j < length c" for j
  proof
    assume e: "take (length pat) (drop j B) = pat"
    then have "length pat \<le> length (drop j B)" by (metis length_take min.cobounded1)
    then have "take (length pat) (drop j (c @ pat @ t)) = pat"
      using e assms(2) by (cases "j \<le> length B") (simp_all add: assms(3) [symmetric])
    then show False using free_ofD [OF assms(1) that] that by simp
  qed
  show ?thesis
  proof (cases "length c + length pat \<le> length B")
    case True
    then have "take (length c + length pat) B = take (length c + length pat) (c @ pat @ t)"
      by (simp add: assms(3) [symmetric])
    then have "take (length pat) (drop (length c) B) = pat" by (simp add: take_drop add.commute)
    from find_in_first [OF pre this] True show ?thesis by (simp add: buf_find_def find_at_def)
  next
    case False
    have "take (length pat) (drop j B) \<noteq> pat" if "j \<le> length B" for j
    proof (cases "j < length c")
      case False2: False
      then have "length (drop j B) < length pat" using False that by simp
      then show ?thesis by (metis length_take min.strict_order_iff order_less_imp_le take_all)
    qed (rule pre)
    from find_in_absent [OF this] False show ?thesis by (simp add: buf_find_def find_at_def)
  qed
qed

section \<open>The lines of a part are read back\<close>

lemma quotes_trimmed: "trim_double_quotes_copy ([CHR 0x22] @ v @ [CHR 0x22]) = v"
  by (simp add: trim_double_quotes_copy_def)

lemma quoted_strip: "strip (CHR 0x22 # v @ [CHR 0x22]) = CHR 0x22 # v @ [CHR 0x22]"
  by (rule strip_id) (simp add: is_space_or_tab_def)

lemma key_and_val_quoted:
  assumes "CHR ''='' \<notin> set k \<union> set v" "strip k = k" "k \<noteq> []"
  shows "key_and_val (k @ CHR ''='' # CHR 0x22 # v @ [CHR 0x22]) = (k, CHR 0x22 # v @ [CHR 0x22])"
proof -
  have "raw_fields (CHR ''='') (k @ CHR ''='' # CHR 0x22 # v @ [CHR 0x22]) = [k, CHR 0x22 # v @ [CHR 0x22]]"
    using assms(1) raw_fields_no_delim [of "CHR ''=''" "CHR 0x22 # v @ [CHR 0x22]"] by (simp add: raw_fields_append)
  then show ?thesis
    using assms(2,3) by (simp add: key_and_val_def split_fields quoted_strip)
qed

lemma disposition_params:
  assumes "set (n @ f) \<inter> set [CHR '';'', CHR ''='', CHR 0x0D, CHR 0x0A] = {}"
  shows "map_of (parse_disposition_params (disposition_value n f) []) =
    (if f \<noteq> [] then [''name'' \<mapsto> n, ''filename'' \<mapsto> f] else [''name'' \<mapsto> n])"
proof -
  let ?n = "''name'' @ CHR ''='' # CHR 0x22 # n @ [CHR 0x22]" and ?f = "''filename'' @ CHR ''='' # CHR 0x22 # f @ [CHR 0x22]"
  have e: "CHR ''='' \<notin> set n" "CHR ''='' \<notin> set f" "CHR '';'' \<notin> set n" "CHR '';'' \<notin> set f" using assms by auto
  have kn: "key_and_val ?n = (''name'', CHR 0x22 # n @ [CHR 0x22])"
    using e by (intro key_and_val_quoted) (simp_all add: strip_no_blanks is_space_or_tab_def)
  have kf: "key_and_val ?f = (''filename'', CHR 0x22 # f @ [CHR 0x22])"
    using e by (intro key_and_val_quoted) (simp_all add: strip_no_blanks is_space_or_tab_def)
  have sn: "strip ?n = ?n" and sf: "strip (CHR '' '' # ?f) = ?f"
    by (simp_all add: strip_def is_space_or_tab_def)
  have q: "trim_double_quotes_copy ''name'' = ''name''" "trim_double_quotes_copy ''filename'' = ''filename''"
    by (simp_all add: trim_double_quotes_copy_def)
  have qs: "trim_double_quotes_copy (CHR 0x22 # v @ [CHR 0x22]) = v" for v using quotes_trimmed [of v] by simp
  have rn: "raw_fields (CHR '';'') ?n = [?n]" using e raw_fields_no_delim [of "CHR '';''" ?n] by simp
  have rf: "raw_fields (CHR '';'') (?n @ CHR '';'' # CHR '' '' # ?f) = [?n, CHR '' '' # ?f]"
    using e raw_fields_append [of "CHR '';''" ?n "CHR '' '' # ?f"] raw_fields_no_delim [of "CHR '';''" "CHR '' '' # ?f"]
    by simp
  have s1: "split (CHR '';'') ?n = [?n]" by (simp add: split_fields rn sn del: append.simps)
  have s2: "split (CHR '';'') (?n @ CHR '';'' # CHR '' '' # ?f) = [?n, ?f]"
    by (simp only: split_fields rf list.map sn sf) simp
  have d: "?f \<noteq> ?n" by simp
  show ?thesis
  proof (cases "f = []")
    case True
    have "parse_disposition_params ?n [] = [(''name'', n)]"
      by (simp only: parse_disposition_params_def s1) (simp add: kn [simplified] q qs)
    with True show ?thesis by (simp add: disposition_value_def)
  next
    case False
    have "parse_disposition_params (?n @ CHR '';'' # CHR '' '' # ?f) [] = [(''filename'', f), (''name'', n)]"
      by (simp only: parse_disposition_params_def s2) (simp add: kn [simplified] kf [simplified] q qs less_char_def)
    with False show ?thesis by (simp add: disposition_value_def fun_upd_twist)
  qed
qed

lemma tolower_names:
  "map tolower ''Content-Disposition:'' = map tolower ''content-disposition:''"
  "map tolower ''Content-Type:'' = ''content-type:''"
  "map tolower ''content-type:'' = ''content-type:''"
  by code_simp+

lemma starts_with_append:
  "length p = length b \<Longrightarrow> start_with_case_ignore (p @ s) b \<longleftrightarrow> map tolower p = map tolower b"
  by (simp add: start_with_case_ignore_def)

lemma disposition_line_read:
  assumes "form_item_ok b x" "mf_name f0 = []" "mf_filename f0 = []"
  shows "part_header (disposition_line x) f0 = Some (f0\<lparr>mf_name := mf_name x, mf_filename := mf_filename x\<rparr>)"
proof -
  let ?m = "disposition_value (mf_name x) (mf_filename x)"
  have ok: "set (mf_name x @ mf_filename x) \<inter> set [CHR '';'', CHR ''='', CHR 0x0D, CHR 0x0A] = {}"
    using assms(1) by (simp add: form_item_ok_def)
  then have no: "CHR 0x0D \<notin> set ?m" "CHR 0x0A \<notin> set ?m" by (auto simp: disposition_value_def)
  have h: "hd ?m = CHR ''n''" "?m \<noteq> []" by (simp_all add: disposition_value_def)
  have l: "disposition_line x = ''Content-Disposition:'' @ CHR '' '' # ''form-data;'' @ CHR '' '' # ?m"
    by (simp add: disposition_line_def)
  have t: "dropWhile isspace (CHR '' '' # ''form-data;'' @ CHR '' '' # ?m) = ''form-data;'' @ CHR '' '' # ?m"
    "dropWhile isspace (CHR '' '' # ?m) = ?m"
    using h by (simp_all add: isspace_def dropWhile_eq_self_iff)
  have m: "match_content_disposition (disposition_line x) = Some ?m"
    using no t unfolding match_content_disposition_def l
    by (simp add: start_with_case_ignore_def Let_def)
  have "\<not> start_with_case_ignore (disposition_line x) ''content-type:''"
    by (simp add: l start_with_case_ignore_def tolower_def)
  moreover define ps where "ps = parse_disposition_params ?m []"
  moreover have "map_of ps ''name'' = Some (mf_name x)" "map_of ps ''filename*'' = None"
    "map_of ps ''filename'' = (if mf_filename x \<noteq> [] then Some (mf_filename x) else None)"
    unfolding ps_def disposition_params [OF ok] by simp_all
  ultimately show ?thesis
    using assms(2,3) unfolding part_header_def m
    by (cases f0) (simp add: ps_def [symmetric] Let_def)
qed

lemma content_type_line_read:
  assumes "strip ct = ct"
  shows "part_header (''Content-Type: '' @ ct) f0 = Some (f0\<lparr>mf_content_type := ct\<rparr>)"
proof -
  have l: "''Content-Type: '' @ ct = ''Content-Type:'' @ CHR '' '' # ct" by simp
  have "strip (CHR '' '' # ct) = ct" using assms by (simp add: strip_def is_space_or_tab_def)
  moreover have "start_with_case_ignore (''Content-Type: '' @ ct) ''content-type:''"
    unfolding l by (subst starts_with_append) (simp_all only: tolower_names, simp)
  moreover have "drop 13 (''Content-Type: '' @ ct) = CHR '' '' # ct" by simp
  ultimately show ?thesis by (simp only: part_header_def trim_copy_strip if_True)
qed

section \<open>The text a parser still has to get\<close>

text \<open>What follows the boundary after an item, and the text of an item up to it.\<close>

definition lines_text :: "string list \<Rightarrow> string" where
  "lines_text ls = concat (map (\<lambda>l. l @ crlf) ls) @ crlf"

fun tail_text :: "string \<Rightarrow> multipart_file list \<Rightarrow> string" where
  "tail_text b [] = ''--'' @ crlf"
| "tail_text b (x # xs) = crlf @ lines_text (part_lines x) @ mf_content x @ (crlf @ ''--'' @ b) @ tail_text b xs"

lemma serialize_tail: "serialize_multipart_formdata xs b True = ''--'' @ b @ tail_text b xs"
proof -
  have "foldl (\<lambda>body item. body @ serialize_multipart_formdata_item_begin item b @
          mf_content item @ serialize_multipart_formdata_item_end) body xs @ serialize_multipart_formdata_finish b =
      body @ ''--'' @ b @ tail_text b xs" for body
    by (induction xs arbitrary: body)
       (auto simp: serialize_multipart_formdata_finish_def serialize_multipart_formdata_item_begin_def
         serialize_multipart_formdata_item_end_def lines_text_def part_lines_def disposition_line_def disposition_value_def)
  then show ?thesis by (simp add: serialize_multipart_formdata_def)
qed

definition enter_file :: "(string \<times> multipart_file) list \<Rightarrow> multipart_file \<Rightarrow> (string \<times> multipart_file) list" where
  "enter_file m x = mm_emplace (<) (mf_name x) x m"

text \<open>Lines that complete the file of a part, read one after the other.\<close>

fun read_lines :: "string list \<Rightarrow> multipart_file \<Rightarrow> multipart_file option" where
  "read_lines [] f = Some f"
| "read_lines (l # ls) f = (case part_header l f of None \<Rightarrow> None | Some f' \<Rightarrow> read_lines ls f')"

text \<open>
  \<open>awaits b p fm T F\<close>: a parser \<open>p\<close> for the boundary \<open>b\<close> with the form \<open>fm\<close>, which still has to
  go through the text \<open>T\<close>, ends with the files \<open>F\<close>.
\<close>

inductive awaits ::
  "string \<Rightarrow> multipart_parser \<Rightarrow> form \<Rightarrow> string \<Rightarrow> (string \<times> multipart_file) list \<Rightarrow> bool" for b where
  new_entry:
    "mp_boundary p = b \<Longrightarrow> mp_state p = New_entry \<Longrightarrow> mf_content (mp_file p) = [] \<Longrightarrow>
     list_all (form_item_ok b) (x # xs) \<Longrightarrow> fm_count fm + length (x # xs) \<le> MULTIPART_FILE_MAX_COUNT \<Longrightarrow>
     sorted (map fst (fm_files fm)) \<Longrightarrow>
     awaits b p fm (lines_text (part_lines x) @ mf_content x @ (crlf @ ''--'' @ b) @ tail_text b xs)
       (foldl enter_file (fm_files fm) (x # xs))"
| part_lines:
    "mp_boundary p = b \<Longrightarrow> mp_state p = Part_headers \<Longrightarrow>
     list_all (\<lambda>l. l \<noteq> [] \<and> CHR 0x0D \<notin> set l \<and> length l < HEADER_MAX_LENGTH) ls \<Longrightarrow>
     read_lines ls (mp_file p) = Some (x\<lparr>mf_content := []\<rparr>) \<Longrightarrow>
     list_all (form_item_ok b) (x # xs) \<Longrightarrow> fm_count fm + length (x # xs) \<le> MULTIPART_FILE_MAX_COUNT \<Longrightarrow>
     sorted (map fst (fm_files fm)) \<Longrightarrow>
     awaits b p fm (lines_text ls @ mf_content x @ (crlf @ ''--'' @ b) @ tail_text b xs)
       (foldl enter_file (fm_files fm) (x # xs))"
| part_body:
    "mp_boundary p = b \<Longrightarrow> mp_state p = Part_body \<Longrightarrow> mf_content (mp_file p) = [] \<Longrightarrow>
     fm_cur fm = mf_name x \<Longrightarrow> sorted (map fst m) \<Longrightarrow> mf_content x = c @ d \<Longrightarrow>
     fm_files fm = enter_file m (x\<lparr>mf_content := c\<rparr>) \<Longrightarrow>
     list_all (form_item_ok b) (x # xs) \<Longrightarrow> fm_count fm + length xs \<le> MULTIPART_FILE_MAX_COUNT \<Longrightarrow>
     awaits b p fm (d @ (crlf @ ''--'' @ b) @ tail_text b xs) (foldl enter_file m (x # xs))"
| part_boundary:
    "mp_boundary p = b \<Longrightarrow> mp_state p = Part_boundary \<Longrightarrow> mf_content (mp_file p) = [] \<Longrightarrow>
     list_all (form_item_ok b) xs \<Longrightarrow> fm_count fm + length xs \<le> MULTIPART_FILE_MAX_COUNT \<Longrightarrow>
     sorted (map fst (fm_files fm)) \<Longrightarrow>
     awaits b p fm (tail_text b xs) (foldl enter_file (fm_files fm) xs)"
| epilogue:
    "mp_is_valid p \<Longrightarrow> mp_state p = Part_boundary \<Longrightarrow> T \<in> {crlf, [CHR 0x0A], []} \<Longrightarrow> awaits b p fm T (fm_files fm)"
| ended:
    "mp_is_valid p \<Longrightarrow> mp_state p = New_entry \<Longrightarrow> awaits b p fm [] (fm_files fm)"

inductive_cases awaitsE: "awaits b p fm T F"

lemma sorted_enter: "sorted (map fst m) \<Longrightarrow> sorted (map fst (enter_file m x))"
  unfolding enter_file_def by (induction m) (auto simp: not_less)

lemma append_to_entered:
  assumes "sorted (map fst m)"
  shows "append_content (mf_name x) d (enter_file m x) = enter_file m (x\<lparr>mf_content := mf_content x @ d\<rparr>)"
  using assms unfolding enter_file_def
proof (induction m)
  case (Cons e m)
  have later: "\<not> list_ex (\<lambda>e'. fst e' = mf_name x) (e # m)" if "mf_name x < fst e"
    using that Cons.prems by (auto simp: list_ex_iff)
  have "list_ex (\<lambda>e'. fst e' = mf_name x) (mm_emplace (<) (mf_name x) x m)"
    by (simp add: list_ex_iff)
  then show ?case using Cons later by auto
qed simp

lemma last_entered:
  assumes "sorted (map fst m)"
  shows "take 1 (rev (filter (\<lambda>e. fst e = mf_name x) (enter_file m x))) = [(mf_name x, x)]"
  using assms unfolding enter_file_def
proof (induction m)
  case (Cons e m)
  have none: "filter (\<lambda>e'. fst e' = mf_name x) (e # m) = []" if "mf_name x < fst e"
    using that Cons.prems by (auto simp: filter_empty_conv)
  show ?case
  proof (cases "mf_name x < fst e")
    case True
    with none [OF this] show ?thesis by simp
  next
    case False
    let ?g = "filter (\<lambda>e. fst e = mf_name x) (mm_emplace (<) (mf_name x) x m)"
    have "?g \<noteq> []" by (auto simp: filter_empty_conv)
    then have "Suc 0 \<le> length ?g" by (simp add: Suc_le_eq)
    with False Cons show ?thesis by auto
  qed
qed simp

lemma form_content_entered:
  assumes "sorted (map fst m)" "fm_files fm = enter_file m x" "fm_cur fm = mf_name x"
    and "length (mf_content x) + length d \<le> string_max_size"
  shows "form_content d fm = (True, fm\<lparr>fm_files := enter_file m (x\<lparr>mf_content := mf_content x @ d\<rparr>)\<rparr>)"
  using assms last_entered [OF assms(1), of x] append_to_entered [OF assms(1), of x d]
  by (simp add: form_content_def)

section \<open>Every round keeps what is awaited\<close>

lemma buf_erase_simps [simp]:
  "mp_buf (buf_erase n p) = drop n (mp_buf p)" "mp_boundary (buf_erase n p) = mp_boundary p"
  "mp_state (buf_erase n p) = mp_state p" "mp_file (buf_erase n p) = mp_file p"
  "mp_is_valid (buf_erase n p) = mp_is_valid p"
  by (simp_all add: buf_erase_def)

lemma drop_prefix: "B @ r = c @ t \<Longrightarrow> length c \<le> length B \<Longrightarrow> drop (length c) B @ r = t"
  by (metis append_eq_append_conv_if append_take_drop_id append_eq_conv_conj)

lemma read_lines_content: "read_lines ls f = Some g \<Longrightarrow> mf_content g = mf_content f"
proof (induction ls arbitrary: f)
  case (Cons l ls)
  then obtain f' where f': "part_header l f = Some f'" "read_lines ls f' = Some g"
    by (auto split: option.splits)
  from f'(1) have "mf_content f' = mf_content f"
    by (auto simp: part_header_def Let_def split: if_splits option.splits)
  with Cons.IH [OF f'(2)] show ?case by simp
qed simp

lemma part_lines_read:
  assumes "form_item_ok b x" "mf_content f0 = []"
  shows "read_lines (part_lines x) (f0\<lparr>mf_name := [], mf_filename := [], mf_content_type := []\<rparr>) = Some (x\<lparr>mf_content := []\<rparr>)"
    and "list_all (\<lambda>l. l \<noteq> [] \<and> CHR 0x0D \<notin> set l \<and> length l < HEADER_MAX_LENGTH) (part_lines x)"
proof -
  let ?f = "f0\<lparr>mf_name := [], mf_filename := [], mf_content_type := []\<rparr>"
  have d: "part_header (disposition_line x) ?f = Some (?f\<lparr>mf_name := mf_name x, mf_filename := mf_filename x\<rparr>)"
    using assms(1) by (rule disposition_line_read) simp_all
  have ct: "strip (mf_content_type x) = mf_content_type x" using assms(1) by (simp add: form_item_ok_def)
  show "read_lines (part_lines x) ?f = Some (x\<lparr>mf_content := []\<rparr>)"
    using assms(2) d content_type_line_read [OF ct] by (cases f0; cases x) (auto simp: part_lines_def)
  show "list_all (\<lambda>l. l \<noteq> [] \<and> CHR 0x0D \<notin> set l \<and> length l < HEADER_MAX_LENGTH) (part_lines x)"
    using assms(1) by (auto simp: part_lines_def form_item_ok_def disposition_line_def disposition_value_def)
qed

lemma part_headers_awaits:
  assumes "mp_boundary p = b" "mp_state p = Part_headers"
    and "list_all (\<lambda>l. l \<noteq> [] \<and> CHR 0x0D \<notin> set l \<and> length l < HEADER_MAX_LENGTH) ls"
    and "read_lines ls (mp_file p) = Some (x\<lparr>mf_content := []\<rparr>)"
    and "list_all (form_item_ok b) (x # xs)" "fm_count fm + length (x # xs) \<le> MULTIPART_FILE_MAX_COUNT"
    and "sorted (map fst (fm_files fm))"
    and "mp_buf p @ r = lines_text ls @ mf_content x @ (crlf @ ''--'' @ b) @ tail_text b xs"
  shows "\<exists>p' fm'. part_headers p fm = (None, p', fm') \<and>
    awaits b p' fm' (mp_buf p' @ r) (foldl enter_file (fm_files fm) (x # xs)) \<and> (mp_state p' \<noteq> Part_body \<longrightarrow> r \<noteq> [])"
  using assms
proof (induction ls arbitrary: p)
  case Nil
  let ?z = "mf_content x @ (crlf @ ''--'' @ b) @ tail_text b xs"
  have t: "mp_buf p @ r = [] @ crlf @ ?z" using Nil.prems(8) by (simp add: lines_text_def)
  from buf_find_first [OF _ _ t] have f: "buf_find (mp_buf p) crlf = (if 2 \<le> length (mp_buf p) then 0 else length (mp_buf p))"
    by (simp add: crlf_def)
  show ?case
  proof (cases "2 \<le> length (mp_buf p)")
    case True
    let ?p = "(buf_erase (length crlf) p)\<lparr>mp_state := Part_body\<rparr>"
    let ?fm = "\<lparr>fm_files = enter_file (fm_files fm) (x\<lparr>mf_content := []\<rparr>), fm_count = Suc (fm_count fm), fm_cur = mf_name x\<rparr>"
    have pf: "mp_file p = x\<lparr>mf_content := []\<rparr>" using Nil.prems(4) by simp
    have h: "form_header (mp_file p) fm = (True, ?fm)"
      using Nil.prems(6) by (simp add: form_header_def pf enter_file_def)
    have buf: "mp_buf ?p @ r = ?z" using drop_prefix [of "mp_buf p" r crlf ?z] t True by (simp add: crlf_def)
    have "part_headers p fm = (None, ?p, ?fm)"
      using True by (subst part_headers.simps) (auto simp: f h)
    moreover have "awaits b ?p ?fm ?z (foldl enter_file (fm_files fm) (x # xs))"
      using Nil.prems pf by (intro part_body [where c = "[]"]) simp_all
    ultimately show ?thesis using buf by (intro exI [of _ ?p] exI [of _ ?fm]) simp
  next
    case False
    then have "part_headers p fm = (None, p, fm)" by (subst part_headers.simps) (simp add: f)
    moreover have "awaits b p fm (mp_buf p @ r) (foldl enter_file (fm_files fm) (x # xs))"
      unfolding Nil.prems(8) using Nil.prems by (intro part_lines) simp_all
    moreover have "r \<noteq> []" using False t by (auto simp: crlf_def)
    ultimately show ?thesis by blast
  qed
next
  case (Cons l ls)
  let ?z = "lines_text ls @ mf_content x @ (crlf @ ''--'' @ b) @ tail_text b xs"
  have t: "mp_buf p @ r = l @ crlf @ ?z" using Cons.prems(8) by (simp add: lines_text_def)
  have l: "l \<noteq> []" "free_of crlf l" using Cons.prems(3) by (simp_all add: free_of_crlf)
  from buf_find_first [OF l(2) _ t]
  have f: "buf_find (mp_buf p) crlf = (if length l + 2 \<le> length (mp_buf p) then length l else length (mp_buf p))"
    by (simp add: crlf_def)
  show ?case
  proof (cases "length l + 2 \<le> length (mp_buf p)")
    case True
    obtain f' where f': "part_header l (mp_file p) = Some f'" "read_lines ls f' = Some (x\<lparr>mf_content := []\<rparr>)"
      using Cons.prems(4) by (auto split: option.splits)
    let ?p = "buf_erase (length l + length crlf) (p\<lparr>mp_file := f'\<rparr>)"
    have "take (length l) (mp_buf p @ r) = take (length l) (l @ crlf @ ?z)" by (simp only: t)
    then have "take (length l) (mp_buf p) = l" using True by simp
    then have step: "part_headers p fm = part_headers ?p fm"
      using True l(1) by (subst part_headers.simps) (simp add: f f' Let_def)
    have "mp_buf ?p @ r = ?z"
      using drop_prefix [of "mp_buf p" r "l @ crlf" ?z] t True by (simp add: crlf_def)
    with Cons.prems f'(2) show ?thesis unfolding step by (intro Cons.IH) simp_all
  next
    case False
    then have "part_headers p fm = (None, p, fm)" by (subst part_headers.simps) (simp add: f)
    moreover have "awaits b p fm (mp_buf p @ r) (foldl enter_file (fm_files fm) (x # xs))"
      unfolding Cons.prems(8) using Cons.prems by (intro part_lines) simp_all
    moreover have "length (mp_buf p @ r) \<ge> length l + 2" unfolding t by (simp add: crlf_def)
    then have "r \<noteq> []" using False by auto
    ultimately show ?thesis by blast
  qed
qed

text \<open>
  \<open>goes_on b r F out\<close>: a round with the result \<open>out\<close> leaves the loop going or returns true, what is
  left of the buffer and the pieces \<open>r\<close> to come are awaited, and a return after the last piece is
  the end of the form.
\<close>

definition goes_on :: "string \<Rightarrow> string \<Rightarrow> (string \<times> multipart_file) list \<Rightarrow> bool option \<times> multipart_parser \<times> form \<Rightarrow> bool" where
  "goes_on b r F = (\<lambda>(out, p', fm'). (out = None \<or> out = Some True) \<and> awaits b p' fm' (mp_buf p' @ r) F \<and>
     (out = Some True \<and> r = [] \<longrightarrow> mp_is_valid p' \<and> fm_files fm' = F))"

lemma round_part_headers:
  assumes "mp_boundary p = b" "mp_state p = Part_headers"
    and "list_all (\<lambda>l. l \<noteq> [] \<and> CHR 0x0D \<notin> set l \<and> length l < HEADER_MAX_LENGTH) ls"
    and "read_lines ls (mp_file p) = Some (x\<lparr>mf_content := []\<rparr>)"
    and "list_all (form_item_ok b) (x # xs)" "fm_count fm + length (x # xs) \<le> MULTIPART_FILE_MAX_COUNT"
    and "sorted (map fst (fm_files fm))"
    and t: "mp_buf p @ r = lines_text ls @ mf_content x @ (crlf @ ''--'' @ b) @ tail_text b xs"
  shows "goes_on b r (foldl enter_file (fm_files fm) (x # xs)) (parse_round p fm)"
proof -
  have "buf_find (mp_buf p) crlf \<le> HEADER_MAX_LENGTH"
  proof (cases ls)
    case Nil
    have "buf_find (mp_buf p) crlf = (if 2 \<le> length (mp_buf p) then 0 else length (mp_buf p))"
      using buf_find_first [of crlf "[]" "mp_buf p" r] t Nil by (simp add: lines_text_def crlf_def)
    then show ?thesis by (simp add: HEADER_MAX_LENGTH_def)
  next
    case (Cons l ls')
    have "buf_find (mp_buf p) crlf = (if length l + 2 \<le> length (mp_buf p) then length l else length (mp_buf p))"
      using buf_find_first [of crlf l "mp_buf p" r] t Cons assms(3) by (simp add: lines_text_def crlf_def free_of_crlf [unfolded crlf_def])
    then show ?thesis using assms(3) Cons by (auto split: if_splits)
  qed
  with part_headers_awaits [OF assms] show ?thesis
    using assms(2) by (auto simp: parse_round_def goes_on_def split: if_splits)
qed

lemma round_part_body:
  assumes "mp_boundary p = b" "mp_state p = Part_body" "mf_content (mp_file p) = []"
    and "fm_cur fm = mf_name x" "sorted (map fst m)" "mf_content x = c @ d"
    and "fm_files fm = enter_file m (x\<lparr>mf_content := c\<rparr>)"
    and "list_all (form_item_ok b) (x # xs)" "fm_count fm + length xs \<le> MULTIPART_FILE_MAX_COUNT"
    and t: "mp_buf p @ r = d @ (crlf @ ''--'' @ b) @ tail_text b xs"
  shows "goes_on b r (foldl enter_file m (x # xs)) (parse_round p fm)"
proof -
  let ?pat = "crlf @ ''--'' @ b" and ?n = "length (mp_buf p)"
  have pat: "crlf_dash_boundary p = ?pat" using assms(1) by (simp add: crlf_dash_boundary_def)
  have fit: "length (c @ d) \<le> string_max_size" and "free_of ?pat (c @ d)"
    using assms(6,8) by (simp_all add: form_item_ok_def)
  then have "free_of ?pat d" using free_of_drop [of ?pat "c @ d" "length c"] by simp
  from buf_find_first [OF this _ t]
  have f: "buf_find (mp_buf p) ?pat = (if length d + length ?pat \<le> ?n then length d else ?n)" by (simp add: crlf_def)
  have stay: "awaits b p fm (mp_buf p @ r) (foldl enter_file m (x # xs))"
    unfolding t using assms by (intro part_body [where c = c]) simp_all
  have "length (mp_buf p @ r) = length (d @ ?pat @ tail_text b xs)" by (simp only: t)
  then have len: "?n + length r = length d + length ?pat + length (tail_text b xs)" by simp
  have put: "form_content d' fm = (True, fm\<lparr>fm_files := enter_file m (x\<lparr>mf_content := c @ d'\<rparr>)\<rparr>)"
    if "length d' \<le> length d" for d'
    using form_content_entered [of m fm "x\<lparr>mf_content := c\<rparr>" d'] assms(4,5,7) fit that by (simp add: enter_file_def)
  consider "?n < length ?pat" | "length d + length ?pat \<le> ?n" | "length ?pat \<le> ?n" "?n < length d + length ?pat" by linarith
  then show ?thesis
  proof cases
    case 1
    then have "r \<noteq> []" using len by auto
    with 1 stay show ?thesis using assms(2) pat by (simp add: parse_round_def goes_on_def Let_def)
  next
    case 2
    let ?p = "(buf_erase (length d + length ?pat) p)\<lparr>mp_state := Part_boundary\<rparr>"
    let ?fm = "fm\<lparr>fm_files := enter_file m (x\<lparr>mf_content := c @ d\<rparr>)\<rparr>"
    have "take (length d) (mp_buf p @ r) = d" by (simp add: t)
    then have tk: "take (length d) (mp_buf p) = d" using 2 by simp
    have x: "x\<lparr>mf_content := c @ d\<rparr> = x" using assms(6) by (cases x) simp
    have "parse_round p fm = (None, ?p, ?fm)"
      using 2 assms(2) f tk put [of d] by (simp add: parse_round_def Let_def pat crlf_def)
    moreover have "mp_buf ?p @ r = tail_text b xs"
      using drop_prefix [of "mp_buf p" r "d @ ?pat" "tail_text b xs"] t 2 by simp
    moreover have "awaits b ?p ?fm (tail_text b xs) (foldl enter_file (fm_files ?fm) xs)"
      using assms by (intro part_boundary) (simp_all add: x sorted_enter)
    ultimately show ?thesis by (simp add: goes_on_def x)
  next
    case 3
    let ?k = "?n - length ?pat"
    let ?p = "buf_erase ?k p" and ?fm = "fm\<lparr>fm_files := enter_file m (x\<lparr>mf_content := c @ take ?k d\<rparr>)\<rparr>"
    have k: "?k < length d" "?k \<le> ?n" "r \<noteq> []" using 3 len by (auto simp: crlf_def)
    have "take ?k (mp_buf p @ r) = take ?k d" using k(1) by (simp add: t)
    then have tk: "take ?k (mp_buf p) = take ?k d" using k(2) by simp
    show ?thesis
    proof (cases "?k = 0")
      case True
      with 3 f k(3) stay show ?thesis
        using assms(2) by (simp add: parse_round_def goes_on_def Let_def pat crlf_def)
    next
      case False
      have "parse_round p fm = (Some True, ?p, ?fm)"
        using 3 False assms(2) f tk put [of "take ?k d"] by (simp add: parse_round_def Let_def pat crlf_def)
      moreover have "mp_buf ?p @ r = drop ?k d @ ?pat @ tail_text b xs"
        using arg_cong [OF t, of "drop ?k"] k by simp
      moreover have "awaits b ?p ?fm (drop ?k d @ ?pat @ tail_text b xs) (foldl enter_file m (x # xs))"
        using assms by (intro part_body [where c = "c @ take ?k d"]) simp_all
      ultimately show ?thesis using k(3) by (simp add: goes_on_def)
    qed
  qed
qed

lemma round_new_entry:
  assumes "mp_boundary p = b" "mp_state p = New_entry" "mf_content (mp_file p) = []"
    and "list_all (form_item_ok b) (x # xs)" "fm_count fm + length (x # xs) \<le> MULTIPART_FILE_MAX_COUNT"
    and "sorted (map fst (fm_files fm))"
    and "mp_buf p @ r = lines_text (part_lines x) @ mf_content x @ (crlf @ ''--'' @ b) @ tail_text b xs"
  shows "goes_on b r (foldl enter_file (fm_files fm) (x # xs)) (parse_round p fm)"
proof -
  have "form_item_ok b x" using assms(4) by simp
  note pl = part_lines_read [OF this assms(3)]
  let ?p = "p\<lparr>mp_file := (mp_file p)\<lparr>mf_name := [], mf_filename := [], mf_content_type := []\<rparr>, mp_state := Part_headers\<rparr>"
  have "awaits b ?p fm (mp_buf p @ r) (foldl enter_file (fm_files fm) (x # xs))"
    unfolding assms(7) using assms(1,4-6) pl by (intro part_lines) simp_all
  then show ?thesis using assms(2) by (simp add: parse_round_def goes_on_def)
qed

lemma round_part_boundary:
  assumes "mp_boundary p = b" "mp_state p = Part_boundary" "mf_content (mp_file p) = []"
    and "list_all (form_item_ok b) xs" "fm_count fm + length xs \<le> MULTIPART_FILE_MAX_COUNT"
    and "sorted (map fst (fm_files fm))"
    and t: "mp_buf p @ r = tail_text b xs"
  shows "goes_on b r (foldl enter_file (fm_files fm) xs) (parse_round p fm)"
proof (cases "length (mp_buf p) < 2")
  case True
  have "2 \<le> length (mp_buf p @ r)" unfolding t by (cases xs) (simp_all add: crlf_def)
  then have "r \<noteq> []" using True by auto
  moreover have "awaits b p fm (mp_buf p @ r) (foldl enter_file (fm_files fm) xs)"
    unfolding t using assms by (intro part_boundary) simp_all
  ultimately show ?thesis using True assms(2) by (simp add: parse_round_def goes_on_def crlf_def)
next
  case False
  have tk: "take 2 (mp_buf p) = take 2 (tail_text b xs)" using False by (simp add: t [symmetric])
  show ?thesis
  proof (cases xs)
    case Nil
    let ?p = "p\<lparr>mp_is_valid := True, mp_buf := []\<rparr>"
    have s: "\<not> buf_start_with (mp_buf p) crlf" "buf_start_with (mp_buf p) ''--''"
      using tk Nil by (simp_all add: buf_start_with_def crlf_def numeral_2_eq_2)
    have "r \<in> {crlf, [CHR 0x0A], []}"
    proof -
      have "r = drop (length (mp_buf p)) (''--'' @ crlf)" using t Nil by (metis append_eq_conv_conj tail_text.simps(1))
      moreover have "length (mp_buf p) \<in> {2, 3} \<or> 4 \<le> length (mp_buf p)" using False by auto
      ultimately show ?thesis by (auto simp: crlf_def numeral_eq_Suc)
    qed
    then have "awaits b ?p fm r (fm_files fm)" using assms(2) epilogue [of ?p r b fm] by simp
    then show ?thesis
      using s False Nil assms(2) by (simp add: parse_round_def goes_on_def crlf_def)
  next
    case (Cons x xs')
    let ?p = "(buf_erase (length crlf) p)\<lparr>mp_state := New_entry\<rparr>"
    have s: "buf_start_with (mp_buf p) crlf"
      using tk Cons by (simp add: buf_start_with_def crlf_def numeral_2_eq_2)
    have buf: "mp_buf ?p @ r = lines_text (part_lines x) @ mf_content x @ (crlf @ ''--'' @ b) @ tail_text b xs'"
      using drop_prefix [of "mp_buf p" r crlf] t Cons False by (simp add: crlf_def)
    have "awaits b ?p fm (mp_buf ?p @ r) (foldl enter_file (fm_files fm) (x # xs'))"
      unfolding buf using assms Cons by (intro new_entry) simp_all
    then show ?thesis using s False Cons assms(2) by (simp add: parse_round_def goes_on_def crlf_def)
  qed
qed

lemma round_awaits:
  assumes "awaits b p fm (mp_buf p @ r) F" "mp_buf p \<noteq> []"
  shows "goes_on b r F (parse_round p fm)"
  using assms(1)
proof (rule awaitsE, goal_cases)
  case (1 x xs)
  then show ?case using round_new_entry [of p b x xs fm r] by simp
next
  case (2 ls x xs)
  then show ?case using round_part_headers [of p b ls x xs fm r] by simp
next
  case (3 x m c d xs)
  then show ?case using round_part_body [of p b fm x m c d xs r] by simp
next
  case (4 xs)
  then show ?case using round_part_boundary [of p b xs fm r] by simp
next
  case 5
  then have "mp_buf p = [CHR 0x0A] \<and> r = [] \<or> mp_buf p = [CHR 0x0D] \<and> r = [CHR 0x0A] \<or> mp_buf p = crlf \<and> r = []"
    using assms(2) by (auto simp: crlf_def append_eq_Cons_conv)
  then show ?case
    using 5 epilogue [of p "mp_buf p @ r" b fm]
      ended [of "(buf_erase (length crlf) p)\<lparr>mp_state := New_entry\<rparr>" b fm]
    by (auto simp: parse_round_def goes_on_def crlf_def buf_start_with_def)
next
  case 6
  then show ?case using assms(2) by simp
qed

lemma awaits_nothing: "awaits b p fm [] F \<Longrightarrow> mp_is_valid p \<and> fm_files fm = F"
proof (erule awaitsE, goal_cases)
  case (4 xs)
  then show ?case by (cases xs) (simp_all add: crlf_def)
qed (auto simp: lines_text_def crlf_def)

lemma loop_awaits:
  assumes "awaits b p fm (mp_buf p @ r) F"
  shows "\<exists>p' fm'. parse_loop p fm = (True, p', fm') \<and> awaits b p' fm' (mp_buf p' @ r) F \<and>
    (r = [] \<longrightarrow> mp_is_valid p' \<and> fm_files fm' = F)"
  using assms
proof (induction p fm rule: parse_loop.induct)
  case (1 p fm)
  show ?case
  proof (cases "mp_buf p = []")
    case True
    then show ?thesis using 1(2) awaits_nothing by (subst parse_loop.simps) auto
  next
    case False
    obtain out p' fm' where e: "parse_round p fm = (out, p', fm')" using prod_cases3 by blast
    have g: "out = None \<or> out = Some True" "awaits b p' fm' (mp_buf p' @ r) F"
      "out = Some True \<and> r = [] \<longrightarrow> mp_is_valid p' \<and> fm_files fm' = F"
      using round_awaits [OF 1(2) False] e by (simp_all add: goes_on_def)
    from g(1) show ?thesis
    proof
      assume o: "out = None"
      have "parse_loop p fm = parse_loop p' fm'" using e o False by (subst parse_loop.simps) simp
      with 1(1) [OF False e [symmetric] o refl g(2)] show ?thesis by simp
    next
      assume "out = Some True"
      moreover from this have "parse_loop p fm = (True, p', fm')" using e False by (subst parse_loop.simps) simp
      ultimately show ?thesis using g by blast
    qed
  qed
qed

lemma awaits_buf: "awaits b p fm T F \<Longrightarrow> awaits b (p\<lparr>mp_buf := B\<rparr>) fm T F"
proof (induction rule: awaits.induct)
  case (new_entry p x xs fm)
  then show ?case by (intro awaits.new_entry) simp_all
next
  case (part_lines p ls x xs fm)
  then show ?case by (intro awaits.part_lines) simp_all
next
  case (part_body p fm x m c d xs)
  then show ?case by (intro awaits.part_body [where c = c]) simp_all
next
  case (part_boundary p xs fm)
  then show ?case by (intro awaits.part_boundary) simp_all
qed (auto intro: awaits.epilogue awaits.ended)

lemma feed_awaits:
  assumes "awaits b p fm (mp_buf p @ concat ds) F" "ds \<noteq> []"
  shows "\<exists>p' fm'. feed receive_multipart ds (p, fm) = (True, p', fm') \<and> mp_is_valid p' \<and> fm_files fm' = F"
  using assms
proof (induction ds arbitrary: p fm)
  case (Cons d ds)
  let ?p = "p\<lparr>mp_buf := mp_buf p @ d\<rparr>"
  have "awaits b ?p fm (mp_buf ?p @ concat ds) F"
    using awaits_buf [OF Cons.prems(1)] by simp
  from loop_awaits [OF this] obtain p' fm' where p': "parse_loop ?p fm = (True, p', fm')"
    "awaits b p' fm' (mp_buf p' @ concat ds) F" "concat ds = [] \<longrightarrow> mp_is_valid p' \<and> fm_files fm' = F" by blast
  then have step: "feed receive_multipart (d # ds) (p, fm) = feed receive_multipart ds (p', fm')"
    by (simp add: receive_multipart_def)
  show ?case
  proof (cases "ds = []")
    case True
    with step p'(3) show ?thesis by simp
  next
    case False
    with Cons.IH [OF p'(2)] step show ?thesis by simp
  qed
qed simp

section \<open>Reading a form\<close>

lemma enter_file_facts:
  assumes "sorted (map fst m)" "\<forall>e \<in> set m. fst e = mf_name (snd e)"
  shows "\<forall>e \<in> set (enter_file m x). fst e = mf_name (snd e)"
    "mset (map snd (enter_file m x)) = mset (map snd m) + {#x#}"
    "filter (\<lambda>y. mf_name y = k) (map snd (enter_file m x)) =
       filter (\<lambda>y. mf_name y = k) (map snd m) @ filter (\<lambda>y. mf_name y = k) [x]"
proof -
  show "\<forall>e \<in> set (enter_file m x). fst e = mf_name (snd e)" using assms(2) by (auto simp: enter_file_def)
  show "mset (map snd (enter_file m x)) = mset (map snd m) + {#x#}"
    unfolding enter_file_def by (induction m) auto
  show "filter (\<lambda>y. mf_name y = k) (map snd (enter_file m x)) =
       filter (\<lambda>y. mf_name y = k) (map snd m) @ filter (\<lambda>y. mf_name y = k) [x]"
    using assms unfolding enter_file_def
  proof (induction m)
    case (Cons e m)
    have "filter (\<lambda>y. mf_name y = mf_name x) (map snd (e # m)) = []" if "mf_name x < fst e"
      using that Cons.prems by (fastforce simp: filter_empty_conv)
    with Cons show ?case by auto
  qed simp
qed

lemma enter_files_facts:
  assumes "sorted (map fst m)" "\<forall>e \<in> set m. fst e = mf_name (snd e)"
  shows "sorted (map fst (foldl enter_file m xs)) \<and> (\<forall>e \<in> set (foldl enter_file m xs). fst e = mf_name (snd e)) \<and>
    mset (map snd (foldl enter_file m xs)) = mset (map snd m) + mset xs \<and>
    filter (\<lambda>x. mf_name x = k) (map snd (foldl enter_file m xs)) =
       filter (\<lambda>x. mf_name x = k) (map snd m) @ filter (\<lambda>x. mf_name x = k) xs"
  using assms
proof (induction xs arbitrary: m)
  case (Cons x xs)
  note f = enter_file_facts(1,2) [OF Cons.prems, where x = x] enter_file_facts(3) [OF Cons.prems, where x = x and k = k]
  from Cons.IH [OF sorted_enter [OF Cons.prems(1)] f(1)] f(2,3) show ?case by simp
qed simp

lemma entered_files: "foldl enter_file [] xs = map (\<lambda>x. (mf_name x, x)) (sort_key mf_name xs)"
proof -
  let ?m = "foldl enter_file [] xs"
  have f: "sorted (map fst ?m)" "\<forall>e \<in> set ?m. fst e = mf_name (snd e)" "mset (map snd ?m) = mset xs"
    "filter (\<lambda>x. mf_name x = k) (map snd ?m) = filter (\<lambda>x. mf_name x = k) xs" for k
    using enter_files_facts [of "[]" xs k] by simp_all
  have names: "map fst ?m = map mf_name (map snd ?m)" using f(2) by simp
  have "sort_key mf_name xs = map snd ?m"
  proof (rule properties_for_sort_key)
    show "mset (map snd ?m) = mset xs" using f(3) by simp
    show "filter (\<lambda>y. mf_name x = mf_name y) (map snd ?m) = filter (\<lambda>y. mf_name x = mf_name y) xs" for x
      using f(4) [of "mf_name x"] by (simp add: eq_commute)
    show "sorted (map mf_name (map snd ?m))" using f(1) names by simp
  qed
  moreover have "?m = map (\<lambda>x. (mf_name x, x)) (map snd ?m)"
    using f(2) by (auto simp: map_idI split_beta intro!: map_idI [symmetric])
  ultimately show ?thesis by simp
qed

lemma form_is_read:
  assumes "items \<noteq> []" "length items \<le> MULTIPART_FILE_MAX_COUNT" "list_all (form_item_ok b) items"
    and "concat ds = serialize_multipart_formdata items b True" "ds \<noteq> []" "length b + 4 \<le> length (hd ds)"
  shows "\<exists>p fm. feed receive_multipart ds (multipart_parser_new b, empty_form) = (True, p, fm) \<and> mp_is_valid p \<and>
    fm_files fm = map (\<lambda>x. (mf_name x, x)) (sort_key mf_name items)"
proof -
  obtain d ds' where ds: "ds = d # ds'" using assms(5) by (cases ds) auto
  obtain x xs where items: "items = x # xs" using assms(1) by (cases items) auto
  let ?pat = "''--'' @ b @ crlf" and ?z = "lines_text (part_lines x) @ mf_content x @ (crlf @ ''--'' @ b) @ tail_text b xs"
  let ?p = "multipart_parser_new b" and ?q = "(multipart_parser_new b)\<lparr>mp_state := New_entry, mp_buf := drop (length (''--'' @ b @ crlf)) d\<rparr>"
  have t: "d @ concat ds' = ?pat @ ?z" using assms(4) by (simp add: ds items serialize_tail)
  have len: "length ?pat \<le> length d" using assms(6) by (simp add: ds crlf_def)
  have "buf_find d ?pat = 0" using buf_find_first [of ?pat "[]" d "concat ds'" ?z] t len by simp
  moreover have "take (length ?pat) d = ?pat"
    using arg_cong [OF t, of "take (length ?pat)"] len by simp
  ultimately have "parse_round (?p\<lparr>mp_buf := d\<rparr>) empty_form = (None, ?q, empty_form)"
    using len by (simp add: parse_round_def multipart_parser_new_def dash_boundary_crlf_def buf_start_with_def Let_def buf_erase_def)
  moreover have "d \<noteq> []" using len by auto
  ultimately have loop: "parse_loop (?p\<lparr>mp_buf := d\<rparr>) empty_form = parse_loop ?q empty_form"
    by (subst parse_loop.simps) (simp add: multipart_parser_new_def)
  have rest: "mp_buf ?q @ concat ds' = ?z" using drop_prefix [OF t len] by simp
  have "awaits b ?q empty_form ?z (foldl enter_file (fm_files empty_form) (x # xs))"
    using assms(2,3) items by (intro new_entry) (simp_all add: multipart_parser_new_def empty_form_def empty_file_def)
  then have a: "awaits b ?q empty_form (mp_buf ?q @ concat ds') (foldl enter_file [] items)"
    unfolding rest by (simp add: items empty_form_def)
  from loop_awaits [OF a] obtain p' fm' where p': "parse_loop ?q empty_form = (True, p', fm')"
    "awaits b p' fm' (mp_buf p' @ concat ds') (foldl enter_file [] items)"
    "concat ds' = [] \<longrightarrow> mp_is_valid p' \<and> fm_files fm' = foldl enter_file [] items" by blast
  then have step: "feed receive_multipart ds (?p, empty_form) = feed receive_multipart ds' (p', fm')"
    using loop by (simp add: ds receive_multipart_def multipart_parser_new_def)
  show ?thesis
  proof (cases "ds' = []")
    case True
    with step p'(3) show ?thesis by (simp add: entered_files)
  next
    case False
    with feed_awaits [OF p'(2) False] step show ?thesis by (simp add: entered_files)
  qed
qed

text \<open>
  C39. A form written by the library is read back, in whatever pieces its text comes, if only the first
  piece holds the first boundary: the parser accepts every piece, ends valid, and the files of the
  form are its items ordered by name, those of one name in the order they were written.
\<close>

theorem form_reads_back:
  assumes "items \<noteq> []" "length items \<le> MULTIPART_FILE_MAX_COUNT" "list_all (form_item_ok b) items"
    and "concat ds = serialize_multipart_formdata items b True" "ds \<noteq> []" "length b + 4 \<le> length (hd ds)"
  shows "\<exists>p fm. feed receive_multipart ds (multipart_parser_new b, empty_form) = (True, p, fm) \<and> mp_is_valid p \<and>
    fm_files fm = map (\<lambda>x. (mf_name x, x)) (sort_key mf_name items)"
  using assms by (rule form_is_read)

definition sample_items :: "multipart_file list" where
  "sample_items =
     [\<lparr>mf_name = ''b'', mf_content = ''x'' @ crlf @ ''--'', mf_filename = ''f.txt'', mf_content_type = ''text/plain''\<rparr>,
      \<lparr>mf_name = ''a'', mf_content = [], mf_filename = [], mf_content_type = []\<rparr>]"

lemma sample_items_ok: "list_all (form_item_ok ''B'') sample_items"
proof -
  have "\<forall>c \<in> set ''text/plain''. \<not> is_space_or_tab c" by (simp add: is_space_or_tab_def)
  then have ct: "strip ''text/plain'' = ''text/plain''" by (rule strip_no_blanks)
  have "free_of (crlf @ ''--'' @ ''B'') (''x'' @ crlf @ ''--'')" by (simp add: free_of_def crlf_def)
  moreover have "length (''x'' @ crlf @ ''--'') \<le> string_max_size" by (simp add: crlf_def string_max_size_def)
  ultimately show ?thesis
    using ct by (simp add: sample_items_def form_item_ok_def disposition_line_def disposition_value_def HEADER_MAX_LENGTH_def strip_def)
qed

theorem form_reads_back_witness:
  "\<exists>p fm. feed receive_multipart
       [take 6 (serialize_multipart_formdata sample_items ''B'' True), drop 6 (serialize_multipart_formdata sample_items ''B'' True)]
       (multipart_parser_new ''B'', empty_form) = (True, p, fm) \<and> mp_is_valid p \<and>
     map fst (fm_files fm) = [''a'', ''b'']"
proof -
  let ?t = "serialize_multipart_formdata sample_items ''B'' True"
  have ne: "sample_items \<noteq> []" "length sample_items \<le> MULTIPART_FILE_MAX_COUNT"
    by (simp_all add: sample_items_def MULTIPART_FILE_MAX_COUNT_def)
  have len: "length ''B'' + 4 \<le> length (hd [take 6 ?t, drop 6 ?t])"
    by (simp add: serialize_tail sample_items_def crlf_def lines_text_def)
  have s: "map mf_name (sort_key mf_name sample_items) = [''a'', ''b'']"
    by (simp add: sample_items_def less_eq_char_def)
  show ?thesis
    using form_reads_back [OF ne sample_items_ok, of "[take 6 ?t, drop 6 ?t]", OF _ _ len] s
    by (auto simp: comp_def)
qed

text \<open>
  C40. Where a form is cut decides what it is read as: the text of a form of one item, handed over whole,
  gives the item; cut inside its first boundary line, it gives no file and leaves the parser without
  a valid form, as long as the boundary line does not occur again.
\<close>

theorem form_cut_in_boundary_is_lost:
  assumes "form_item_ok b x" "0 < k" "k < length b + 4" "t = serialize_multipart_formdata [x] b True"
    and "find_at (drop k t) (''--'' @ b @ crlf) 0 = None"
  shows "(\<exists>p fm. feed receive_multipart [t] (multipart_parser_new b, empty_form) = (True, p, fm) \<and> mp_is_valid p \<and>
      fm_files fm = [(mf_name x, x)]) \<and>
    (\<exists>p. feed receive_multipart [take k t, drop k t] (multipart_parser_new b, empty_form) = (True, p, empty_form) \<and>
      \<not> mp_is_valid p)"
proof
  have len: "length b + 4 \<le> length t" unfolding assms(4) serialize_tail by (simp add: crlf_def)
  then show "\<exists>p fm. feed receive_multipart [t] (multipart_parser_new b, empty_form) = (True, p, fm) \<and> mp_is_valid p \<and>
      fm_files fm = [(mf_name x, x)]"
    using form_is_read [of "[x]" b "[t]"] assms(1,4) by (simp add: MULTIPART_FILE_MAX_COUNT_def)
  have "receive_multipart (take k t) (multipart_parser_new b, empty_form) = (True, multipart_parser_new b, empty_form)"
    using assms(2,3) len by (intro first_piece_dropped) auto
  moreover have "receive_multipart (drop k t) (multipart_parser_new b, empty_form) = (True, multipart_parser_new b, empty_form)"
    using assms(3,5) len by (intro receive_without_boundary) (auto simp: buf_find_def)
  ultimately show "\<exists>p. feed receive_multipart [take k t, drop k t] (multipart_parser_new b, empty_form) = (True, p, empty_form) \<and>
      \<not> mp_is_valid p"
    by (simp add: multipart_parser_new_def)
qed

theorem form_cut_in_boundary_is_lost_witness:
  "let x = \<lparr>mf_name = ''n'', mf_content = ''v'', mf_filename = [], mf_content_type = []\<rparr>;
       t = serialize_multipart_formdata [x] ''B'' True
   in \<exists>p. feed receive_multipart [take 3 t, drop 3 t] (multipart_parser_new ''B'', empty_form) = (True, p, empty_form) \<and>
      \<not> mp_is_valid p"
proof -
  let ?x = "\<lparr>mf_name = ''n'', mf_content = ''v'', mf_filename = [], mf_content_type = []\<rparr>"
  let ?t = "serialize_multipart_formdata [?x] ''B'' True"
  have ok: "form_item_ok ''B'' ?x"
    by (simp add: form_item_ok_def disposition_line_def disposition_value_def HEADER_MAX_LENGTH_def strip_def
        free_of_def crlf_def string_max_size_def)
  have f: "find_at (drop 3 ?t) (''--'' @ ''B'' @ crlf) 0 = None"
    by (simp add: serialize_tail lines_text_def part_lines_def disposition_line_def disposition_value_def crlf_def
        find_at_def find_in.simps)
  show ?thesis
    unfolding Let_def by (rule conjunct2 [OF form_cut_in_boundary_is_lost [OF ok _ _ refl f]]) simp_all
qed

end
