(* ===== verification/Http_Pool.thy ===== *)
theory Http_Pool
  imports Vdb_Prelude "HOL-Library.Multiset"
begin

text \<open>
  httplib.h, \<^verbatim>\<open>ThreadPool\<close> and \<^verbatim>\<open>Server::listen_internal\<close>: the thread that listens puts every accepted
  connection into a queue, and the workers take them out and serve them. The threads are interleaved
  steps: what a thread does while it holds the mutex is one step, a notification is a step of its
  own, and a condition variable may wake a worker for no reason. Shown here: every accepted
  connection is served once and the connections are taken in their order, no wake-up is lost, and
  whatever the order of the steps, the workers come to the end of the queue, also when the server
  is stopped. What a job does to the state of the server is no part of this theory.
\<close>

section \<open>The threads\<close>

text \<open>
  A worker is at the head of its loop, in \<^verbatim>\<open>cond_.wait\<close>, in a job, or has left its loop. The
  listening thread is in \<^verbatim>\<open>accept\<close>, between the two halves of \<^verbatim>\<open>enqueue\<close> or of \<^verbatim>\<open>shutdown\<close>, in
  the joins, or has returned.
\<close>

datatype 'j worker = At_loop | Sleeping | Running 'j | Exited

datatype listener = Accepting | Notifying | Stopping | Notifying_all | Joining | Returned

text \<open>The last three fields record what happened: the jobs in the order they came, were taken, and ended.\<close>

record 'j pool =
  jobs :: "'j list"
  shutdown_flag :: bool
  workers :: "'j worker list"
  listener :: listener
  srv_open :: bool
  listen_ret :: bool
  enqueued :: "'j list"
  taken :: "'j list"
  finished :: "'j list"

definition ThreadPool_new :: "nat \<Rightarrow> 'j pool" where
  "ThreadPool_new n =
     \<lparr>jobs = [], shutdown_flag = False, workers = replicate n At_loop, listener = Accepting, srv_open = True,
      listen_ret = True, enqueued = [], taken = [], finished = []\<rparr>"

section \<open>The operations\<close>

definition enqueue_push :: "'j \<Rightarrow> 'j pool \<Rightarrow> 'j pool" where
  "enqueue_push j p = p\<lparr>jobs := jobs p @ [j], listener := Notifying, enqueued := enqueued p @ [j]\<rparr>"

definition set_worker :: "nat \<Rightarrow> 'j worker \<Rightarrow> 'j pool \<Rightarrow> 'j pool" where
  "set_worker i w p = p\<lparr>workers := (workers p)[i := w]\<rparr>"

text \<open>
  The loop of a worker up to the next point where others can act: the wait for its condition, the
  exit, a job taken from the front, and a job that has returned.
\<close>

definition worker_turn :: "nat \<Rightarrow> 'j pool \<Rightarrow> 'j pool" where
  "worker_turn i p =
     (case workers p ! i of
        At_loop \<Rightarrow>
          if \<not> (jobs p \<noteq> [] \<or> shutdown_flag p) then set_worker i Sleeping p
          else if shutdown_flag p \<and> jobs p = [] then set_worker i Exited p
          else (set_worker i (Running (hd (jobs p))) p)\<lparr>jobs := tl (jobs p), taken := taken p @ [hd (jobs p)]\<rparr>
      | Running j \<Rightarrow> (set_worker i At_loop p)\<lparr>finished := finished p @ [j]\<rparr>
      | w \<Rightarrow> p)"

definition wake :: "'j worker \<Rightarrow> 'j worker" where
  "wake w = (case w of Sleeping \<Rightarrow> At_loop | _ \<Rightarrow> w)"

definition shutdown_begin :: "'j pool \<Rightarrow> 'j pool" where
  "shutdown_begin p = p\<lparr>shutdown_flag := True, listener := Notifying_all\<rparr>"

definition notify_all :: "'j pool \<Rightarrow> 'j pool" where
  "notify_all p = p\<lparr>workers := map wake (workers p), listener := Joining\<rparr>"

text \<open>
  What \<^verbatim>\<open>accept\<close> gives, and what the loop does with it; the server socket is invalid once \<^verbatim>\<open>stop\<close>
  was called.
\<close>

datatype 'j accepted = Connection 'j | Out_of_files | Try_again | Accept_failed

definition accept_turn :: "'j accepted \<Rightarrow> 'j pool \<Rightarrow> 'j pool" where
  "accept_turn r p =
     (case r of
        Connection j \<Rightarrow> enqueue_push j p
      | Out_of_files \<Rightarrow> p
      | Try_again \<Rightarrow> p
      | Accept_failed \<Rightarrow> p\<lparr>listen_ret := \<not> srv_open p, listener := Stopping\<rparr>)"

definition Server_stop :: "'j pool \<Rightarrow> 'j pool" where
  "Server_stop p = p\<lparr>srv_open := False\<rparr>"

section \<open>Steps\<close>

text \<open>
  \<open>work_step\<close> are the steps the threads take by themselves; the rest of \<open>pool_step\<close> is what
  comes from outside: connections, \<^verbatim>\<open>stop\<close>, wake-ups for no reason.
\<close>

inductive work_step :: "'j pool \<Rightarrow> 'j pool \<Rightarrow> bool" where
  turn: "i < length (workers p) \<Longrightarrow> workers p ! i \<noteq> Sleeping \<Longrightarrow> workers p ! i \<noteq> Exited \<Longrightarrow>
    work_step p (worker_turn i p)"
| notify_one: "listener p = Notifying \<Longrightarrow> i < length (workers p) \<Longrightarrow> workers p ! i = Sleeping \<Longrightarrow>
    work_step p ((set_worker i At_loop p)\<lparr>listener := Accepting\<rparr>)"
| notify_nobody: "listener p = Notifying \<Longrightarrow> Sleeping \<notin> set (workers p) \<Longrightarrow> work_step p (p\<lparr>listener := Accepting\<rparr>)"
| loop_ends: "listener p = Accepting \<Longrightarrow> \<not> srv_open p \<Longrightarrow> work_step p (p\<lparr>listener := Stopping\<rparr>)"
| shutdown: "listener p = Stopping \<Longrightarrow> work_step p (shutdown_begin p)"
| notify_all: "listener p = Notifying_all \<Longrightarrow> work_step p (notify_all p)"
| joined: "listener p = Joining \<Longrightarrow> set (workers p) \<subseteq> {Exited} \<Longrightarrow> work_step p (p\<lparr>listener := Returned\<rparr>)"

inductive pool_step :: "'j pool \<Rightarrow> 'j pool \<Rightarrow> bool" where
  work: "work_step p q \<Longrightarrow> pool_step p q"
| accept: "listener p = Accepting \<Longrightarrow> pool_step p (accept_turn r p)"
| stop: "pool_step p (Server_stop p)"
| spurious: "i < length (workers p) \<Longrightarrow> workers p ! i = Sleeping \<Longrightarrow> pool_step p (set_worker i At_loop p)"

inductive pool_reachable :: "nat \<Rightarrow> 'j pool \<Rightarrow> bool" for n where
  start: "pool_reachable n (ThreadPool_new n)"
| step: "pool_reachable n p \<Longrightarrow> pool_step p q \<Longrightarrow> pool_reachable n q"

section \<open>The invariant\<close>

definition in_hand :: "'j worker \<Rightarrow> 'j multiset" where
  "in_hand w = (case w of Running j \<Rightarrow> {#j#} | _ \<Rightarrow> {#})"

definition jobs_in_hand :: "'j worker list \<Rightarrow> 'j multiset" where
  "jobs_in_hand ws = sum_list (map in_hand ws)"

definition at_loop :: "'j worker list \<Rightarrow> nat" where
  "at_loop ws = sum_list (map (\<lambda>w. if w = At_loop then 1 else 0) ws)"

text \<open>
  The jobs that came are those taken and those in the queue; those taken are ended or in the hands
  of a worker. If a worker sleeps, then for every job in the queue a worker is awake or about to be
  woken, and no worker sleeps once the threads are joined. A worker exits on an empty
  queue after the shutdown began.
\<close>

definition pool_inv :: "nat \<Rightarrow> 'j pool \<Rightarrow> bool" where
  "pool_inv n p \<longleftrightarrow>
     length (workers p) = n \<and>
     enqueued p = taken p @ jobs p \<and>
     mset (taken p) = mset (finished p) + jobs_in_hand (workers p) \<and>
     (Sleeping \<in> set (workers p) \<longrightarrow>
        length (jobs p) \<le> at_loop (workers p) + (if listener p = Notifying then 1 else 0) \<and>
        listener p \<noteq> Joining \<and> listener p \<noteq> Returned) \<and>
     (Exited \<in> set (workers p) \<longrightarrow> shutdown_flag p \<and> jobs p = []) \<and>
     (shutdown_flag p \<longleftrightarrow> listener p \<in> {Notifying_all, Joining, Returned})"

lemma sum_list_update_move:
  fixes f :: "'w \<Rightarrow> 'a :: comm_monoid_add"
  assumes "i < length ws"
  shows "sum_list (map f (ws[i := w])) + f (ws ! i) = sum_list (map f ws) + f w"
  using assms by (subst (2) id_take_nth_drop [OF assms]) (simp add: upd_conv_take_nth_drop ac_simps)

lemma jobs_in_hand_update:
  "i < length ws \<Longrightarrow> jobs_in_hand (ws[i := w]) + in_hand (ws ! i) = jobs_in_hand ws + in_hand w"
  unfolding jobs_in_hand_def by (rule sum_list_update_move)

lemma at_loop_update:
  assumes "i < length ws"
  shows "at_loop (ws[i := w]) + (if ws ! i = At_loop then 1 else 0) = at_loop ws + (if w = At_loop then 1 else 0)"
  unfolding at_loop_def by (rule sum_list_update_move [OF assms])

lemma at_loop_pos: "i < length ws \<Longrightarrow> ws ! i = At_loop \<Longrightarrow> 1 \<le> at_loop ws"
  using at_loop_update [of i ws Exited] by simp

lemma jobs_in_hand_wake: "jobs_in_hand (map wake ws) = jobs_in_hand ws"
proof -
  have "in_hand (wake w) = in_hand w" for w :: "'a worker" by (simp add: wake_def in_hand_def split: worker.split)
  then show ?thesis by (simp add: jobs_in_hand_def comp_def)
qed

lemma wake_not_sleeping: "Sleeping \<notin> wake ` set ws"
  by (auto simp: wake_def split: worker.splits)

lemma wake_exited: "Exited \<in> wake ` set ws \<longleftrightarrow> Exited \<in> set ws"
proof -
  have "wake w = Exited \<longleftrightarrow> w = Exited" for w :: "'a worker" by (simp add: wake_def split: worker.split)
  then show ?thesis by (metis image_iff)
qed

lemma set_list_update: "i < length ws \<Longrightarrow> x \<in> set (ws[i := w]) \<Longrightarrow> x = w \<or> x \<in> set ws"
  using set_update_subset_insert by fastforce

lemma pool_invI:
  assumes "length (workers p) = n" "enqueued p = taken p @ jobs p"
    and "mset (taken p) = mset (finished p) + jobs_in_hand (workers p)"
    and "Sleeping \<in> set (workers p) \<Longrightarrow> length (jobs p) \<le> at_loop (workers p) + (if listener p = Notifying then 1 else 0)"
    and "Sleeping \<in> set (workers p) \<Longrightarrow> listener p \<noteq> Joining \<and> listener p \<noteq> Returned"
    and "Exited \<in> set (workers p) \<Longrightarrow> shutdown_flag p \<and> jobs p = []"
    and "shutdown_flag p \<longleftrightarrow> listener p \<in> {Notifying_all, Joining, Returned}"
  shows "pool_inv n p"
  unfolding pool_inv_def using assms by simp

lemma pool_invD:
  assumes "pool_inv n p"
  shows "length (workers p) = n" "enqueued p = taken p @ jobs p"
    and "mset (taken p) = mset (finished p) + jobs_in_hand (workers p)"
    and "Sleeping \<in> set (workers p) \<Longrightarrow> length (jobs p) \<le> at_loop (workers p) + (if listener p = Notifying then 1 else 0)"
    and "Sleeping \<in> set (workers p) \<Longrightarrow> listener p \<noteq> Joining \<and> listener p \<noteq> Returned"
    and "Exited \<in> set (workers p) \<Longrightarrow> shutdown_flag p \<and> jobs p = []"
    and "shutdown_flag p \<longleftrightarrow> listener p \<in> {Notifying_all, Joining, Returned}"
  using assms unfolding pool_inv_def by blast+

lemma turn_cases:
  assumes "i < length (workers p)" "workers p ! i \<noteq> Sleeping" "workers p ! i \<noteq> Exited"
  obtains (sleep) "workers p ! i = At_loop" "jobs p = []" "\<not> shutdown_flag p" "worker_turn i p = set_worker i Sleeping p"
  | (leave) "workers p ! i = At_loop" "jobs p = []" "shutdown_flag p" "worker_turn i p = set_worker i Exited p"
  | (take) j js where "workers p ! i = At_loop" "jobs p = j # js"
      "worker_turn i p = (set_worker i (Running j) p)\<lparr>jobs := js, taken := taken p @ [j]\<rparr>"
  | (finish) j where "workers p ! i = Running j"
      "worker_turn i p = (set_worker i At_loop p)\<lparr>finished := finished p @ [j]\<rparr>"
proof (cases "workers p ! i")
  case At_loop
  then show ?thesis
    using sleep leave take by (cases "jobs p"; cases "shutdown_flag p") (simp_all add: worker_turn_def)
next
  case (Running j)
  then show ?thesis using finish by (simp add: worker_turn_def)
qed (use assms in simp_all)

lemma set_worker_simps [simp]:
  "workers (set_worker i w p) = (workers p)[i := w]" "jobs (set_worker i w p) = jobs p"
  "shutdown_flag (set_worker i w p) = shutdown_flag p" "listener (set_worker i w p) = listener p"
  "srv_open (set_worker i w p) = srv_open p"
  "enqueued (set_worker i w p) = enqueued p" "taken (set_worker i w p) = taken p" "finished (set_worker i w p) = finished p"
  by (simp_all add: set_worker_def)

lemma pool_inv_turn:
  assumes "pool_inv n p" "i < length (workers p)" "workers p ! i \<noteq> Sleeping" "workers p ! i \<noteq> Exited"
  shows "pool_inv n (worker_turn i p)"
proof -
  note inv = pool_invD [OF assms(1)]
  have mem: "x \<in> set (workers p)" if "x \<in> set ((workers p)[i := w])" "x \<noteq> w" for x w
    using set_list_update [OF assms(2) that(1)] that(2) by simp
  note hand = jobs_in_hand_update [OF assms(2)] and loop = at_loop_update [OF assms(2)]
  show ?thesis
  proof (rule turn_cases [OF assms(2-4)])
    assume a: "workers p ! i = At_loop" "jobs p = []" "\<not> shutdown_flag p" and q: "worker_turn i p = set_worker i Sleeping p"
    show ?thesis
      unfolding q using a inv(1,2,3,7) inv(6) [OF mem [of Exited Sleeping]] hand [of Sleeping]
      by (intro pool_invI) (simp_all add: in_hand_def)
  next
    assume a: "workers p ! i = At_loop" "jobs p = []" "shutdown_flag p" and q: "worker_turn i p = set_worker i Exited p"
    show ?thesis
      unfolding q using a inv(1,2,3,7) inv(5) [OF mem [of Sleeping Exited]] hand [of Exited]
      by (intro pool_invI) (simp_all add: in_hand_def)
  next
    fix j js
    assume a: "workers p ! i = At_loop" "jobs p = j # js"
      and q: "worker_turn i p = (set_worker i (Running j) p)\<lparr>jobs := js, taken := taken p @ [j]\<rparr>"
    have "Exited \<notin> set (workers p)" using inv(6) a(2) by auto
    with mem [of Exited "Running j"] have e: "Exited \<notin> set ((workers p)[i := Running j])" by auto
    show ?thesis
      unfolding q using a e inv(1,2,3,7) inv(4,5) [OF mem [of Sleeping "Running j"]] hand [of "Running j"] loop [of "Running j"]
      by (intro pool_invI) (simp_all add: in_hand_def)
  next
    fix j
    assume a: "workers p ! i = Running j" and q: "worker_turn i p = (set_worker i At_loop p)\<lparr>finished := finished p @ [j]\<rparr>"
    have l: "at_loop ((workers p)[i := At_loop]) = Suc (at_loop (workers p))" using loop [of At_loop] a by simp
    show ?thesis
      unfolding q using a inv(1,2,3,7) inv(4,5) [OF mem [of Sleeping At_loop]] inv(6) [OF mem [of Exited At_loop]] hand [of At_loop] l
      by (intro pool_invI) (simp_all add: in_hand_def ac_simps)
  qed
qed

lemma pool_inv_wake_one:
  assumes "pool_inv n p" "i < length (workers p)" "workers p ! i = Sleeping"
  shows "pool_inv n (set_worker i At_loop p)"
    and "listener p = Notifying \<Longrightarrow> pool_inv n ((set_worker i At_loop p)\<lparr>listener := Accepting\<rparr>)"
proof -
  note inv = pool_invD [OF assms(1)]
  have hand: "jobs_in_hand ((workers p)[i := At_loop]) = jobs_in_hand (workers p)"
    using jobs_in_hand_update [OF assms(2), of At_loop] assms(3) by (simp add: in_hand_def)
  have loop: "at_loop ((workers p)[i := At_loop]) = Suc (at_loop (workers p))"
    using at_loop_update [OF assms(2), of At_loop] assms(3) by simp
  have mem: "x \<in> set (workers p)" if "x \<in> set ((workers p)[i := At_loop])" "x \<noteq> At_loop" for x
    using set_list_update [OF assms(2) that(1)] that(2) by simp
  have s: "Sleeping \<in> set (workers p)" using assms(2,3) by (metis nth_mem)
  show "pool_inv n (set_worker i At_loop p)"
    using inv(1,2,3,7) inv(4,5) [OF s] inv(6) [OF mem [of Exited]] hand loop by (intro pool_invI) simp_all
  show "pool_inv n ((set_worker i At_loop p)\<lparr>listener := Accepting\<rparr>)" if "listener p = Notifying"
    using that inv(1,2,3,7) inv(4) [OF s] inv(6) [OF mem [of Exited]] hand loop by (intro pool_invI) simp_all
qed

lemma pool_inv_work: "work_step p q \<Longrightarrow> pool_inv n p \<Longrightarrow> pool_inv n q"
proof (induction rule: work_step.induct)
  case (turn i p)
  then show ?case by (intro pool_inv_turn)
next
  case (notify_one p i)
  then show ?case by (intro pool_inv_wake_one(2))
next
  case (notify_all p)
  then show ?case using pool_invD(1,2,3,7) [OF notify_all(2)] pool_invD(6) [OF notify_all(2)]
    by (intro pool_invI) (simp_all add: notify_all_def jobs_in_hand_wake wake_not_sleeping wake_exited)
qed (auto simp: pool_inv_def shutdown_begin_def)

lemma pool_inv_step: "pool_step p q \<Longrightarrow> pool_inv n p \<Longrightarrow> pool_inv n q"
proof (induction rule: pool_step.induct)
  case (work p q)
  then show ?case by (rule pool_inv_work)
next
  case (accept p r)
  note inv = pool_invD [OF accept(2)]
  have "pool_inv n (enqueue_push j p)" for j
    using accept(1) inv(1,2,3,4,6,7) by (intro pool_invI) (simp_all add: enqueue_push_def)
  moreover have "pool_inv n (p\<lparr>listen_ret := \<not> srv_open p, listener := Stopping\<rparr>)"
    using accept(1) inv by (intro pool_invI) simp_all
  ultimately show ?case using accept(2) by (cases r) (simp_all add: accept_turn_def)
next
  case (stop p)
  then show ?case by (auto simp: pool_inv_def Server_stop_def)
next
  case (spurious i p)
  then show ?case by (intro pool_inv_wake_one(1))
qed

lemma pool_inv_new: "pool_inv n (ThreadPool_new n)"
proof -
  have "jobs_in_hand (replicate n At_loop) = {#}" by (induction n) (simp_all add: jobs_in_hand_def in_hand_def)
  then show ?thesis by (simp add: pool_inv_def ThreadPool_new_def)
qed

lemma reachable_inv: "pool_reachable n p \<Longrightarrow> pool_inv n p"
  by (induction rule: pool_reachable.induct) (auto intro: pool_inv_new pool_inv_step)

section \<open>The workers come to an end\<close>

definition worker_weight :: "'j worker \<Rightarrow> nat" where
  "worker_weight w = (case w of At_loop \<Rightarrow> 1 | Sleeping \<Rightarrow> 0 | Running j \<Rightarrow> 2 | Exited \<Rightarrow> 0)"

definition listener_weight :: "nat \<Rightarrow> listener \<Rightarrow> nat" where
  "listener_weight n l =
     (case l of Accepting \<Rightarrow> n + 4 | Notifying \<Rightarrow> n + 6 | Stopping \<Rightarrow> n + 3 | Notifying_all \<Rightarrow> n + 2 | Joining \<Rightarrow> 1 | Returned \<Rightarrow> 0)"

text \<open>A bound on the number of steps the threads can take by themselves.\<close>

definition work_left :: "'j pool \<Rightarrow> nat" where
  "work_left p = 2 * length (jobs p) + sum_list (map worker_weight (workers p)) +
     listener_weight (length (workers p)) (listener p)"

lemma weight_update:
  "i < length ws \<Longrightarrow> sum_list (map worker_weight (ws[i := w])) + worker_weight (ws ! i) =
    sum_list (map worker_weight ws) + worker_weight w"
  by (rule sum_list_update_move)

lemma wake_weight: "sum_list (map worker_weight (map wake ws)) \<le> sum_list (map worker_weight ws) + length ws"
proof (induction ws)
  case (Cons w ws)
  have "worker_weight (wake w) \<le> worker_weight w + 1" by (simp add: worker_weight_def wake_def split: worker.split)
  with Cons show ?case by simp
qed simp

lemma work_decreases: "work_step p q \<Longrightarrow> work_left q < work_left p"
proof (induction rule: work_step.induct)
  case (turn i p)
  note w = weight_update [OF turn(1)]
  from turn show ?case
  proof (rule turn_cases)
    assume "workers p ! i = At_loop" "worker_turn i p = set_worker i Sleeping p"
    then show ?case using w [of Sleeping] by (simp add: work_left_def worker_weight_def)
  next
    assume "workers p ! i = At_loop" "worker_turn i p = set_worker i Exited p"
    then show ?case using w [of Exited] by (simp add: work_left_def worker_weight_def)
  next
    fix j js
    assume "workers p ! i = At_loop" "jobs p = j # js"
      "worker_turn i p = (set_worker i (Running j) p)\<lparr>jobs := js, taken := taken p @ [j]\<rparr>"
    then show ?case using w [of "Running j"] by (simp add: work_left_def worker_weight_def)
  next
    fix j
    assume "workers p ! i = Running j" "worker_turn i p = (set_worker i At_loop p)\<lparr>finished := finished p @ [j]\<rparr>"
    then show ?case using w [of At_loop] by (simp add: work_left_def worker_weight_def)
  qed
next
  case (notify_one p i)
  then show ?case using weight_update [of i "workers p" At_loop]
    by (simp add: work_left_def listener_weight_def worker_weight_def)
next
  case (notify_all p)
  then show ?case using wake_weight [of "workers p"] by (simp add: work_left_def listener_weight_def notify_all_def)
qed (simp_all add: work_left_def listener_weight_def shutdown_begin_def)

lemma work_keeps: "work_step p q \<Longrightarrow> enqueued q = enqueued p \<and> srv_open q = srv_open p"
proof (induction rule: work_step.induct)
  case (turn i p)
  then show ?case by (rule turn_cases) simp_all
qed (simp_all add: shutdown_begin_def notify_all_def)

lemma works_keep: "work_step\<^sup>*\<^sup>* p q \<Longrightarrow> enqueued q = enqueued p \<and> srv_open q = srv_open p"
  by (induction rule: rtranclp_induct) (auto dest: work_keeps)

lemma works_inv: "work_step\<^sup>*\<^sup>* p q \<Longrightarrow> pool_inv n p \<Longrightarrow> pool_inv n q"
  by (induction rule: rtranclp_induct) (auto intro: pool_inv_work)

lemma idle_pool:
  assumes "pool_inv n p" "0 < n" "\<And>q. \<not> work_step p q"
  shows "jobs p = []" "mset (finished p) = mset (enqueued p)" "listener p = Returned \<or> listener p = Accepting \<and> srv_open p"
proof -
  note inv = pool_invD [OF assms(1)]
  have idle: "w = Sleeping \<or> w = Exited" if "w \<in> set (workers p)" for w
    using that assms(3) turn by (metis in_set_conv_nth)
  have l: "listener p \<noteq> Notifying" "listener p \<noteq> Stopping" "listener p \<noteq> Notifying_all" "listener p = Accepting \<Longrightarrow> srv_open p"
    using assms(3) notify_one notify_nobody shutdown notify_all loop_ends by (metis in_set_conv_nth)+
  have "at_loop (workers p) = 0" unfolding at_loop_def using idle by (auto simp: sum_list_eq_0_iff)
  moreover have "workers p \<noteq> []" using inv(1) assms(2) by auto
  then have "Sleeping \<in> set (workers p) \<or> Exited \<in> set (workers p)" using idle by (cases "workers p") auto
  ultimately show j: "jobs p = []" using inv(4,6) l(1) by auto
  have "jobs_in_hand (workers p) = {#}"
  proof -
    have "\<forall>w \<in> set (workers p). in_hand w = {#}" using idle by (fastforce simp: in_hand_def)
    then show ?thesis unfolding jobs_in_hand_def by (induction "workers p") (simp_all add: sum_list_0 cong: map_cong)
  qed
  with inv(2,3) j show "mset (finished p) = mset (enqueued p)" by simp
  have "listener p \<noteq> Joining"
  proof
    assume "listener p = Joining"
    moreover from this have "set (workers p) \<subseteq> {Exited}" using idle inv(5) by auto
    ultimately show False using assms(3) joined by blast
  qed
  with l show "listener p = Returned \<or> listener p = Accepting \<and> srv_open p" by (cases "listener p") auto
qed

lemma works_end: "\<exists>q. work_step\<^sup>*\<^sup>* p q \<and> (\<forall>q'. \<not> work_step q q')"
proof (induction "work_left p" arbitrary: p rule: less_induct)
  case less
  show ?case
  proof (cases "\<exists>q. work_step p q")
    case True
    then obtain q where q: "work_step p q" by blast
    from less [OF work_decreases [OF q]] q show ?thesis by (blast intro: converse_rtranclp_into_rtranclp)
  qed blast
qed

lemma no_endless_work: "\<not> (\<forall>i. work_step (f i) (f (Suc i)))"
proof
  assume a: "\<forall>i. work_step (f i) (f (Suc i))"
  have "work_left (f i) + i \<le> work_left (f 0)" for i
  proof (induction i)
    case (Suc i)
    with work_decreases [OF a [rule_format, of i]] show ?case by simp
  qed simp
  from this [of "Suc (work_left (f 0))"] show False by simp
qed

text \<open>
  At any time the accepted connections are those taken and then those in the queue, and those taken
  are served or in the hands of a worker.
\<close>

lemma pool_takes_each_once:
  assumes "pool_reachable n p"
  shows "enqueued p = taken p @ jobs p" "mset (taken p) = mset (finished p) + jobs_in_hand (workers p)"
  using pool_invD(2,3) [OF reachable_inv [OF assms]] by blast+

text \<open>
  C8. Whatever the order in which the threads run, they come to rest, and then every accepted
  connection has been served, once, the connections having been taken in the order of acceptance: no
  wake-up is lost. A server that was stopped has then returned from
  \<^verbatim>\<open>listen\<close>, after the whole queue was served; otherwise it waits for the next connection.
\<close>

theorem pool_serves_all:
  assumes "pool_reachable n p" "0 < n"
  shows "\<not> (\<exists>f. f 0 = p \<and> (\<forall>i. work_step (f i) (f (Suc i)))) \<and>
    (\<exists>q. work_step\<^sup>*\<^sup>* p q \<and> (\<forall>q'. \<not> work_step q q')) \<and>
    (\<forall>q. work_step\<^sup>*\<^sup>* p q \<and> (\<forall>q'. \<not> work_step q q') \<longrightarrow>
      taken q = enqueued p \<and> mset (finished q) = mset (enqueued p) \<and>
      (listener q = Returned \<or> listener q = Accepting \<and> srv_open p))"
proof (intro conjI allI impI)
  show "\<not> (\<exists>f. f 0 = p \<and> (\<forall>i. work_step (f i) (f (Suc i))))" using no_endless_work by blast
  show "\<exists>q. work_step\<^sup>*\<^sup>* p q \<and> (\<forall>q'. \<not> work_step q q')" by (rule works_end)
  fix q assume q: "work_step\<^sup>*\<^sup>* p q \<and> (\<forall>q'. \<not> work_step q q')"
  then have i: "pool_inv n q" using works_inv reachable_inv [OF assms(1)] by blast
  note idle = idle_pool [OF i assms(2)] and kept = works_keep [of p q]
  show "taken q = enqueued p" using pool_invD(2) [OF i] idle(1) kept q by auto
  show "mset (finished q) = mset (enqueued p)" "listener q = Returned \<or> listener q = Accepting \<and> srv_open p"
    using idle kept q by auto
qed

definition sample_pool :: "nat pool" where
  "sample_pool = Server_stop (accept_turn (Connection 7) (ThreadPool_new 2))"

lemma sample_pool_reachable: "pool_reachable 2 sample_pool"
  unfolding sample_pool_def
  by (intro pool_reachable.step [OF _ pool_step.stop] pool_reachable.step [OF pool_reachable.start] pool_step.accept)
     (simp add: ThreadPool_new_def)

theorem pool_serves_all_witness:
  "\<exists>q. work_step\<^sup>*\<^sup>* sample_pool q \<and> finished q = [7] \<and> listener q = Returned"
proof -
  note s = pool_serves_all [OF sample_pool_reachable]
  obtain q where q: "work_step\<^sup>*\<^sup>* sample_pool q" "\<forall>q'. \<not> work_step q q'" using s by auto
  then have "mset (finished q) = mset (enqueued sample_pool)" "listener q = Returned \<or> listener q = Accepting \<and> srv_open sample_pool"
    using s by auto
  moreover have "enqueued sample_pool = [7]" "\<not> srv_open sample_pool"
    by (simp_all add: sample_pool_def Server_stop_def accept_turn_def enqueue_push_def ThreadPool_new_def)
  ultimately show ?thesis using q(1) by auto
qed

end
