(* ===== verification/Spec2Isabelle.thy ===== *)
theory Spec2Isabelle
  imports Server_Main Logger_Mgr Vector_Similarity Annoy_Wrapper Http_Service Http_Form Http_Pool
begin

text \<open>
  A vector database in C++ (learn_vector_db), modelled as Isabelle functions translated from its
  sources.

  \<^bold>\<open>The program.\<close> A node of the database is one process. \<^verbatim>\<open>vdb_server.cpp\<close> reads a configuration
  file, makes the indexes, opens the database, replays its log, starts Raft and an HTTP server. A
  write (\<^verbatim>\<open>/upsert\<close>) goes through Raft: the HTTP handler appends the request body as an entry, the
  Raft log store of every node writes it to the write-ahead log of its database, and the state
  machine applies it by \<^verbatim>\<open>VectorDatabase::upsert\<close> once it is committed. An upsert writes the vector
  to a flat or HNSW index, the integer fields to a filter index of bitmaps, and the document to
  RocksDB. A search (\<^verbatim>\<open>/search\<close>) asks the vector index for the nearest vectors, restricted to the
  bitmap of a filter when the request has one. A snapshot (\<^verbatim>\<open>/admin/snapshot\<close>) saves the indexes;
  a restart loads it and replays the operations logged after it. Besides that the repository has
  the file logger NuRaft logs through, an in-memory similarity search, and an Annoy index that the
  index factory does not use yet.

  \<^bold>\<open>Theories and sources.\<close>

  \<^item> Vdb_Prelude, Vdb_Strings: failures as values (an exception is \<open>Throw\<close>, the end of the process
    is \<open>Abort\<close>), \<^verbatim>\<open>std::map\<close> as a key-sorted list (locale \<open>std_map\<close>), \<^verbatim>\<open>std::getline\<close>, the number
    conversions of the standard library.
  \<^item> Vdb_Json (constants.h and the selectors of rapidjson), Vdb_Libs (the libraries that are not in
    the repository: CRoaring, RocksDB, Faiss, hnswlib, files), Vdb_Instances (concrete ones).
  \<^item> Scalar_Storage (scalar_storage.cpp), Filter_Index (filter_index.cpp; locale \<open>field_filter\<close>),
    Faiss_Index (faiss_index.cpp; locale \<open>id_filtered_search\<close>), Hnsw_Index (hnswlib_index.cpp),
    Index_Factory (index_factory.cpp), Wal_Persistence (persistence.cpp).
  \<^item> Vector_Database (vector_database.cpp): \<open>upsert\<close>, \<open>vdb_query\<close>, \<open>vdb_search\<close>, \<open>reloadDatabase\<close>.
    Hybrid_Search: the agreement of storage, filter index and flat index, and what a filtered
    search returns. Vector_Recovery: the log as a list of records and what a restart does.
    Type_Safety: the discipline behind the casts of the index factory.
  \<^item> Raft_Libs, Raft_Instances (NuRaft), Log_Store (in_memory_log_store.cpp), State_Machine
    (log_state_machine.cpp), Raft_Node (in_memory_state_mgr.h, raft_stuff.cpp).
  \<^item> Http_Server (http_server.cpp, with the handlers' results as statuses), Server_Main (vdb_server.cpp, logger.cpp, and the running server as the step relation
    \<open>server_step\<close>).
  \<^item> The server side of httplib.h, which http_server.cpp runs on. Http_Codec: escapes, fields, query
    texts, file paths. Http_Stream: \<^verbatim>\<open>SocketStream\<close> with its read buffer over the pieces the peer
    sends, and lines. Http_Message: headers, and contents with a length, without one, or in chunks
    (locale \<open>piecewise_receiver\<close>). Http_Ranges: byte ranges. Http_Multipart: the form parser; Http_Form: writing forms and
    reading them back (\<open>awaits\<close>).
    Http_Pipeline: a request from its first line to its answer (\<open>process_request\<close>) and the loop over a
    connection (\<open>connection_loop\<close>), and the handlers of http_server.cpp as its handlers.
    Http_Service: what the two do together, from the bytes received to the bytes sent. Http_Pool:
    the thread that accepts connections and the workers that serve them (\<open>work_step\<close>, \<open>pool_step\<close>).
  \<^item> Log_Elem, Log_Format, Log_Files, Raft_Logger, Stack_Trace, Logger_Mgr (raft_logger.cpp,
    raft_logger.h, raft_logger_wrapper.h, backtrace.h): a slot of the ring with interleaved writers and flushers
    (\<open>elem_step\<close>), the text of a line, file names and rotation numbers, a logger (locale
    \<open>line_queue\<close>), stack traces, the manager with its worker threads and crash handlers.
  \<^item> Vector_Similarity (in_mem_vector_similarity.h; locale \<open>total_queue\<close>).
  \<^item> Annoy_Lib (the class \<^verbatim>\<open>AnnoyIndex\<close> of third_party/annoy/src/annoylib.h: a forest in one array
    of nodes), Annoy_Metrics (its two metrics that are used, and kissrandom.h), Annoy_Forest (what
    a build makes and a search finds), Annoy_Wrapper (annoy_index.cpp: the index object and the
    sequences of calls it can see, \<open>annoy_reachable\<close>).

  \<^bold>\<open>How code is modelled.\<close> A class is a record of its fields, a method a function from the state to
  a result and the new state, with its early returns and failures as branches. 64-bit and 32-bit
  integers are words; an \<^verbatim>\<open>int\<close> is an integer whose overflow is an \<open>Abort\<close> where it can happen.
  Pointers are options, so following a null pointer is visible, as is a cast to the wrong class.
  Unsynchronised reads and writes of one log slot are interleaved steps; every other operation is
  one step, taken under its lock in the code. Loops are recursive functions with a termination
  proof where they end: \<open>reload_loop\<close>, \<open>read_wal_loop\<close>, \<open>deserialize_lines\<close> and
  \<open>read_config_loop\<close> by the length of what is left of the file. Where a loop of the code can run
  forever it is a \<open>partial_function\<close> (\<open>compact_loop\<close>, \<open>replaceString\<close>, \<open>randomize_sides\<close>,
  \<open>make_tree\<close>, \<open>build_loop\<close>, \<open>search_loop\<close>), and the properties state when it returns: building
  an Annoy index returns if the random generator does not put all items on one side for ever
  (\<open>draws_end\<close>), and searching a built one always returns.

  \<^bold>\<open>What is shown.\<close> The central group: after upserts, and after a restart that replays the log,
  document storage, filter index and flat index agree, so a filtered search returns only ids whose
  stored document satisfies the filter, up to the answer of \<^verbatim>\<open>/search\<close>; a running server follows
  no null pointer and makes no wrong cast in any sequence of requests, commits and log writes. The
  log store is a list of entries with a base (append, overwrite after a conflict, reads,
  compaction); a commit does to the database what replaying its line does. The pieces: paging of
  the scalar storage, the filter index and its text form, snapshots, configuration file, Raft
  node information, error answers. The logger: a ring and its rotated files are one queue of
  lines, interleaved writers lose nothing, the compressor empties its queue, what is cut from a
  long line. The Annoy index: trees over exactly the inserted items, the nearest items from a large
  enough search, answers of exactly \<open>k\<close> slots. The HTTP library: a connection serves
  its requests in order and its bytes are those of the handlers' answers, headers, chunks, forms
  and query texts are read back as they were written, the workers serve every accepted connection, ranges select what they name, malformed request lines
  change nothing. Several properties state a flaw of the code as it is: stale filter entries after a
  replay, an upsert on a follower that reports success, an assertion a request can trigger, a
  missing configuration file that follows a null pointer, a similarity search that returns the
  least similar vectors, an Annoy index that an insertion after a search makes useless, a
  pipelined request that is never answered, and a form
  that is lost when it is cut in its first boundary.

  \<^bold>\<open>Parameters.\<close> Code outside the repository is an argument of the definitions that use it
  (\<open>libs\<close>, \<open>nuraft\<close>, \<open>raft_server\<close>, \<open>state_codec\<close>, \<open>log_host\<close>, \<open>crash_host\<close>, \<open>float_ops\<close>,
  \<open>annoy_env\<close>, \<open>trace_host\<close>, \<open>http_env\<close> with the addresses of a connection), with its
  documented behaviour as named hypotheses (\<open>roaring_ok\<close>, \<open>rocks_ok\<close>, \<open>faiss_search_ok\<close>,
  \<open>put_str_ok\<close>, \<open>metric_ok\<close> and others). Every property with such a hypothesis has a witness over the concrete
  instances.

  \<^bold>\<open>Not modelled.\<close> Of httplib.h the client, TLS, compression, content providers, file mounts and the
  optional handlers are left out: the program sets none of them. A path pattern without
  metacharacters, which all of the program's are, is compared for equality. Reads and writes on a
  socket are the pieces that arrive and whether the peer takes what is written. Of the vendored
  Annoy sources the other metrics, building on disk or in several threads and the mapping of files
  into memory are left out, of backtrace.h the functions for Apple systems. What is
  printed to the console by spdlog is no state of the program.
\<close>

end
